(* ===== verification/Prelude.thy ===== *)
theory Prelude
  imports Complex_Main
begin

text \<open>
  What every component of the kitp web client shares: the outcome of a computation that may
  throw, JavaScript strings and the decimal text of numbers, and the list lemmas the component
  theories use. Nothing here models a file of \<^verbatim>\<open>src/\<close>; it is the part of the language and its
  standard library that the modelled files call.

  Strings are HOL strings: one \<open>char\<close> per UTF-16 code unit, restricted to the code units
  below 256. Literals of the source outside that range are written as their UTF-8 bytes; they
  are only ever displayed.
\<close>

named_theorems outcome_simps \<open>equations of the outcome combinators\<close>
named_theorems wf_intros \<open>introduction rules for well-formedness invariants\<close>

section \<open>Outcomes\<close>

text \<open>
  A computation returns, throws an \<open>Error\<close> with a message, or (\<open>OffType\<close>) reaches a value
  outside its declared type, such as a member inherited from \<open>Object.prototype\<close> where a
  catalog entry was expected. \<open>OffType\<close> is not an exception of the source: no \<open>catch\<close> of the
  model intercepts it, and a theorem that excludes it says so.
\<close>

datatype 'a outcome = Return 'a | Throw string | OffType string

fun obind :: "'a outcome \<Rightarrow> ('a \<Rightarrow> 'b outcome) \<Rightarrow> 'b outcome" where
  "obind (Return x) f = f x"
| "obind (Throw e) f = Throw e"
| "obind (OffType e) f = OffType e"

text \<open>\<open>xs.map(f)\<close> where \<open>f\<close> may throw: the first failing element ends the walk.\<close>

fun otraverse :: "('a \<Rightarrow> 'b outcome) \<Rightarrow> 'a list \<Rightarrow> 'b list outcome" where
  "otraverse f [] = Return []"
| "otraverse f (x # xs) = obind (f x) (\<lambda>y. obind (otraverse f xs) (\<lambda>ys. Return (y # ys)))"

lemma otraverse_cong [fundef_cong]:
  "xs = ys \<Longrightarrow> (\<And>x. x \<in> set ys \<Longrightarrow> f x = g x) \<Longrightarrow> otraverse f xs = otraverse g ys"
proof (induction ys arbitrary: xs)
  case (Cons y ys)
  then show ?case by (cases "g y") auto
qed simp

lemma obind_Return [outcome_simps]:
  "obind m f = Return y \<longleftrightarrow> (\<exists>x. m = Return x \<and> f x = Return y)"
  by (cases m) auto

lemma obind_cong [fundef_cong]:
  "m = n \<Longrightarrow> (\<And>x. n = Return x \<Longrightarrow> f x = g x) \<Longrightarrow> obind m f = obind n g"
  by (cases n) auto

lemma otraverse_Return_iff [outcome_simps]:
  "otraverse f xs = Return ys \<longleftrightarrow> list_all2 (\<lambda>x y. f x = Return y) xs ys"
proof (induction xs arbitrary: ys)
  case Nil
  then show ?case by auto
next
  case (Cons x xs)
  then show ?case by (cases ys) (auto simp: outcome_simps list_all2_Cons1)
qed

lemma otraverse_map_Return:
  "(\<And>x. x \<in> set xs \<Longrightarrow> f (g x) = Return (h x)) \<Longrightarrow> otraverse f (map g xs) = Return (map h xs)"
  by (induction xs) auto

lemma otraverse_Return_length: "otraverse f xs = Return ys \<Longrightarrow> length ys = length xs"
  by (auto simp: outcome_simps dest: list_all2_lengthD)

lemma otraverse_Return_set:
  assumes "otraverse f xs = Return ys" and "y \<in> set ys"
  shows "\<exists>x \<in> set xs. f x = Return y"
proof -
  from assms(1) have "list_all2 (\<lambda>x y. f x = Return y) xs ys"
    by (simp add: otraverse_Return_iff)
  then show ?thesis using assms(2) by (induction rule: list_all2_induct) auto
qed

section \<open>Characters and decimal text\<close>

definition is_digit :: "char \<Rightarrow> bool" where
  "is_digit c \<longleftrightarrow> c \<in> set ''0123456789''"

definition is_upper :: "char \<Rightarrow> bool" where
  "is_upper c \<longleftrightarrow> c \<in> set ''ABCDEFGHIJKLMNOPQRSTUVWXYZ''"

definition is_lower :: "char \<Rightarrow> bool" where
  "is_lower c \<longleftrightarrow> c \<in> set ''abcdefghijklmnopqrstuvwxyz''"

definition digit_val :: "char \<Rightarrow> nat" where
  "digit_val c = of_char c - 48"

definition digit_char :: "nat \<Rightarrow> char" where
  "digit_char n = char_of (48 + n)"

lemma digit_val_char [simp]: "n < 10 \<Longrightarrow> digit_val (digit_char n) = n"
  by (simp add: digit_val_def digit_char_def)

lemma is_digit_iff: "is_digit c \<longleftrightarrow> 48 \<le> (of_char c :: nat) \<and> (of_char c :: nat) < 58"
proof -
  have digits: "map of_char ''0123456789'' = [48 ..< 58 :: nat]" by code_simp
  have "is_digit c \<longleftrightarrow> (of_char c :: nat) \<in> of_char ` set ''0123456789''"
    unfolding is_digit_def by (rule inj_image_mem_iff [OF inj_of_char, symmetric])
  also have "of_char ` set ''0123456789'' = {48 ..< 58 :: nat}"
    by (simp only: set_map [symmetric] digits set_upt)
  finally show ?thesis by simp
qed

lemma is_digit_char [simp]: "n < 10 \<Longrightarrow> is_digit (digit_char n)"
  by (simp add: is_digit_iff digit_char_def)

lemma digit_val_less: "is_digit c \<Longrightarrow> digit_val c < 10"
  by (auto simp: is_digit_iff digit_val_def)

lemma digit_char_val: "is_digit c \<Longrightarrow> digit_char (digit_val c) = c"
  by (simp add: is_digit_iff digit_val_def digit_char_def)

lemma range_iff: "map of_char s = [a ..< b :: nat] \<Longrightarrow> c \<in> set s \<longleftrightarrow> a \<le> (of_char c :: nat) \<and> (of_char c :: nat) < b"
proof -
  assume s: "map of_char s = [a ..< b :: nat]"
  have "c \<in> set s \<longleftrightarrow> (of_char c :: nat) \<in> of_char ` set s"
    by (rule inj_image_mem_iff [OF inj_of_char, symmetric])
  also have "of_char ` set s = {a ..< b :: nat}" by (simp only: set_map [symmetric] s set_upt)
  finally show ?thesis by simp
qed
lemma is_upper_iff: "is_upper c \<longleftrightarrow> 65 \<le> (of_char c :: nat) \<and> (of_char c :: nat) < 91"
  unfolding is_upper_def by (rule range_iff) code_simp
lemma is_lower_iff: "is_lower c \<longleftrightarrow> 97 \<le> (of_char c :: nat) \<and> (of_char c :: nat) < 123"
  unfolding is_lower_def by (rule range_iff) code_simp
text \<open>Case mapping of the ASCII letters.\<close>

definition ascii_lower :: "char \<Rightarrow> char" where
  "ascii_lower c = (if is_upper c then char_of (of_char c + 32 :: nat) else c)"

definition ascii_upper :: "char \<Rightarrow> char" where
  "ascii_upper c = (if is_lower c then char_of (of_char c - 32 :: nat) else c)"
lemma upper_lower [simp]: "is_upper c \<Longrightarrow> is_lower (ascii_lower c)" "is_upper c \<Longrightarrow> ascii_upper (ascii_lower c) = c"
  by (simp_all add: ascii_lower_def ascii_upper_def is_upper_iff is_lower_iff)

lemma of_char_less [simp]: "(of_char c :: nat) < 256"
  using of_char_mod_256 [of c, where ?'a = nat] by (metis mod_less_divisor zero_less_numeral)
lemma of_ascii_upper:
  assumes "is_lower c" shows "(of_char (ascii_upper c) :: nat) = of_char c - 32"
proof -
  have "of_char c - 32 < (256 :: nat)" using of_char_less [of c] by linarith
  with assms show ?thesis by (simp add: ascii_upper_def)
qed

lemma upper_ascii_upper [simp]: "is_lower c \<Longrightarrow> is_upper (ascii_upper c)"
  using of_ascii_upper [of c] by (auto simp: is_upper_iff is_lower_iff)

lemma ascii_lower_upper [simp]:
  assumes "is_lower c" shows "ascii_lower (ascii_upper c) = c"
proof -
  have "of_char c - 32 + 32 = (of_char c :: nat)" using assms by (simp add: is_lower_iff)
  with assms show ?thesis by (simp add: ascii_lower_def of_ascii_upper)
qed

lemma char_classes:
  "is_digit c \<Longrightarrow> \<not> is_lower c" "is_digit c \<Longrightarrow> \<not> is_upper c" "is_upper c \<Longrightarrow> \<not> is_lower c"
  "is_upper c \<Longrightarrow> \<not> is_digit c" "\<not> is_upper CHR ''_''" "\<not> is_digit CHR ''_''" "\<not> is_lower CHR ''_''"
  by (simp_all add: is_digit_iff is_upper_iff is_lower_iff)
text \<open>The value of a digit string, and the decimal text of a natural number.\<close>

fun digits_val_from :: "nat \<Rightarrow> string \<Rightarrow> nat" where
  "digits_val_from n [] = n"
| "digits_val_from n (c # cs) = digits_val_from (10 * n + digit_val c) cs"

definition digits_val :: "string \<Rightarrow> nat" where
  "digits_val s = digits_val_from 0 s"

fun nat_text :: "nat \<Rightarrow> string" where
  "nat_text n = (if n < 10 then [digit_char n] else nat_text (n div 10) @ [digit_char (n mod 10)])"

declare nat_text.simps [simp del]

lemma nat_text_digit [simp]: "n < 10 \<Longrightarrow> nat_text n = [digit_char n]"
  by (subst nat_text.simps) simp

lemma nat_text_step: "10 \<le> n \<Longrightarrow> nat_text n = nat_text (n div 10) @ [digit_char (n mod 10)]"
  by (subst nat_text.simps) simp

lemma digits_val_from_append:
  "digits_val_from n (xs @ ys) = digits_val_from (digits_val_from n xs) ys"
  by (induction xs arbitrary: n) auto

lemma digits_val_nat_text [simp]: "digits_val (nat_text n) = n"
proof (induction n rule: nat_text.induct)
  case (1 n)
  show ?case
  proof (cases "n < 10")
    case True
    then show ?thesis by (simp add: digits_val_def)
  next
    case False
    with "1.IH" have "digits_val (nat_text (n div 10)) = n div 10" by blast
    with False show ?thesis
      by (simp add: nat_text_step digits_val_def digits_val_from_append)
  qed
qed

lemma nat_text_digits: "list_all is_digit (nat_text n)"
proof (induction n rule: nat_text.induct)
  case (1 n)
  then show ?case by (cases "n < 10") (simp_all add: nat_text_step)
qed

lemma nat_text_nonempty [simp]: "nat_text n \<noteq> []"
  by (subst nat_text.simps) simp

lemma nat_text_inject [simp]: "nat_text m = nat_text n \<longleftrightarrow> m = n"
  by (metis digits_val_nat_text)

text \<open>\<open>BigInt.prototype.toString\<close>.\<close>

definition int_text :: "int \<Rightarrow> string" where
  "int_text i = (if i < 0 then CHR ''-'' # nat_text (nat (- i)) else nat_text (nat i))"

lemma minus_not_digit [simp]: "\<not> is_digit CHR ''-''"
  by (simp add: is_digit_def)

lemma nat_text_not_minus: "nat_text n \<noteq> CHR ''-'' # s"
  using nat_text_digits [of n] by auto

lemma int_text_inject [simp]: "int_text i = int_text j \<longleftrightarrow> i = j"
  using nat_text_not_minus nat_text_not_minus [symmetric]
  by (auto simp: int_text_def)

text \<open>The regular expression \<open>/^-?\d+$/\<close> and \<open>BigInt(s)\<close> on the strings it matches.\<close>

definition is_int_text :: "string \<Rightarrow> bool" where
  "is_int_text s = (case s of
     [] \<Rightarrow> False
   | c # cs \<Rightarrow> if c = CHR ''-'' then cs \<noteq> [] \<and> list_all is_digit cs
              else list_all is_digit s)"

definition int_of_text :: "string \<Rightarrow> int" where
  "int_of_text s = (case s of
     [] \<Rightarrow> 0
   | c # cs \<Rightarrow> if c = CHR ''-'' then - int (digits_val cs) else int (digits_val s))"

lemma is_int_text_int_text [simp]: "is_int_text (int_text i)"
proof (cases "i < 0")
  case True
  then show ?thesis by (simp add: int_text_def is_int_text_def nat_text_digits)
next
  case False
  obtain c cs where "nat_text (nat i) = c # cs" "c \<noteq> CHR ''-''"
    by (metis nat_text_nonempty nat_text_not_minus list.exhaust)
  with False show ?thesis
    using nat_text_digits [of "nat i"] by (simp add: int_text_def is_int_text_def)
qed

lemma int_of_text_int_text [simp]: "int_of_text (int_text i) = i"
proof (cases "i < 0")
  case True
  then show ?thesis by (simp add: int_text_def int_of_text_def)
next
  case False
  obtain c cs where "nat_text (nat i) = c # cs" "c \<noteq> CHR ''-''"
    by (metis nat_text_nonempty nat_text_not_minus list.exhaust)
  with False show ?thesis
    using digits_val_nat_text [of "nat i"] by (simp add: int_text_def int_of_text_def)
qed

text \<open>\<open>String.prototype.trim\<close> on the code units below 256.\<close>

definition is_space :: "char \<Rightarrow> bool" where
  "is_space c \<longleftrightarrow> of_char c \<in> {9, 10, 11, 12, 13, 32, 160 :: nat}"

definition js_trim :: "string \<Rightarrow> string" where
  "js_trim s = rev (dropWhile is_space (rev (dropWhile is_space s)))"

lemma js_trim_Nil [simp]: "js_trim [] = []"
  by (simp add: js_trim_def)

text \<open>\<open>s.split(sep)\<close> for a separator of one character.\<close>

fun js_split :: "char \<Rightarrow> string \<Rightarrow> string list" where
  "js_split d [] = [[]]"
| "js_split d (c # cs) =
     (if c = d then [] # js_split d cs
      else (case js_split d cs of [] \<Rightarrow> [[c]] | w # ws \<Rightarrow> (c # w) # ws))"

lemma js_split_nonempty [simp]: "js_split d s \<noteq> []"
  by (induction s) (auto split: list.splits)

text \<open>\<open>words.join(sep)\<close>.\<close>

fun js_join :: "string \<Rightarrow> string list \<Rightarrow> string" where
  "js_join sep [] = []"
| "js_join sep [w] = w"
| "js_join sep (w # v # ws) = w @ sep @ js_join sep (v # ws)"

lemma js_split_plain: "d \<notin> set w \<Longrightarrow> js_split d w = [w]"
  by (induction w) auto

lemma js_split_append: "d \<notin> set w \<Longrightarrow> js_split d (w @ d # s) = w # js_split d s"
  by (induction w) auto

lemma js_join_split: "js_join [d] (js_split d s) = s"
proof (induction s)
  case (Cons c cs)
  obtain w ws where w: "js_split d cs = w # ws"
    by (metis js_split_nonempty list.exhaust)
  with Cons show ?case by (cases ws) auto
qed simp

lemma js_split_join: "ws \<noteq> [] \<Longrightarrow> \<forall>w \<in> set ws. d \<notin> set w \<Longrightarrow> js_split d (js_join [d] ws) = ws"
  by (induction "[d]" ws rule: js_join.induct) (simp_all add: js_split_plain js_split_append)

lemma js_split_parts: "w \<in> set (js_split d s) \<Longrightarrow> d \<notin> set w \<and> set w \<subseteq> set s"
proof (induction s arbitrary: w)
  case (Cons c s)
  obtain v ws where v: "js_split d s = v # ws" by (meson js_split_nonempty neq_Nil_conv)
  with Cons.IH have first: "d \<notin> set v" "set v \<subseteq> set s"
    and rest: "\<forall>u \<in> set ws. d \<notin> set u \<and> set u \<subseteq> set s" by simp_all
  from Cons.prems v have "w = (if c = d then [] else c # v) \<or> (if c = d then w = v \<or> w \<in> set ws else w \<in> set ws)"
    by (auto split: if_splits)
  then show ?case using first rest by (auto split: if_splits)
qed simp

section \<open>Lists\<close>

text \<open>\<open>[...new Set(xs)]\<close>: first occurrences, in order.\<close>

fun dedup_acc :: "'a list \<Rightarrow> 'a list \<Rightarrow> 'a list" where
  "dedup_acc seen [] = []"
| "dedup_acc seen (x # xs) =
     (if x \<in> set seen then dedup_acc seen xs else x # dedup_acc (seen @ [x]) xs)"

definition dedup :: "'a list \<Rightarrow> 'a list" where
  "dedup xs = dedup_acc [] xs"

lemma set_dedup_acc: "set (dedup_acc seen xs) = set xs - set seen"
  by (induction xs arbitrary: seen) auto

lemma set_dedup [simp]: "set (dedup xs) = set xs"
  by (simp add: dedup_def set_dedup_acc)

lemma distinct_dedup_acc: "distinct (dedup_acc seen xs)"
  by (induction xs arbitrary: seen) (auto simp: set_dedup_acc)

lemma distinct_dedup [simp]: "distinct (dedup xs)"
  by (simp add: dedup_def distinct_dedup_acc)

lemma dedup_acc_append: "dedup_acc seen (xs @ ys) = dedup_acc seen xs @ dedup_acc (seen @ dedup_acc seen xs) ys"
  by (induction xs arbitrary: seen) simp_all

lemma dedup_acc_distinct_id:
  "distinct xs \<Longrightarrow> set xs \<inter> set seen = {} \<Longrightarrow> dedup_acc seen xs = xs"
  by (induction xs arbitrary: seen) auto

lemma dedup_distinct_id [simp]: "distinct xs \<Longrightarrow> dedup xs = xs"
  by (simp add: dedup_def dedup_acc_distinct_id)

lemma filter_single_out:
  "distinct xs \<Longrightarrow> x \<in> set xs \<Longrightarrow> filter ((=) x) xs = [x]"
  by (induction xs) (auto simp: filter_empty_conv)

end
