(* ===== verification/JsValue.thy ===== *)
theory JsValue
  imports Prelude
begin

text \<open>
  JavaScript values as the client handles them: parsed JSON, attribute bags, wire payloads.
  An object is its list of own properties in enumeration order; a \<open>Map\<close> is its list of
  entries in insertion order. The \<open>dictionary\<close> interface states what both promise, and the
  bucketing loop every component uses is analysed once against it.

  A number is \<open>Fin r\<close> with its exact value, an infinity or NaN. The files modelled only
  compare numbers, test them for being integral, and compute with small integers, for which
  the exact value and the double agree; the sign of zero is not distinguished.
\<close>

section \<open>Values\<close>

datatype jnum = Fin rat | PosInf | NegInf | NaN

datatype js =
    JUndef
  | JNull
  | JBool bool
  | JNum jnum
  | JStr string
  | JBig int
  | JArr "js list"
  | JObj "(string \<times> js) list"

type_synonym 'a props = "(string \<times> 'a) list"

definition jint :: "int \<Rightarrow> js" where
  "jint i = JNum (Fin (of_int i))"

text \<open>\<open>o.k\<close> for a key that no prototype defines: the own property or \<open>undefined\<close>.\<close>

definition prop_get :: "js props \<Rightarrow> string \<Rightarrow> js" where
  "prop_get ps k = (case map_of ps k of None \<Rightarrow> JUndef | Some v \<Rightarrow> v)"

text \<open>\<open>k in o\<close> for a key that no prototype defines.\<close>

definition has_prop :: "'a props \<Rightarrow> string \<Rightarrow> bool" where
  "has_prop ps k \<longleftrightarrow> map_of ps k \<noteq> None"

text \<open>
  The names every object literal inherits from \<open>Object.prototype\<close>. Reading one of them from a
  catalog object (\<open>CATALOG[key]\<close>) yields the inherited member, not \<open>undefined\<close>.
\<close>

definition object_prototype_names :: "string list" where
  "object_prototype_names =
     [''constructor'', ''__proto__'', ''__defineGetter__'', ''__defineSetter__'',
      ''__lookupGetter__'', ''__lookupSetter__'', ''hasOwnProperty'', ''isPrototypeOf'',
      ''propertyIsEnumerable'', ''toLocaleString'', ''toString'', ''valueOf'']"

lemma map_of_size:
  "map_of ps k = Some (v :: js) \<Longrightarrow> size v < Suc (size_list (size_prod (\<lambda>_. 0) size) ps)"
  by (induction ps) (auto split: if_splits)

lemma prop_get_JArr_size [termination_simp]:
  assumes "prop_get ps k = JArr xs" and "x \<in> set xs"
  shows "size x < Suc (size_list (size_prod (\<lambda>_. 0) size) ps)"
proof -
  from assms(1) have "map_of ps k = Some (JArr xs)"
    by (auto simp: prop_get_def split: option.splits)
  then have "size (JArr xs) < Suc (size_list (size_prod (\<lambda>_. 0) size) ps)"
    by (rule map_of_size)
  moreover from assms(2) have "size x < Suc (size_list size xs)"
    by (induction xs) auto
  ultimately show ?thesis by simp
qed

lemma prop_get_size [termination_simp]:
  "size (prop_get ps k) < Suc (size_list (size_prod (\<lambda>_. 0) size) ps)"
  by (auto simp: prop_get_def dest: map_of_size split: option.split)

lemma size_elem [termination_simp]: "(x :: js) \<in> set xs \<Longrightarrow> size x < Suc (size_list size xs)"
  by (induction xs) auto

lemma prop_get_Nil [simp]: "prop_get [] k = JUndef"
  by (simp add: prop_get_def)

lemma prop_get_Cons [simp]: "prop_get ((k', v) # ps) k = (if k = k' then v else prop_get ps k)"
  by (simp add: prop_get_def)

lemma has_prop_Nil [simp]: "\<not> has_prop [] k"
  by (simp add: has_prop_def)

lemma has_prop_Cons [simp]: "has_prop ((k', v) # ps) k \<longleftrightarrow> k = k' \<or> has_prop ps k"
  by (simp add: has_prop_def)

section \<open>Text of values\<close>

text \<open>
  \<open>Number.prototype.toString\<close> in the range where it writes positional notation (zero, or at
  least \<open>10^-6\<close> and below \<open>10^21\<close>), for values with at most thirty decimals.
\<close>

fun decimals :: "nat \<Rightarrow> rat \<Rightarrow> string" where
  "decimals 0 r = []"
| "decimals (Suc n) r =
     (if r = 0 then [] else digit_char (nat \<lfloor>10 * r\<rfloor>) # decimals n (10 * r - of_int \<lfloor>10 * r\<rfloor>))"

definition is_int_rat :: "rat \<Rightarrow> bool" where
  "is_int_rat r \<longleftrightarrow> of_int \<lfloor>r\<rfloor> = r"

definition num_text :: "jnum \<Rightarrow> string" where
  "num_text n = (case n of
     Fin r \<Rightarrow> (if is_int_rat r then int_text \<lfloor>r\<rfloor>
              else (if r < 0 then ''-'' else []) @ nat_text (nat \<lfloor>\<bar>r\<bar>\<rfloor>) @ ''.'' @
                   decimals 30 (\<bar>r\<bar> - of_int \<lfloor>\<bar>r\<bar>\<rfloor>))
   | PosInf \<Rightarrow> ''Infinity'' | NegInf \<Rightarrow> ''-Infinity'' | NaN \<Rightarrow> ''NaN'')"

text \<open>\<open>String(v)\<close>, for objects that do not define their own \<open>toString\<close>.\<close>

fun js_text :: "js \<Rightarrow> string" where
  "js_text JUndef = ''undefined''"
| "js_text JNull = ''null''"
| "js_text (JBool b) = (if b then ''true'' else ''false'')"
| "js_text (JNum n) = num_text n"
| "js_text (JStr s) = s"
| "js_text (JBig i) = int_text i"
| "js_text (JArr xs) =
     js_join '','' (map (\<lambda>x. if x = JUndef \<or> x = JNull then [] else js_text x) xs)"
| "js_text (JObj ps) = ''[object Object]''"

lemma is_int_rat_of_int [simp]: "is_int_rat (of_int i)"
  by (simp add: is_int_rat_def)

lemma js_text_jint [simp]: "js_text (jint i) = int_text i"
  by (simp add: jint_def num_text_def)

section \<open>Property order\<close>

text \<open>
  A key that is a canonical array index (a decimal below \<open>2^32 - 1\<close> without leading zeros)
  is enumerated before every other key, in ascending numeric order; other keys follow in
  insertion order.
\<close>

definition is_index_key :: "string \<Rightarrow> bool" where
  "is_index_key k \<longleftrightarrow>
     list_all is_digit k \<and> k = nat_text (digits_val k) \<and> digits_val k < 4294967295"

definition index_before :: "string \<Rightarrow> string \<Rightarrow> bool" where
  "index_before k k' \<longleftrightarrow>
     is_index_key k \<and> (\<not> is_index_key k' \<or> digits_val k < digits_val k')"

fun obj_insert :: "string \<Rightarrow> 'a \<Rightarrow> 'a props \<Rightarrow> 'a props" where
  "obj_insert k v [] = [(k, v)]"
| "obj_insert k v ((k', w) # ps) =
     (if index_before k k' then (k, v) # (k', w) # ps else (k', w) # obj_insert k v ps)"

text \<open>\<open>o[k] = v\<close>: in place when the property exists, else at its place in the order.\<close>

definition obj_put :: "string \<Rightarrow> 'a \<Rightarrow> 'a props \<Rightarrow> 'a props" where
  "obj_put k v ps =
     (if has_prop ps k then map (\<lambda>(k', w). if k' = k then (k, v) else (k', w)) ps
      else obj_insert k v ps)"

text \<open>\<open>Map.prototype.set\<close>: in place when the key exists, else at the end.\<close>

definition map_put :: "'k \<Rightarrow> 'v \<Rightarrow> ('k \<times> 'v) list \<Rightarrow> ('k \<times> 'v) list" where
  "map_put k v m =
     (if k \<in> set (map fst m) then map (\<lambda>(k', w). if k' = k then (k, v) else (k', w)) m
      else m @ [(k, v)])"

definition distinct_keys :: "('k \<times> 'v) list \<Rightarrow> bool" where
  "distinct_keys m \<longleftrightarrow> distinct (map fst m)"

lemma map_of_update_in_place:
  "k \<in> set (map fst m) \<Longrightarrow>
   map_of (map (\<lambda>(k', w). if k' = k then (k, v) else (k', w)) m) = (map_of m)(k \<mapsto> v)"
proof (induction m)
  case (Cons a m)
  show ?case
  proof (cases "k \<in> set (map fst m)")
    case True
    with Cons.IH show ?thesis by (cases a) (auto simp: fun_eq_iff)
  next
    case False
    then have "map (\<lambda>(k', w). if k' = k then (k, v) else (k', w)) m = m"
      by (intro map_idI) (auto simp: rev_image_eqI)
    with Cons.prems False show ?thesis by (cases a) (auto simp: fun_eq_iff)
  qed
qed simp

lemma fst_update_in_place [simp]:
  "map fst (map (\<lambda>(k', w). if k' = k then (k, v) else (k', w)) m) = map fst m"
  by (induction m) auto

lemma has_prop_keys: "has_prop ps k \<longleftrightarrow> k \<in> set (map fst ps)"
  by (simp add: has_prop_def map_of_eq_None_iff)

lemma map_of_obj_insert:
  "\<not> has_prop ps k \<Longrightarrow> map_of (obj_insert k v ps) = (map_of ps)(k \<mapsto> v)"
  by (induction k v ps rule: obj_insert.induct) (auto simp: fun_eq_iff)

lemma set_keys_obj_insert: "set (map fst (obj_insert k v ps)) = insert k (set (map fst ps))"
  by (induction k v ps rule: obj_insert.induct) auto

lemma distinct_obj_insert:
  "distinct (map fst ps) \<Longrightarrow> k \<notin> set (map fst ps) \<Longrightarrow> distinct (map fst (obj_insert k v ps))"
proof (induction k v ps rule: obj_insert.induct)
  case (2 k v k' w ps)
  then show ?case using set_keys_obj_insert [of k v ps] by auto
qed simp

lemma map_of_obj_put [simp]: "map_of (obj_put k v ps) = (map_of ps)(k \<mapsto> v)"
  by (simp add: obj_put_def map_of_update_in_place map_of_obj_insert has_prop_keys
      del: fun_upd_apply)

lemma distinct_keys_obj_put [wf_intros]: "distinct_keys ps \<Longrightarrow> distinct_keys (obj_put k v ps)"
  by (simp add: obj_put_def distinct_keys_def has_prop_keys distinct_obj_insert
      del: map_map)

lemma prop_get_obj_put [simp]: "prop_get (obj_put k v ps) k' = (if k' = k then v else prop_get ps k')"
  by (simp add: prop_get_def)

lemma map_of_map_put [simp]: "map_of (map_put k v m) = (map_of m)(k \<mapsto> v)"
proof (cases "k \<in> set (map fst m)")
  case True
  then show ?thesis by (simp add: map_put_def map_of_update_in_place del: fun_upd_apply)
next
  case False
  then have "map_of m k = None" by (simp add: map_of_eq_None_iff)
  with False show ?thesis by (auto simp: map_put_def map_add_def fun_eq_iff split: option.splits)
qed

lemma distinct_keys_map_put [wf_intros]: "distinct_keys m \<Longrightarrow> distinct_keys (map_put k v m)"
  by (auto simp: map_put_def distinct_keys_def simp del: map_map)

section \<open>The dictionary interface\<close>

text \<open>
  What a keyed container of the language promises its clients. It is provided twice: by
  objects (\<open>obj_put\<close>) and by \<open>Map\<close>s (\<open>map_put\<close>), which differ only in the order of their
  keys.
\<close>

locale dictionary =
  fixes empty :: "'m"
    and get :: "'m \<Rightarrow> 'k \<Rightarrow> 'v option"
    and put :: "'k \<Rightarrow> 'v \<Rightarrow> 'm \<Rightarrow> 'm"
    and keys :: "'m \<Rightarrow> 'k list"
    and invar :: "'m \<Rightarrow> bool"
  assumes get_empty: "get empty k = None"
    and get_put: "get (put k v m) = (get m)(k \<mapsto> v)"
    and set_keys: "set (keys m) = dom (get m)"
    and distinct_dict: "invar m \<Longrightarrow> distinct (keys m)"
    and invar_empty: "invar empty"
    and invar_put: "invar m \<Longrightarrow> invar (put k v m)"

text \<open>
  The bucketing loop of the source: for each item, append to the bucket under its key,
  creating the bucket when it is missing.
\<close>

fun group_into ::
  "('m \<Rightarrow> 'k \<Rightarrow> 'a list option) \<Rightarrow> ('k \<Rightarrow> 'a list \<Rightarrow> 'm \<Rightarrow> 'm) \<Rightarrow> ('a \<Rightarrow> 'k) \<Rightarrow> 'a list \<Rightarrow> 'm \<Rightarrow> 'm"
where
  "group_into get put key [] m = m"
| "group_into get put key (x # xs) m =
     group_into get put key xs
       (put (key x) (case get m (key x) of None \<Rightarrow> [x] | Some b \<Rightarrow> b @ [x]) m)"

locale bucket_dictionary = dictionary empty get put keys invar
  for empty :: "'m"
    and get :: "'m \<Rightarrow> 'k \<Rightarrow> 'a list option"
    and put :: "'k \<Rightarrow> 'a list \<Rightarrow> 'm \<Rightarrow> 'm"
    and keys :: "'m \<Rightarrow> 'k list"
    and invar :: "'m \<Rightarrow> bool"
begin

lemma get_group_into:
  "get (group_into get put key xs m) k =
     (let ys = filter (\<lambda>x. key x = k) xs in
      case get m k of None \<Rightarrow> (if ys = [] then None else Some ys) | Some b \<Rightarrow> Some (b @ ys))"
proof (induction xs arbitrary: m)
  case Nil
  then show ?case by (simp split: option.splits)
next
  case (Cons x xs)
  show ?case
  proof (cases "key x = k")
    case True
    then show ?thesis
      by (simp add: Cons.IH get_put Let_def split: option.splits)
  next
    case False
    then show ?thesis
      by (simp add: Cons.IH get_put Let_def)
  qed
qed

lemma invar_group_into: "invar m \<Longrightarrow> invar (group_into get put key xs m)"
  by (induction xs arbitrary: m) (auto intro: invar_put)

lemma get_group: "get (group_into get put key xs empty) k =
    (let ys = filter (\<lambda>x. key x = k) xs in if ys = [] then None else Some ys)"
  by (simp add: get_group_into get_empty)

lemma keys_group: "set (keys (group_into get put key xs empty)) = key ` set xs"
  unfolding set_keys dom_def get_group
  by (auto simp: Let_def filter_empty_conv)

lemma distinct_keys_group: "distinct (keys (group_into get put key xs empty))"
  by (rule distinct_dict [OF invar_group_into [OF invar_empty]])

text \<open>No item is lost or duplicated: each one is in the bucket of its key, and only there.\<close>

lemma group_exact:
  "get (group_into get put key xs empty) k = Some b \<Longrightarrow>
   x \<in> set b \<longleftrightarrow> x \<in> set xs \<and> key x = k"
  by (auto simp: get_group Let_def split: if_splits)

end

interpretation obj_dict: dictionary "[] :: 'v props" map_of obj_put "map fst" distinct_keys
  by unfold_locales
    (auto simp: dom_map_of_conv_image_fst distinct_keys_def[of "[]"] intro: wf_intros,
     simp add: distinct_keys_def)

interpretation map_dict: dictionary "[] :: ('k \<times> 'v) list" map_of map_put "map fst" distinct_keys
  by unfold_locales
    (auto simp: dom_map_of_conv_image_fst distinct_keys_def[of "[]"] intro: wf_intros,
     simp add: distinct_keys_def)

interpretation obj_buckets:
  bucket_dictionary "[] :: 'a list props" map_of obj_put "map fst" distinct_keys ..

interpretation map_buckets:
  bucket_dictionary "[] :: ('k \<times> 'a list) list" map_of map_put "map fst" distinct_keys ..

end
