(* ===== verification/Json.thy ===== *)
theory Json
  imports JsValue
begin

text \<open>
  \<open>JSON.stringify\<close> and \<open>JSON.parse\<close> on the values of \<open>JsValue\<close>, with the round trip between
  them. The parser spends one unit of fuel per nested call; \<open>json_parse\<close> starts with more than
  twice the length of the text, which \<open>p_value_fuel\<close> shows is never exhausted.
\<close>

section \<open>Printing\<close>

definition hex_char :: "nat \<Rightarrow> char" where
  "hex_char n = (if n < 10 then char_of (48 + n) else char_of (87 + n))"

definition json_escape :: "char \<Rightarrow> string" where
  "json_escape c =
     (let n = of_char c :: nat in
      if n = 34 then [CHR 0x5C, CHR 0x22]
      else if n = 92 then [CHR 0x5C, CHR 0x5C]
      else if n = 8 then [CHR 0x5C, CHR ''b'']
      else if n = 9 then [CHR 0x5C, CHR ''t'']
      else if n = 10 then [CHR 0x5C, CHR ''n'']
      else if n = 12 then [CHR 0x5C, CHR ''f'']
      else if n = 13 then [CHR 0x5C, CHR ''r'']
      else if n < 32 then [CHR 0x5C, CHR ''u'', CHR ''0'', CHR ''0'', hex_char (n div 16), hex_char (n mod 16)]
      else [c])"

definition json_quote :: "string \<Rightarrow> string" where
  "json_quote s = [CHR 0x22] @ concat (map json_escape s) @ [CHR 0x22]"

text \<open>
  \<open>JSON.stringify(v)\<close>: \<open>None\<close> is its \<open>undefined\<close> (for an undefined value). A bigint throws, as
  \<open>JSON.stringify\<close> does; \<open>undefined\<close> elements print as \<open>null\<close> and such properties are left out.
\<close>

fun json_num :: "jnum \<Rightarrow> string" where
  "json_num (Fin r) = num_text (Fin r)"
| "json_num _ = ''null''"

fun json_stringify :: "js \<Rightarrow> string option outcome"
  and json_elems :: "js list \<Rightarrow> string list outcome"
  and json_props :: "(string \<times> js) list \<Rightarrow> string list outcome"
where
  "json_stringify JUndef = Return None"
| "json_stringify JNull = Return (Some ''null'')"
| "json_stringify (JBool b) = Return (Some (if b then ''true'' else ''false''))"
| "json_stringify (JNum n) = Return (Some (json_num n))"
| "json_stringify (JStr s) = Return (Some (json_quote s))"
| "json_stringify (JBig i) = Throw ''Do not know how to serialize a BigInt''"
| "json_stringify (JArr xs) =
     obind (json_elems xs) (\<lambda>ts. Return (Some (''['' @ js_join '','' ts @ '']'')))"
| "json_stringify (JObj ps) =
     obind (json_props ps) (\<lambda>ts. Return (Some (''{'' @ js_join '','' ts @ ''}'')))"
| "json_elems [] = Return []"
| "json_elems (x # xs) =
     obind (json_stringify x) (\<lambda>t. obind (json_elems xs) (\<lambda>ts.
       Return ((case t of None \<Rightarrow> ''null'' | Some u \<Rightarrow> u) # ts)))"
| "json_props [] = Return []"
| "json_props ((k, v) # ps) =
     obind (json_stringify v) (\<lambda>t. obind (json_props ps) (\<lambda>ts.
       Return (case t of None \<Rightarrow> ts | Some u \<Rightarrow> (json_quote k @ '':'' @ u) # ts)))"

section \<open>Parsing\<close>

definition is_json_ws :: "char \<Rightarrow> bool" where
  "is_json_ws c \<longleftrightarrow> c \<in> {CHR 0x20, CHR 0x09, CHR 0x0A, CHR 0x0D}"

definition skip_ws :: "string \<Rightarrow> string" where
  "skip_ws s = dropWhile is_json_ws s"

definition hex_val :: "char \<Rightarrow> nat option" where
  "hex_val c = (let n = of_char c :: nat in
     if 48 \<le> n \<and> n < 58 then Some (n - 48)
     else if 97 \<le> n \<and> n < 103 then Some (n - 87)
     else if 65 \<le> n \<and> n < 71 then Some (n - 55)
     else None)"

abbreviation syntax_error :: "'a outcome" where
  "syntax_error \<equiv> Throw ''SyntaxError''"

definition simple_escape :: "char \<Rightarrow> char option" where
  "simple_escape c = map_of
     [(CHR 0x22, CHR 0x22), (CHR 0x5C, CHR 0x5C), (CHR ''/'', CHR ''/''), (CHR ''b'', CHR 0x08),
      (CHR ''f'', CHR 0x0C), (CHR ''n'', CHR 0x0A), (CHR ''r'', CHR 0x0D), (CHR ''t'', CHR 0x09)] c"

text \<open>
  The characters of a string after its opening quote. A \<open>\u\<close> escape of a code unit above 255
  is outside the strings of the model.
\<close>

fun unicode_escape :: "string \<Rightarrow> (char \<times> string) outcome" where
  "unicode_escape (a # b # c # d # r) =
     (case (hex_val a, hex_val b, hex_val c, hex_val d) of
        (Some i, Some j, Some k, Some l) \<Rightarrow>
          (if i = 0 \<and> j = 0 then Return (char_of (16 * k + l), r) else OffType ''code unit'')
      | _ \<Rightarrow> syntax_error)"
| "unicode_escape _ = syntax_error"

lemma unicode_escape_length [termination_simp]:
  "unicode_escape s = Return (x, r) \<Longrightarrow> length r < length s"
  by (induction s rule: unicode_escape.induct)
    (auto split: option.splits if_splits)

fun p_string :: "string \<Rightarrow> (string \<times> string) outcome" where
  "p_string [] = syntax_error"
| "p_string (c # cs) =
     (if c = CHR 0x22 then Return ([], cs)
      else if c = CHR 0x5C then
        (case cs of
           [] \<Rightarrow> syntax_error
         | e # r \<Rightarrow>
             (case simple_escape e of
                Some x \<Rightarrow> obind (p_string r) (\<lambda>(t, r'). Return (x # t, r'))
              | None \<Rightarrow>
                  if e = CHR ''u'' then
                    (case unicode_escape r of
                       Return (x, r') \<Rightarrow> obind (p_string r') (\<lambda>(t, r''). Return (x # t, r''))
                     | Throw m \<Rightarrow> Throw m
                     | OffType m \<Rightarrow> OffType m)
                  else syntax_error))
      else if (of_char c :: nat) < 32 then syntax_error
      else obind (p_string cs) (\<lambda>(t, r). Return (c # t, r)))"

text \<open>A number: optional minus, integer part without leading zeros, fraction, exponent.\<close>

definition frac_val :: "string \<Rightarrow> rat" where
  "frac_val ds = foldr (\<lambda>c v. (of_nat (digit_val c) + v) / 10) ds 0"

definition span_digits :: "string \<Rightarrow> string \<times> string" where
  "span_digits s = (takeWhile is_digit s, dropWhile is_digit s)"

definition p_frac :: "string \<Rightarrow> (rat \<times> string) outcome" where
  "p_frac s = (case s of
     c # r \<Rightarrow> (if c = CHR ''.'' then
                (case span_digits r of (ds, r') \<Rightarrow>
                   if ds = [] then syntax_error else Return (frac_val ds, r'))
              else Return (0, s))
   | [] \<Rightarrow> Return (0, s))"

definition p_exp :: "string \<Rightarrow> (rat \<times> string) outcome" where
  "p_exp s = (case s of
     c # r \<Rightarrow>
       (if c = CHR ''e'' \<or> c = CHR ''E'' then
          (let neg = (r \<noteq> [] \<and> hd r = CHR ''-'');
               r1 = (if r \<noteq> [] \<and> (hd r = CHR ''-'' \<or> hd r = CHR ''+'') then tl r else r)
           in case span_digits r1 of (ds, r2) \<Rightarrow>
                if ds = [] then syntax_error
                else Return (if neg then 1 / 10 ^ digits_val ds else 10 ^ digits_val ds, r2))
        else Return (1, s))
   | [] \<Rightarrow> Return (1, s))"

definition p_number :: "string \<Rightarrow> (js \<times> string) outcome" where
  "p_number s =
     (let neg = (s \<noteq> [] \<and> hd s = CHR ''-'');
          s1 = (if neg then tl s else s)
      in case span_digits s1 of (ds, s2) \<Rightarrow>
           if ds = [] \<or> (1 < length ds \<and> hd ds = CHR ''0'') then syntax_error
           else obind (p_frac s2) (\<lambda>(f, s3). obind (p_exp s3) (\<lambda>(e, s4).
             let v = (of_nat (digits_val ds) + f) * e
             in Return (JNum (Fin (if neg then - v else v)), s4))))"

definition p_literal :: "string \<Rightarrow> (js \<times> string) option" where
  "p_literal s =
     (if take 4 s = ''null'' then Some (JNull, drop 4 s)
      else if take 4 s = ''true'' then Some (JBool True, drop 4 s)
      else if take 5 s = ''false'' then Some (JBool False, drop 5 s)
      else None)"

text \<open>The next character after white space, or the error at the end of the text.\<close>

definition next_token :: "string \<Rightarrow> (char \<Rightarrow> string \<Rightarrow> 'a outcome) \<Rightarrow> 'a outcome" where
  "next_token s f = (case skip_ws s of [] \<Rightarrow> syntax_error | c # r \<Rightarrow> f c r)"

lemma next_token_cong [fundef_cong]:
  "s = s' \<Longrightarrow> (\<And>c r. skip_ws s' = c # r \<Longrightarrow> f c r = g c r) \<Longrightarrow> next_token s f = next_token s' g"
  by (simp add: next_token_def split: list.split)

lemma next_token_Return [outcome_simps]:
  "next_token s f = Return x \<longleftrightarrow> (\<exists>c r. skip_ws s = c # r \<and> f c r = Return x)"
  by (simp add: next_token_def split: list.split)

lemma next_token_OffType [outcome_simps]:
  "next_token s f = OffType e \<longleftrightarrow> (\<exists>c r. skip_ws s = c # r \<and> f c r = OffType e)"
  by (simp add: next_token_def split: list.split)

definition p_scalar :: "char \<Rightarrow> string \<Rightarrow> (js \<times> string) outcome" where
  "p_scalar c r =
     (if c = CHR 0x22 then obind (p_string r) (\<lambda>(t, r'). Return (JStr t, r'))
      else case p_literal (c # r) of Some v \<Rightarrow> Return v | None \<Rightarrow> p_number (c # r))"

fun p_value :: "nat \<Rightarrow> string \<Rightarrow> (js \<times> string) outcome"
  and p_elems :: "nat \<Rightarrow> string \<Rightarrow> (js list \<times> string) outcome"
  and p_members :: "nat \<Rightarrow> js props \<Rightarrow> string \<Rightarrow> (js props \<times> string) outcome"
where
  "p_value 0 s = OffType ''fuel''"
| "p_value (Suc n) s = next_token s (\<lambda>c r.
     if c = CHR ''['' then next_token r (\<lambda>d r'.
       if d = CHR '']'' then Return (JArr [], r')
       else obind (p_elems n (d # r')) (\<lambda>(xs, r''). Return (JArr xs, r'')))
     else if c = CHR ''{'' then next_token r (\<lambda>d r'.
       if d = CHR ''}'' then Return (JObj [], r')
       else obind (p_members n [] (d # r')) (\<lambda>(ps, r''). Return (JObj ps, r'')))
     else p_scalar c r)"
| "p_elems 0 s = OffType ''fuel''"
| "p_elems (Suc n) s =
     obind (p_value n s) (\<lambda>(x, r). next_token r (\<lambda>c r'.
       if c = CHR '','' then obind (p_elems n r') (\<lambda>(xs, r''). Return (x # xs, r''))
       else if c = CHR '']'' then Return ([x], r')
       else syntax_error))"
| "p_members 0 ps s = OffType ''fuel''"
| "p_members (Suc n) ps s = next_token s (\<lambda>q s1.
     if q \<noteq> CHR 0x22 then syntax_error
     else obind (p_string s1) (\<lambda>(k, s2). next_token s2 (\<lambda>c s3.
       if c \<noteq> CHR '':'' then syntax_error
       else obind (p_value n s3) (\<lambda>(v, s4). next_token s4 (\<lambda>d s5.
         if d = CHR '','' then p_members n (obj_put k v ps) s5
         else if d = CHR ''}'' then Return (obj_put k v ps, s5)
         else syntax_error)))))"

definition json_parse :: "string \<Rightarrow> js outcome" where
  "json_parse s =
     obind (p_value (2 * length s + 2) s) (\<lambda>(v, r).
       if skip_ws r = [] then Return v else syntax_error)"


section \<open>The parser consumes its input and never runs out of fuel\<close>

lemma skip_ws_length [simp]: "length (skip_ws s) \<le> length s"
  by (simp add: skip_ws_def length_dropWhile_le)

lemma skip_ws_Cons_length: "skip_ws s = c # r \<Longrightarrow> length r < length s"
  using skip_ws_length [of s] by simp

lemma p_string_length: "p_string s = Return (t, r) \<Longrightarrow> length r < length s"
proof (induction s arbitrary: t r rule: p_string.induct)
  case (2 c cs)
  then show ?case
    by (fastforce simp: outcome_simps split: if_splits list.splits option.splits outcome.splits
        dest: unicode_escape_length)
qed simp

lemma p_number_length: "p_number s = Return (v, r) \<Longrightarrow> length r < length s"
proof -
  assume a: "p_number s = Return (v, r)"
  have frac: "length r' \<le> length u" if "p_frac u = Return (f, r')" for u f r'
    using that by (cases u)
      (auto simp: p_frac_def span_digits_def split: if_splits intro: le_SucI length_dropWhile_le)
  have exp: "length r' \<le> length u" if "p_exp u = Return (e, r')" for u e r'
    using that
    by (cases u) (auto simp: p_exp_def span_digits_def Let_def split: if_splits
        intro: le_SucI order_trans [OF length_dropWhile_le])
  have drop: "length (dropWhile is_digit u) < length u" if "takeWhile is_digit u \<noteq> []" for u
    using that by (cases u) (auto intro: le_imp_less_Suc length_dropWhile_le split: if_splits)
  define s1 where "s1 = (if s \<noteq> [] \<and> hd s = CHR ''-'' then tl s else s)"
  have "length s1 \<le> length s" by (simp add: s1_def)
  moreover obtain f s3 e where "takeWhile is_digit s1 \<noteq> []"
    and "p_frac (dropWhile is_digit s1) = Return (f, s3)" and "p_exp s3 = Return (e, r)"
    using a by (auto simp: p_number_def Let_def span_digits_def outcome_simps s1_def split: if_splits)
  ultimately show ?thesis using frac exp drop by (meson order_trans not_le)
qed

lemma p_literal_length: "p_literal s = Some (v, r) \<Longrightarrow> length r < length s"
proof -
  assume a: "p_literal s = Some (v, r)"
  have "s \<noteq> []" using a by (auto simp: p_literal_def)
  with a show ?thesis by (auto simp: p_literal_def split: if_splits)
qed

lemma p_scalar_length: "p_scalar c r = Return (v, r') \<Longrightarrow> length r' \<le> length r"
  by (auto simp: p_scalar_def outcome_simps split: if_splits option.splits
      dest!: p_string_length p_number_length p_literal_length)

lemmas consumes = skip_ws_Cons_length p_string_length p_scalar_length

lemma p_length_all:
  "(\<forall>s v r. p_value n s = Return (v, r) \<longrightarrow> length r < length s) \<and>
   (\<forall>s xs r. p_elems n s = Return (xs, r) \<longrightarrow> length r < length s) \<and>
   (\<forall>ps s qs r. p_members n ps s = Return (qs, r) \<longrightarrow> length r < length s)"
proof (induction n)
  case (Suc n)
  then have v: "\<And>s v r. p_value n s = Return (v, r) \<Longrightarrow> length r < length s"
    and e: "\<And>s xs r. p_elems n s = Return (xs, r) \<Longrightarrow> length r < length s"
    and m: "\<And>ps s qs r. p_members n ps s = Return (qs, r) \<Longrightarrow> length r < length s"
    by blast+
  have "length r < length s" if "p_value (Suc n) s = Return (w, r)" for s w r
    using that by (fastforce simp: outcome_simps split: if_splits dest: consumes e m)
  moreover have "length r < length s" if "p_elems (Suc n) s = Return (xs, r)" for s xs r
    using that by (fastforce simp: outcome_simps split: if_splits dest: consumes v e)
  moreover have "length r < length s" if "p_members (Suc n) ps s = Return (qs, r)" for ps s qs r
    using that by (fastforce simp: outcome_simps split: if_splits dest: consumes v m)
  ultimately show ?case by blast
qed simp

lemmas p_length = p_length_all [THEN conjunct1, rule_format]
  p_length_all [THEN conjunct2, THEN conjunct1, rule_format]
  p_length_all [THEN conjunct2, THEN conjunct2, rule_format]

lemma obind_OffType [outcome_simps]:
  "obind m f = OffType e \<longleftrightarrow> m = OffType e \<or> (\<exists>x. m = Return x \<and> f x = OffType e)"
  by (cases m) auto

lemma unicode_escape_no_fuel [simp]: "unicode_escape s \<noteq> OffType ''fuel''"
  by (induction s rule: unicode_escape.induct) (simp_all split: option.split)

lemma p_string_no_fuel [simp]: "p_string s \<noteq> OffType ''fuel''"
proof (induction s rule: p_string.induct)
  case (2 c cs)
  have off: "obind (p_string r) f \<noteq> OffType ''fuel''"
    if "p_string r \<noteq> OffType ''fuel''" "\<And>x. f x \<noteq> OffType ''fuel''"
    for r and f :: "string \<times> string \<Rightarrow> (string \<times> string) outcome"
    using that by (simp add: outcome_simps)
  show ?case
  proof (cases "c = CHR 0x5C")
    case False
    then show ?thesis using "2.IH" by (simp add: off split: prod.split)
  next
    case True
    show ?thesis
    proof (cases cs)
      case (Cons e r)
      show ?thesis
      proof (cases "simple_escape e")
        case None
        have "unicode_escape r \<noteq> OffType ''fuel''" by simp
        with None Cons True "2.IH" show ?thesis
          by (cases "unicode_escape r") (auto simp: off split: prod.split)
      qed (use Cons True "2.IH" in \<open>simp add: off split: prod.split\<close>)
    qed (use True in simp)
  qed
qed simp

lemma p_frac_typed [simp]: "p_frac s \<noteq> OffType e"
  by (simp add: p_frac_def span_digits_def split: list.split)

lemma p_exp_typed [simp]: "p_exp s \<noteq> OffType e"
  by (simp add: p_exp_def span_digits_def Let_def split: list.split)

lemma p_number_no_fuel [simp]: "p_number s \<noteq> OffType ''fuel''"
proof -
  have "obind (p_frac t) f \<noteq> OffType ''fuel''" if "\<And>x. f x \<noteq> OffType ''fuel''"
    for t and f :: "rat \<times> string \<Rightarrow> (js \<times> string) outcome"
    using that by (simp add: obind_OffType)
  moreover have "obind (p_exp t) f \<noteq> OffType ''fuel''" if "\<And>x. f x \<noteq> OffType ''fuel''"
    for t and f :: "rat \<times> string \<Rightarrow> (js \<times> string) outcome"
    using that by (simp add: obind_OffType)
  ultimately show ?thesis
    by (simp add: p_number_def span_digits_def Let_def case_prod_beta)
qed

lemma p_scalar_no_fuel [simp]: "p_scalar c r \<noteq> OffType ''fuel''"
  by (auto simp: p_scalar_def outcome_simps split: option.splits)

lemma p_fuel_all:
  "(\<forall>s. 2 * length s + 1 \<le> n \<longrightarrow> p_value n s \<noteq> OffType ''fuel'') \<and>
   (\<forall>s. 2 * length s + 2 \<le> n \<longrightarrow> p_elems n s \<noteq> OffType ''fuel'') \<and>
   (\<forall>ps s. 2 * length s + 1 \<le> n \<longrightarrow> p_members n ps s \<noteq> OffType ''fuel'')"
proof (induction n)
  case (Suc n)
  then have v: "\<And>s. 2 * length s + 1 \<le> n \<Longrightarrow> p_value n s \<noteq> OffType ''fuel''"
    and e: "\<And>s. 2 * length s + 2 \<le> n \<Longrightarrow> p_elems n s \<noteq> OffType ''fuel''"
    and m: "\<And>ps s. 2 * length s + 1 \<le> n \<Longrightarrow> p_members n ps s \<noteq> OffType ''fuel''"
    by blast+
  have "p_value (Suc n) s \<noteq> OffType ''fuel''" if "2 * length s + 1 \<le> Suc n" for s
    using that by (intro notI) (fastforce simp: outcome_simps e m split: if_splits dest: consumes)
  moreover have "p_elems (Suc n) s \<noteq> OffType ''fuel''" if "2 * length s + 2 \<le> Suc n" for s
    using that by (intro notI) (fastforce simp: outcome_simps v e split: if_splits dest: consumes p_length)
  moreover have "p_members (Suc n) ps s \<noteq> OffType ''fuel''" if "2 * length s + 1 \<le> Suc n" for ps s
    using that by (intro notI) (fastforce simp: outcome_simps v m split: if_splits dest: consumes p_length)
  ultimately show ?case by blast
qed simp

lemma p_value_fuel: "2 * length s + 1 \<le> n \<Longrightarrow> p_value n s \<noteq> OffType ''fuel''"
  using p_fuel_all by blast

lemma json_parse_fuel: "json_parse s \<noteq> OffType ''fuel''"
  by (auto simp: json_parse_def outcome_simps p_value_fuel simp del: p_value.simps)

section \<open>Round trip\<close>

lemma hex_val_char: "n < 16 \<Longrightarrow> hex_val (hex_char n) = Some n"
  by (simp add: hex_val_def hex_char_def Let_def)

lemma escaped_chars:
  "map char_of [34, 92, 8, 9, 10, 12, 13 :: nat] =
     [CHR 0x22, CHR 0x5C, CHR 0x08, CHR 0x09, CHR 0x0A, CHR 0x0C, CHR 0x0D]"
  by code_simp

lemma map_escaped:
  "map json_escape [CHR 0x22, CHR 0x5C, CHR 0x08, CHR 0x09, CHR 0x0A, CHR 0x0C, CHR 0x0D] =
     map (\<lambda>c. [CHR 0x5C, c])
       [CHR 0x22, CHR 0x5C, CHR ''b'', CHR ''t'', CHR ''n'', CHR ''f'', CHR ''r'']"
  by code_simp

lemma p_string_escape:
  "p_string (json_escape c @ s) = obind (p_string s) (\<lambda>(t, r). Return (c # t, r))"
proof -
  define n where "n = (of_char c :: nat)"
  then have c: "c = char_of n" by simp
  consider "n \<in> {34, 92, 8, 9, 10, 12, 13}"
    | "n < 32" "n \<notin> {8, 9, 10, 12, 13}" | "32 \<le> n" "n \<noteq> 34" "n \<noteq> 92"
    by force
  then show ?thesis
  proof cases
    case 1
    then have "c \<in> {CHR 0x22, CHR 0x5C, CHR 0x08, CHR 0x09, CHR 0x0A, CHR 0x0C, CHR 0x0D}"
      using escaped_chars by (auto simp only: c list.map list.inject insert_iff empty_iff)
    then show ?thesis
      using map_escaped by (auto simp: simple_escape_def)
  next
    case 2
    have "hex_val CHR ''0'' = Some 0" by code_simp
    moreover have "hex_val (hex_char (n div 16)) = Some (n div 16)"
      and "hex_val (hex_char (n mod 16)) = Some (n mod 16)"
      using 2 by (simp_all add: hex_val_char)
    moreover have "16 * (n div 16) + n mod 16 = n" by simp
    ultimately show ?thesis using 2
      by (simp add: json_escape_def simple_escape_def Let_def n_def [symmetric])
        (simp add: c)
  next
    case 3
    moreover have "c \<noteq> CHR 0x22" "c \<noteq> CHR 0x5C" using 3 n_def by auto
    ultimately show ?thesis
      by (simp add: json_escape_def Let_def n_def [symmetric])
  qed
qed

lemma p_string_quote:
  "p_string (concat (map json_escape s) @ CHR 0x22 # r) = Return (s, r)"
proof (induction s)
  case (Cons c s)
  then show ?case by (simp add: p_string_escape del: p_string.simps)
qed simp

lemma span_digits_append:
  "list_all is_digit ds \<Longrightarrow> (s = [] \<or> \<not> is_digit (hd s)) \<Longrightarrow> span_digits (ds @ s) = (ds, s)"
  by (cases s) (auto simp: span_digits_def takeWhile_append dropWhile_append list_all_iff)

lemma nat_text_head: "1 < length (nat_text n) \<Longrightarrow> hd (nat_text n) \<noteq> CHR ''0''"
proof (induction n rule: nat_text.induct)
  case (1 n)
  have z: "digit_char m \<noteq> CHR ''0''" if "0 < m" "m < 10" for m
    using that digit_val_char [of m] by (auto simp: digit_val_def)
  show ?case
  proof (cases "n < 10")
    case True
    with "1.prems" show ?thesis by simp
  next
    case False
    then have hd: "hd (nat_text n) = hd (nat_text (n div 10))" by (simp add: nat_text_step)
    show ?thesis
    proof (cases "n div 10 < 10")
      case True
      with False z [of "n div 10"] show ?thesis by (simp add: hd)
    next
      case small: False
      then have "1 < length (nat_text (n div 10))"
        by (simp add: nat_text_step)
      with False "1.IH" show ?thesis by (simp add: hd)
    qed
  qed
qed

lemma frac_val_decimals:
  assumes "0 \<le> r" "r < 1" and "is_int_rat (r * 10 ^ n)"
  shows "frac_val (decimals n r) = r"
  using assms
proof (induction n arbitrary: r)
  case 0
  then have "of_int \<lfloor>r\<rfloor> = r" unfolding is_int_rat_def by (simp only: power_0 mult_1_right)
  moreover have "\<lfloor>r\<rfloor> = 0" using 0 by linarith
  ultimately show ?case by (simp add: frac_val_def)
next
  case (Suc n)
  define d where "d = \<lfloor>10 * r\<rfloor>"
  have d: "0 \<le> d" "d < 10" using Suc.prems by (simp_all add: d_def floor_less_iff)
  have "frac_val (decimals n (10 * r - of_int d)) = 10 * r - of_int d"
  proof (rule Suc.IH)
    have "is_int_rat (r * 10 ^ Suc n - of_int (d * 10 ^ n))"
      using Suc.prems(3) by (simp add: is_int_rat_def floor_diff_of_int [where z = "d * 10 ^ n", simplified])
    then show "is_int_rat ((10 * r - of_int d) * 10 ^ n)"
      by (simp add: algebra_simps)
  next
    show "10 * r - of_int d < 1" unfolding d_def by linarith
  qed (simp add: d_def)
  then show ?case using d
    by (simp add: frac_val_def d_def [symmetric])
qed

lemma decimals_digits: "0 \<le> r \<Longrightarrow> r < 1 \<Longrightarrow> list_all is_digit (decimals n r)"
proof (induction n arbitrary: r)
  case (Suc n)
  have "nat \<lfloor>10 * r\<rfloor> < 10" using Suc.prems by (simp add: floor_less_iff nat_less_iff)
  moreover have "10 * r - of_int \<lfloor>10 * r\<rfloor> < 1" by linarith
  ultimately show ?case using Suc.IH [of "10 * r - of_int \<lfloor>10 * r\<rfloor>"] by simp
qed simp


text \<open>The values whose text determines them: what the client stores and sends.\<close>

definition obj_canon :: "js props \<Rightarrow> js props" where
  "obj_canon ps = foldl (\<lambda>o' (k, v). obj_put k v o') [] ps"

fun json_ok :: "js \<Rightarrow> bool" where
  "json_ok JUndef = False"
| "json_ok JNull = True"
| "json_ok (JBool b) = True"
| "json_ok (JNum (Fin r)) = is_int_rat (r * 10 ^ 30)"
| "json_ok (JNum _) = False"
| "json_ok (JStr s) = True"
| "json_ok (JBig i) = False"
| "json_ok (JArr xs) = (\<forall>x \<in> set xs. json_ok x)"
| "json_ok (JObj ps) = ((\<forall>p \<in> set ps. json_ok (snd p)) \<and> obj_canon ps = ps)"

definition value_end :: "string \<Rightarrow> bool" where
  "value_end s \<longleftrightarrow> s = [] \<or> hd s \<in> {CHR '','', CHR '']'', CHR ''}''}"

lemma value_end_not_digit: "value_end s \<Longrightarrow> s = [] \<or> \<not> is_digit (hd s)"
  by (auto simp: value_end_def is_digit_def)

lemma p_exp_end: "value_end s \<Longrightarrow> p_exp s = Return (1, s)"
  by (cases s) (auto simp: value_end_def p_exp_def)

lemma p_frac_end: "value_end s \<Longrightarrow> p_frac s = Return (0, s)"
  by (cases s) (auto simp: value_end_def p_frac_def)

lemma p_number_parts:
  assumes "p_frac s = Return (f, s')" and "s = [] \<or> \<not> is_digit (hd s)" and "value_end s'"
  shows "p_number (nat_text n @ s) = Return (JNum (Fin (of_nat n + f)), s')"
    and "p_number (CHR ''-'' # nat_text n @ s) = Return (JNum (Fin (- (of_nat n + f))), s')"
proof -
  have span: "span_digits (nat_text n @ s) = (nat_text n, s)"
    using assms(2) nat_text_digits by (rule span_digits_append [rotated])
  have lead: "\<not> (1 < length (nat_text n) \<and> hd (nat_text n) = CHR ''0'')"
    using nat_text_head by blast
  have pos: "hd (nat_text n) \<noteq> CHR ''-''"
    by (metis list.collapse nat_text_nonempty nat_text_not_minus)
  show "p_number (nat_text n @ s) = Return (JNum (Fin (of_nat n + f)), s')"
    using lead by (simp add: p_number_def pos span assms(1) p_exp_end [OF assms(3)] Let_def)
  show "p_number (CHR ''-'' # nat_text n @ s) = Return (JNum (Fin (- (of_nat n + f))), s')"
    using lead by (simp add: p_number_def span assms(1) p_exp_end [OF assms(3)] Let_def)
qed

lemma decimals_nonempty: "0 < r \<Longrightarrow> decimals (Suc n) r \<noteq> []"
  by simp

lemma p_number_text:
  assumes "is_int_rat (r * 10 ^ 30)" and "value_end s"
  shows "p_number (num_text (Fin r) @ s) = Return (JNum (Fin r), s)"
proof (cases "is_int_rat r")
  case True
  then have r: "r = of_int \<lfloor>r\<rfloor>" unfolding is_int_rat_def by (rule sym)
  note parts = p_number_parts [OF p_frac_end [OF assms(2)] value_end_not_digit [OF assms(2)] assms(2)]
  show ?thesis
  proof (cases "\<lfloor>r\<rfloor> < 0")
    case neg: True
    have "p_number (CHR ''-'' # nat_text (nat (- \<lfloor>r\<rfloor>)) @ s) = Return (JNum (Fin r), s)"
      using neg by (subst parts(2)) (simp, metis r)
    with True neg show ?thesis by (simp add: num_text_def int_text_def)
  next
    case pos: False
    have "p_number (nat_text (nat \<lfloor>r\<rfloor>) @ s) = Return (JNum (Fin r), s)"
      using pos by (subst parts(1)) (simp, metis r)
    with True pos show ?thesis by (simp add: num_text_def int_text_def)
  qed
next
  case False
  define a where "a = \<bar>r\<bar>"
  define f where "f = a - of_int \<lfloor>a\<rfloor>"
  have f: "0 \<le> f" "f < 1" unfolding f_def by linarith+
  have "f \<noteq> 0"
  proof
    assume "f = 0"
    then have "\<bar>r\<bar> = of_int \<lfloor>a\<rfloor>" by (simp add: f_def a_def)
    then have "r = of_int (if r < 0 then - \<lfloor>a\<rfloor> else \<lfloor>a\<rfloor>)" by auto
    then show False using False by (metis is_int_rat_of_int)
  qed
  have "is_int_rat (\<bar>r * 10 ^ 30\<bar> - of_int (\<lfloor>a\<rfloor> * 10 ^ 30))"
  proof -
    from assms(1) have "r * 10 ^ 30 = of_int \<lfloor>r * 10 ^ 30\<rfloor>" by (simp only: is_int_rat_def)
    then have "\<bar>r * 10 ^ 30\<bar> - of_int (\<lfloor>a\<rfloor> * 10 ^ 30) = of_int (\<bar>\<lfloor>r * 10 ^ 30\<rfloor>\<bar> - \<lfloor>a\<rfloor> * 10 ^ 30)"
      by (metis of_int_abs of_int_diff)
    then show ?thesis by (metis is_int_rat_of_int)
  qed
  then have "is_int_rat (f * 10 ^ 30)"
    by (simp add: f_def a_def abs_mult algebra_simps)
  then have val: "frac_val (decimals 30 f) = f" by (rule frac_val_decimals [OF f])
  have digits: "list_all is_digit (decimals 30 f)" by (rule decimals_digits [OF f])
  have nonempty: "decimals 30 f \<noteq> []"
    using f \<open>f \<noteq> 0\<close> decimals_nonempty [of f 29] by simp
  have frac: "p_frac (CHR ''.'' # decimals 30 f @ s) = Return (f, s)"
    using span_digits_append [OF digits value_end_not_digit [OF assms(2)]] nonempty
    by (simp add: p_frac_def val)
  have dot: "CHR ''.'' # decimals 30 f @ s = [] \<or> \<not> is_digit (hd (CHR ''.'' # decimals 30 f @ s))"
    by (simp add: is_digit_def)
  note parts = p_number_parts [OF frac dot assms(2), of "nat \<lfloor>a\<rfloor>"]
  have sum: "of_nat (nat \<lfloor>a\<rfloor>) + f = a" by (simp add: f_def a_def)
  have shown: "num_text (Fin r) =
      (if r < 0 then ''-'' else []) @ nat_text (nat \<lfloor>a\<rfloor>) @ ''.'' @ decimals 30 f"
    using False by (simp only: num_text_def jnum.case if_False a_def f_def)
  show ?thesis
  proof (cases "r < 0")
    case True
    then have "- a = r" by (simp add: a_def)
    with parts(2) have "p_number (CHR ''-'' # nat_text (nat \<lfloor>a\<rfloor>) @ CHR ''.'' # decimals 30 f @ s) =
        Return (JNum (Fin r), s)" unfolding sum by simp
    with True show ?thesis by (simp add: shown)
  next
    case False
    then have "a = r" by (simp add: a_def)
    with parts(1) have "p_number (nat_text (nat \<lfloor>a\<rfloor>) @ CHR ''.'' # decimals 30 f @ s) =
        Return (JNum (Fin r), s)" unfolding sum by simp
    with False show ?thesis by (simp add: shown)
  qed
qed

text \<open>What it means for a text to be read back as a value, an element list or a property list.\<close>

definition value_head :: "string \<Rightarrow> bool" where
  "value_head t \<longleftrightarrow> t \<noteq> [] \<and> \<not> is_json_ws (hd t) \<and> hd t \<notin> {CHR '']'', CHR ''}''}"

definition reads_value :: "string \<Rightarrow> js \<Rightarrow> bool" where
  "reads_value t v \<longleftrightarrow> value_head t \<and>
     (\<forall>n s. value_end s \<longrightarrow> 2 * length t + 1 \<le> n \<longrightarrow> p_value n (t @ s) = Return (v, s))"

definition reads_elems :: "string list \<Rightarrow> js list \<Rightarrow> bool" where
  "reads_elems ts xs \<longleftrightarrow> (xs \<noteq> [] \<longrightarrow> value_head (js_join '','' ts) \<and>
     (\<forall>n s. 2 * length (js_join '','' ts) + 2 \<le> n \<longrightarrow>
        p_elems n (js_join '','' ts @ CHR '']'' # s) = Return (xs, s)))"

definition reads_props :: "string list \<Rightarrow> js props \<Rightarrow> bool" where
  "reads_props ts ps \<longleftrightarrow> (ps \<noteq> [] \<longrightarrow> value_head (js_join '','' ts) \<and>
     (\<forall>n acc s. 2 * length (js_join '','' ts) + 1 \<le> n \<longrightarrow>
        p_members n acc (js_join '','' ts @ CHR ''}'' # s) =
          Return (foldl (\<lambda>o' (k, v). obj_put k v o') acc ps, s)))"

lemma skip_ws_head: "value_head t \<Longrightarrow> skip_ws (t @ s) = t @ s"
  by (cases t) (auto simp: value_head_def skip_ws_def)

lemma skip_ws_closer [simp]:
  "skip_ws (CHR '','' # s) = CHR '','' # s" "skip_ws (CHR '']'' # s) = CHR '']'' # s"
  "skip_ws (CHR ''}'' # s) = CHR ''}'' # s" "skip_ws (CHR '':'' # s) = CHR '':'' # s"
  "skip_ws (CHR ''['' # s) = CHR ''['' # s" "skip_ws (CHR ''{'' # s) = CHR ''{'' # s"
  "skip_ws (CHR 0x22 # s) = CHR 0x22 # s"
  by (simp_all add: skip_ws_def is_json_ws_def)

lemma value_end_closer [simp]:
  "value_end []" "value_end (CHR '','' # s)" "value_end (CHR '']'' # s)" "value_end (CHR ''}'' # s)"
  by (simp_all add: value_end_def)

lemma reads_scalar:
  assumes "t = c # r" and "c \<notin> {CHR ''['', CHR ''{'', CHR '']'', CHR ''}''}" and "\<not> is_json_ws c"
    and "\<And>s. value_end s \<Longrightarrow> p_scalar c (r @ s) = Return (v, s)"
  shows "reads_value t v"
proof -
  have "p_value n (t @ s) = Return (v, s)" if "value_end s" "2 * length t + 1 \<le> n" for n s
  proof (cases n)
    case (Suc m)
    then show ?thesis using assms that by (simp add: next_token_def skip_ws_def)
  qed (use that in simp)
  then show ?thesis using assms by (auto simp: reads_value_def value_head_def)
qed

lemma num_text_head: "\<exists>c r. num_text (Fin x) = c # r \<and> (is_digit c \<or> c = CHR ''-'')"
proof -
  have nt: "\<exists>c r. nat_text n @ s = c # r \<and> (is_digit c \<or> c = CHR ''-'')" for n s
    using nat_text_digits [of n] nat_text_nonempty [of n] by (cases "nat_text n") auto
  show ?thesis
    using nt [of _ "[]"] nt by (auto simp: num_text_def int_text_def simp del: append_assoc)
qed

lemma digit_scalar:
  assumes "is_digit c \<or> c = CHR ''-''"
  shows "p_scalar c r = p_number (c # r)" and "\<not> is_json_ws c"
    and "c \<notin> {CHR ''['', CHR ''{'', CHR '']'', CHR ''}''}"
proof -
  have ne: "c \<notin> {CHR 0x22, CHR ''n'', CHR ''t'', CHR ''f'', CHR ''['', CHR ''{'', CHR '']'', CHR ''}'',
      CHR 0x20, CHR 0x09, CHR 0x0A, CHR 0x0D}"
    using assms by (auto simp: is_digit_def)
  then show "p_scalar c r = p_number (c # r)"
    by (simp add: p_scalar_def p_literal_def)
  show "\<not> is_json_ws c" "c \<notin> {CHR ''['', CHR ''{'', CHR '']'', CHR ''}''}"
    using ne by (auto simp: is_json_ws_def)
qed

lemma reads_num: "is_int_rat (x * 10 ^ 30) \<Longrightarrow> reads_value (num_text (Fin x)) (JNum (Fin x))"
proof -
  assume x: "is_int_rat (x * 10 ^ 30)"
  obtain c r where c: "num_text (Fin x) = c # r" "is_digit c \<or> c = CHR ''-''"
    using num_text_head by blast
  show ?thesis
    using digit_scalar [OF c(2)] p_number_text [OF x]
    by (intro reads_scalar [OF c(1)]) (simp_all add: c(1))
qed

lemma reads_str: "reads_value (json_quote s) (JStr s)"
  by (rule reads_scalar [where c = "CHR 0x22" and r = "concat (map json_escape s) @ [CHR 0x22]"])
    (simp_all add: json_quote_def is_json_ws_def p_scalar_def p_string_quote)

lemma reads_literals:
  "reads_value ''null'' JNull" "reads_value ''true'' (JBool True)" "reads_value ''false'' (JBool False)"
  by (rule reads_scalar, rule refl; simp add: p_scalar_def p_literal_def is_json_ws_def)+

lemma reads_arr:
  assumes "reads_elems ts xs" and "json_elems xs = Return ts"
  shows "reads_value (''['' @ js_join '','' ts @ '']'') (JArr xs)"
proof -
  have "p_value n (CHR ''['' # js_join '','' ts @ CHR '']'' # s) = Return (JArr xs, s)"
    if "2 * length (js_join '','' ts) + 5 \<le> n" for n s
  proof (cases n)
    case (Suc m)
    show ?thesis
    proof (cases "xs = []")
      case True
      with assms(2) Suc show ?thesis by (simp add: next_token_def)
    next
      case False
      with assms(1) have h: "value_head (js_join '','' ts)"
        and e: "p_elems m (js_join '','' ts @ CHR '']'' # s) = Return (xs, s)"
        using that Suc by (auto simp: reads_elems_def)
      obtain c r where cr: "js_join '','' ts = c # r" "c \<noteq> CHR '']''"
        using h by (cases "js_join '','' ts") (auto simp: value_head_def)
      show ?thesis using e skip_ws_head [OF h, of "CHR '']'' # s"] cr(2)
        by (simp add: Suc next_token_def cr(1))
    qed
  qed (use that in simp)
  then show ?thesis by (auto simp: reads_value_def value_head_def is_json_ws_def)
qed

lemma reads_obj:
  assumes "reads_props ts ps" and "json_props ps = Return ts" and "obj_canon ps = ps"
  shows "reads_value (''{'' @ js_join '','' ts @ ''}'') (JObj ps)"
proof -
  have "p_value n (CHR ''{'' # js_join '','' ts @ CHR ''}'' # s) = Return (JObj ps, s)"
    if "2 * length (js_join '','' ts) + 5 \<le> n" for n s
  proof (cases n)
    case (Suc m)
    show ?thesis
    proof (cases "ps = []")
      case True
      with assms(2) Suc show ?thesis by (simp add: next_token_def)
    next
      case False
      with assms(1) have h: "value_head (js_join '','' ts)"
        and e: "p_members m [] (js_join '','' ts @ CHR ''}'' # s) = Return (obj_canon ps, s)"
        using that Suc by (auto simp: reads_props_def obj_canon_def)
      obtain c r where cr: "js_join '','' ts = c # r" "c \<noteq> CHR ''}''"
        using h by (cases "js_join '','' ts") (auto simp: value_head_def)
      show ?thesis using e skip_ws_head [OF h, of "CHR ''}'' # s"] cr(2) assms(3)
        by (simp add: Suc next_token_def cr(1))
    qed
  qed (use that in simp)
  then show ?thesis by (auto simp: reads_value_def value_head_def is_json_ws_def)
qed

lemma js_join_Cons: "js_join sep (t # ts) = t @ (if ts = [] then [] else sep @ js_join sep ts)"
  by (cases ts) simp_all

lemma value_head_append [simp]: "value_head t \<Longrightarrow> value_head (t @ s)"
  by (cases t) (auto simp: value_head_def)

lemma reads_elems_Cons:
  assumes "reads_value t x" and "reads_elems ts xs" and "length ts = length xs"
  shows "reads_elems (t # ts) (x # xs)"
proof -
  have h: "value_head t" and len: "0 < length t"
    using assms(1) by (auto simp: reads_value_def value_head_def)
  have "p_elems n (js_join '','' (t # ts) @ CHR '']'' # s) = Return (x # xs, s)"
    if n: "2 * length (js_join '','' (t # ts)) + 2 \<le> n" for n s
  proof (cases n)
    case (Suc m)
    show ?thesis
    proof (cases "xs = []")
      case True
      then have "p_value m (t @ CHR '']'' # s) = Return (x, CHR '']'' # s)"
        using assms n Suc by (simp add: reads_value_def)
      with True assms(3) show ?thesis by (simp add: Suc next_token_def)
    next
      case False
      with assms(3) have ts: "ts \<noteq> []" by auto
      have "p_value m (t @ CHR '','' # js_join '','' ts @ CHR '']'' # s) =
          Return (x, CHR '','' # js_join '','' ts @ CHR '']'' # s)"
        using assms(1) n Suc ts by (simp add: reads_value_def js_join_Cons)
      moreover have "p_elems m (js_join '','' ts @ CHR '']'' # s) = Return (xs, s)"
        using assms(2) False n Suc ts len by (simp add: reads_elems_def js_join_Cons)
      ultimately show ?thesis using ts by (simp add: Suc next_token_def js_join_Cons)
    qed
  qed (use n in simp)
  then show ?thesis using h by (simp add: reads_elems_def js_join_Cons)
qed

lemma reads_props_Cons:
  assumes "reads_value t v" and "reads_props ts ps" and "length ts = length ps"
  shows "reads_props ((json_quote k @ '':'' @ t) # ts) ((k, v) # ps)"
proof -
  define w where "w = json_quote k @ '':'' @ t"
  have h: "value_head w" and len: "0 < length w"
    by (auto simp: w_def json_quote_def value_head_def is_json_ws_def)
  have "p_members n acc (js_join '','' (w # ts) @ CHR ''}'' # s) =
      Return (foldl (\<lambda>o' (k, v). obj_put k v o') acc ((k, v) # ps), s)"
    if n: "2 * length (js_join '','' (w # ts)) + 1 \<le> n" for n acc s
  proof (cases n)
    case (Suc m)
    have str: "p_string (concat (map json_escape k) @ CHR 0x22 # u) = Return (k, u)" for u
      by (rule p_string_quote)
    show ?thesis
    proof (cases "ps = []")
      case True
      then have "p_value m (t @ CHR ''}'' # s) = Return (v, CHR ''}'' # s)"
        using assms n Suc by (simp add: reads_value_def w_def json_quote_def)
      with True assms(3) show ?thesis
        by (simp add: Suc next_token_def w_def json_quote_def str)
    next
      case False
      with assms(3) have ts: "ts \<noteq> []" by auto
      have "p_value m (t @ CHR '','' # js_join '','' ts @ CHR ''}'' # s) =
          Return (v, CHR '','' # js_join '','' ts @ CHR ''}'' # s)"
        using assms(1) n Suc ts by (simp add: reads_value_def js_join_Cons w_def json_quote_def)
      moreover have "p_members m (obj_put k v acc) (js_join '','' ts @ CHR ''}'' # s) =
          Return (foldl (\<lambda>o' (k, v). obj_put k v o') (obj_put k v acc) ps, s)"
        using assms(2) False n Suc ts len by (simp add: reads_props_def js_join_Cons)
      ultimately show ?thesis using ts
        by (simp add: Suc next_token_def js_join_Cons w_def json_quote_def str)
    qed
  qed (use n in simp)
  then show ?thesis using h unfolding w_def [symmetric] by (simp add: reads_props_def js_join_Cons)
qed

lemma reads_all:
  "json_ok v \<Longrightarrow> \<exists>t. json_stringify v = Return (Some t) \<and> reads_value t v"
  "\<forall>x \<in> set xs. json_ok x \<Longrightarrow>
     \<exists>ts. json_elems xs = Return ts \<and> length ts = length xs \<and> reads_elems ts xs"
  "\<forall>p \<in> set ps. json_ok (snd p) \<Longrightarrow>
     \<exists>ts. json_props ps = Return ts \<and> length ts = length ps \<and> reads_props ts ps"
proof (induction v and xs and ps rule: json_stringify_json_elems_json_props.induct)
  case (4 n)
  then show ?case by (cases n) (auto simp: reads_num)
next
  case (10 x xs)
  then show ?case by (auto simp: reads_elems_Cons)
next
  case (12 k v ps)
  then show ?case using reads_props_Cons [where k = k] by auto
next
  case (7 xs)
  then obtain ts where "json_elems xs = Return ts" "reads_elems ts xs" by auto
  then show ?case using reads_arr by simp
next
  case (8 ps)
  then obtain ts where "json_props ps = Return ts" "reads_props ts ps" by auto
  then show ?case using reads_obj 8 by simp
qed (simp_all add: reads_literals reads_str reads_elems_def reads_props_def)

theorem json_roundtrip:
  assumes "json_ok v"
  shows "\<exists>t. json_stringify v = Return (Some t) \<and> json_parse t = Return v \<and> t \<noteq> []"
proof -
  obtain t where t: "json_stringify v = Return (Some t)" "reads_value t v"
    using reads_all(1) [OF assms] by blast
  have "value_end []" "2 * length t + 1 \<le> 2 * length t + 2" by simp_all
  with t(2) have "p_value (2 * length t + 2) (t @ []) = Return (v, [])"
    unfolding reads_value_def by blast
  then have "json_parse t = Return v"
    by (simp add: json_parse_def skip_ws_def del: p_value.simps)
  with t show ?thesis by (auto simp: reads_value_def value_head_def)
qed
section \<open>Canonical property order\<close>

definition obj_sorted :: "'a props \<Rightarrow> bool" where
  "obj_sorted ps \<longleftrightarrow> distinct_keys ps \<and> sorted_wrt (\<lambda>k k'. \<not> index_before k' k) (map fst ps)"

lemma index_before_trans: "index_before a b \<Longrightarrow> index_before b c \<Longrightarrow> index_before a c"
  by (auto simp: index_before_def)

lemma index_before_irrefl [simp]: "\<not> index_before a a"
  by (simp add: index_before_def)

lemma index_before_asym: "index_before a b \<Longrightarrow> \<not> index_before b a"
  by (auto simp: index_before_def)

lemma obj_insert_sorted:
  "sorted_wrt (\<lambda>k k'. \<not> index_before k' k) (map fst ps) \<Longrightarrow>
   sorted_wrt (\<lambda>k k'. \<not> index_before k' k) (map fst (obj_insert k v ps))"
proof (induction k v ps rule: obj_insert.induct)
  case (2 k v k' w ps)
  then show ?case
    using set_keys_obj_insert [of k v ps]
    by (auto dest: index_before_asym index_before_trans)
qed simp

lemma obj_sorted_put [wf_intros]: "obj_sorted ps \<Longrightarrow> obj_sorted (obj_put k v ps)"
  unfolding obj_sorted_def
  by (auto intro: distinct_keys_obj_put) (simp add: obj_put_def obj_insert_sorted del: map_map)

lemma obj_sorted_Nil [simp, wf_intros]: "obj_sorted []"
  by (simp add: obj_sorted_def distinct_keys_def)

lemma obj_sorted_foldl_put: "obj_sorted acc \<Longrightarrow> obj_sorted (foldl (\<lambda>o' (k, v). obj_put k v o') acc ps)"
  by (induction ps arbitrary: acc) (auto intro: wf_intros)

lemma obj_insert_last:
  "\<forall>k' \<in> set (map fst ps). \<not> index_before k k' \<Longrightarrow> obj_insert k v ps = ps @ [(k, v)]"
  by (induction k v ps rule: obj_insert.induct) auto

lemma foldl_put_sorted:
  "obj_sorted (acc @ ps) \<Longrightarrow> foldl (\<lambda>o' (k, v). obj_put k v o') acc ps = acc @ ps"
proof (induction ps arbitrary: acc)
  case (Cons p ps)
  obtain k v where p: "p = (k, v)" by (cases p)
  from Cons.prems p have "obj_put k v acc = acc @ [(k, v)]"
    by (auto simp: obj_put_def has_prop_keys obj_sorted_def distinct_keys_def sorted_wrt_append
        intro!: obj_insert_last)
  with Cons p show ?case by simp
qed simp

text \<open>A property list is in the language's order exactly when replaying its assignments rebuilds it.\<close>

lemma obj_canon_iff_sorted: "obj_canon ps = ps \<longleftrightarrow> obj_sorted ps"
proof
  assume "obj_canon ps = ps"
  then show "obj_sorted ps"
    using obj_sorted_foldl_put [of "[]" ps] by (simp add: obj_canon_def)
qed (use foldl_put_sorted [of "[]" ps] in \<open>simp add: obj_canon_def\<close>)

lemma obj_sorted_filter: "obj_sorted ps \<Longrightarrow> obj_sorted (filter P ps)"
proof (induction ps)
  case (Cons p ps)
  then show ?case by (auto simp: obj_sorted_def distinct_keys_def)
qed simp

lemma obj_sorted_map_values [simp]: "obj_sorted (map (\<lambda>(k, v). (k, f k v)) ps) = obj_sorted ps"
proof -
  have "map fst (map (\<lambda>(k, v). (k, f k v)) ps) = map fst ps" by (induction ps) auto
  then show ?thesis by (simp add: obj_sorted_def distinct_keys_def del: map_map)
qed


end
