(* ===== verification/FilterPredicate.thy ===== *)
theory FilterPredicate
  imports Json
begin

text \<open>
  The predicate tree of the filter bar (\<^verbatim>\<open>web/src/filter/predicate.ts\<close>): the operator catalog,
  the wire encoding and its decoder, stored predicate text, the top-level slots the quick chips
  and the phase toggle own, and the query the list screens send. The meaning of a predicate
  (\<open>sat\<close>) and of a query (\<open>query_sat\<close>) is the abstract specification the operations refine.
\<close>

section \<open>Operators\<close>

datatype op =
    Op_eq | Op_ne | Op_in | Op_notIn | Op_exists | Op_notExists | Op_contains | Op_notTerminal
  | Op_hasPhase | Op_parentStatusPhase | Op_snippet | Op_beforeToday | Op_withinDays
  | Op_withinLastDays

fun opToWire :: "op \<Rightarrow> string" where
  "opToWire Op_eq = ''=''"
| "opToWire Op_ne = ''!=''"
| "opToWire Op_in = ''in''"
| "opToWire Op_notIn = ''not in''"
| "opToWire Op_exists = ''exists''"
| "opToWire Op_notExists = ''not exists''"
| "opToWire Op_contains = ''contains''"
| "opToWire Op_notTerminal = ''not terminal''"
| "opToWire Op_hasPhase = ''has_phase''"
| "opToWire Op_parentStatusPhase = ''parent_status_phase''"
| "opToWire Op_snippet = ''snippet''"
| "opToWire Op_beforeToday = ''before_today''"
| "opToWire Op_withinDays = ''within_days''"
| "opToWire Op_withinLastDays = ''within_last_days''"

definition WIRE_TO_OP :: "op props" where
  "WIRE_TO_OP =
     [(''='', Op_eq), (''eq'', Op_eq), (''!='', Op_ne), (''ne'', Op_ne), (''in'', Op_in),
      (''not in'', Op_notIn), (''exists'', Op_exists), (''not exists'', Op_notExists),
      (''contains'', Op_contains), (''not terminal'', Op_notTerminal),
      (''has_phase'', Op_hasPhase), (''parent_status_phase'', Op_parentStatusPhase),
      (''snippet'', Op_snippet), (''before_today'', Op_beforeToday),
      (''within_days'', Op_withinDays), (''within_last_days'', Op_withinLastDays)]"

text \<open>
  \<open>WIRE_TO_OP[s]\<close> is a plain object: for a name it inherits the lookup is not \<open>undefined\<close>, so
  the code goes on with that member instead of throwing.
\<close>

definition opFromWire :: "string \<Rightarrow> op outcome" where
  "opFromWire s =
     (case map_of WIRE_TO_OP s of
        Some v \<Rightarrow> Return v
      | None \<Rightarrow>
          if s \<in> set object_prototype_names then OffType s
          else Throw (''unknown predicate operator: '' @ json_quote s))"

datatype op_arity = ArityNone | ArSingle | ArMulti

fun opArity :: "op \<Rightarrow> op_arity" where
  "opArity Op_eq = ArSingle"
| "opArity Op_ne = ArSingle"
| "opArity Op_contains = ArSingle"
| "opArity Op_snippet = ArSingle"
| "opArity Op_withinDays = ArSingle"
| "opArity Op_withinLastDays = ArSingle"
| "opArity Op_in = ArMulti"
| "opArity Op_notIn = ArMulti"
| "opArity Op_hasPhase = ArMulti"
| "opArity Op_parentStatusPhase = ArMulti"
| "opArity Op_exists = ArityNone"
| "opArity Op_notExists = ArityNone"
| "opArity Op_notTerminal = ArityNone"
| "opArity Op_beforeToday = ArityNone"

fun opLabel :: "op \<Rightarrow> string" where
  "opLabel Op_eq = ''is''"
| "opLabel Op_ne = ''is not''"
| "opLabel Op_in = ''is any of''"
| "opLabel Op_notIn = ''is none of''"
| "opLabel Op_exists = ''is set''"
| "opLabel Op_notExists = ''is not set''"
| "opLabel Op_contains = ''contains''"
| "opLabel Op_notTerminal = ''is open''"
| "opLabel Op_hasPhase = ''has phase''"
| "opLabel Op_parentStatusPhase = ''parent'' @ [CHR 0x27] @ ''s status is''"
| "opLabel Op_snippet = ''named filter''"
| "opLabel Op_beforeToday = ''is before today''"
| "opLabel Op_withinDays = ''within next (days)''"
| "opLabel Op_withinLastDays = ''within last (days)''"

definition OPS_BY_VALUE_TYPE :: "op list props" where
  "OPS_BY_VALUE_TYPE =
     [(''text'', [Op_eq, Op_ne, Op_contains, Op_exists, Op_notExists]),
      (''number'', [Op_eq, Op_ne, Op_exists, Op_notExists]),
      (''bool'', [Op_eq, Op_ne, Op_exists, Op_notExists]),
      (''date'', [Op_eq, Op_ne, Op_exists, Op_notExists, Op_beforeToday, Op_withinDays,
                 Op_withinLastDays]),
      (''timestamp'', [Op_withinLastDays]),
      (''card_ref'', [Op_eq, Op_ne, Op_in, Op_notIn, Op_hasPhase, Op_exists, Op_notExists]),
      (''card_ref[]'', [Op_in, Op_notIn, Op_hasPhase, Op_exists, Op_notExists])]"

definition opsForValueType :: "string \<Rightarrow> op list outcome" where
  "opsForValueType valueType =
     (case map_of OPS_BY_VALUE_TYPE valueType of
        Some ops \<Rightarrow> Return ops
      | None \<Rightarrow>
          if valueType \<in> set object_prototype_names then OffType valueType
          else Return [Op_eq, Op_ne, Op_contains, Op_exists, Op_notExists])"

section \<open>Phases\<close>

datatype phase = Triage | Active | Terminal

fun phase_text :: "phase \<Rightarrow> string" where
  "phase_text Triage = ''triage''"
| "phase_text Active = ''active''"
| "phase_text Terminal = ''terminal''"

definition PHASES :: "phase list" where
  "PHASES = [Triage, Active, Terminal]"

definition isPhase :: "js \<Rightarrow> bool" where
  "isPhase v \<longleftrightarrow> v = JStr ''triage'' \<or> v = JStr ''active'' \<or> v = JStr ''terminal''"

text \<open>The phase a JavaScript value names, for the narrowing casts of the source.\<close>

definition phase_of :: "js \<Rightarrow> phase option" where
  "phase_of v = (if v = JStr ''triage'' then Some Triage
     else if v = JStr ''active'' then Some Active
     else if v = JStr ''terminal'' then Some Terminal else None)"

section \<open>The tree\<close>

record pleaf =
  attr :: string
  oper :: op
  vals :: "js list option"

datatype connective = And | Or | Not

datatype predicate = Leaf pleaf | Group connective "predicate list"

fun connective_text :: "connective \<Rightarrow> string" where
  "connective_text And = ''and''"
| "connective_text Or = ''or''"
| "connective_text Not = ''not''"

type_synonym wire = "js props"

definition leaf_wire :: "pleaf \<Rightarrow> wire" where
  "leaf_wire l =
     [(''attr'', JStr (attr l)), (''op'', JStr (opToWire (oper l)))] @
     (case vals l of
        Some vs \<Rightarrow> if vs \<noteq> [] then [(''values'', JArr vs)] else []
      | None \<Rightarrow> [])"

fun toWire :: "predicate \<Rightarrow> wire" where
  "toWire (Leaf l) = leaf_wire l"
| "toWire (Group c children) =
     [(''connective'', JStr (connective_text c)),
      (''children'', JArr (map (\<lambda>p. JObj (toWire p)) children))]"

section \<open>Decoding\<close>

definition connective_of :: "js \<Rightarrow> connective option" where
  "connective_of c = (if c = JStr ''and'' then Some And
     else if c = JStr ''or'' then Some Or
     else if c = JStr ''not'' then Some Not else None)"

definition leaf_values :: "wire \<Rightarrow> js list option outcome" where
  "leaf_values raw =
     (if prop_get raw ''values'' \<noteq> JUndef \<and> prop_get raw ''values'' \<noteq> JNull then
        (case prop_get raw ''values'' of
           JArr vs \<Rightarrow> Return (Some vs)
         | _ \<Rightarrow> Throw ''leaf values must be an array'')
      else if has_prop raw ''value'' \<and> prop_get raw ''value'' \<noteq> JUndef
        then Return (Some [prop_get raw ''value''])
      else Return None)"

definition leaf_fromWire :: "wire \<Rightarrow> predicate outcome" where
  "leaf_fromWire raw =
     (case prop_get raw ''attr'' of
        JStr a \<Rightarrow>
          obind (opFromWire (case prop_get raw ''op'' of
                   JStr s \<Rightarrow> if s \<noteq> '''' then s else ''='' | _ \<Rightarrow> ''='')) (\<lambda>o'.
          obind (leaf_values raw) (\<lambda>vs.
            Return (Leaf \<lparr>attr = a, oper = o', vals = vs\<rparr>)))
      | _ \<Rightarrow> Throw ''leaf attr must be a string'')"

definition is_arr :: "js \<Rightarrow> bool" where
  "is_arr v = (case v of JArr _ \<Rightarrow> True | _ \<Rightarrow> False)"

text \<open>
  The message for an unknown connective quotes it with \<open>JSON.stringify\<close>; where that is
  \<open>undefined\<close> or itself throws, only the fact of the exception is kept.
\<close>

definition unknown_connective :: "js \<Rightarrow> string" where
  "unknown_connective c = ''unknown group connective: '' @
     (case json_stringify c of Return (Some t) \<Rightarrow> t | _ \<Rightarrow> ''undefined'')"

function (sequential) fromWire :: "js \<Rightarrow> predicate outcome"
  and decodeChildren :: "js \<Rightarrow> predicate list outcome"
where
  "fromWire (JObj raw) =
     (if has_prop raw ''connective'' \<and> prop_get raw ''connective'' \<noteq> JUndef
         \<and> prop_get raw ''connective'' \<noteq> JStr '''' then
        (case connective_of (prop_get raw ''connective'') of
           None \<Rightarrow> Throw (unknown_connective (prop_get raw ''connective''))
         | Some c \<Rightarrow>
             obind (decodeChildren (prop_get raw ''children'')) (\<lambda>children.
               if c = Not \<and> length children \<noteq> 1
               then Throw (''NOT group must have exactly one child (got '' @
                      nat_text (length children) @ '')'')
               else Return (Group c children)))
      else if has_prop raw ''and'' \<and> is_arr (prop_get raw ''and'') then
        obind (decodeChildren (prop_get raw ''and'')) (\<lambda>children. Return (Group And children))
      else leaf_fromWire raw)"
| "fromWire _ = Throw ''predicate wire node must be an object''"
| "decodeChildren JUndef = Return []"
| "decodeChildren JNull = Return []"
| "decodeChildren (JArr xs) = otraverse fromWire xs"
| "decodeChildren _ = Throw ''group children must be an array''"
  by pat_completeness auto
termination
  by (relation "measure (case_sum size size)")
    (auto simp: prop_get_size size_elem)

section \<open>Validation and the flat form\<close>

fun isValid :: "predicate \<Rightarrow> bool" where
  "isValid (Leaf l) = (0 < length (attr l))"
| "isValid (Group c children) =
     (if c = Not \<and> length children \<noteq> 1 then False else list_all isValid children)"

definition is_leaf :: "predicate \<Rightarrow> bool" where
  "is_leaf p = (case p of Leaf _ \<Rightarrow> True | Group _ _ \<Rightarrow> False)"

definition isFlatAndOfLeaves :: "predicate \<Rightarrow> bool" where
  "isFlatAndOfLeaves p =
     (case p of Leaf _ \<Rightarrow> True
      | Group c children \<Rightarrow> if c \<noteq> And then False else list_all is_leaf children)"

definition toWhereLeaves :: "predicate \<Rightarrow> wire list option" where
  "toWhereLeaves p =
     (if \<not> isFlatAndOfLeaves p then None
      else case p of Leaf _ \<Rightarrow> Some [toWire p] | Group _ children \<Rightarrow> Some (map toWire children))"

definition fromWhereLeaves :: "js list \<Rightarrow> predicate outcome" where
  "fromWhereLeaves leaves =
     obind (otraverse fromWire leaves) (\<lambda>parsed.
       case parsed of [p] \<Rightarrow> Return p | _ \<Rightarrow> Return (Group And parsed))"

section \<open>Stored predicate text\<close>

text \<open>\<open>try { return m } catch { return null }\<close>.\<close>

definition catch_null :: "'a outcome \<Rightarrow> 'a option outcome" where
  "catch_null m = (case m of Return x \<Rightarrow> Return (Some x) | Throw e \<Rightarrow> Return None
     | OffType e \<Rightarrow> OffType e)"

definition predicateFromJsonString :: "string \<Rightarrow> predicate option outcome" where
  "predicateFromJsonString raw =
     (let t = js_trim raw in
      if t = '''' then Return None
      else obind (catch_null (json_parse t)) (\<lambda>parsed.
        case parsed of
          Some (JObj ps) \<Rightarrow>
            catch_null
              (case prop_get ps ''where'' of
                 JArr leaves \<Rightarrow> fromWhereLeaves leaves
               | _ \<Rightarrow> if prop_get ps ''tree'' \<noteq> JUndef \<and> prop_get ps ''tree'' \<noteq> JNull
                     then fromWire (prop_get ps ''tree'') else fromWire (JObj ps))
        | _ \<Rightarrow> Return None))"

definition predicateToJsonString :: "predicate option \<Rightarrow> string option outcome" where
  "predicateToJsonString p =
     (case p of
        None \<Rightarrow> Return (Some '''')
      | Some q \<Rightarrow> if q = Group And [] then Return (Some '''') else json_stringify (JObj (toWire q)))"

section \<open>The root view and the top-level slots\<close>

definition rootView :: "predicate option \<Rightarrow> bool \<times> predicate list" where
  "rootView p =
     (case p of
        None \<Rightarrow> (True, [])
      | Some (Leaf l) \<Rightarrow> (True, [Leaf l])
      | Some (Group c children) \<Rightarrow> if c = And then (True, children) else (False, [Group c children]))"

definition fromRootChildren :: "predicate list \<Rightarrow> predicate option" where
  "fromRootChildren children =
     (case children of [] \<Rightarrow> None | [p] \<Rightarrow> Some p | _ \<Rightarrow> Some (Group And children))"

definition value_leaf_of :: "string \<Rightarrow> predicate \<Rightarrow> bool" where
  "value_leaf_of a c = (case c of Leaf l \<Rightarrow> attr l = a \<and> oper l \<noteq> Op_hasPhase | _ \<Rightarrow> False)"

definition phase_leaf_of :: "string \<Rightarrow> predicate \<Rightarrow> bool" where
  "phase_leaf_of a c = (case c of Leaf l \<Rightarrow> attr l = a \<and> oper l = Op_hasPhase | _ \<Rightarrow> False)"

fun first_value_leaf :: "string \<Rightarrow> predicate list \<Rightarrow> pleaf option" where
  "first_value_leaf a [] = None"
| "first_value_leaf a (Leaf l # cs) =
     (if attr l = a \<and> oper l \<noteq> Op_hasPhase then Some l else first_value_leaf a cs)"
| "first_value_leaf a (Group _ _ # cs) = first_value_leaf a cs"

definition topLevelLeafForAttr :: "predicate option \<Rightarrow> string \<Rightarrow> pleaf option" where
  "topLevelLeafForAttr p a =
     (case p of
        None \<Rightarrow> None
      | Some (Leaf l) \<Rightarrow> if attr l = a \<and> oper l \<noteq> Op_hasPhase then Some l else None
      | Some (Group c children) \<Rightarrow> if c \<noteq> And then None else first_value_leaf a children)"

definition upsertTopLevelLeaf :: "predicate option \<Rightarrow> pleaf \<Rightarrow> predicate option" where
  "upsertTopLevelLeaf p newLeaf =
     fromRootChildren
       (filter (\<lambda>c. \<not> value_leaf_of (attr newLeaf) c) (snd (rootView p)) @ [Leaf newLeaf])"

definition removeTopLevelLeaf :: "predicate option \<Rightarrow> string \<Rightarrow> predicate option" where
  "removeTopLevelLeaf p a =
     (if p = None then None
      else fromRootChildren (filter (\<lambda>c. \<not> value_leaf_of a c) (snd (rootView p))))"

fun first_phase_leaf :: "string \<Rightarrow> predicate list \<Rightarrow> pleaf option" where
  "first_phase_leaf a [] = None"
| "first_phase_leaf a (Leaf l # cs) =
     (if attr l = a \<and> oper l = Op_hasPhase then Some l else first_phase_leaf a cs)"
| "first_phase_leaf a (Group _ _ # cs) = first_phase_leaf a cs"

definition topLevelPhases :: "predicate option \<Rightarrow> string \<Rightarrow> phase list" where
  "topLevelPhases p a =
     (if p = None then []
      else case first_phase_leaf a (snd (rootView p)) of
        None \<Rightarrow> []
      | Some l \<Rightarrow> List.map_filter phase_of (case vals l of None \<Rightarrow> [] | Some vs \<Rightarrow> vs))"

text \<open>The constructor helper \<open>leaf(attr, op, values)\<close>.\<close>

definition mk_leaf :: "string \<Rightarrow> op \<Rightarrow> js list option \<Rightarrow> pleaf" where
  "mk_leaf a o' vs = \<lparr>attr = a, oper = o',
     vals = (case vs of Some ws \<Rightarrow> if ws \<noteq> [] then Some ws else None | None \<Rightarrow> None)\<rparr>"

definition withTopLevelPhases :: "predicate option \<Rightarrow> phase list \<Rightarrow> string \<Rightarrow> predicate option" where
  "withTopLevelPhases p phases a =
     fromRootChildren
       (filter (\<lambda>c. \<not> phase_leaf_of a c) (snd (rootView p)) @
        (if phases \<noteq> []
         then [Leaf (mk_leaf a Op_hasPhase (Some (map (\<lambda>x. JStr (phase_text x)) phases)))] else []))"

definition andOf :: "predicate list \<Rightarrow> predicate" where "andOf children = Group And children"
definition orOf :: "predicate list \<Rightarrow> predicate" where "orOf children = Group Or children"
definition notOf :: "predicate \<Rightarrow> predicate" where "notOf child = Group Not [child]"
definition emptyRoot :: predicate where "emptyRoot = Group And []"

section \<open>Search composition\<close>

definition SEARCH_FIELD_VALUES :: "string list" where
  "SEARCH_FIELD_VALUES = [''title'', ''description'', ''comments'']"

definition MAX_ID_LIST :: nat where "MAX_ID_LIST = 200"

text \<open>
  The regular expression \<open>/^\s*\d+(\s*,\s*\d+)*\s*$/\<close>: every comma-separated part is a digit
  string between optional white space.
\<close>

definition is_id_list :: "string \<Rightarrow> bool" where
  "is_id_list needle =
     list_all (\<lambda>part. js_trim part \<noteq> [] \<and> list_all is_digit (js_trim part)) (js_split CHR '','' needle)"

fun id_list_loop :: "string list \<Rightarrow> string list \<Rightarrow> string list" where
  "id_list_loop seen [] = seen"
| "id_list_loop seen (part # parts) =
     (let id' = js_trim part;
          seen' = (if 0 < length id' \<and> id' \<notin> set seen then seen @ [id'] else seen)
      in if MAX_ID_LIST \<le> length seen' then seen' else id_list_loop seen' parts)"

definition parseIdList :: "string \<Rightarrow> string list option" where
  "parseIdList needle =
     (if \<not> is_id_list needle then None
      else let seen = id_list_loop [] (js_split CHR '','' needle)
           in if 0 < length seen then Some seen else None)"

record query =
  q_where :: "wire list option"
  q_tree :: "wire option"

definition contains_leaf :: "string \<Rightarrow> string \<Rightarrow> wire" where
  "contains_leaf needle a =
     [(''attr'', JStr a), (''op'', JStr ''contains''), (''values'', JArr [JStr needle])]"

definition effective_fields :: "string \<Rightarrow> string list \<Rightarrow> string list" where
  "effective_fields needle fs =
     (let validFields = (if needle = '''' then [] else filter (\<lambda>f. f \<in> set SEARCH_FIELD_VALUES) fs)
      in if needle = '''' then [] else if 0 < length validFields then validFields else [''title''])"

definition or_node :: "wire list \<Rightarrow> wire" where
  "or_node ws = [(''connective'', JStr ''or''), (''children'', JArr (map JObj ws))]"

definition and_node :: "wire list \<Rightarrow> wire" where
  "and_node ws = [(''connective'', JStr ''and''), (''children'', JArr (map JObj ws))]"

definition search_tree :: "string \<Rightarrow> string list \<Rightarrow> wire option" where
  "search_tree needle effective =
     (case parseIdList needle of
        Some ids \<Rightarrow>
          if 1 < length ids then
            Some [(''attr'', JStr ''id''), (''op'', JStr ''in''), (''values'', JArr (map JStr ids))]
          else if 0 < length effective then
            Some (or_node ([(''attr'', JStr ''id''), (''op'', JStr ''eq''), (''values'', JArr (map JStr ids))]
                           # map (contains_leaf needle) effective))
          else None
      | None \<Rightarrow>
          if 1 < length effective then Some (or_node (map (contains_leaf needle) effective)) else None)"

definition search_leaves :: "string \<Rightarrow> string list \<Rightarrow> wire list" where
  "search_leaves needle effective =
     (if parseIdList needle = None \<and> length effective = 1
      then [[(''attr'', JStr (hd effective)), (''op'', JStr ''contains''), (''value'', JStr needle)]]
      else [])"

definition some_nonempty :: "'a list \<Rightarrow> 'a list option" where
  "some_nonempty xs = (if 0 < length xs then Some xs else None)"

definition applySearchFilter :: "string \<Rightarrow> string list \<Rightarrow> predicate option \<Rightarrow> query" where
  "applySearchFilter search fs predicate =
     (let needle = js_trim search;
          effective = effective_fields needle fs;
          searchTree = search_tree needle effective;
          searchLeaves = search_leaves needle effective;
          singleSearchLeafAsTree =
            (if parseIdList needle = None \<and> length effective = 1
             then Some (contains_leaf needle (hd effective)) else None);
          searchClauseForTree =
            (case searchTree of Some t \<Rightarrow> Some t | None \<Rightarrow> singleSearchLeafAsTree)
      in case predicate of
           None \<Rightarrow>
             (case searchTree of
                Some t \<Rightarrow> \<lparr>q_where = None, q_tree = Some t\<rparr>
              | None \<Rightarrow> \<lparr>q_where = some_nonempty searchLeaves, q_tree = None\<rparr>)
         | Some p \<Rightarrow>
             if isFlatAndOfLeaves p then
               (let userLeaves = (case toWhereLeaves p of Some ls \<Rightarrow> ls | None \<Rightarrow> [])
                in case searchTree of
                     Some t \<Rightarrow> \<lparr>q_where = None, q_tree = Some (and_node (t # userLeaves))\<rparr>
                   | None \<Rightarrow> \<lparr>q_where = some_nonempty (searchLeaves @ userLeaves), q_tree = None\<rparr>)
             else
               (case searchClauseForTree of
                  Some t \<Rightarrow> \<lparr>q_where = None, q_tree = Some (and_node [t, toWire p])\<rparr>
                | None \<Rightarrow> \<lparr>q_where = None, q_tree = Some (toWire p)\<rparr>))"

text \<open>A \<open>where[]\<close> leaf with a single \<open>value\<close> as a tree leaf with \<open>values\<close>.\<close>

definition plural_leaf :: "wire \<Rightarrow> wire" where
  "plural_leaf l =
     (if prop_get l ''values'' = JUndef \<and> prop_get l ''value'' \<noteq> JUndef
      then obj_put ''values'' (JArr [prop_get l ''value'']) (filter (\<lambda>(k, _). k \<noteq> ''value'') l)
      else l)"

definition withScopeTree :: "wire list option \<Rightarrow> wire option \<Rightarrow> wire option \<Rightarrow> query" where
  "withScopeTree where' tree scope =
     (case scope of
        None \<Rightarrow> \<lparr>q_where = where', q_tree = tree\<rparr>
      | Some sc \<Rightarrow>
          let children = (case tree of
                Some t \<Rightarrow> [t]
              | None \<Rightarrow> map plural_leaf (case where' of Some ls \<Rightarrow> ls | None \<Rightarrow> []))
          in \<lparr>q_where = None, q_tree = Some (and_node (children @ [sc]))\<rparr>)"

end
