(* ===== verification/FilterPredicateSpec.thy ===== *)
theory FilterPredicateSpec
  imports FilterPredicate
begin

text \<open>
  What the predicate operations guarantee: the wire and text round trips, the exact domain of
  the operator decoder, the slot discipline of the quick chips and the phase toggle (the
  \<open>predicate_slot\<close> interface), and the meaning of the queries the screens send.
\<close>

section \<open>Meaning\<close>

type_synonym env = "string \<Rightarrow> op \<Rightarrow> js list \<Rightarrow> bool"

definition leaf_vals :: "pleaf \<Rightarrow> js list" where
  "leaf_vals l = (case vals l of None \<Rightarrow> [] | Some vs \<Rightarrow> vs)"

text \<open>An empty AND is true and an empty OR is false, as the header of the source file says.\<close>

fun sat :: "env \<Rightarrow> predicate \<Rightarrow> bool" where
  "sat ev (Leaf l) = ev (attr l) (oper l) (leaf_vals l)"
| "sat ev (Group And cs) = list_all (sat ev) cs"
| "sat ev (Group Or cs) = list_ex (sat ev) cs"
| "sat ev (Group Not cs) = list_all (\<lambda>c. \<not> sat ev c) cs"

definition sat_opt :: "env \<Rightarrow> predicate option \<Rightarrow> bool" where
  "sat_opt ev p = (case p of None \<Rightarrow> True | Some q \<Rightarrow> sat ev q)"

text \<open>
  The server's own reading of the two fields of a query (\<^verbatim>\<open>dom/card/where.go\<close>,
  \<^verbatim>\<open>select_attrs.go\<close>): a leaf of \<open>tree\<close> has only the plural \<open>values\<close>, a singular \<open>value\<close> there is
  dropped; an entry of \<open>where[]\<close> may have either. Its spellings of a connective in upper case, and operators and
  attributes it refuses later, are not told apart here.
\<close>

definition server_leaf :: "bool \<Rightarrow> wire \<Rightarrow> predicate outcome" where
  "server_leaf singular raw =
     (case (prop_get raw ''attr'', prop_get raw ''op'') of
        (JStr a, JStr s) \<Rightarrow>
          obind (opFromWire s) (\<lambda>o'.
            if prop_get raw ''values'' = JUndef \<or> prop_get raw ''values'' = JNull
            then Return (Leaf \<lparr>attr = a, oper = o',
                   vals = (if singular \<and> prop_get raw ''value'' \<noteq> JUndef then Some [prop_get raw ''value''] else None)\<rparr>)
            else case prop_get raw ''values'' of
              JArr vs \<Rightarrow> Return (Leaf \<lparr>attr = a, oper = o', vals = Some vs\<rparr>)
            | _ \<Rightarrow> Throw ''values must be an array'')
      | _ \<Rightarrow> Throw ''attr and op must be strings'')"

function (sequential) server_node :: "js \<Rightarrow> predicate outcome"
  and server_children :: "js \<Rightarrow> predicate list outcome"
where
  "server_node (JObj raw) =
     (if prop_get raw ''connective'' \<noteq> JUndef \<and> prop_get raw ''connective'' \<noteq> JStr '''' then
        (case connective_of (prop_get raw ''connective'') of
           None \<Rightarrow> Throw ''unknown connective''
         | Some c \<Rightarrow> obind (server_children (prop_get raw ''children'')) (\<lambda>children.
             if c = Not \<and> length children \<noteq> 1 then Throw ''not group must have exactly one child''
             else Return (Group c children)))
      else server_leaf False raw)"
| "server_node _ = Throw ''not a node''"
| "server_children JUndef = Return []"
| "server_children JNull = Return []"
| "server_children (JArr xs) = otraverse server_node xs"
| "server_children _ = Throw ''not a list of nodes''"
  by pat_completeness auto
termination
  by (relation "measure (case_sum size size)")
    (auto simp: prop_get_size size_elem)

declare server_node.simps(1) [simp del]

definition wire_sat :: "env \<Rightarrow> wire \<Rightarrow> bool" where
  "wire_sat ev w = (case server_node (JObj w) of Return p \<Rightarrow> sat ev p | _ \<Rightarrow> False)"

definition where_sat :: "env \<Rightarrow> wire \<Rightarrow> bool" where
  "where_sat ev w = (case server_leaf True w of Return p \<Rightarrow> sat ev p | _ \<Rightarrow> False)"

text \<open>The server reads \<open>tree\<close> when it is set and only then ignores \<open>where[]\<close>, a flat AND.\<close>

definition query_sat :: "env \<Rightarrow> query \<Rightarrow> bool" where
  "query_sat ev q =
     (case q_tree q of
        Some t \<Rightarrow> wire_sat ev t
      | None \<Rightarrow> (case q_where q of None \<Rightarrow> True | Some ws \<Rightarrow> list_all (where_sat ev) ws))"

text \<open>What the search box asks for.\<close>

definition search_sat :: "env \<Rightarrow> string \<Rightarrow> string list \<Rightarrow> bool" where
  "search_sat ev search fs =
     (let needle = js_trim search;
          text_hit = list_ex (\<lambda>f. ev f Op_contains [JStr needle]) (effective_fields needle fs)
      in if needle = '''' then True
         else case parseIdList needle of
           None \<Rightarrow> text_hit
         | Some ids \<Rightarrow>
             if 1 < length ids then ev ''id'' Op_in (map JStr ids)
             else ev ''id'' Op_eq (map JStr ids) \<or> text_hit)"

section \<open>Well-formed trees and their canonical form\<close>

fun not_arity :: "predicate \<Rightarrow> bool" where
  "not_arity (Leaf l) = True"
| "not_arity (Group c cs) = ((c = Not \<longrightarrow> length cs = 1) \<and> list_all not_arity cs)"

definition canon_leaf :: "pleaf \<Rightarrow> pleaf" where
  "canon_leaf l = l\<lparr>vals := (case vals l of Some vs \<Rightarrow> if vs \<noteq> [] then Some vs else None | None \<Rightarrow> None)\<rparr>"

fun canon :: "predicate \<Rightarrow> predicate" where
  "canon (Leaf l) = Leaf (canon_leaf l)"
| "canon (Group c cs) = Group c (map canon cs)"

fun values_ok :: "predicate \<Rightarrow> bool" where
  "values_ok (Leaf l) = list_all json_ok (leaf_vals l)"
| "values_ok (Group c cs) = list_all values_ok cs"

lemma isValid_not_arity: "isValid p \<Longrightarrow> not_arity p"
  by (induction p) (auto simp: list_all_iff split: if_splits)

lemma leaf_vals_canon [simp]: "leaf_vals (canon_leaf l) = leaf_vals l"
  by (simp add: leaf_vals_def canon_leaf_def split: option.split)

lemma canon_leaf_sel [simp]: "attr (canon_leaf l) = attr l" "oper (canon_leaf l) = oper l"
  by (simp_all add: canon_leaf_def)

lemma sat_canon [simp]: "sat ev (canon p) = sat ev p"
proof (induction p)
  case (Group c cs)
  then show ?case
    by (cases c) (auto simp: list_all_iff list_ex_iff)
qed simp

section \<open>Operators\<close>

lemma opFromWire_opToWire [simp]: "opFromWire (opToWire o') = Return o'"
  by (cases o') (simp_all add: opFromWire_def WIRE_TO_OP_def)

lemma opFromWire_aliases [simp]:
  "opFromWire ''eq'' = Return Op_eq" "opFromWire ''in'' = Return Op_in"
  "opFromWire ''contains'' = Return Op_contains" "opFromWire ''='' = Return Op_eq"
  by (simp_all add: opFromWire_def WIRE_TO_OP_def)

lemma opToWire_nonempty [simp]: "opToWire o' \<noteq> []"
  by (cases o') simp_all

definition wire_names :: "op \<Rightarrow> string list" where
  "wire_names o' = opToWire o' # (if o' = Op_eq then [''eq''] else if o' = Op_ne then [''ne''] else [])"

lemma wire_names_complete: "list_all (\<lambda>(s, o'). s \<in> set (wire_names o')) WIRE_TO_OP"
  by code_simp

lemma WIRE_TO_OP_iff: "map_of WIRE_TO_OP s = Some o' \<longleftrightarrow> s \<in> set (wire_names o')"
proof
  show "map_of WIRE_TO_OP s = Some o' \<Longrightarrow> s \<in> set (wire_names o')"
    using wire_names_complete by (auto simp: list_all_iff dest: map_of_SomeD)
  have "list_all (\<lambda>s. map_of WIRE_TO_OP s = Some o') (wire_names o')"
    by (cases o') (simp_all add: WIRE_TO_OP_def wire_names_def)
  then show "s \<in> set (wire_names o') \<Longrightarrow> map_of WIRE_TO_OP s = Some o'"
    by (simp add: list_all_iff)
qed

lemma WIRE_TO_OP_no_prototype: "s \<in> set object_prototype_names \<Longrightarrow> map_of WIRE_TO_OP s = None"
proof -
  have "list_all (\<lambda>s. map_of WIRE_TO_OP s = None) object_prototype_names"
    by code_simp
  then show "s \<in> set object_prototype_names \<Longrightarrow> ?thesis"
    by (simp add: list_all_iff)
qed

text \<open>The operator decoder accepts exactly the wire names of the operators and the two v1
  aliases \<open>eq\<close> and \<open>ne\<close>, and rejects every other string by an exception, except for the names
  inherited from \<open>Object.prototype\<close>, for which it returns the inherited member.\<close>

theorem opFromWire_domain:
  "(opFromWire s = Return o' \<longleftrightarrow> s \<in> set (wire_names o')) \<and>
   (opFromWire s = OffType s \<longleftrightarrow> s \<in> set object_prototype_names) \<and>
   ((\<exists>e. opFromWire s = Throw e) \<longleftrightarrow>
      s \<notin> set object_prototype_names \<and> (\<forall>q. s \<notin> set (wire_names q)))"
proof -
  have none: "(\<forall>q. s \<notin> set (wire_names q)) \<longleftrightarrow> map_of WIRE_TO_OP s = None"
    unfolding WIRE_TO_OP_iff [symmetric] by (cases "map_of WIRE_TO_OP s") auto
  show ?thesis
    unfolding none WIRE_TO_OP_iff [symmetric]
    using WIRE_TO_OP_no_prototype [of s] by (auto simp: opFromWire_def split: option.split)
qed

section \<open>Wire round trip\<close>

lemma connective_of_text [simp]: "connective_of (JStr (connective_text c)) = Some c"
  by (cases c) (simp_all add: connective_of_def)

lemma connective_text_nonempty [simp]: "connective_text c \<noteq> []"
  by (cases c) simp_all

lemma leaf_wire_props:
  "prop_get (leaf_wire l) ''attr'' = JStr (attr l)"
  "prop_get (leaf_wire l) ''op'' = JStr (opToWire (oper l))"
  "prop_get (leaf_wire l) ''values'' =
     (case vals l of Some vs \<Rightarrow> if vs \<noteq> [] then JArr vs else JUndef | None \<Rightarrow> JUndef)"
  "\<not> has_prop (leaf_wire l) ''connective''" "\<not> has_prop (leaf_wire l) ''and''"
  "\<not> has_prop (leaf_wire l) ''value''"
  by (simp_all add: leaf_wire_def split: option.split)

lemma fromWire_leaf_wire [simp]: "fromWire (JObj (leaf_wire l)) = Return (Leaf (canon_leaf l))"
  by (simp add: leaf_wire_props leaf_fromWire_def leaf_values_def canon_leaf_def split: option.split)

lemma fromWire_group [simp]:
  "fromWire (JObj [(''connective'', JStr (connective_text c)), (''children'', JArr xs)]) =
     obind (otraverse fromWire xs) (\<lambda>children.
       if c = Not \<and> length children \<noteq> 1
       then Throw (''NOT group must have exactly one child (got '' @ nat_text (length children) @ '')'')
       else Return (Group c children))"
  by simp

declare fromWire.simps(1) [simp del]

lemma decode_roundtrip: "not_arity p \<Longrightarrow> fromWire (JObj (toWire p)) = Return (canon p)"
proof (induction p)
  case (Group c cs)
  then have "otraverse fromWire (map (\<lambda>p. JObj (toWire p)) cs) = Return (map canon cs)"
    by (intro otraverse_map_Return) (auto simp: list_all_iff)
  with Group.prems show ?case by simp
qed simp

text \<open>The server reads what the client encodes as the client does.\<close>

lemma server_leaf_wire [simp]: "server_leaf b (leaf_wire l) = Return (Leaf (canon_leaf l))"
proof -
  have "prop_get (leaf_wire l) ''value'' = JUndef" by (simp add: leaf_wire_def split: option.split)
  then show ?thesis by (simp add: leaf_wire_props server_leaf_def canon_leaf_def split: option.split)
qed

lemma server_leaf_node: "prop_get w ''connective'' = JUndef \<Longrightarrow> server_node (JObj w) = server_leaf False w"
  by (simp add: server_node.simps(1))

lemma leaf_wire_connective: "prop_get (leaf_wire l) ''connective'' = JUndef"
  by (simp add: leaf_wire_def split: option.split)

lemma server_group [simp]:
  "server_node (JObj [(''connective'', JStr (connective_text c)), (''children'', JArr xs)]) =
     obind (otraverse server_node xs) (\<lambda>children.
       if c = Not \<and> length children \<noteq> 1 then Throw ''not group must have exactly one child''
       else Return (Group c children))"
  by (simp add: server_node.simps(1))

lemma server_roundtrip: "not_arity p \<Longrightarrow> server_node (JObj (toWire p)) = Return (canon p)"
proof (induction p)
  case (Leaf l)
  then show ?case by (simp add: server_leaf_node leaf_wire_connective)
next
  case (Group c cs)
  then have "otraverse server_node (map (\<lambda>p. JObj (toWire p)) cs) = Return (map canon cs)"
    by (intro otraverse_map_Return) (auto simp: list_all_iff)
  with Group.prems show ?case by simp
qed

text \<open>C8: Encoding a predicate for the wire and decoding it again gives the predicate back (with
  an empty value list read as none), for every tree whose NOT groups have one child.\<close>

theorem fromWire_toWire:
  "not_arity p \<Longrightarrow> fromWire (JObj (toWire p)) = Return (canon p)"
  by (rule decode_roundtrip)

theorem fromWire_toWire_witness:
  "not_arity (Group Not [Leaf (mk_leaf ''status'' Op_in (Some [jint 3, jint 4]))]) \<and>
   fromWire (JObj (toWire (Group Not [Leaf (mk_leaf ''status'' Op_in (Some [jint 3, jint 4]))]))) =
     Return (Group Not [Leaf (mk_leaf ''status'' Op_in (Some [jint 3, jint 4]))])"
  using fromWire_toWire [of "Group Not [Leaf (mk_leaf ''status'' Op_in (Some [jint 3, jint 4]))]"]
  by (simp add: mk_leaf_def canon_leaf_def)

lemma leaf_fromWire_Leaf: "leaf_fromWire raw = Return p \<Longrightarrow> \<exists>l. p = Leaf l"
  by (auto simp: leaf_fromWire_def outcome_simps split: js.splits)

lemma decoded_not_arity:
  "fromWire v = Return p \<Longrightarrow> not_arity p"
  "decodeChildren v = Return ps \<Longrightarrow> list_all not_arity ps"
proof (induction v and v arbitrary: p and ps rule: fromWire_decodeChildren.induct)
  case (1 raw)
  then show ?case
    by (auto simp: fromWire.simps(1) outcome_simps split: if_splits option.splits dest!: leaf_fromWire_Leaf)
next
  case (5 xs)
  then show ?case
    by (auto simp: list_all_iff dest: otraverse_Return_set)
qed auto

text \<open>C39: Whatever the decoder accepts is well formed (NOT groups have exactly one child), and
  encoding what was decoded is read back with the same meaning under every interpretation of
  the leaves.\<close>

theorem fromWire_well_formed:
  assumes "fromWire raw = Return p"
  shows "not_arity p \<and> (\<exists>q. fromWire (JObj (toWire p)) = Return q \<and> (\<forall>ev. sat ev q = sat ev p))"
  using decoded_not_arity(1) [OF assms] decode_roundtrip by fastforce

theorem fromWire_well_formed_witness:
  "not_arity (Group And [Leaf \<lparr>attr = ''status'', oper = Op_eq, vals = Some [jint 3]\<rparr>])"
proof -
  have "fromWire (JObj [(''and'', JArr [JObj [(''attr'', JStr ''status''), (''value'', jint 3)]])]) =
      Return (Group And [Leaf \<lparr>attr = ''status'', oper = Op_eq, vals = Some [jint 3]\<rparr>])"
    by (simp add: fromWire.simps(1) is_arr_def leaf_fromWire_def leaf_values_def jint_def)
  from fromWire_well_formed [OF this] show ?thesis by blast
qed


section \<open>Top-level slots\<close>

definition members :: "predicate option \<Rightarrow> predicate list" where
  "members p = snd (rootView p)"

definition is_and :: "predicate \<Rightarrow> bool" where
  "is_and p = (case p of Group And _ \<Rightarrow> True | _ \<Rightarrow> False)"

text \<open>No direct member of the root is itself an AND group.\<close>

definition flat_root :: "predicate option \<Rightarrow> bool" where
  "flat_root p = list_all (\<lambda>c. \<not> is_and c) (members p)"

lemma members_fromRootChildren:
  "list_all (\<lambda>c. \<not> is_and c) cs \<Longrightarrow> members (fromRootChildren cs) = cs"
  by (auto simp: members_def rootView_def fromRootChildren_def is_and_def
      split: list.split predicate.splits connective.splits)

lemma sat_opt_members: "sat_opt ev p = list_all (sat ev) (members p)"
  by (auto simp: sat_opt_def members_def rootView_def split: option.split predicate.split)

lemma sat_opt_fromRootChildren [simp]: "sat_opt ev (fromRootChildren cs) = list_all (sat ev) cs"
  by (auto simp: sat_opt_def fromRootChildren_def split: list.split)

text \<open>
  A slot is a set of top-level leaves one control owns: writing a value replaces the owned
  leaves by the value's own and keeps every other member of the root, in order.
\<close>

locale predicate_slot =
  fixes owns :: "predicate \<Rightarrow> bool"
    and store :: "'v \<Rightarrow> predicate option \<Rightarrow> predicate option"
    and content :: "'v \<Rightarrow> predicate list"
    and valid :: "'v \<Rightarrow> bool"
  assumes store_members: "valid v \<Longrightarrow>
      store v p = fromRootChildren (filter (\<lambda>c. \<not> owns c) (members p) @ content v)"
    and owns_content: "valid v \<Longrightarrow> list_all owns (content v)"
    and owns_leaf: "owns c \<Longrightarrow> is_leaf c"
begin

lemma members_store:
  assumes "valid v" and "flat_root p"
  shows "members (store v p) = filter (\<lambda>c. \<not> owns c) (members p) @ content v"
proof -
  have "\<not> is_and c" if "owns c" for c
    using owns_leaf [OF that] by (auto simp: is_leaf_def is_and_def split: predicate.splits)
  then have "list_all (\<lambda>c. \<not> is_and c) (filter (\<lambda>c. \<not> owns c) (members p) @ content v)"
    using assms owns_content [OF assms(1)] by (auto simp: flat_root_def list_all_iff)
  then show ?thesis
    by (simp only: store_members [OF assms(1)] members_fromRootChildren)
qed

lemma owned_store: "valid v \<Longrightarrow> flat_root p \<Longrightarrow> filter owns (members (store v p)) = content v"
  using owns_content [of v] by (simp add: members_store filter_id_conv list_all_iff)

lemma others_store: "valid v \<Longrightarrow> flat_root p \<Longrightarrow>
    filter (\<lambda>c. \<not> owns c) (members (store v p)) = filter (\<lambda>c. \<not> owns c) (members p)"
  using owns_content [of v] by (simp add: members_store filter_empty_conv list_all_iff)

lemma flat_store: "valid v \<Longrightarrow> flat_root p \<Longrightarrow> flat_root (store v p)"
proof -
  assume a: "valid v" "flat_root p"
  have "\<not> is_and c" if "owns c" for c
    using owns_leaf [OF that] by (auto simp: is_leaf_def is_and_def split: predicate.splits)
  then show ?thesis
    using a(2) owns_content [OF a(1)]
    by (auto simp: flat_root_def members_store [OF a] list_all_iff)
qed

lemma store_store: "valid v \<Longrightarrow> valid w \<Longrightarrow> flat_root p \<Longrightarrow> store v (store w p) = store v p"
  by (simp add: store_members [of v] others_store)

lemma sat_store: "valid v \<Longrightarrow>
    sat_opt ev (store v p) \<longleftrightarrow>
      list_all (\<lambda>c. owns c \<or> sat ev c) (members p) \<and> list_all (sat ev) (content v)"
  by (auto simp: store_members list_all_iff)

end

text \<open>Two slots that own different leaves do not disturb each other.\<close>

locale slot_pair =
  a: predicate_slot ownsA storeA contentA validA + b: predicate_slot ownsB storeB contentB validB
  for ownsA storeA and contentA :: "'v \<Rightarrow> predicate list" and validA
    and ownsB storeB and contentB :: "'w \<Rightarrow> predicate list" and validB +
  assumes disjoint: "ownsA c \<Longrightarrow> \<not> ownsB c"
begin

lemma other_slot_kept:
  assumes "validB w" and "flat_root p"
  shows "filter ownsA (members (storeB w p)) = filter ownsA (members p)"
proof -
  have "filter ownsA (contentB w) = []"
    using b.owns_content [OF assms(1)] disjoint by (auto simp: filter_empty_conv list_all_iff)
  moreover have "filter ownsA (filter (\<lambda>c. \<not> ownsB c) (members p)) = filter ownsA (members p)"
    using disjoint by (induction "members p") (auto simp: filter_filter intro: filter_cong)
  ultimately show ?thesis by (simp add: b.members_store [OF assms])
qed

end

section \<open>The chip slot and the phase slot\<close>

definition chip_store :: "string \<Rightarrow> pleaf option \<Rightarrow> predicate option \<Rightarrow> predicate option" where
  "chip_store a v p = (case v of Some l \<Rightarrow> upsertTopLevelLeaf p l | None \<Rightarrow> removeTopLevelLeaf p a)"

definition chip_content :: "pleaf option \<Rightarrow> predicate list" where
  "chip_content v = (case v of Some l \<Rightarrow> [Leaf l] | None \<Rightarrow> [])"

definition chip_valid :: "string \<Rightarrow> pleaf option \<Rightarrow> bool" where
  "chip_valid a v = (case v of Some l \<Rightarrow> attr l = a \<and> oper l \<noteq> Op_hasPhase | None \<Rightarrow> True)"

definition phase_content :: "string \<Rightarrow> phase list \<Rightarrow> predicate list" where
  "phase_content a phases =
     (if phases \<noteq> []
      then [Leaf (mk_leaf a Op_hasPhase (Some (map (\<lambda>x. JStr (phase_text x)) phases)))] else [])"

interpretation chip_slot:
  predicate_slot "value_leaf_of a" "chip_store a" chip_content "chip_valid a" for a
proof (unfold_locales, goal_cases)
  case (1 v p)
  then show ?case
    by (cases v) (auto simp: chip_store_def chip_content_def chip_valid_def upsertTopLevelLeaf_def
        removeTopLevelLeaf_def members_def rootView_def fromRootChildren_def)
next
  case (2 v)
  then show ?case by (cases v) (auto simp: chip_content_def chip_valid_def value_leaf_of_def)
next
  case (3 c)
  then show ?case by (auto simp: value_leaf_of_def is_leaf_def split: predicate.splits)
qed

interpretation phase_slot:
  predicate_slot "phase_leaf_of a" "\<lambda>ph p. withTopLevelPhases p ph a" "phase_content a" "\<lambda>_. True" for a
  by unfold_locales
    (auto simp: withTopLevelPhases_def members_def phase_content_def phase_leaf_of_def mk_leaf_def
      is_leaf_def split: predicate.splits)

interpretation chip_chip:
  slot_pair "value_leaf_of a" "chip_store a" chip_content "chip_valid a"
    "phase_leaf_of b" "\<lambda>ph p. withTopLevelPhases p ph b" "phase_content b" "\<lambda>_. True" for a b
  by unfold_locales (auto simp: value_leaf_of_def phase_leaf_of_def split: predicate.splits)

interpretation phase_chip:
  slot_pair "phase_leaf_of a" "\<lambda>ph p. withTopLevelPhases p ph a" "phase_content a" "\<lambda>_. True"
    "value_leaf_of b" "chip_store b" chip_content "chip_valid b" for a b
  by unfold_locales (auto simp: value_leaf_of_def phase_leaf_of_def split: predicate.splits)

lemma first_value_leaf_filter:
  "first_value_leaf a cs =
     (case filter (value_leaf_of a) cs of Leaf l # _ \<Rightarrow> Some l | _ \<Rightarrow> None)"
  by (induction a cs rule: first_value_leaf.induct) (auto simp: value_leaf_of_def)

lemma topLevelLeafForAttr_members: "topLevelLeafForAttr p a = first_value_leaf a (members p)"
  by (auto simp: topLevelLeafForAttr_def members_def rootView_def split: option.split predicate.split)

lemma first_phase_leaf_filter:
  "first_phase_leaf a cs =
     (case filter (phase_leaf_of a) cs of Leaf l # _ \<Rightarrow> Some l | _ \<Rightarrow> None)"
  by (induction a cs rule: first_phase_leaf.induct) (auto simp: phase_leaf_of_def)

lemma topLevelPhases_members:
  "topLevelPhases p a = (case filter (phase_leaf_of a) (members p) of
     Leaf l # _ \<Rightarrow> List.map_filter phase_of (leaf_vals l) | _ \<Rightarrow> [])"
  by (auto simp: topLevelPhases_def first_phase_leaf_filter members_def leaf_vals_def rootView_def
      split: list.split predicate.split option.split)

lemma map_filter_phase_text [simp]: "List.map_filter phase_of (map (\<lambda>x. JStr (phase_text x)) ps) = ps"
proof (induction ps)
  case (Cons x ps)
  then show ?case by (cases x) (simp_all add: phase_of_def map_filter_simps)
qed (simp add: map_filter_simps)

text \<open>After a quick chip stores its leaf, reading that attribute gives the leaf back, the chips
  of every other attribute and the phase toggle of every attribute read as before, and the
  predicate means the stored leaf together with the members the chip does not own.\<close>

theorem upsert_chip:
  assumes "flat_root p" and "oper l \<noteq> Op_hasPhase"
  shows "topLevelLeafForAttr (upsertTopLevelLeaf p l) (attr l) = Some l \<and>
    (b \<noteq> attr l \<longrightarrow> topLevelLeafForAttr (upsertTopLevelLeaf p l) b = topLevelLeafForAttr p b) \<and>
    topLevelPhases (upsertTopLevelLeaf p l) c = topLevelPhases p c \<and>
    (sat_opt ev (upsertTopLevelLeaf p l) \<longleftrightarrow>
       list_all (\<lambda>m. value_leaf_of (attr l) m \<or> sat ev m) (members p) \<and> sat ev (Leaf l))"
proof (intro conjI impI)
  have up: "upsertTopLevelLeaf p l = chip_store (attr l) (Some l) p"
    by (simp add: chip_store_def)
  have v: "chip_valid (attr l) (Some l)" using assms(2) by (simp add: chip_valid_def)
  show "topLevelLeafForAttr (upsertTopLevelLeaf p l) (attr l) = Some l"
    unfolding up topLevelLeafForAttr_members first_value_leaf_filter
      chip_slot.owned_store [OF v assms(1)] by (simp add: chip_content_def)
  show "topLevelPhases (upsertTopLevelLeaf p l) c = topLevelPhases p c"
    unfolding up topLevelPhases_members phase_chip.other_slot_kept [OF v assms(1)] by (rule refl)
  show "sat_opt ev (upsertTopLevelLeaf p l) \<longleftrightarrow>
      list_all (\<lambda>m. value_leaf_of (attr l) m \<or> sat ev m) (members p) \<and> sat ev (Leaf l)"
    unfolding up chip_slot.sat_store [OF v] by (simp add: chip_content_def)
  show "topLevelLeafForAttr (upsertTopLevelLeaf p l) b = topLevelLeafForAttr p b" if "b \<noteq> attr l"
  proof -
    have "filter (value_leaf_of b) (members (upsertTopLevelLeaf p l)) =
        filter (value_leaf_of b) (filter (\<lambda>m. \<not> value_leaf_of (attr l) m) (members p))"
      unfolding up chip_slot.members_store [OF v assms(1)]
      using that by (simp add: chip_content_def value_leaf_of_def)
    also have "\<dots> = filter (value_leaf_of b) (members p)"
      using that by (auto simp: filter_filter value_leaf_of_def split: predicate.splits intro!: filter_cong)
    finally show ?thesis unfolding topLevelLeafForAttr_members first_value_leaf_filter by simp
  qed
qed

theorem upsert_chip_witness:
  "topLevelLeafForAttr (upsertTopLevelLeaf
      (Some (andOf [Leaf (mk_leaf ''status'' Op_hasPhase (Some [JStr ''active''])),
                    Leaf (mk_leaf ''status'' Op_eq (Some [jint 1]))]))
      (mk_leaf ''status'' Op_in (Some [jint 2]))) ''status'' = Some (mk_leaf ''status'' Op_in (Some [jint 2]))"
proof -
  have "flat_root (Some (andOf [Leaf (mk_leaf ''status'' Op_hasPhase (Some [JStr ''active''])),
                    Leaf (mk_leaf ''status'' Op_eq (Some [jint 1]))]))"
    by (simp add: flat_root_def members_def rootView_def andOf_def is_and_def)
  moreover have "oper (mk_leaf ''status'' Op_in (Some [jint 2])) \<noteq> Op_hasPhase"
    by (simp add: mk_leaf_def)
  moreover have "attr (mk_leaf ''status'' Op_in (Some [jint 2])) = ''status''"
    by (simp add: mk_leaf_def)
  ultimately show ?thesis using upsert_chip [THEN conjunct1] by metis
qed

text \<open>The phase toggle reads back the phases it stored, leaves every chip's value as it was,
  and storing twice is the same as storing the last value.\<close>

theorem phase_toggle:
  assumes "flat_root p"
  shows "topLevelPhases (withTopLevelPhases p phases a) a = phases \<and>
    topLevelLeafForAttr (withTopLevelPhases p phases a) b = topLevelLeafForAttr p b \<and>
    withTopLevelPhases (withTopLevelPhases p qs a) phases a = withTopLevelPhases p phases a"
proof (intro conjI)
  show "topLevelPhases (withTopLevelPhases p phases a) a = phases"
    unfolding topLevelPhases_members phase_slot.owned_store [OF TrueI assms]
    by (simp add: phase_content_def mk_leaf_def leaf_vals_def)
  show "topLevelLeafForAttr (withTopLevelPhases p phases a) b = topLevelLeafForAttr p b"
    unfolding topLevelLeafForAttr_members first_value_leaf_filter
      chip_chip.other_slot_kept [OF TrueI assms] by (rule refl)
  show "withTopLevelPhases (withTopLevelPhases p qs a) phases a = withTopLevelPhases p phases a"
    by (rule phase_slot.store_store [OF TrueI TrueI assms])
qed

theorem phase_toggle_witness:
  "topLevelPhases (withTopLevelPhases
     (Some (Leaf (mk_leaf ''status'' Op_eq (Some [jint 1])))) [Active, Triage] ''status'') ''status'' =
   [Active, Triage]"
  by (rule phase_toggle [THEN conjunct1]) (simp add: flat_root_def members_def rootView_def is_and_def)

text \<open>On a root without nested AND groups, clearing a chip removes its leaf, so that the
  attribute reads as unset, keeps the phase toggles, and means the members the chip does not own.\<close>

theorem remove_chip:
  assumes "flat_root p"
  shows "topLevelLeafForAttr (removeTopLevelLeaf p a) a = None \<and>
    topLevelPhases (removeTopLevelLeaf p a) c = topLevelPhases p c \<and>
    (sat_opt ev (removeTopLevelLeaf p a) \<longleftrightarrow> list_all (\<lambda>m. value_leaf_of a m \<or> sat ev m) (members p))"
proof (intro conjI)
  have v: "chip_valid a None" by (simp add: chip_valid_def)
  have rm: "removeTopLevelLeaf p a = chip_store a None p" by (simp add: chip_store_def)
  show "topLevelLeafForAttr (removeTopLevelLeaf p a) a = None"
    unfolding rm topLevelLeafForAttr_members first_value_leaf_filter
      chip_slot.owned_store [OF v assms] by (simp add: chip_content_def)
  show "topLevelPhases (removeTopLevelLeaf p a) c = topLevelPhases p c"
    unfolding rm topLevelPhases_members phase_chip.other_slot_kept [OF v assms] by (rule refl)
  show "sat_opt ev (removeTopLevelLeaf p a) \<longleftrightarrow> list_all (\<lambda>m. value_leaf_of a m \<or> sat ev m) (members p)"
    unfolding rm chip_slot.sat_store [OF v] by (simp add: chip_content_def)
qed

theorem remove_chip_witness:
  "topLevelLeafForAttr (removeTopLevelLeaf
     (Some (Leaf (mk_leaf ''status'' Op_eq (Some [jint 1])))) ''status'') ''status'' = None"
  by (rule remove_chip [THEN conjunct1]) (simp add: flat_root_def members_def rootView_def is_and_def)

text \<open>On a root with a nested AND group the clear can surface that group's leaf as the chip's value.\<close>

lemma remove_chip_nested:
  "topLevelLeafForAttr (removeTopLevelLeaf
     (Some (andOf [andOf [Leaf (mk_leaf ''status'' Op_eq (Some [jint 5]))],
                   Leaf (mk_leaf ''status'' Op_eq (Some [jint 3]))])) ''status'') ''status'' =
   Some (mk_leaf ''status'' Op_eq (Some [jint 5]))"
  by (simp add: removeTopLevelLeaf_def rootView_def andOf_def value_leaf_of_def mk_leaf_def
      fromRootChildren_def topLevelLeafForAttr_def)

section \<open>Stored text\<close>

lemma wire_key_not_index [simp]:
  "\<not> is_index_key ''attr''" "\<not> is_index_key ''op''" "\<not> is_index_key ''values''"
  "\<not> is_index_key ''connective''" "\<not> is_index_key ''children''"
  by (simp_all add: is_index_key_def is_digit_def)

lemma json_ok_toWire: "values_ok p \<Longrightarrow> json_ok (JObj (toWire p))"
proof (induction p)
  case (Leaf l)
  then show ?case
    by (auto simp: leaf_wire_def obj_canon_def obj_put_def index_before_def leaf_vals_def list_all_iff
        split: option.split)
next
  case (Group c cs)
  then show ?case
    by (auto simp: obj_canon_def obj_put_def index_before_def list_all_iff)
qed

lemma js_trim_keep: "\<not> is_space c \<Longrightarrow> \<not> is_space d \<Longrightarrow> js_trim (c # s @ [d]) = c # s @ [d]"
  by (simp add: js_trim_def)

lemma toWire_props:
  "prop_get (toWire p) ''where'' = JUndef" "prop_get (toWire p) ''tree'' = JUndef"
  by (cases p; auto simp: leaf_wire_def split: option.split)+

text \<open>C38: A predicate stored as text is read back. No filter (null) and the empty AND are stored as the empty text,
  and nothing else is; the empty text reads as no filter. For every other predicate whose NOT groups have one child
  and whose values are JSON (no \<open>undefined\<close>, numbers of at most thirty decimals), the text is the JSON text of its wire form, and reading it gives the
  predicate back, with an empty value list read as none.\<close>

theorem stored_predicate_roundtrip:
  assumes "\<forall>q. p = Some q \<longrightarrow> not_arity q \<and> values_ok q"
  shows "\<exists>t. predicateToJsonString p = Return (Some t) \<and>
     (t = '''' \<longleftrightarrow> p = None \<or> p = Some (Group And [])) \<and>
     (case p of None \<Rightarrow> True | Some q \<Rightarrow> q \<noteq> Group And [] \<longrightarrow> json_parse t = Return (JObj (toWire q))) \<and>
     predicateFromJsonString t = Return (case p of None \<Rightarrow> None | Some q \<Rightarrow> if q = Group And [] then None else Some (canon q))"
proof (cases "p = None \<or> p = Some (Group And [])")
  case True
  then show ?thesis by (auto simp: predicateToJsonString_def predicateFromJsonString_def)
next
  case False
  then obtain q where q: "p = Some q" "q \<noteq> Group And []" by (cases p) auto
  then have ok: "not_arity q" "values_ok q" using assms by auto
  obtain t where t: "json_stringify (JObj (toWire q)) = Return (Some t)"
    "json_parse t = Return (JObj (toWire q))" "t \<noteq> []"
    using json_roundtrip [OF json_ok_toWire [OF ok(2)]] by blast
  then obtain ts where "t = ''{'' @ ts @ ''}''"
    by (auto simp: outcome_simps)
  then have "js_trim t = t"
    using js_trim_keep [of "CHR ''{''" "CHR ''}''" ts] by (simp add: is_space_def)
  with t q decode_roundtrip [OF ok(1)] show ?thesis
    by (simp add: predicateToJsonString_def predicateFromJsonString_def catch_null_def toWire_props)
qed

theorem stored_predicate_roundtrip_witness:
  "predicateFromJsonString '''' = Return None \<and>
   (\<exists>t. predicateToJsonString (Some (Leaf (mk_leaf ''status'' Op_in (Some [JStr ''3''])))) = Return (Some t) \<and> t \<noteq> '''' \<and>
     predicateFromJsonString t = Return (Some (Leaf (mk_leaf ''status'' Op_in (Some [JStr ''3''])))))"
proof
  let ?q = "Leaf (mk_leaf ''status'' Op_in (Some [JStr ''3'']))"
  from stored_predicate_roundtrip [of None] show "predicateFromJsonString [] = Return None" by simp
  have "\<forall>q. Some ?q = Some q \<longrightarrow> not_arity q \<and> values_ok q" by (simp add: mk_leaf_def leaf_vals_def)
  from stored_predicate_roundtrip [OF this] obtain t where t: "predicateToJsonString (Some ?q) = Return (Some t)"
    "t = [] \<longleftrightarrow> Some ?q = None \<or> Some ?q = Some (Group And [])"
    "predicateFromJsonString t = Return (if ?q = Group And [] then None else Some (canon ?q))" by auto
  moreover have "canon ?q = ?q" by (simp add: mk_leaf_def canon_leaf_def)
  ultimately show "\<exists>t. predicateToJsonString (Some ?q) = Return (Some t) \<and> t \<noteq> [] \<and>
      predicateFromJsonString t = Return (Some ?q)" by auto
qed

section \<open>Queries\<close>

lemma wire_sat_toWire [simp]: "not_arity p \<Longrightarrow> wire_sat ev (toWire p) = sat ev p"
  by (simp add: wire_sat_def server_roundtrip)

lemma sat_leaf_wire [simp]: "where_sat ev (leaf_wire l) = sat ev (Leaf l)" "wire_sat ev (leaf_wire l) = sat ev (Leaf l)"
  by (simp_all add: where_sat_def wire_sat_def server_leaf_node leaf_wire_connective)

lemma server_and_node:
  "server_node (JObj (and_node ws)) = obind (otraverse server_node (map JObj ws)) (\<lambda>cs. Return (Group And cs))"
  using server_group [of And "map JObj ws"] by (simp add: and_node_def)

lemma server_or_node:
  "server_node (JObj (or_node ws)) = obind (otraverse server_node (map JObj ws)) (\<lambda>cs. Return (Group Or cs))"
  using server_group [of Or "map JObj ws"] by (simp add: or_node_def)

lemma wire_sat_and_node [simp]: "wire_sat ev (and_node ws) = list_all (wire_sat ev) ws"
proof (induction ws)
  case Nil
  then show ?case by (simp add: wire_sat_def server_and_node)
next
  case (Cons w ws)
  then show ?case
    by (cases "server_node (JObj w)"; cases "otraverse server_node (map JObj ws)")
      (auto simp: wire_sat_def server_and_node)
qed

lemma wire_sat_contains [simp]: "wire_sat ev (contains_leaf needle a) = ev a Op_contains [JStr needle]"
  by (simp add: wire_sat_def contains_leaf_def server_leaf_node server_leaf_def leaf_vals_def)

lemma where_sat_contains_single [simp]:
  "where_sat ev [(''attr'', JStr a), (''op'', JStr ''contains''), (''value'', JStr needle)] =
     ev a Op_contains [JStr needle]"
  by (simp add: where_sat_def server_leaf_def leaf_vals_def)

definition decodes :: "wire \<Rightarrow> bool" where
  "decodes w = (\<exists>p. server_node (JObj w) = Return p)"

lemma wire_sat_or_node:
  "list_all decodes ws \<Longrightarrow> wire_sat ev (or_node ws) = list_ex (wire_sat ev) ws"
proof -
  assume a: "list_all decodes ws"
  have "\<exists>cs. otraverse server_node (map JObj ws) = Return cs \<and> list_ex (sat ev) cs = list_ex (wire_sat ev) ws"
    using a by (induction ws) (auto simp: decodes_def wire_sat_def)
  then show ?thesis by (auto simp: wire_sat_def server_or_node)
qed

lemma decodes_contains [simp]: "decodes (contains_leaf needle a)"
  by (simp add: decodes_def contains_leaf_def server_leaf_node server_leaf_def)

lemma id_leaf [simp]:
  "wire_sat ev [(''attr'', JStr ''id''), (''op'', JStr ''in''), (''values'', JArr vs)] = ev ''id'' Op_in vs"
  "wire_sat ev [(''attr'', JStr ''id''), (''op'', JStr ''eq''), (''values'', JArr vs)] = ev ''id'' Op_eq vs"
  "decodes [(''attr'', JStr ''id''), (''op'', JStr ''eq''), (''values'', JArr vs)]"
  by (simp_all add: wire_sat_def decodes_def server_leaf_node server_leaf_def leaf_vals_def)

lemma list_ex_contains:
  "list_ex (wire_sat ev) (map (contains_leaf needle) fs) = list_ex (\<lambda>f. ev f Op_contains [JStr needle]) fs"
  by (simp add: list_ex_iff)

lemma effective_nonempty: "needle \<noteq> '''' \<Longrightarrow> effective_fields needle fs \<noteq> []"
  by (simp add: effective_fields_def Let_def)

text \<open>The search clause, in whichever of its two shapes the code builds it.\<close>

lemma search_tree_sat:
  assumes "search_tree (js_trim search) (effective_fields (js_trim search) fs) = Some t"
  shows "js_trim search \<noteq> [] \<and> wire_sat ev t = search_sat ev search fs"
proof -
  let ?n = "js_trim search"
  have e: "effective_fields [] fs = []" by (simp add: effective_fields_def)
  have i: "parseIdList [] = None" by (simp add: parseIdList_def is_id_list_def)
  have n: "?n \<noteq> []" using assms by (auto simp: search_tree_def e i)
  then show ?thesis
    using assms effective_nonempty [OF n, of fs]
    by (auto simp: search_tree_def search_sat_def Let_def wire_sat_or_node list_ex_contains
        list_all_iff split: option.splits if_splits)
qed

lemma search_no_tree:
  assumes "search_tree (js_trim search) (effective_fields (js_trim search) fs) = None"
  shows "(js_trim search = [] \<and> search_leaves (js_trim search) (effective_fields (js_trim search) fs) = []
            \<and> search_sat ev search fs \<and> length (effective_fields (js_trim search) fs) \<noteq> 1) \<or>
         (parseIdList (js_trim search) = None \<and> (\<exists>f. effective_fields (js_trim search) fs = [f] \<and>
            search_sat ev search fs = ev f Op_contains [JStr (js_trim search)]))"
proof (cases "js_trim search = []")
  case True
  then show ?thesis
    by (simp add: search_leaves_def effective_fields_def search_sat_def)
next
  case False
  with assms effective_nonempty [OF False, of fs]
  have p: "parseIdList (js_trim search) = None"
    and l: "length (effective_fields (js_trim search) fs) = 1"
    by (auto simp: search_tree_def split: option.splits if_splits)
      (metis One_nat_def Suc_lessI length_greater_0_conv)
  then obtain f where "effective_fields (js_trim search) fs = [f]"
    by (auto simp: length_Suc_conv)
  with p False show ?thesis by (simp add: search_sat_def Let_def)
qed

text \<open>An entry that both fields can carry once it is plural.\<close>

definition where_entry :: "wire \<Rightarrow> bool" where
  "where_entry l \<longleftrightarrow> prop_get l ''connective'' = JUndef \<and> prop_get l ''values'' \<noteq> JNull"

lemma where_entry_leaf [simp]: "where_entry (leaf_wire l)"
  by (simp add: where_entry_def leaf_wire_def split: option.split)

lemma flat_where:
  assumes "isFlatAndOfLeaves p" and "not_arity p"
  shows "\<exists>ls. toWhereLeaves p = Some ls \<and> list_all (wire_sat ev) ls = sat ev p \<and> list_all (where_sat ev) ls = sat ev p \<and>
    list_all where_entry ls"
proof (cases p)
  case (Leaf l)
  then show ?thesis by (simp add: toWhereLeaves_def isFlatAndOfLeaves_def)
next
  case (Group c cs)
  with assms have "c = And" "list_all is_leaf cs" "list_all not_arity cs"
    by (auto simp: isFlatAndOfLeaves_def split: if_splits)
  moreover from this(2) have "list_all (wire_sat ev) (map toWire cs) = list_all (sat ev) cs \<and>
      list_all (where_sat ev) (map toWire cs) = list_all (sat ev) cs \<and> list_all where_entry (map toWire cs)"
    by (induction cs) (auto simp: is_leaf_def split: predicate.splits)
  ultimately show ?thesis using Group assms by (simp add: toWhereLeaves_def comp_def)
qed

lemma query_sat_where: "query_sat ev \<lparr>q_where = some_nonempty ws, q_tree = None\<rparr> = list_all (where_sat ev) ws"
  by (simp add: query_sat_def some_nonempty_def)

lemma query_sat_tree: "query_sat ev \<lparr>q_where = w, q_tree = Some t\<rparr> = wire_sat ev t"
  by (simp add: query_sat_def)

lemma search_leaves_sat:
  "parseIdList n = None \<Longrightarrow> effective = [f] \<Longrightarrow>
   list_all (where_sat ev) (search_leaves n effective) = ev f Op_contains [JStr n]"
  by (simp add: search_leaves_def)

text \<open>The query built from the search box and the predicate asks for exactly the cards that
  satisfy both, whichever of \<open>where[]\<close> and \<open>tree\<close> it is carried in.\<close>

theorem applySearchFilter_meaning:
  assumes "\<forall>p. predicate = Some p \<longrightarrow> not_arity p"
  shows "query_sat ev (applySearchFilter search fs predicate) \<longleftrightarrow>
     search_sat ev search fs \<and> sat_opt ev predicate"
proof (cases "search_tree (js_trim search) (effective_fields (js_trim search) fs)")
  case (Some t)
  note t = search_tree_sat [OF Some, of ev]
  show ?thesis
  proof (cases predicate)
    case None
    with t show ?thesis by (simp add: applySearchFilter_def Some query_sat_tree sat_opt_def)
  next
    case P: (Some p)
    with assms have p: "not_arity p" by simp
    show ?thesis
      using t flat_where [OF _ p, of ev] p
      by (auto simp: applySearchFilter_def Let_def P Some query_sat_tree sat_opt_def)
  qed
next
  case None
  note n = search_no_tree [OF None, of ev]
  show ?thesis
  proof (cases predicate)
    case N: None
    with n show ?thesis
      by (auto simp: applySearchFilter_def None query_sat_where sat_opt_def search_leaves_sat)
  next
    case (Some p)
    with assms have p: "not_arity p" by simp
    show ?thesis
      using n flat_where [OF _ p, of ev] p
      by (auto simp: applySearchFilter_def Let_def Some None query_sat_tree query_sat_where
          sat_opt_def search_leaves_sat)
  qed
qed

theorem applySearchFilter_meaning_witness:
  "\<forall>ev. query_sat ev (applySearchFilter ''12'' [''title''] (Some (notOf (Leaf (mk_leaf ''status'' Op_in (Some [jint 3])))))) \<longleftrightarrow>
   search_sat ev ''12'' [''title''] \<and> sat_opt ev (Some (notOf (Leaf (mk_leaf ''status'' Op_in (Some [jint 3])))))"
  by (intro allI applySearchFilter_meaning) (auto simp: notOf_def)

lemma prop_get_filter: "prop_get (filter (\<lambda>(k, _). k \<noteq> k') l) k = (if k = k' then JUndef else prop_get l k)"
  by (induction l) auto

text \<open>Made plural, an entry of \<open>where[]\<close> says in a tree what it said there.\<close>

lemma wire_sat_plural: "where_entry l \<Longrightarrow> wire_sat ev (plural_leaf l) = where_sat ev l"
  by (auto simp: where_entry_def wire_sat_def where_sat_def plural_leaf_def server_leaf_node server_leaf_def prop_get_filter
      split: js.split)

text \<open>Adding a screen's scope to a query conjoins it, whether the query was a tree or a flat
  \<open>where[]\<close> of leaves, and the result no longer depends on \<open>where[]\<close>.\<close>

theorem withScopeTree_meaning:
  assumes "\<forall>ws. w = Some ws \<longrightarrow> list_all where_entry ws"
  shows "query_sat ev (withScopeTree w t None) = query_sat ev \<lparr>q_where = w, q_tree = t\<rparr> \<and>
   query_sat ev (withScopeTree w t (Some sc)) =
      (query_sat ev \<lparr>q_where = w, q_tree = t\<rparr> \<and> wire_sat ev sc) \<and>
   q_where (withScopeTree w t (Some sc)) = None"
proof -
  have "list_all (wire_sat ev) (map plural_leaf ws) = list_all (where_sat ev) ws" if "w = Some ws" for ws
    using assms that by (simp add: list_all_iff wire_sat_plural)
  then show ?thesis
    by (auto simp: withScopeTree_def query_sat_def Let_def list_all_iff split: option.split)
qed

theorem withScopeTree_meaning_witness:
  "\<forall>ev. query_sat ev (withScopeTree (Some [[(''attr'', JStr ''title''), (''op'', JStr ''contains''), (''value'', JStr ''x'')]]) None
      (Some [(''attr'', JStr ''status''), (''op'', JStr ''in''), (''values'', JArr [jint 3])])) \<longleftrightarrow>
    ev ''title'' Op_contains [JStr ''x''] \<and> ev ''status'' Op_in [jint 3]"
proof -
  let ?w = "Some [[(''attr'', JStr ''title''), (''op'', JStr ''contains''), (''value'', JStr ''x'')]]"
  have w: "\<forall>ws. ?w = Some ws \<longrightarrow> list_all where_entry ws" by (simp add: where_entry_def)
  show ?thesis
    using withScopeTree_meaning [OF w, of _ None "[(''attr'', JStr ''status''), (''op'', JStr ''in''), (''values'', JArr [jint 3])]"]
    by (simp add: query_sat_def wire_sat_def server_leaf_node server_leaf_def leaf_vals_def)
qed

lemma search_where_entries:
  assumes "\<forall>p. predicate = Some p \<longrightarrow> not_arity p"
  shows "\<forall>ws. q_where (applySearchFilter search fs predicate) = Some ws \<longrightarrow> list_all where_entry ws"
proof -
  have s: "list_all where_entry (search_leaves n e)" for n e by (simp add: search_leaves_def where_entry_def)
  have u: "list_all where_entry (case toWhereLeaves p of Some ls \<Rightarrow> ls | None \<Rightarrow> [])" if "isFlatAndOfLeaves p" "predicate = Some p" for p
    using flat_where [OF that(1), of "\<lambda>_ _ _. True"] that(2) assms by auto
  show ?thesis
    using s u by (auto simp: applySearchFilter_def Let_def some_nonempty_def split: option.splits if_splits)
qed

section \<open>Id lists\<close>

lemma id_list_loop_spec:
  "distinct seen \<Longrightarrow> length seen < MAX_ID_LIST \<Longrightarrow> list_all (\<lambda>p. js_trim p \<noteq> []) parts \<Longrightarrow>
   id_list_loop seen parts = take MAX_ID_LIST (seen @ dedup_acc seen (map js_trim parts))"
proof (induction seen parts rule: id_list_loop.induct)
  case (2 seen part parts)
  show ?case
  proof (cases "js_trim part \<in> set seen")
    case True
    with 2 show ?thesis by (simp add: Let_def)
  next
    case False
    show ?thesis
    proof (cases "MAX_ID_LIST \<le> Suc (length seen)")
      case True
      with 2 have "MAX_ID_LIST - length seen = 1" by simp
      with True 2 False show ?thesis by (simp add: Let_def)
    next
      case small: False
      then have "MAX_ID_LIST - length seen = Suc (MAX_ID_LIST - Suc (length seen))" by simp
      with small 2 False show ?thesis by (simp add: Let_def)
    qed
  qed
qed simp

text \<open>An id search yields the distinct ids of the list in order, at most 200 of them, each a
  digit string.\<close>

theorem parseIdList_ids:
  assumes "parseIdList needle = Some ids"
  shows "ids = take MAX_ID_LIST (dedup (map js_trim (js_split CHR '','' needle))) \<and>
    distinct ids \<and> 0 < length ids \<and> length ids \<le> 200 \<and>
    list_all (\<lambda>i. i \<noteq> [] \<and> list_all is_digit i) ids"
proof (intro conjI)
  let ?parts = "js_split CHR '','' needle"
  have ok: "list_all (\<lambda>p. js_trim p \<noteq> [] \<and> list_all is_digit (js_trim p)) ?parts"
    and ids: "ids = id_list_loop [] ?parts" "0 < length ids"
    using assms by (auto simp: parseIdList_def is_id_list_def Let_def split: if_splits)
  show eq: "ids = take MAX_ID_LIST (dedup (map js_trim ?parts))"
    using id_list_loop_spec [of "[]" ?parts] ok ids(1)
    by (simp add: dedup_def MAX_ID_LIST_def list_all_iff)
  show "distinct ids" "length ids \<le> 200" "0 < length ids"
    using ids(2) by (simp_all add: eq MAX_ID_LIST_def)
  have "set ids \<subseteq> set (dedup (map js_trim ?parts))" unfolding eq by (rule set_take_subset)
  then show "list_all (\<lambda>i. i \<noteq> [] \<and> list_all is_digit i) ids"
    using ok by (fastforce simp: list_all_iff)
qed

theorem parseIdList_ids_witness:
  "parseIdList '' 12 ,7,12'' = Some [''12'', ''7''] \<and> distinct [''12'', ''7'']"
proof -
  have "parseIdList '' 12 ,7,12'' = Some [''12'', ''7'']" by code_simp
  then show ?thesis using parseIdList_ids [THEN conjunct2, THEN conjunct1] by blast
qed

end
