(* ===== verification/Codec.thy ===== *)
theory Codec
  imports Json
begin

text \<open>
  The wire normalization of \<^verbatim>\<open>core/codec.ts\<close> (key renaming) and of \<^verbatim>\<open>core/dispatch.ts\<close> (bigint
  ids as JSON strings). The registries of card reference attributes are module state of the
  source; here they are a record passed to the functions that read it.
\<close>

section \<open>Key renaming\<close>

fun camelToSnake :: "string \<Rightarrow> string" where
  "camelToSnake [] = []"
| "camelToSnake (c # cs) =
     (if is_upper c then CHR ''_'' # ascii_lower c # camelToSnake cs else c # camelToSnake cs)"

fun snakeToCamel :: "string \<Rightarrow> string" where
  "snakeToCamel (c # d # cs) =
     (if c = CHR ''_'' \<and> (is_lower d \<or> is_digit d) then ascii_upper d # snakeToCamel cs
      else c # snakeToCamel (d # cs))"
| "snakeToCamel [c] = [c]"
| "snakeToCamel [] = []"

text \<open>
  \<open>out[k] = v\<close> on an object literal: the name \<open>__proto__\<close> is the prototype accessor, so the
  assignment adds no own property.
\<close>

definition assign_prop :: "string \<Rightarrow> 'a \<Rightarrow> 'a props \<Rightarrow> 'a props" where
  "assign_prop k v o' = (if k = ''__proto__'' then o' else obj_put k v o')"

definition encode_entries :: "(string \<times> js) list \<Rightarrow> js props" where
  "encode_entries es =
     foldl (\<lambda>out (k, v). assign_prop (camelToSnake k) v out) [] es"

definition decode_entries :: "(string \<times> js) list \<Rightarrow> js props" where
  "decode_entries es =
     foldl (\<lambda>out (k, v). assign_prop (snakeToCamel k) v out) [] es"

fun encodeWire :: "js \<Rightarrow> js" where
  "encodeWire (JBig i) = JStr (int_text i)"
| "encodeWire (JArr xs) = JArr (map encodeWire xs)"
| "encodeWire (JObj ps) =
     JObj (encode_entries (map (\<lambda>(k, v). (k, encodeWire v)) (filter (\<lambda>(k, v). v \<noteq> JUndef) ps)))"
| "encodeWire v = v"

fun decodeWire :: "js \<Rightarrow> js" where
  "decodeWire (JArr xs) = JArr (map decodeWire xs)"
| "decodeWire (JObj ps) = JObj (decode_entries (map (\<lambda>(k, v). (k, decodeWire v)) ps))"
| "decodeWire v = v"

section \<open>Bigint ids\<close>

definition ends_with :: "string \<Rightarrow> string \<Rightarrow> bool" where
  "ends_with t s \<longleftrightarrow> length t \<le> length s \<and> drop (length s - length t) s = t"

record registry =
  card_ref_attrs :: "string list"
  card_ref_array_attrs :: "string list"

definition registerCardRefAttr :: "string \<Rightarrow> bool \<Rightarrow> registry \<Rightarrow> registry" where
  "registerCardRefAttr name isArray r =
     (if isArray
      then r\<lparr>card_ref_array_attrs := List.insert name (card_ref_array_attrs r)\<rparr>
      else r\<lparr>card_ref_attrs := List.insert name (card_ref_attrs r)\<rparr>)"

definition clearCardRefAttrRegistry :: "registry \<Rightarrow> registry" where
  "clearCardRefAttrRegistry r = r\<lparr>card_ref_attrs := [], card_ref_array_attrs := []\<rparr>"

definition id_key :: "string \<Rightarrow> bool" where
  "id_key k \<longleftrightarrow>
     k = ''id'' \<or> ends_with ''_id'' k \<or> ends_with ''_ids'' k \<or> ends_with ''Id'' k \<or> ends_with ''Ids'' k"

definition shouldReviveAsId :: "registry \<Rightarrow> string \<Rightarrow> bool" where
  "shouldReviveAsId r k \<longleftrightarrow> id_key k \<or> k \<in> set (card_ref_attrs r)"

fun reviveScalar :: "js \<Rightarrow> js" where
  "reviveScalar (JStr s) = (if is_int_text s then JBig (int_of_text s) else JStr s)"
| "reviveScalar (JNum (Fin x)) = (if is_int_rat x then JBig \<lfloor>x\<rfloor> else JNum (Fin x))"
| "reviveScalar v = v"

definition revive_field :: "js \<Rightarrow> js" where
  "revive_field v = (case v of JArr xs \<Rightarrow> JArr (map reviveScalar xs) | _ \<Rightarrow> reviveScalar v)"

definition is_array :: "js \<Rightarrow> bool" where
  "is_array v = (case v of JArr _ \<Rightarrow> True | _ \<Rightarrow> False)"

fun reviveIds :: "registry \<Rightarrow> js \<Rightarrow> js" where
  "reviveIds r (JArr xs) = JArr (map (reviveIds r) xs)"
| "reviveIds r (JObj ps) =
     JObj (map (\<lambda>(k, v).
       (k, if shouldReviveAsId r k then revive_field v
           else if k \<in> set (card_ref_array_attrs r) \<and> is_array v then revive_field v
           else reviveIds r v)) ps)"
| "reviveIds r v = v"

text \<open>The replacer of \<open>stringifyBigInt\<close> visits every value; only bigints change.\<close>

fun big_to_text :: "js \<Rightarrow> js" where
  "big_to_text (JBig i) = JStr (int_text i)"
| "big_to_text (JArr xs) = JArr (map big_to_text xs)"
| "big_to_text (JObj ps) = JObj (map (\<lambda>(k, v). (k, big_to_text v)) ps)"
| "big_to_text v = v"

definition stringifyBigInt :: "js \<Rightarrow> string option outcome" where
  "stringifyBigInt v = json_stringify (big_to_text v)"

section \<open>Renaming round trips\<close>

lemma snakeToCamel_step [simp]: "c \<noteq> CHR ''_'' \<Longrightarrow> snakeToCamel (c # cs) = c # snakeToCamel cs"
  by (cases cs) simp_all

lemma rename_roundtrip: "CHR ''_'' \<notin> set k \<Longrightarrow> snakeToCamel (camelToSnake k) = k"
  by (induction k) auto

text \<open>The snake names that survive: no capital, and no underscore directly before a digit.\<close>

fun snake_ok :: "string \<Rightarrow> bool" where
  "snake_ok (c # d # cs) = (\<not> is_upper c \<and> \<not> (c = CHR ''_'' \<and> is_digit d) \<and> snake_ok (d # cs))"
| "snake_ok [c] = (\<not> is_upper c)"
| "snake_ok [] = True"

lemma snake_ok_tl: "snake_ok (c # cs) \<Longrightarrow> snake_ok cs"
  by (cases cs) auto

lemma snake_roundtrip: "snake_ok k \<Longrightarrow> camelToSnake (snakeToCamel k) = k"
  by (induction k rule: snakeToCamel.induct) (auto dest: snake_ok_tl)

lemma camelToSnake_proto: "CHR ''_'' \<notin> set k \<Longrightarrow> camelToSnake k \<noteq> ''__proto__''"
proof
  assume k: "CHR ''_'' \<notin> set k" and "camelToSnake k = ''__proto__''"
  then have "k = snakeToCamel ''__proto__''" using rename_roundtrip [OF k] by simp
  moreover have "snakeToCamel ''__proto__'' = ''_Proto__''" by code_simp
  ultimately show False using k by simp
qed

lemma snakeToCamel_proto: "CHR ''_'' \<notin> set k \<Longrightarrow> snakeToCamel (camelToSnake k) \<noteq> ''__proto__''"
  by (auto simp: rename_roundtrip)

lemma camelToSnake_digits: "list_all is_digit (camelToSnake k) \<longleftrightarrow> list_all is_digit k"
  by (induction k) (auto simp: char_classes)

lemma camelToSnake_digits_id: "list_all is_digit k \<Longrightarrow> camelToSnake k = k"
  by (induction k) (auto simp: char_classes)

lemma is_index_camelToSnake: "is_index_key (camelToSnake k) \<longleftrightarrow> is_index_key k"
  by (cases "list_all is_digit k") (auto simp: is_index_key_def camelToSnake_digits camelToSnake_digits_id)

lemma index_before_camelToSnake:
  "index_before (camelToSnake k) (camelToSnake k') \<longleftrightarrow> index_before k k'"
proof -
  have "is_index_key k \<Longrightarrow> camelToSnake k = k" for k
    by (rule camelToSnake_digits_id) (simp add: is_index_key_def)
  then show ?thesis
    by (auto simp: index_before_def is_index_camelToSnake)
qed

lemma foldl_assign_sorted:
  "obj_sorted (acc @ ps) \<Longrightarrow> \<forall>k \<in> set (map fst ps). k \<noteq> ''__proto__'' \<Longrightarrow>
   foldl (\<lambda>out (k, v). assign_prop k v out) acc ps = acc @ ps"
proof (induction ps arbitrary: acc)
  case (Cons p ps)
  obtain k v where p: "p = (k, v)" by (cases p)
  have "obj_sorted (acc @ [(k, v)])"
    using Cons.prems(1) p by (auto simp: obj_sorted_def distinct_keys_def sorted_wrt_append)
  then have "obj_put k v acc = acc @ [(k, v)]"
    using foldl_put_sorted [of acc "[(k, v)]"] by simp
  with Cons p show ?case by (simp add: assign_prop_def)
qed simp

lemma foldl_rename:
  "foldl (\<lambda>out (k, v). assign_prop (g k) v out) acc ps =
   foldl (\<lambda>out (k, v). assign_prop k v out) acc (map (\<lambda>(k, v). (g k, v)) ps)"
  by (induction ps arbitrary: acc) auto

section \<open>Value round trip\<close>

text \<open>Client values: canonical objects whose keys have no underscore.\<close>

fun camel_ok :: "js \<Rightarrow> bool" where
  "camel_ok (JArr xs) = (\<forall>x \<in> set xs. camel_ok x)"
| "camel_ok (JObj ps) =
     (obj_sorted ps \<and> (\<forall>p \<in> set ps. CHR ''_'' \<notin> set (fst p) \<and> camel_ok (snd p)))"
| "camel_ok _ = True"

text \<open>What is left of a value after a trip over the wire: bigints as text, undefined fields gone.\<close>

fun wire_image :: "js \<Rightarrow> js" where
  "wire_image (JBig i) = JStr (int_text i)"
| "wire_image (JArr xs) = JArr (map wire_image xs)"
| "wire_image (JObj ps) =
     JObj (map (\<lambda>(k, v). (k, wire_image v)) (filter (\<lambda>(k, v). v \<noteq> JUndef) ps))"
| "wire_image v = v"

lemma obj_sorted_camelToSnake:
  assumes "obj_sorted ps" and "\<forall>k \<in> set (map fst ps). CHR ''_'' \<notin> set k"
  shows "obj_sorted (map (\<lambda>(k, v). (camelToSnake k, v)) ps)"
proof -
  have fst: "map fst (map (\<lambda>(k, v). (camelToSnake k, v)) ps) = map camelToSnake (map fst ps)"
    by (induction ps) auto
  have "inj_on camelToSnake (set (map fst ps))"
    using assms(2) by (metis inj_onI rename_roundtrip)
  then have "distinct (map camelToSnake (map fst ps))"
    using assms(1) by (simp only: obj_sorted_def distinct_keys_def distinct_map)
  then show ?thesis
    using assms(1) unfolding obj_sorted_def distinct_keys_def fst
    by (simp add: sorted_wrt_map index_before_camelToSnake)
qed

lemma encode_entries_camel:
  assumes "obj_sorted ps" and "\<forall>k \<in> set (map fst ps). CHR ''_'' \<notin> set k"
  shows "encode_entries ps = map (\<lambda>(k, v). (camelToSnake k, v)) ps"
proof -
  have p: "\<forall>k \<in> set (map fst (map (\<lambda>(k, v). (camelToSnake k, v)) ps)). k \<noteq> ''__proto__''"
    using assms(2) camelToSnake_proto by fastforce
  show ?thesis
    unfolding encode_entries_def foldl_rename [of camelToSnake]
    using foldl_assign_sorted [OF _ p, of "[]"] obj_sorted_camelToSnake [OF assms] by simp
qed

lemma decode_entries_snake:
  assumes "obj_sorted ps" and "\<forall>k \<in> set (map fst ps). CHR ''_'' \<notin> set k"
  shows "decode_entries (map (\<lambda>(k, v). (camelToSnake k, f k v)) ps) = map (\<lambda>(k, v). (k, f k v)) ps"
proof -
  have renamed: "map (\<lambda>(k, v). (snakeToCamel k, v)) (map (\<lambda>(k, v). (camelToSnake k, f k v)) ps) =
      map (\<lambda>(k, v). (k, f k v)) ps"
    using assms(2) by (auto simp: rename_roundtrip)
  have p: "\<forall>k \<in> set (map fst (map (\<lambda>(k, v). (k, f k v)) ps)). k \<noteq> ''__proto__''"
    using assms(2) by fastforce
  show ?thesis
    unfolding decode_entries_def foldl_rename [of snakeToCamel] renamed
    using foldl_assign_sorted [OF _ p, of "[]"] assms(1) by simp
qed

lemma wire_value: "camel_ok v \<Longrightarrow> decodeWire (encodeWire v) = wire_image v"
proof (induction v rule: encodeWire.induct)
  case (3 ps)
  define qs where "qs = filter (\<lambda>(k, v). v \<noteq> JUndef) ps"
  have qs: "obj_sorted qs" "\<forall>k \<in> set (map fst qs). CHR ''_'' \<notin> set k"
    "\<forall>p \<in> set qs. decodeWire (encodeWire (snd p)) = wire_image (snd p)"
    using 3 by (fastforce simp: qs_def intro: obj_sorted_filter)+
  have keys: "\<forall>k \<in> set (map fst (map (\<lambda>(k, v). (k, encodeWire v)) qs)). CHR ''_'' \<notin> set k"
    using qs(2) by fastforce
  have "encodeWire (JObj ps) = JObj (encode_entries (map (\<lambda>(k, v). (k, encodeWire v)) qs))"
    by (simp add: qs_def)
  also have "\<dots> = JObj (map (\<lambda>(k, v). (camelToSnake k, encodeWire v)) qs)"
    by (simp only: encode_entries_camel [OF _ keys] obj_sorted_map_values qs(1))
      (simp add: case_prod_unfold)
  finally have "decodeWire (encodeWire (JObj ps)) =
      JObj (decode_entries (map (\<lambda>(k, v). (camelToSnake k, decodeWire (encodeWire v))) qs))"
    by (simp add: case_prod_unfold comp_def)
  also have "\<dots> = JObj (map (\<lambda>(k, v). (k, decodeWire (encodeWire v))) qs)"
    using decode_entries_snake [OF qs(1,2)] by simp
  also have "map (\<lambda>(k, v). (k, decodeWire (encodeWire v))) qs = map (\<lambda>(k, v). (k, wire_image v)) qs"
    using qs(3) by auto
  finally show ?case by (simp add: qs_def)
qed auto

lemma stringify_elems_total: "(\<And>x. x \<in> set xs \<Longrightarrow> \<exists>t. json_stringify x = Return t) \<Longrightarrow> \<exists>ts. json_elems xs = Return ts"
proof (induction xs)
  case (Cons x xs)
  then obtain t ts where "json_stringify x = Return t" "json_elems xs = Return ts"
    by (meson list.set_intros)
  then show ?case by simp
qed simp

lemma stringify_props_total: "(\<And>p. p \<in> set ps \<Longrightarrow> \<exists>t. json_stringify (snd p) = Return t) \<Longrightarrow> \<exists>ts. json_props ps = Return ts"
proof (induction ps)
  case (Cons p ps)
  obtain k v where p: "p = (k, v)" by (cases p)
  from Cons p obtain t ts where "json_stringify v = Return t" "json_props ps = Return ts"
    by (metis list.set_intros snd_conv)
  with p show ?case by simp
qed simp

lemma stringifyBigInt_total: "\<exists>t. stringifyBigInt v = Return t"
  unfolding stringifyBigInt_def
proof (induction v rule: big_to_text.induct)
  case (2 xs)
  then have "\<exists>ts. json_elems (map big_to_text xs) = Return ts"
    by (intro stringify_elems_total) auto
  then show ?case by auto
next
  case (3 ps)
  then have "\<exists>ts. json_props (map (\<lambda>(k, v). (k, big_to_text v)) ps) = Return ts"
    by (intro stringify_props_total) fastforce
  then show ?case by auto
qed simp_all

text \<open>A client value that goes over the wire and back keeps every field: the camelCase keys
  return exactly, bigints return as their decimal text, and only undefined fields are gone.\<close>

theorem decodeWire_encodeWire:
  assumes "camel_ok v"
  shows "decodeWire (encodeWire v) = wire_image v"
  using assms by (rule wire_value)

theorem decodeWire_encodeWire_witness:
  "decodeWire (encodeWire (JObj [(''imapHost'', JStr ''mail''), (''imapPort2'', jint 993), (''ownerId'', JBig 7), (''note'', JUndef)])) =
     JObj [(''imapHost'', JStr ''mail''), (''imapPort2'', jint 993), (''ownerId'', JStr ''7'')]"
proof -
  have "camel_ok (JObj [(''imapHost'', JStr ''mail''), (''imapPort2'', jint 993), (''ownerId'', JBig 7), (''note'', JUndef)])"
    by (simp add: obj_sorted_def distinct_keys_def jint_def index_before_def is_index_key_def is_digit_def)
  moreover have "int_text 7 = ''7''" by code_simp
  ultimately show ?thesis
    using decodeWire_encodeWire by (simp add: jint_def del: encodeWire.simps decodeWire.simps)
qed

text \<open>A wire name without capitals and without an underscore before a digit survives the
  client: converting it to camelCase and back gives the same name; a name with an underscore
  before a digit does not survive.\<close>

theorem camelToSnake_snakeToCamel:
  "(snake_ok k \<longrightarrow> camelToSnake (snakeToCamel k) = k) \<and>
   (CHR ''_'' \<notin> set k \<longrightarrow> snakeToCamel (camelToSnake k) = k) \<and>
   camelToSnake (snakeToCamel ''line_2'') = ''line2''"
proof (intro conjI impI)
  show "camelToSnake (snakeToCamel ''line_2'') = ''line2''" by code_simp
qed (simp_all add: snake_roundtrip rename_roundtrip)

theorem camelToSnake_snakeToCamel_witness:
  "camelToSnake (snakeToCamel ''imap_host'') = ''imap_host'' \<and> snakeToCamel (camelToSnake ''imapHost'') = ''imapHost''"
proof -
  have "snake_ok ''imap_host''" by (simp add: is_upper_def is_digit_def)
  moreover have "CHR ''_'' \<notin> set ''imapHost''" by simp
  ultimately show ?thesis using camelToSnake_snakeToCamel by blast
qed

section \<open>Id round trip\<close>

text \<open>Values without bigints, as \<open>JSON.parse\<close> gives them.\<close>

fun no_big :: "js \<Rightarrow> bool" where
  "no_big (JBig i) = False"
| "no_big (JArr xs) = (\<forall>x \<in> set xs. no_big x)"
| "no_big (JObj ps) = (\<forall>p \<in> set ps. no_big (snd p))"
| "no_big v = True"

lemma big_to_text_id: "no_big v \<Longrightarrow> big_to_text v = v"
proof (induction v)
  case (JArr xs)
  then show ?case by (simp add: map_idI)
next
  case (JObj ps)
  then have "map (\<lambda>(k, v). (k, big_to_text v)) ps = ps"
    by (intro map_idI) (fastforce)
  then show ?case by simp
qed simp_all

lemma reviveScalar_idem [simp]: "reviveScalar (reviveScalar v) = reviveScalar v"
  by (cases v rule: reviveScalar.cases) auto

lemma revive_field_idem [simp]: "revive_field (revive_field v) = revive_field v"
  by (cases v rule: reviveScalar.cases) (auto simp: revive_field_def)

lemma is_array_revive_field [simp]: "is_array (revive_field v) = is_array v"
  by (cases v rule: reviveScalar.cases) (auto simp: revive_field_def is_array_def)

lemma is_array_reviveIds [simp]: "is_array (reviveIds r v) = is_array v"
  by (cases v) (auto simp: is_array_def)

lemma reviveScalar_text: "no_big v \<Longrightarrow> reviveScalar (big_to_text (reviveScalar v)) = reviveScalar v"
proof (cases "big_to_text v = v")
  case True
  then show ?thesis by (cases v rule: reviveScalar.cases) auto
qed (simp add: big_to_text_id)

lemma revive_field_text: "no_big v \<Longrightarrow> revive_field (big_to_text (revive_field v)) = revive_field v"
proof (cases "is_array v")
  case True
  assume n: "no_big v"
  from True obtain xs where v: "v = JArr xs" by (auto simp: is_array_def split: js.splits)
  then show ?thesis using n by (auto simp: revive_field_def reviveScalar_text)
next
  case False
  assume n: "no_big v"
  have "revive_field v = reviveScalar v" if "\<not> is_array v" for v
    using that by (cases v) (auto simp: revive_field_def is_array_def)
  moreover have "\<not> is_array (big_to_text (reviveScalar v))"
    using False by (cases v rule: reviveScalar.cases) (auto simp: is_array_def)
  ultimately show ?thesis using False reviveScalar_text [OF n] by simp
qed

lemma is_array_big_to_text [simp]: "is_array (big_to_text v) = is_array v"
  by (cases v) (auto simp: is_array_def)

lemma revive_idem: "reviveIds r (reviveIds r v) = reviveIds r v"
proof (induction v)
  case (JObj ps)
  then show ?case by (fastforce simp: case_prod_unfold)
qed auto

lemma revive_text: "no_big v \<Longrightarrow> reviveIds r (big_to_text (reviveIds r v)) = reviveIds r v"
proof (induction v)
  case (JObj ps)
  have "\<forall>p \<in> set ps. reviveIds r (big_to_text (reviveIds r (snd p))) = reviveIds r (snd p)"
    using JObj by (metis no_big.simps(3) prod.exhaust_sel snds.intros)
  moreover have "\<forall>p \<in> set ps. revive_field (big_to_text (revive_field (snd p))) = revive_field (snd p)"
    using JObj.prems revive_field_text by simp
  ultimately show ?case by (auto simp: case_prod_unfold)
qed auto

lemma json_ok_no_big: "json_ok v \<Longrightarrow> no_big v"
  by (induction v rule: json_ok.induct) auto

lemma json_ok_reviveScalar: "json_ok v \<Longrightarrow> json_ok (big_to_text (reviveScalar v))"
proof -
  assume v: "json_ok v"
  then have "big_to_text v = v" by (simp add: json_ok_no_big big_to_text_id)
  with v show ?thesis by (cases v rule: reviveScalar.cases) auto
qed

lemma json_ok_revive_field: "json_ok v \<Longrightarrow> json_ok (big_to_text (revive_field v))"
  using json_ok_reviveScalar [of v]
  by (cases v) (auto simp: revive_field_def json_ok_reviveScalar)

lemma json_ok_revive: "json_ok v \<Longrightarrow> json_ok (big_to_text (reviveIds r v))"
proof (induction v)
  case (JObj ps)
  have "\<forall>p \<in> set ps. json_ok (big_to_text (reviveIds r (snd p))) \<and> json_ok (big_to_text (revive_field (snd p)))"
    using JObj json_ok_revive_field by (metis json_ok.simps(11) prod.exhaust_sel snds.intros)
  moreover have "obj_sorted ps" using JObj.prems by (simp add: obj_canon_iff_sorted)
  ultimately show ?case
    by (auto simp: obj_canon_iff_sorted simp del: map_map)
next
  case (JNum n)
  then show ?case by (cases n) auto
qed auto

text \<open>C25: Reviving ids is idempotent, and a revived server value survives the trip back: its
  bigint-aware JSON text always exists, parses, and revives to the same value.\<close>

theorem reviveIds_roundtrip:
  "reviveIds r (reviveIds r v) = reviveIds r v \<and>
   (json_ok v \<longrightarrow> (\<exists>t w. stringifyBigInt (reviveIds r v) = Return (Some t) \<and>
      json_parse t = Return w \<and> reviveIds r w = reviveIds r v))"
proof (intro conjI impI)
  assume v: "json_ok v"
  from json_roundtrip [OF json_ok_revive [OF this]] revive_text [OF json_ok_no_big [OF v]]
  show "\<exists>t w. stringifyBigInt (reviveIds r v) = Return (Some t) \<and>
      json_parse t = Return w \<and> reviveIds r w = reviveIds r v"
    unfolding stringifyBigInt_def by metis
qed (rule revive_idem)

theorem reviveIds_roundtrip_witness:
  "\<exists>t w. stringifyBigInt (JObj [(''card_id'', JBig 12), (''n'', jint 3)]) = Return (Some t) \<and>
     json_parse t = Return w \<and>
     reviveIds \<lparr>card_ref_attrs = [], card_ref_array_attrs = []\<rparr> w = JObj [(''card_id'', JBig 12), (''n'', jint 3)]"
proof -
  define r where "r = \<lparr>card_ref_attrs = [], card_ref_array_attrs = []\<rparr>"
  define v where "v = JObj [(''card_id'', JStr ''12''), (''n'', jint 3)]"
  have "json_ok v"
    by (simp add: v_def jint_def obj_canon_def obj_put_def index_before_def is_index_key_def is_digit_def
        is_int_rat_def)
  moreover have "reviveIds r v = JObj [(''card_id'', JBig 12), (''n'', jint 3)]"
    by (simp add: v_def r_def shouldReviveAsId_def id_key_def ends_with_def jint_def revive_field_def
        is_int_text_def is_digit_def int_of_text_def digits_val_def digit_val_def)
  ultimately show ?thesis using reviveIds_roundtrip [of r v] unfolding r_def by metis
qed

end
