(* ===== verification/Dispatch.thy ===== *)
theory Dispatch
  imports Codec
begin

text \<open>
  The batch dispatcher (\<^verbatim>\<open>core/dispatch.ts\<close>): requests queue up, a scheduled flush sends one
  batch in which identical reads are folded into one sub-request, and the reply (or the
  failure) is delivered to every caller of the batch.

  The code outside the dispatcher is the record \<open>host\<close>: the callers' \<open>alive\<close>, \<open>decode\<close>,
  \<open>onOk\<close> and \<open>onFault\<close> functions, found by the id of their request, the registered fault
  listeners, and the source of fresh ids. A callback takes the world of the application and
  yields the new world, the requests it issues while it runs, and the text of the exception it
  escapes with, if any. The transport's answer is an argument of the step that resumes a flush.
\<close>

section \<open>Wire types\<close>

record subrequest =
  sub_id :: string
  sub_type :: string
  sub_endpoint :: string
  sub_action :: string
  sub_ref :: "js props option"
  sub_key :: "js props option"
  sub_data :: js

record suberror =
  err_code :: string
  err_message :: string
  err_detail :: js

record subresponse =
  res_id :: string
  res_ok :: bool
  res_data :: js
  res_error :: "suberror option"

datatype fault_kind = KSub_error | KAborted | KHttp | KDecode | KNetwork

datatype api_fault =
    Sub_error string string js
  | Aborted string
  | Http int
  | Decode string
  | Network string

fun kind_of :: "api_fault \<Rightarrow> fault_kind" where
  "kind_of (Sub_error c m d) = KSub_error"
| "kind_of (Aborted r) = KAborted"
| "kind_of (Http s) = KHttp"
| "kind_of (Decode m) = KDecode"
| "kind_of (Network m) = KNetwork"

text \<open>An absent \<open>data\<close> or \<open>detail\<close> is \<open>JUndef\<close>.\<close>

record request_args =
  arg_endpoint :: string
  arg_action :: string
  arg_type :: "string option"
  arg_ref :: "js props option"
  arg_key :: "js props option"
  arg_data :: js
  arg_dedup :: bool

record pending =
  sub :: subrequest
  p_dedup :: bool

abbreviation pid :: "pending \<Rightarrow> string" where
  "pid p \<equiv> sub_id (sub p)"

section \<open>State\<close>

text \<open>A flush that waits for the transport: the batch, the id whose answer each caller gets, the body.\<close>

record flight =
  batch :: "pending list"
  respIdOf :: "(string \<times> string) list"
  body :: string

text \<open>\<open>calls\<close> is the trace of the calls that left the dispatcher, oldest first.\<close>

datatype dcall = Emitted nat api_fault | Called_ok string js | Called_fault string api_fault

record 'w disp =
  queue :: "pending list"
  flushScheduled :: bool
  scheduled :: nat
  faultListeners :: "(fault_kind \<times> nat list) list"
  inFlight :: int
  awaiting :: "flight list"
  drawn :: nat
  calls :: "dcall list"
  world :: 'w

type_synonym 'w reaction = "'w \<times> request_args list \<times> string option"

record 'w host =
  newId :: "nat \<Rightarrow> string"
  alive :: "string \<Rightarrow> 'w \<Rightarrow> bool"
  decode :: "string \<Rightarrow> js \<Rightarrow> string + js"
  onOk :: "string \<Rightarrow> js \<Rightarrow> 'w \<Rightarrow> 'w reaction"
  onFault :: "string \<Rightarrow> api_fault \<Rightarrow> 'w \<Rightarrow> 'w reaction"
  listener :: "nat \<Rightarrow> api_fault \<Rightarrow> 'w \<Rightarrow> 'w reaction"

definition init_disp :: "'w \<Rightarrow> 'w disp" where
  "init_disp w = \<lparr>queue = [], flushScheduled = False, scheduled = 0, faultListeners = [], inFlight = 0,
     awaiting = [], drawn = 0, calls = [], world = w\<rparr>"

section \<open>Requests\<close>

definition register_onFault :: "fault_kind \<Rightarrow> nat \<Rightarrow> 'w disp \<Rightarrow> 'w disp" where
  "register_onFault k l d =
     d\<lparr>faultListeners := map_put k
        ((case map_of (faultListeners d) k of None \<Rightarrow> [] | Some b \<Rightarrow> b) @ [l]) (faultListeners d)\<rparr>"

definition maybeScheduleFlush :: "'w disp \<Rightarrow> 'w disp" where
  "maybeScheduleFlush d =
     (if flushScheduled d then d else d\<lparr>flushScheduled := True, scheduled := Suc (scheduled d)\<rparr>)"

definition make_sub :: "string \<Rightarrow> request_args \<Rightarrow> subrequest" where
  "make_sub i a = \<lparr>sub_id = i, sub_type = (case arg_type a of None \<Rightarrow> ''data'' | Some t \<Rightarrow> t),
     sub_endpoint = arg_endpoint a, sub_action = arg_action a,
     sub_ref = arg_ref a, sub_key = arg_key a, sub_data = arg_data a\<rparr>"

definition request :: "'w host \<Rightarrow> request_args \<Rightarrow> 'w disp \<Rightarrow> string \<times> 'w disp" where
  "request h a d =
     (let i = newId h (drawn d);
          p = \<lparr>sub = make_sub i a,
               p_dedup = (arg_dedup a \<and> arg_ref a = None \<and> arg_key a = None)\<rparr>
      in (i, maybeScheduleFlush
               (d\<lparr>drawn := Suc (drawn d), queue := queue d @ [p], inFlight := inFlight d + 1\<rparr>)))"

text \<open>Running a callback: it changes the world, issues requests, and may throw.\<close>

definition react :: "'w host \<Rightarrow> 'w reaction \<Rightarrow> 'w disp \<Rightarrow> 'w disp \<times> string option" where
  "react h r d =
     (case r of (w, rs, e) \<Rightarrow> (foldl (\<lambda>d a. snd (request h a d)) (d\<lparr>world := w\<rparr>) rs, e))"

definition log_call :: "dcall \<Rightarrow> 'w disp \<Rightarrow> 'w disp" where
  "log_call c d = d\<lparr>calls := calls d @ [c]\<rparr>"

definition call_fault :: "'w host \<Rightarrow> string \<Rightarrow> api_fault \<Rightarrow> 'w disp \<Rightarrow> 'w disp \<times> string option" where
  "call_fault h i f d = react h (onFault h i f (world d)) (log_call (Called_fault i f) d)"

definition call_ok :: "'w host \<Rightarrow> string \<Rightarrow> js \<Rightarrow> 'w disp \<Rightarrow> 'w disp \<times> string option" where
  "call_ok h i v d = react h (onOk h i v (world d)) (log_call (Called_ok i v) d)"

text \<open>An exception of a listener is swallowed.\<close>

fun emit_loop :: "'w host \<Rightarrow> nat list \<Rightarrow> api_fault \<Rightarrow> 'w disp \<Rightarrow> 'w disp" where
  "emit_loop h [] f d = d"
| "emit_loop h (l # ls) f d =
     emit_loop h ls f (fst (react h (listener h l f (world d)) (log_call (Emitted l f) d)))"

definition emitFault :: "'w host \<Rightarrow> api_fault \<Rightarrow> 'w disp \<Rightarrow> 'w disp" where
  "emitFault h f d =
     (case map_of (faultListeners d) (kind_of f) of None \<Rightarrow> d | Some ls \<Rightarrow> emit_loop h ls f d)"

definition fault_if_alive :: "'w host \<Rightarrow> string \<Rightarrow> api_fault \<Rightarrow> 'w disp \<Rightarrow> 'w disp \<times> string option" where
  "fault_if_alive h i f d = (if alive h i (world d) then call_fault h i f d else (d, None))"

text \<open>A throwing \<open>onFault\<close> ends the loop: the exception leaves \<open>failAll\<close>.\<close>

fun fail_loop :: "'w host \<Rightarrow> pending list \<Rightarrow> api_fault \<Rightarrow> 'w disp \<Rightarrow> 'w disp \<times> string option" where
  "fail_loop h [] f d = (d, None)"
| "fail_loop h (p # ps) f d =
     (case fault_if_alive h (pid p) f d of
        (d', None) \<Rightarrow> fail_loop h ps f d'
      | (d', Some e) \<Rightarrow> (d', Some e))"

definition release :: "nat \<Rightarrow> 'w disp \<Rightarrow> 'w disp" where
  "release n d = d\<lparr>inFlight := inFlight d - int n\<rparr>"

definition failAll :: "'w host \<Rightarrow> pending list \<Rightarrow> api_fault \<Rightarrow> 'w disp \<Rightarrow> 'w disp \<times> string option" where
  "failAll h ps f d =
     (case fail_loop h ps f d of
        (d', None) \<Rightarrow> (release (length ps) d', None)
      | (d', Some e) \<Rightarrow> (d', Some e))"

section \<open>Sending\<close>

definition trimSub :: "subrequest \<Rightarrow> js props" where
  "trimSub s =
     [(''id'', JStr (sub_id s)), (''type'', JStr (sub_type s)), (''endpoint'', JStr (sub_endpoint s)),
      (''action'', JStr (sub_action s))]
     @ (case sub_ref s of Some r \<Rightarrow> if r \<noteq> [] then [(''ref'', JObj r)] else [] | None \<Rightarrow> [])
     @ (case sub_key s of Some k \<Rightarrow> if k \<noteq> [] then [(''key'', JObj k)] else [] | None \<Rightarrow> [])
     @ (if sub_data s \<noteq> JNull \<and> sub_data s \<noteq> JUndef then [(''data'', sub_data s)] else [])"

text \<open>A template literal prints \<open>undefined\<close> where \<open>stringifyBigInt\<close> gives no text.\<close>

definition big_text :: "js \<Rightarrow> string" where
  "big_text v = (case stringifyBigInt v of Return (Some t) \<Rightarrow> t | _ \<Rightarrow> ''undefined'')"

definition fold_key :: "subrequest \<Rightarrow> string" where
  "fold_key s = sub_endpoint s @ '' '' @ sub_action s @ '' '' @
     big_text (if sub_data s = JUndef then JNull else sub_data s)"

fun fold_reads ::
  "pending list \<Rightarrow> (string \<times> string) list \<Rightarrow> (string \<times> string) list \<Rightarrow> subrequest list
    \<Rightarrow> (string \<times> string) list \<times> subrequest list"
where
  "fold_reads [] resp leaders wire = (resp, wire)"
| "fold_reads (p # ps) resp leaders wire =
     (let s = sub p; k = fold_key s in
      if p_dedup p then
        (case map_of leaders k of
           Some leader \<Rightarrow> fold_reads ps (map_put (sub_id s) leader resp) leaders wire
         | None \<Rightarrow> fold_reads ps (map_put (sub_id s) (sub_id s) resp)
                     (map_put k (sub_id s) leaders) (wire @ [s]))
      else fold_reads ps (map_put (sub_id s) (sub_id s) resp) leaders (wire @ [s]))"

definition flush_body :: "subrequest list \<Rightarrow> string" where
  "flush_body wire = big_text (JObj [(''subrequests'', JArr (map (\<lambda>s. JObj (trimSub s)) wire))])"

text \<open>The part of \<open>flush\<close> up to \<open>await transport.send\<close>.\<close>

definition flush_start :: "'w disp \<Rightarrow> 'w disp" where
  "flush_start d =
     (if queue d = [] then d\<lparr>flushScheduled := False\<rparr>
      else (case fold_reads (queue d) [] [] [] of
        (resp, wire) \<Rightarrow>
          d\<lparr>flushScheduled := False, queue := [],
             awaiting := awaiting d @ [\<lparr>batch = queue d, respIdOf = resp, body = flush_body wire\<rparr>]\<rparr>))"

section \<open>The reply\<close>

datatype reply = Rejected string | Replied int string

text \<open>The fields of a truthy value with \<open>typeof v === 'object'\<close>; an array has none of the fields read.\<close>

definition object_fields :: "js \<Rightarrow> js props option" where
  "object_fields v = (case v of JObj ps \<Rightarrow> Some ps | JArr xs \<Rightarrow> Some [] | _ \<Rightarrow> None)"

definition string_or_empty :: "js \<Rightarrow> string" where
  "string_or_empty v = (case v of JStr s \<Rightarrow> s | _ \<Rightarrow> '''')"

definition suberrorFromJson :: "js props \<Rightarrow> suberror" where
  "suberrorFromJson obj =
     \<lparr>err_code = string_or_empty (prop_get obj ''code''),
      err_message = string_or_empty (prop_get obj ''message''),
      err_detail = (if prop_get obj ''detail'' = JNull then JUndef else prop_get obj ''detail'')\<rparr>"

definition subResponseFromJson :: "js props \<Rightarrow> subresponse" where
  "subResponseFromJson raw =
     \<lparr>res_id = string_or_empty (prop_get raw ''id''),
      res_ok = (prop_get raw ''ok'' = JBool True),
      res_data = prop_get raw ''data'',
      res_error = map_option suberrorFromJson (object_fields (prop_get raw ''error''))\<rparr>"

text \<open>The body of a reply with a status below 400: its \<open>subresponses\<close> array, or the decode fault.\<close>

definition read_reply :: "registry \<Rightarrow> string \<Rightarrow> (api_fault + js list) outcome" where
  "read_reply reg t =
     (case json_parse t of
        Throw e \<Rightarrow> Return (Inl (Decode (''bad_response: '' @ e)))
      | OffType e \<Rightarrow> OffType e
      | Return v \<Rightarrow>
          (case object_fields (reviveIds reg v) of
             None \<Rightarrow> Return (Inl (Decode ''bad_response: no subresponses''))
           | Some ps \<Rightarrow>
               (case prop_get ps ''subresponses'' of
                  JArr xs \<Rightarrow> Return (Inr xs)
                | _ \<Rightarrow> Return (Inl (Decode ''bad_response: no subresponses'')))))"

fun collect_subs :: "js list \<Rightarrow> (string \<times> subresponse) list \<Rightarrow> (string \<times> subresponse) list" where
  "collect_subs [] m = m"
| "collect_subs (r # rs) m =
     (case object_fields r of
        Some ps \<Rightarrow> (let sr = subResponseFromJson ps in collect_subs rs (map_put (res_id sr) sr m))
      | None \<Rightarrow> collect_subs rs m)"

definition fault_of_error :: "suberror option \<Rightarrow> api_fault" where
  "fault_of_error err =
     (case err of
        None \<Rightarrow> Sub_error ''unknown_error'' '''' JUndef
      | Some e \<Rightarrow>
          if err_code e = ''aborted''
          then Aborted (if 0 < length (err_message e) then err_message e else ''aborted'')
          else Sub_error (err_code e) (err_message e) (err_detail e))"

definition emit_and_fault :: "'w host \<Rightarrow> string \<Rightarrow> api_fault \<Rightarrow> 'w disp \<Rightarrow> 'w disp \<times> string option" where
  "emit_and_fault h i f d = fault_if_alive h i f (emitFault h f d)"

definition response_for ::
  "(string \<times> subresponse) list \<Rightarrow> (string \<times> string) list \<Rightarrow> string \<Rightarrow> subresponse option"
where
  "response_for subs resp i = map_of subs (case map_of resp i of Some l \<Rightarrow> l | None \<Rightarrow> i)"

text \<open>One turn of the delivery loop. An exception of \<open>decode\<close> or of \<open>onOk\<close> is a decode fault.\<close>

definition deliver_one ::
  "'w host \<Rightarrow> (string \<times> subresponse) list \<Rightarrow> (string \<times> string) list \<Rightarrow> pending \<Rightarrow> 'w disp
    \<Rightarrow> 'w disp \<times> string option"
where
  "deliver_one h subs resp p d =
     (case response_for subs resp (pid p) of
        None \<Rightarrow> emit_and_fault h (pid p) (Aborted ''missing_subresponse'') d
      | Some sr \<Rightarrow>
          if res_ok sr then
            if \<not> alive h (pid p) (world d) then (d, None)
            else (case decode h (pid p) (res_data sr) of
                Inl e \<Rightarrow> emit_and_fault h (pid p) (Decode (''decode_error: '' @ e)) d
              | Inr v \<Rightarrow>
                  (case call_ok h (pid p) v d of
                     (d', None) \<Rightarrow> (d', None)
                   | (d', Some e) \<Rightarrow> emit_and_fault h (pid p) (Decode (''decode_error: '' @ e)) d'))
          else emit_and_fault h (pid p) (fault_of_error (res_error sr)) d)"

fun deliver_loop ::
  "'w host \<Rightarrow> (string \<times> subresponse) list \<Rightarrow> (string \<times> string) list \<Rightarrow> pending list \<Rightarrow> 'w disp
    \<Rightarrow> 'w disp \<times> string option"
where
  "deliver_loop h subs resp [] d = (d, None)"
| "deliver_loop h subs resp (p # ps) d =
     (case deliver_one h subs resp p d of
        (d', None) \<Rightarrow> deliver_loop h subs resp ps d'
      | (d', Some e) \<Rightarrow> (d', Some e))"

definition fail_batch :: "'w host \<Rightarrow> flight \<Rightarrow> api_fault \<Rightarrow> 'w disp \<Rightarrow> 'w disp \<times> string option" where
  "fail_batch h fl f d = failAll h (batch fl) f (emitFault h f d)"

definition deliver_batch :: "'w host \<Rightarrow> flight \<Rightarrow> js list \<Rightarrow> 'w disp \<Rightarrow> 'w disp \<times> string option" where
  "deliver_batch h fl rawSubs d =
     (case deliver_loop h (collect_subs rawSubs []) (respIdOf fl) (batch fl) d of
        (d', None) \<Rightarrow> (release (length (batch fl)) d', None)
      | (d', Some e) \<Rightarrow> (d', Some e))"

text \<open>The rest of \<open>flush\<close>. The second component is the exception the flush ends with, if any.\<close>

definition flush_resume ::
  "registry \<Rightarrow> 'w host \<Rightarrow> flight \<Rightarrow> reply \<Rightarrow> 'w disp \<Rightarrow> ('w disp \<times> string option) outcome"
where
  "flush_resume reg h fl r d =
     (case r of
        Rejected e \<Rightarrow> Return (fail_batch h fl (Network e) d)
      | Replied status t \<Rightarrow>
          if 400 \<le> status then Return (fail_batch h fl (Http status) d)
          else obind (read_reply reg t) (\<lambda>x. Return (case x of
              Inl f \<Rightarrow> fail_batch h fl f d
            | Inr rawSubs \<Rightarrow> deliver_batch h fl rawSubs d)))"

text \<open>
  The dispatcher at work: a caller issues a request, a scheduled flush (or the test hook
  \<open>flushNow\<close>) runs up to the transport, or an awaited reply arrives.
\<close>

inductive dstep :: "registry \<Rightarrow> 'w host \<Rightarrow> 'w disp \<Rightarrow> 'w disp \<Rightarrow> bool" for reg h where
  step_request: "dstep reg h d (snd (request h a d))"
| step_flush: "scheduled d = Suc n \<Longrightarrow> dstep reg h d (flush_start (d\<lparr>scheduled := n\<rparr>))"
| step_flushNow: "dstep reg h d (flush_start d)"
| step_listen: "dstep reg h d (register_onFault k l d)"
| step_reply: "awaiting d = xs @ fl # ys \<Longrightarrow>
    flush_resume reg h fl r (d\<lparr>awaiting := xs @ ys\<rparr>) = Return (d', e) \<Longrightarrow> dstep reg h d d'"

inductive dreachable :: "registry \<Rightarrow> 'w host \<Rightarrow> 'w disp \<Rightarrow> bool" for reg h where
  dreach_init: "dreachable reg h (init_disp w)"
| dreach_step: "dreachable reg h d \<Longrightarrow> dstep reg h d d' \<Longrightarrow> dreachable reg h d'"



end
