(* ===== verification/DispatchSpec.thy ===== *)
theory DispatchSpec
  imports Dispatch "HOL-Library.Multiset" "HOL-Library.Sublist"
begin

text \<open>
  What the dispatcher guarantees in every reachable state: the in-flight count is the number of
  outstanding requests, nothing queued is without a scheduled flush, and no caller is answered
  twice; and for one flush: which requests are sent, whose answer a folded caller gets, and what
  every caller of a failed batch is told. The two interfaces \<open>callback_invariant\<close> and
  \<open>delivery_invariant\<close> carry an invariant through the code of callers and listeners.
\<close>

section \<open>Invariants across callbacks\<close>

locale callback_invariant =
  fixes h :: "'w host" and I :: "'w disp \<Rightarrow> bool"
  assumes I_request: "I d \<Longrightarrow> I (snd (request h a d))"
    and I_world: "I d \<Longrightarrow> I (d\<lparr>world := w\<rparr>)"
    and I_emitted: "I d \<Longrightarrow> I (log_call (Emitted l f) d)"
begin

lemma I_requests: "I d \<Longrightarrow> I (foldl (\<lambda>d a. snd (request h a d)) d rs)"
  by (induction rs arbitrary: d) (auto intro: I_request)

lemma I_react: "I d \<Longrightarrow> I (fst (react h r d))"
  by (auto simp: react_def split: prod.split intro: I_requests I_world)

lemma I_emit_loop: "I d \<Longrightarrow> I (emit_loop h ls f d)"
  by (induction ls arbitrary: d) (auto intro: I_react I_emitted)

lemma I_emitFault: "I d \<Longrightarrow> I (emitFault h f d)"
  by (auto simp: emitFault_def split: option.split intro: I_emit_loop)

end

text \<open>An invariant that also ignores which caller is answered passes through every loop of a flush.\<close>

locale delivery_invariant = callback_invariant h I for h :: "'w host" and I +
  assumes I_log: "I d \<Longrightarrow> I (log_call c d)"
begin

lemma I_fault_if_alive: "I d \<Longrightarrow> I (fst (fault_if_alive h i f d))"
  by (auto simp: fault_if_alive_def call_fault_def intro: I_react I_log)

lemma I_call_ok: "I d \<Longrightarrow> I (fst (call_ok h i v d))"
  by (auto simp: call_ok_def intro: I_react I_log)

lemma I_emit_and_fault: "I d \<Longrightarrow> I (fst (emit_and_fault h i f d))"
  by (auto simp: emit_and_fault_def intro: I_fault_if_alive I_emitFault)

lemma I_fail_loop: "I d \<Longrightarrow> I (fst (fail_loop h ps f d))"
proof (induction ps arbitrary: d)
  case (Cons p ps)
  then show ?case
    using I_fault_if_alive [OF Cons.prems, of "pid p" f]
    by (auto split: prod.split option.split)
qed simp

lemma I_deliver_one: "I d \<Longrightarrow> I (fst (deliver_one h subs resp p d))"
proof -
  assume d: "I d"
  show ?thesis
    using d I_emit_and_fault [OF d] I_call_ok [OF d]
    by (auto simp: deliver_one_def split: option.split sum.split prod.split intro: I_emit_and_fault)
      (metis I_emit_and_fault I_call_ok fst_conv)+
qed

lemma I_deliver_loop: "I d \<Longrightarrow> I (fst (deliver_loop h subs resp ps d))"
proof (induction ps arbitrary: d)
  case (Cons p ps)
  then show ?case
    using I_deliver_one [OF Cons.prems, of subs resp p]
    by (auto split: prod.split option.split)
qed simp

end

section \<open>Accounting\<close>

definition outstanding :: "'w disp \<Rightarrow> nat" where
  "outstanding d = length (queue d) + sum_list (map (\<lambda>fl. length (batch fl)) (awaiting d))"

definition balanced :: "int \<Rightarrow> 'w disp \<Rightarrow> bool" where
  "balanced k d \<longleftrightarrow> inFlight d = int (outstanding d) + k"

definition flush_promised :: "'w disp \<Rightarrow> bool" where
  "flush_promised d \<longleftrightarrow> (queue d \<noteq> [] \<longrightarrow> flushScheduled d) \<and> (flushScheduled d \<longrightarrow> 0 < scheduled d)"

lemma request_sel [simp]:
  "queue (snd (request h a d)) = queue d @
     [\<lparr>sub = make_sub (newId h (drawn d)) a, p_dedup = (arg_dedup a \<and> arg_ref a = None \<and> arg_key a = None)\<rparr>]"
  "awaiting (snd (request h a d)) = awaiting d"
  "inFlight (snd (request h a d)) = inFlight d + 1"
  "calls (snd (request h a d)) = calls d"
  "world (snd (request h a d)) = world d"
  "drawn (snd (request h a d)) = Suc (drawn d)"
  "flushScheduled (snd (request h a d))"
  "scheduled (snd (request h a d)) = (if flushScheduled d then scheduled d else Suc (scheduled d))"
  "faultListeners (snd (request h a d)) = faultListeners d"
  by (simp_all add: request_def maybeScheduleFlush_def Let_def)

lemma log_call_sel [simp]:
  "queue (log_call c d) = queue d" "awaiting (log_call c d) = awaiting d"
  "inFlight (log_call c d) = inFlight d" "world (log_call c d) = world d"
  "drawn (log_call c d) = drawn d" "flushScheduled (log_call c d) = flushScheduled d"
  "scheduled (log_call c d) = scheduled d" "calls (log_call c d) = calls d @ [c]"
  "faultListeners (log_call c d) = faultListeners d"
  by (simp_all add: log_call_def)

lemma release_sel [simp]:
  "queue (release n d) = queue d" "awaiting (release n d) = awaiting d"
  "inFlight (release n d) = inFlight d - int n" "calls (release n d) = calls d"
  "drawn (release n d) = drawn d" "flushScheduled (release n d) = flushScheduled d"
  "scheduled (release n d) = scheduled d" "world (release n d) = world d"
  by (simp_all add: release_def)

lemma flush_start_sel [simp]:
  "drawn (flush_start d) = drawn d" "calls (flush_start d) = calls d" "inFlight (flush_start d) = inFlight d"
  "queue (flush_start d) = []" "\<not> flushScheduled (flush_start d)" "scheduled (flush_start d) = scheduled d"
  by (simp_all add: flush_start_def split: prod.split)

lemma awaiting_flush_start:
  "awaiting (flush_start d) = awaiting d @ (if queue d = [] then [] else
     [\<lparr>batch = queue d, respIdOf = fst (fold_reads (queue d) [] [] []),
       body = flush_body (snd (fold_reads (queue d) [] [] []))\<rparr>])"
  by (simp add: flush_start_def split: prod.split)

interpretation bal: delivery_invariant h "balanced k" for h k
  by unfold_locales (auto simp: balanced_def outstanding_def)

interpretation prom: delivery_invariant h flush_promised for h
  by unfold_locales (auto simp: flush_promised_def)

interpretation await: delivery_invariant h "\<lambda>d. awaiting d = fs" for h fs
  by unfold_locales auto

definition safe_faults :: "'w host \<Rightarrow> bool" where
  "safe_faults h \<longleftrightarrow> (\<forall>i f w. snd (snd (onFault h i f w)) = None)"

lemma snd_react [simp]: "snd (react h r d) = snd (snd r)"
  by (simp add: react_def split: prod.split)

lemma safe_fault_if_alive: "safe_faults h \<Longrightarrow> snd (fault_if_alive h i f d) = None"
  by (simp add: fault_if_alive_def call_fault_def safe_faults_def)

lemma safe_fail_loop: "safe_faults h \<Longrightarrow> snd (fail_loop h ps f d) = None"
proof (induction ps arbitrary: d)
  case (Cons p ps)
  then show ?case
    using safe_fault_if_alive [of h "pid p" f d] by (auto split: prod.split option.split)
qed simp

lemma safe_deliver_one: "safe_faults h \<Longrightarrow> snd (deliver_one h subs resp p d) = None"
  by (auto simp: deliver_one_def emit_and_fault_def safe_fault_if_alive
      split: option.split sum.split prod.split)

lemma safe_deliver_loop: "safe_faults h \<Longrightarrow> snd (deliver_loop h subs resp ps d) = None"
proof (induction ps arbitrary: d)
  case (Cons p ps)
  then show ?case
    using safe_deliver_one [of h subs resp p d] by (auto split: prod.split option.split)
qed simp

lemma fail_batch_balanced:
  assumes "balanced k d"
  shows "case fail_batch h fl f d of (d', e) \<Rightarrow>
    balanced (if e = None then k - int (length (batch fl)) else k) d'"
proof -
  have "balanced k (fst (fail_loop h (batch fl) f (emitFault h f d)))"
    using assms by (intro bal.I_fail_loop bal.I_emitFault)
  then show ?thesis
    by (auto simp: fail_batch_def failAll_def balanced_def outstanding_def split: prod.split option.split)
qed

lemma deliver_batch_balanced:
  assumes "balanced k d"
  shows "case deliver_batch h fl raw d of (d', e) \<Rightarrow>
    balanced (if e = None then k - int (length (batch fl)) else k) d'"
proof -
  have "balanced k (fst (deliver_loop h (collect_subs raw []) (respIdOf fl) (batch fl) d))"
    using assms by (rule bal.I_deliver_loop)
  then show ?thesis
    by (auto simp: deliver_batch_def balanced_def outstanding_def split: prod.split option.split)
qed

lemma flush_resume_cases:
  assumes "flush_resume reg h fl r d = Return (d', e)"
  obtains f where "fail_batch h fl f d = (d', e)" | raw where "deliver_batch h fl raw d = (d', e)"
proof (cases r)
  case (Rejected e')
  with assms that(1) show ?thesis by (simp add: flush_resume_def)
next
  case (Replied status t)
  show ?thesis
  proof (cases "400 \<le> status")
    case True
    with Replied assms that(1) show ?thesis by (simp add: flush_resume_def)
  next
    case False
    with Replied assms obtain x where x: "read_reply reg t = Return x"
      "(case x of Inl f \<Rightarrow> fail_batch h fl f d | Inr raw \<Rightarrow> deliver_batch h fl raw d) = (d', e)"
      by (auto simp: flush_resume_def outcome_simps)
    with that show ?thesis by (cases x) auto
  qed
qed

lemma flush_resume_balanced:
  assumes "flush_resume reg h fl r d = Return (d', e)" and "balanced k d"
  shows "balanced (if e = None then k - int (length (batch fl)) else k) d'"
  using assms(1)
proof (cases rule: flush_resume_cases)
  case (1 f)
  with fail_batch_balanced [OF assms(2), where h = h and fl = fl and f = f] show ?thesis by simp
next
  case (2 raw)
  with deliver_batch_balanced [OF assms(2), where h = h and fl = fl and raw = raw] show ?thesis by simp
qed

lemma safe_fail_batch: "safe_faults h \<Longrightarrow> snd (fail_batch h fl f d) = None"
  using safe_fail_loop [of h "batch fl" f "emitFault h f d"]
  by (auto simp: fail_batch_def failAll_def split: prod.splits option.splits)

lemma safe_deliver_batch: "safe_faults h \<Longrightarrow> snd (deliver_batch h fl raw d) = None"
  using safe_deliver_loop [of h "collect_subs raw []" "respIdOf fl" "batch fl" d]
  by (auto simp: deliver_batch_def split: prod.splits option.splits)

lemma flush_resume_safe:
  assumes "flush_resume reg h fl r d = Return (d', e)" and "safe_faults h"
  shows "e = None"
  using assms(1)
  by (cases rule: flush_resume_cases)
    (metis safe_fail_batch [OF assms(2)] safe_deliver_batch [OF assms(2)] snd_conv)+

lemma flush_resume_promised:
  assumes "flush_resume reg h fl r d = Return (d', e)" and "flush_promised d"
  shows "flush_promised d'"
  using assms(1)
proof (cases rule: flush_resume_cases)
  case (1 f)
  moreover have "flush_promised (fst (fail_loop h (batch fl) f (emitFault h f d)))"
    using assms(2) by (intro prom.I_fail_loop prom.I_emitFault)
  ultimately show ?thesis
    by (auto simp: fail_batch_def failAll_def flush_promised_def split: prod.splits option.splits)
next
  case (2 raw)
  moreover have "flush_promised (fst (deliver_loop h (collect_subs raw []) (respIdOf fl) (batch fl) d))"
    using assms(2) by (rule prom.I_deliver_loop)
  ultimately show ?thesis
    by (auto simp: deliver_batch_def flush_promised_def split: prod.splits option.splits)
qed

lemma flush_start_invariants:
  "balanced k d \<Longrightarrow> balanced k (flush_start d)"
  "flush_promised (flush_start d)"
  by (auto simp: balanced_def outstanding_def awaiting_flush_start flush_promised_def)

definition accounted :: "'w host \<Rightarrow> 'w disp \<Rightarrow> bool" where
  "accounted h d \<longleftrightarrow> (\<exists>k \<ge> 0. balanced k d \<and> (safe_faults h \<longrightarrow> k = 0)) \<and> flush_promised d"

lemma accountedI:
  "balanced k d \<Longrightarrow> 0 \<le> k \<Longrightarrow> (safe_faults h \<longrightarrow> k = 0) \<Longrightarrow> flush_promised d \<Longrightarrow> accounted h d"
  by (auto simp: accounted_def)

lemma accounted_step:
  assumes "dstep reg h d d'" and "accounted h d"
  shows "accounted h d'"
proof -
  obtain k where k: "balanced k d" "0 \<le> k" "safe_faults h \<longrightarrow> k = 0" and p: "flush_promised d"
    using assms(2) by (auto simp: accounted_def)
  from assms(1) show ?thesis
  proof (cases rule: dstep.cases)
    case (step_request a)
    then show ?thesis
      using accountedI [OF bal.I_request [OF k(1)] k(2,3) prom.I_request [OF p]] by simp
  next
    case (step_flush n)
    have "balanced k (d\<lparr>scheduled := n\<rparr>)" using k by (simp add: balanced_def outstanding_def)
    then show ?thesis
      unfolding step_flush(1) by (intro accountedI [OF flush_start_invariants(1) k(2,3) flush_start_invariants(2)])
  next
    case step_flushNow
    show ?thesis
      unfolding step_flushNow(1) by (intro accountedI [OF flush_start_invariants(1) k(2,3) flush_start_invariants(2)] k(1))
  next
    case (step_listen kd l)
    then show ?thesis using k p
      by (auto simp: accounted_def balanced_def outstanding_def flush_promised_def register_onFault_def)
  next
    case (step_reply xs fl ys r e)
    let ?d = "d\<lparr>awaiting := xs @ ys\<rparr>"
    have b: "balanced (k + int (length (batch fl))) ?d"
      using k(1) step_reply(1) by (simp add: balanced_def outstanding_def)
    have "flush_promised ?d" using p by (simp add: flush_promised_def)
    then have "flush_promised d'" using step_reply(2) flush_resume_promised by blast
    moreover have "balanced (if e = None then k else k + int (length (batch fl))) d'"
      using flush_resume_balanced [OF step_reply(2) b] by (cases "e = None") auto
    moreover have "safe_faults h \<Longrightarrow> e = None" using flush_resume_safe [OF step_reply(2)] .
    ultimately show ?thesis using k unfolding accounted_def
      by (metis add_increasing2 of_nat_0_le_iff)
  qed
qed

lemma reachable_accounted: "dreachable reg h d \<Longrightarrow> accounted h d"
proof (induction rule: dreachable.induct)
  case (dreach_init w)
  then show ?case
    by (auto simp: accounted_def init_disp_def balanced_def outstanding_def flush_promised_def intro!: exI [of _ 0])
qed (rule accounted_step)

text \<open>C18: In every reachable state of the dispatcher the in-flight count is at least the number of
  requests that wait in the queue or for a reply, and exactly that number when no \<open>onFault\<close>
  callback throws; and whenever a request is queued, a flush has been handed to the scheduler.\<close>

theorem inFlight_counts:
  assumes "dreachable reg h d"
  shows "int (outstanding d) \<le> inFlight d \<and>
    ((\<forall>i f w. snd (snd (onFault h i f w)) = None) \<longrightarrow> inFlight d = int (outstanding d)) \<and>
    (queue d \<noteq> [] \<longrightarrow> flushScheduled d \<and> 0 < scheduled d)"
  using reachable_accounted [OF assms]
  by (auto simp: accounted_def balanced_def flush_promised_def safe_faults_def)

text \<open>A host whose callbacks do nothing.\<close>

definition quiet_host :: "unit host" where
  "quiet_host = \<lparr>newId = (\<lambda>n. ''sub-'' @ nat_text n), alive = (\<lambda>i w. True), decode = (\<lambda>i v. Inr v),
     onOk = (\<lambda>i v w. ((), [], None)), onFault = (\<lambda>i f w. ((), [], None)),
     listener = (\<lambda>l f w. ((), [], None))\<rparr>"

definition read_args :: request_args where
  "read_args = \<lparr>arg_endpoint = ''card'', arg_action = ''select'', arg_type = None, arg_ref = None,
     arg_key = None, arg_data = JUndef, arg_dedup = True\<rparr>"

definition no_refs :: registry where
  "no_refs = \<lparr>card_ref_attrs = [], card_ref_array_attrs = []\<rparr>"

theorem inFlight_counts_witness:
  "inFlight (flush_start (snd (request quiet_host read_args (init_disp ())))) = 1"
proof -
  let ?d = "flush_start (snd (request quiet_host read_args (init_disp ())))"
  have "dreachable no_refs quiet_host ?d"
    by (intro dreach_step [OF dreach_step [OF dreach_init step_request] step_flushNow])
  from inFlight_counts [OF this] have "inFlight ?d = int (outstanding ?d)"
    by (simp add: quiet_host_def)
  then show ?thesis by (simp add: outstanding_def awaiting_flush_start init_disp_def)
qed

section \<open>No caller is answered twice\<close>

fun is_ok_for :: "string \<Rightarrow> dcall \<Rightarrow> bool" where
  "is_ok_for i (Called_ok j v) = (j = i)"
| "is_ok_for i c = False"

fun is_fault_for :: "string \<Rightarrow> dcall \<Rightarrow> bool" where
  "is_fault_for i (Called_fault j f) = (j = i)"
| "is_fault_for i c = False"

definition ok_calls :: "string \<Rightarrow> 'w disp \<Rightarrow> nat" where
  "ok_calls i d = length (filter (is_ok_for i) (calls d))"

definition fault_calls :: "string \<Rightarrow> 'w disp \<Rightarrow> nat" where
  "fault_calls i d = length (filter (is_fault_for i) (calls d))"

text \<open>The ids of the requests that wait in the queue or for a reply.\<close>

definition open_ids :: "'w disp \<Rightarrow> string list" where
  "open_ids d = map pid (queue d) @ concat (map (\<lambda>fl. map pid (batch fl)) (awaiting d))"

definition drawn_ids :: "'w host \<Rightarrow> 'w disp \<Rightarrow> string set" where
  "drawn_ids h d = newId h ` {..< drawn d}"

definition once :: "'w host \<Rightarrow> bool \<Rightarrow> string list \<Rightarrow> 'w disp \<Rightarrow> bool" where
  "once h b rest d \<longleftrightarrow> inj (newId h) \<and> distinct (rest @ open_ids d) \<and>
     set (rest @ open_ids d) \<subseteq> drawn_ids h d \<and>
     (\<forall>i \<in> set (rest @ open_ids d). ok_calls i d = 0 \<and> fault_calls i d = 0) \<and>
     (\<forall>i. ok_calls i d \<le> 1 \<and> fault_calls i d \<le> 1 \<and> (b \<longrightarrow> ok_calls i d + fault_calls i d \<le> 1)) \<and>
     (\<forall>i. i \<notin> drawn_ids h d \<longrightarrow> ok_calls i d = 0 \<and> fault_calls i d = 0)"

text \<open>A caller that has had its \<open>onOk\<close> but may still get \<open>onFault\<close>.\<close>

definition once_but :: "'w host \<Rightarrow> bool \<Rightarrow> string list \<Rightarrow> string \<Rightarrow> 'w disp \<Rightarrow> bool" where
  "once_but h b rest i d \<longleftrightarrow> once h b rest d \<and> fault_calls i d = 0 \<and> i \<in> drawn_ids h d \<and>
     i \<notin> set (rest @ open_ids d)"

lemma count_simps [simp]:
  "ok_calls i (d\<lparr>world := w\<rparr>) = ok_calls i d" "fault_calls i (d\<lparr>world := w\<rparr>) = fault_calls i d"
  "ok_calls i (snd (request h a d)) = ok_calls i d" "fault_calls i (snd (request h a d)) = fault_calls i d"
  "ok_calls i (log_call c d) = ok_calls i d + (if is_ok_for i c then 1 else 0)"
  "fault_calls i (log_call c d) = fault_calls i d + (if is_fault_for i c then 1 else 0)"
  "ok_calls i (flush_start d) = ok_calls i d" "fault_calls i (flush_start d) = fault_calls i d"
  "ok_calls i (release n d) = ok_calls i d" "fault_calls i (release n d) = fault_calls i d"
  by (simp_all add: ok_calls_def fault_calls_def)

lemma open_ids_simps [simp]:
  "open_ids (d\<lparr>world := w\<rparr>) = open_ids d" "open_ids (log_call c d) = open_ids d"
  "open_ids (release n d) = open_ids d"
  "drawn_ids h (d\<lparr>world := w\<rparr>) = drawn_ids h d" "drawn_ids h (log_call c d) = drawn_ids h d"
  "drawn_ids h (release n d) = drawn_ids h d" "drawn_ids h (flush_start d) = drawn_ids h d"
  "drawn_ids h (snd (request h a d)) = insert (newId h (drawn d)) (drawn_ids h d)"
  by (auto simp: open_ids_def drawn_ids_def lessThan_Suc)

lemma open_ids_request:
  "distinct (rest @ open_ids (snd (request h a d))) \<longleftrightarrow>
     newId h (drawn d) \<notin> set (rest @ open_ids d) \<and> distinct (rest @ open_ids d)"
  "set (open_ids (snd (request h a d))) = insert (newId h (drawn d)) (set (open_ids d))"
  by (auto simp: open_ids_def make_sub_def)

lemma fresh_id: "inj (newId h) \<Longrightarrow> newId h (drawn d) \<notin> drawn_ids h d"
  by (auto simp: drawn_ids_def inj_def)

interpretation once: callback_invariant h "once h b rest" for h b rest
proof (unfold_locales, goal_cases)
  case (1 d a)
  then have "inj (newId h)" by (simp add: once_def)
  then have "newId h (drawn d) \<notin> drawn_ids h d" by (rule fresh_id)
  with 1 show ?case
    unfolding once_def open_ids_request by (auto simp: open_ids_request)
qed (auto simp: once_def)

interpretation once_but: callback_invariant h "once_but h b rest i" for h b rest i
proof (unfold_locales, goal_cases)
  case (1 d a)
  then have "inj (newId h)" by (simp add: once_def once_but_def)
  then have "newId h (drawn d) \<notin> drawn_ids h d" by (rule fresh_id)
  with 1 once.I_request show ?case
    unfolding once_but_def by (auto simp: open_ids_request)
qed (auto simp: once_but_def once_def)

lemma once_called_fault: "once h b (i # rest) d \<Longrightarrow> once h b rest (log_call (Called_fault i f) d)"
  by (auto simp: once_def)

lemma once_called_ok: "once h b (i # rest) d \<Longrightarrow> once_but h b rest i (log_call (Called_ok i v) d)"
  by (auto simp: once_def once_but_def)

lemma once_but_called_fault: "once_but h False rest i d \<Longrightarrow> once h False rest (log_call (Called_fault i f) d)"
  by (auto simp: once_def once_but_def)

lemma once_skip: "once h b (i # rest) d \<Longrightarrow> once h b rest d"
  by (auto simp: once_def)

lemma once_fault_if_alive: "once h b (i # rest) d \<Longrightarrow> once h b rest (fst (fault_if_alive h i f d))"
  by (auto simp: fault_if_alive_def call_fault_def intro: once.I_react once_called_fault once_skip)

lemma once_emit_and_fault: "once h b (i # rest) d \<Longrightarrow> once h b rest (fst (emit_and_fault h i f d))"
  by (auto simp: emit_and_fault_def intro: once_fault_if_alive once.I_emitFault)

lemma once_but_emit_and_fault: "once_but h False rest i d \<Longrightarrow> once h False rest (fst (emit_and_fault h i f d))"
proof -
  assume "once_but h False rest i d"
  then have e: "once_but h False rest i (emitFault h f d)" by (rule once_but.I_emitFault)
  then have "once h False rest (log_call (Called_fault i f) (emitFault h f d))"
    by (rule once_but_called_fault)
  with e show ?thesis
    by (auto simp: emit_and_fault_def fault_if_alive_def call_fault_def once_but_def
        intro: once.I_react)
qed

definition safe_oks :: "'w host \<Rightarrow> bool" where
  "safe_oks h \<longleftrightarrow> (\<forall>i v w. snd (snd (onOk h i v w)) = None)"

lemma once_deliver_one:
  assumes "once h b (pid p # rest) d" and "b \<longrightarrow> safe_oks h"
  shows "once h b rest (fst (deliver_one h subs resp p d))"
proof (cases "\<exists>sr v. response_for subs resp (pid p) = Some sr \<and> res_ok sr \<and> alive h (pid p) (world d) \<and>
    decode h (pid p) (res_data sr) = Inr v")
  case False
  then show ?thesis
    using assms(1) once_emit_and_fault [OF assms(1)] once_skip [OF assms(1)]
    by (auto simp: deliver_one_def split: option.split sum.split)
next
  case True
  then obtain sr v where r: "response_for subs resp (pid p) = Some sr" "res_ok sr"
    "alive h (pid p) (world d)" "decode h (pid p) (res_data sr) = Inr v" by blast
  obtain d1 e where d1: "call_ok h (pid p) v d = (d1, e)" by (cases "call_ok h (pid p) v d")
  have "once_but h b rest (pid p) d1"
    using once_but.I_react [OF once_called_ok [OF assms(1)]] d1 unfolding call_ok_def
    by (metis fst_conv)
  moreover have "b \<longrightarrow> e = None"
    using assms(2) d1 unfolding call_ok_def by (metis safe_oks_def snd_conv snd_react)
  ultimately show ?thesis
    using r d1 by (cases b)
      (auto simp: deliver_one_def once_but_def split: option.split intro: once_but_emit_and_fault)
qed

lemma once_drop: "once h b (xs @ rest) d \<Longrightarrow> once h b rest d"
  by (auto simp: once_def)

lemma once_deliver_loop:
  assumes "b \<longrightarrow> safe_oks h"
  shows "once h b (map pid ps @ rest) d \<Longrightarrow> once h b rest (fst (deliver_loop h subs resp ps d))"
proof (induction ps arbitrary: d)
  case (Cons p ps)
  then have "once h b (map pid ps @ rest) (fst (deliver_one h subs resp p d))"
    using once_deliver_one [OF _ assms] by simp
  with Cons.IH once_drop show ?case by (auto split: prod.split option.split)
qed simp

lemma once_fail_loop:
  "once h b (map pid ps @ rest) d \<Longrightarrow> once h b rest (fst (fail_loop h ps f d))"
proof (induction ps arbitrary: d)
  case (Cons p ps)
  then have "once h b (map pid ps @ rest) (fst (fault_if_alive h (pid p) f d))"
    using once_fault_if_alive by simp
  with Cons.IH once_drop show ?case by (auto split: prod.split option.split)
qed simp

lemma once_release [simp]: "once h b rest (release n d) = once h b rest d"
  by (simp add: once_def)

lemma once_flush_resume:
  assumes "flush_resume reg h fl r d = Return (d', e)" and "b \<longrightarrow> safe_oks h"
    and "once h b (map pid (batch fl)) d"
  shows "once h b [] d'"
  using assms(1)
proof (cases rule: flush_resume_cases)
  case (1 f)
  have "once h b [] (fst (fail_loop h (batch fl) f (emitFault h f d)))"
    by (rule once_fail_loop) (simp add: once.I_emitFault [OF assms(3)])
  with 1 show ?thesis
    by (auto simp: fail_batch_def failAll_def split: prod.splits option.splits)
next
  case (2 raw)
  have "once h b [] (fst (deliver_loop h (collect_subs raw []) (respIdOf fl) (batch fl) d))"
    by (rule once_deliver_loop [OF assms(2)]) (simp add: assms(3))
  with 2 show ?thesis
    by (auto simp: deliver_batch_def split: prod.splits option.splits)
qed

text \<open>The invariant only reads the trace, the drawn ids, and the multiset of the open ids.\<close>

lemma once_cong:
  assumes "calls d' = calls d" and "drawn d' = drawn d"
    and "mset (rest' @ open_ids d') = mset (rest @ open_ids d)"
  shows "once h b rest' d' = once h b rest d"
proof -
  have "set (rest' @ open_ids d') = set (rest @ open_ids d)"
    "distinct (rest' @ open_ids d') = distinct (rest @ open_ids d)"
    using assms(3) by (metis set_mset_mset, metis mset_eq_imp_distinct_iff)
  moreover have "drawn_ids h d' = drawn_ids h d" "ok_calls i d' = ok_calls i d"
    "fault_calls i d' = fault_calls i d" for i
    by (simp_all add: drawn_ids_def ok_calls_def fault_calls_def assms(1,2))
  ultimately show ?thesis by (simp only: once_def)
qed

lemma once_step:
  assumes "dstep reg h d d'" and "once h b [] d" and "b \<longrightarrow> safe_oks h"
  shows "once h b [] d'"
  using assms(1)
proof (cases rule: dstep.cases)
  case (step_request a)
  then show ?thesis using once.I_request [OF assms(2)] by simp
next
  case (step_flush n)
  have "once h b [] d' = once h b [] d"
    unfolding step_flush(1)
    by (rule once_cong) (auto simp: open_ids_def awaiting_flush_start)
  with assms(2) show ?thesis by simp
next
  case step_flushNow
  have "once h b [] d' = once h b [] d"
    unfolding step_flushNow(1)
    by (rule once_cong) (auto simp: open_ids_def awaiting_flush_start)
  with assms(2) show ?thesis by simp
next
  case (step_listen k l)
  have "once h b [] d' = once h b [] d"
    unfolding step_listen(1)
    by (rule once_cong) (auto simp: open_ids_def register_onFault_def)
  with assms(2) show ?thesis by simp
next
  case (step_reply xs fl ys r e)
  have "once h b (map pid (batch fl)) (d\<lparr>awaiting := xs @ ys\<rparr>) = once h b [] d"
    by (rule once_cong) (auto simp: open_ids_def step_reply(1))
  with assms show ?thesis using once_flush_resume [OF step_reply(2) assms(3)] by simp
qed

lemma reachable_once:
  "dreachable reg h d \<Longrightarrow> inj (newId h) \<Longrightarrow> b \<longrightarrow> safe_oks h \<Longrightarrow> once h b [] d"
proof (induction rule: dreachable.induct)
  case (dreach_init w)
  then show ?case
    by (simp add: once_def init_disp_def open_ids_def ok_calls_def fault_calls_def)
next
  case (dreach_step d d')
  then show ?case using once_step by blast
qed

text \<open>C7: In every reachable state, a caller has had at most one \<open>onOk\<close> and at most one \<open>onFault\<close>
  call, and at most one of the two when no \<open>onOk\<close> callback throws; a caller whose request still
  waits has had neither. The ids drawn for requests are assumed distinct.\<close>

theorem answered_at_most_once:
  assumes "dreachable reg h d" and "inj (newId h)"
  shows "ok_calls i d \<le> 1 \<and> fault_calls i d \<le> 1 \<and>
    ((\<forall>i v w. snd (snd (onOk h i v w)) = None) \<longrightarrow> ok_calls i d + fault_calls i d \<le> 1) \<and>
    (i \<in> set (open_ids d) \<longrightarrow> ok_calls i d = 0 \<and> fault_calls i d = 0)"
  using reachable_once [OF assms, of "safe_oks h"]
  by (auto simp: once_def safe_oks_def)

lemma inj_quiet [simp]: "inj (newId quiet_host)"
  by (auto simp: quiet_host_def inj_def)

theorem answered_at_most_once_witness:
  "ok_calls ''sub-0'' (flush_start (snd (request quiet_host read_args (init_disp ())))) = 0"
proof -
  let ?d = "flush_start (snd (request quiet_host read_args (init_disp ())))"
  have "dreachable no_refs quiet_host ?d"
    by (intro dreach_step [OF dreach_step [OF dreach_init step_request] step_flushNow])
  moreover have "digit_char 0 = CHR ''0''" by code_simp
  then have "''sub-0'' \<in> set (open_ids ?d)"
    by (simp add: open_ids_def awaiting_flush_start init_disp_def quiet_host_def make_sub_def)
  ultimately show ?thesis using answered_at_most_once inj_quiet by blast
qed

section \<open>Folding identical reads\<close>

text \<open>Request \<open>q\<close> is on the wire and its answer serves \<open>p\<close>.\<close>

definition serves :: "pending \<Rightarrow> pending \<Rightarrow> bool" where
  "serves q p \<longleftrightarrow> q = p \<or> (p_dedup p \<and> p_dedup q \<and> fold_key (sub p) = fold_key (sub q))"

definition folded ::
  "pending list \<Rightarrow> (string \<times> string) list \<Rightarrow> (string \<times> string) list \<Rightarrow> subrequest list \<Rightarrow> bool"
where
  "folded ps resp leaders wire \<longleftrightarrow>
     (\<forall>p \<in> set ps. \<exists>q \<in> set ps. map_of resp (pid p) = Some (pid q) \<and> sub q \<in> set wire \<and> serves q p) \<and>
     (\<forall>p \<in> set ps. p_dedup p \<longrightarrow> map_of leaders (fold_key (sub p)) = map_of resp (pid p)) \<and>
     (\<forall>k l. map_of leaders k = Some l \<longrightarrow>
        (\<exists>q \<in> set ps. pid q = l \<and> p_dedup q \<and> fold_key (sub q) = k \<and> sub q \<in> set wire)) \<and>
     subseq wire (map sub ps)"

lemma pid_last: "distinct (map pid (ps @ [p])) \<Longrightarrow> q \<in> set ps \<Longrightarrow> pid q \<noteq> pid p"
  by (induction ps) auto

lemma foldedI:
  assumes "\<And>p. p \<in> set ps \<Longrightarrow> \<exists>q \<in> set ps. map_of resp (pid p) = Some (pid q) \<and> sub q \<in> set wire \<and> serves q p"
    and "\<And>p. p \<in> set ps \<Longrightarrow> p_dedup p \<Longrightarrow> map_of leaders (fold_key (sub p)) = map_of resp (pid p)"
    and "\<And>k l. map_of leaders k = Some l \<Longrightarrow>
      \<exists>q \<in> set ps. pid q = l \<and> p_dedup q \<and> fold_key (sub q) = k \<and> sub q \<in> set wire"
    and "subseq wire (map sub ps)"
  shows "folded ps resp leaders wire"
  using assms by (auto simp: folded_def)

lemma foldedD:
  assumes "folded ps resp leaders wire"
  shows "p \<in> set ps \<Longrightarrow> \<exists>q \<in> set ps. map_of resp (pid p) = Some (pid q) \<and> sub q \<in> set wire \<and> serves q p"
    and "p \<in> set ps \<Longrightarrow> p_dedup p \<Longrightarrow> map_of leaders (fold_key (sub p)) = map_of resp (pid p)"
    and "map_of leaders k = Some l \<Longrightarrow>
      \<exists>q \<in> set ps. pid q = l \<and> p_dedup q \<and> fold_key (sub q) = k \<and> sub q \<in> set wire"
    and "subseq wire (map sub ps)"
  using assms by (simp_all add: folded_def)

lemma folded_own:
  assumes f: "folded ps resp leaders wire" and d: "distinct (map pid (ps @ [p]))" and "\<not> p_dedup p"
  shows "folded (ps @ [p]) (map_put (pid p) (pid p) resp) leaders (wire @ [sub p])"
proof (rule foldedI, goal_cases)
  case (1 x)
  then show ?case using foldedD(1) [OF f, of x] pid_last [OF d, of x] by (auto simp: serves_def)
next
  case (2 x)
  then show ?case using foldedD(2) [OF f, of x] pid_last [OF d, of x] assms(3) by auto
next
  case (3 k l)
  then show ?case using foldedD(3) [OF f, of k l] by auto
next
  case 4
  show ?case using foldedD(4) [OF f] by (simp add: list_emb_append_mono)
qed

lemma folded_leader:
  assumes f: "folded ps resp leaders wire" and d: "distinct (map pid (ps @ [p]))" and "p_dedup p"
    and new: "map_of leaders (fold_key (sub p)) = None"
  shows "folded (ps @ [p]) (map_put (pid p) (pid p) resp) (map_put (fold_key (sub p)) (pid p) leaders) (wire @ [sub p])"
proof (rule foldedI, goal_cases)
  case (1 x)
  then show ?case using foldedD(1) [OF f, of x] pid_last [OF d, of x] by (auto simp: serves_def)
next
  case (2 x)
  then show ?case
    using foldedD(1,2) [OF f, of x] pid_last [OF d, of x] new by auto
next
  case (3 k l)
  then show ?case using foldedD(3) [OF f, of k l] assms(3) by (auto split: if_splits)
next
  case 4
  show ?case using foldedD(4) [OF f] by (simp add: list_emb_append_mono)
qed

lemma folded_follower:
  assumes f: "folded ps resp leaders wire" and d: "distinct (map pid (ps @ [p]))" and "p_dedup p"
    and l: "map_of leaders (fold_key (sub p)) = Some l"
  shows "folded (ps @ [p]) (map_put (pid p) l resp) leaders wire"
proof (rule foldedI, goal_cases)
  case (1 x)
  then show ?case
    using foldedD(1) [OF f, of x] foldedD(3) [OF f l] pid_last [OF d, of x] assms(3)
    by (auto simp: serves_def)
next
  case (2 x)
  then show ?case using foldedD(2) [OF f, of x] pid_last [OF d, of x] l by auto
next
  case (3 k l')
  then show ?case using foldedD(3) [OF f, of k l'] by auto
next
  case 4
  show ?case using list_emb_append_mono [OF foldedD(4) [OF f] list_emb_Nil [of _ "[sub p]"]] by simp
qed

lemma fold_reads_folded:
  "folded seen resp leaders wire \<Longrightarrow> distinct (map pid (seen @ ps)) \<Longrightarrow>
   \<exists>leaders'. folded (seen @ ps) (fst (fold_reads ps resp leaders wire)) leaders' (snd (fold_reads ps resp leaders wire))"
proof (induction ps resp leaders wire arbitrary: seen rule: fold_reads.induct)
  case (1 resp leaders wire)
  then show ?case by auto
next
  case (2 p ps resp leaders wire)
  have d: "distinct (map pid (seen @ [p]))" "distinct (map pid ((seen @ [p]) @ ps))" using 2(5) by auto
  show ?case
  proof (cases "p_dedup p")
    case False
    with 2(3) [OF refl refl False folded_own [OF 2(4) d(1) False] d(2)] show ?thesis by (simp add: Let_def)
  next
    case True
    show ?thesis
    proof (cases "map_of leaders (fold_key (sub p))")
      case None
      with True 2(1) [OF refl refl True None folded_leader [OF 2(4) d(1) True None] d(2)]
      show ?thesis by (simp add: Let_def)
    next
      case (Some l)
      with True 2(2) [OF refl refl True Some folded_follower [OF 2(4) d(1) True Some] d(2)]
      show ?thesis by (simp add: Let_def)
    qed
  qed
qed

text \<open>C23: A flush sends a subsequence of its batch. Every caller is answered from a request of the
  batch that is on the wire: its own, or, when both opted into folding, one with the same key; and
  all folding callers with one key are answered from the same request.\<close>

theorem flush_folds_reads:
  assumes "distinct (map pid ps)" and "fold_reads ps [] [] [] = (resp, wire)"
  shows "subseq wire (map sub ps) \<and>
    (\<forall>p \<in> set ps. \<exists>q \<in> set ps. map_of resp (pid p) = Some (pid q) \<and> sub q \<in> set wire \<and>
       (q = p \<or> p_dedup p \<and> p_dedup q \<and> fold_key (sub p) = fold_key (sub q))) \<and>
    (\<forall>p \<in> set ps. \<forall>q \<in> set ps. p_dedup p \<and> p_dedup q \<and> fold_key (sub p) = fold_key (sub q) \<longrightarrow>
       map_of resp (pid p) = map_of resp (pid q))"
proof -
  have "folded [] [] [] []" by (simp add: folded_def)
  from fold_reads_folded [OF this, of ps] assms obtain leaders where "folded ps resp leaders wire"
    by auto
  note f = foldedD [OF this]
  have "map_of resp (pid p) = map_of resp (pid q)"
    if "p \<in> set ps" "q \<in> set ps" "p_dedup p \<and> p_dedup q \<and> fold_key (sub p) = fold_key (sub q)" for p q
    using f(2) that by metis
  with f(1,4) show ?thesis unfolding serves_def by blast
qed

definition read_pending :: "string \<Rightarrow> pending" where
  "read_pending i = \<lparr>sub = make_sub i read_args, p_dedup = True\<rparr>"

theorem flush_folds_reads_witness:
  "map_of (fst (fold_reads [read_pending ''a'', read_pending ''b''] [] [] [])) ''a'' =
   map_of (fst (fold_reads [read_pending ''a'', read_pending ''b''] [] [] [])) ''b''"
proof -
  let ?ps = "[read_pending ''a'', read_pending ''b'']"
  have "distinct (map pid ?ps)" by (simp add: read_pending_def make_sub_def)
  moreover have "fold_key (sub (read_pending ''a'')) = fold_key (sub (read_pending ''b''))"
    by (simp add: read_pending_def make_sub_def fold_key_def)
  moreover have "p_dedup (read_pending i)" "pid (read_pending i) = i" for i
    by (simp_all add: read_pending_def make_sub_def)
  ultimately show ?thesis
    using flush_folds_reads [of ?ps, OF _ surjective_pairing] by (metis list.set_intros)
qed

lemma big_text_parse:
  assumes "json_ok (big_to_text v)"
  shows "json_parse (big_text v) = Return (big_to_text v)"
  using json_roundtrip [OF assms] by (auto simp: big_text_def stringifyBigInt_def)

lemma append_space_cancel:
  "CHR '' '' \<notin> set a \<Longrightarrow> CHR '' '' \<notin> set b \<Longrightarrow>
   a @ '' '' @ s = b @ '' '' @ t \<longleftrightarrow> a = b \<and> s = t"
proof (induction a arbitrary: b)
  case Nil
  then show ?case by (cases b) auto
next
  case (Cons c a)
  then show ?case by (cases b) auto
qed

text \<open>C24: For endpoints and actions without a space and data that is JSON (no \<open>undefined\<close> and no \<open>NaN\<close> or infinite
  number inside, numbers of at most thirty decimals, keys once and in the order of \<open>Object.keys\<close>), two requests share a folding key exactly when they name the
  same endpoint and action and carry the same data, bigints compared as text and absent data as null.\<close>

theorem fold_key_separates:
  assumes "CHR '' '' \<notin> set (sub_endpoint s @ sub_action s @ sub_endpoint t @ sub_action t)"
    and "json_ok (big_to_text (if sub_data s = JUndef then JNull else sub_data s))"
    and "json_ok (big_to_text (if sub_data t = JUndef then JNull else sub_data t))"
  shows "fold_key s = fold_key t \<longleftrightarrow> sub_endpoint s = sub_endpoint t \<and> sub_action s = sub_action t \<and>
    big_to_text (if sub_data s = JUndef then JNull else sub_data s) =
      big_to_text (if sub_data t = JUndef then JNull else sub_data t)"
proof
  assume "fold_key s = fold_key t"
  with assms(1) have "sub_endpoint s = sub_endpoint t" "sub_action s = sub_action t"
    and k: "big_text (if sub_data s = JUndef then JNull else sub_data s) =
      big_text (if sub_data t = JUndef then JNull else sub_data t)"
    unfolding fold_key_def
    by (simp_all only: append_space_cancel set_append Un_iff de_Morgan_disj simp_thms)
  with big_text_parse [OF assms(2)] big_text_parse [OF assms(3)]
  show "sub_endpoint s = sub_endpoint t \<and> sub_action s = sub_action t \<and>
    big_to_text (if sub_data s = JUndef then JNull else sub_data s) =
      big_to_text (if sub_data t = JUndef then JNull else sub_data t)" by simp
next
  assume "sub_endpoint s = sub_endpoint t \<and> sub_action s = sub_action t \<and>
    big_to_text (if sub_data s = JUndef then JNull else sub_data s) =
      big_to_text (if sub_data t = JUndef then JNull else sub_data t)"
  then show "fold_key s = fold_key t" by (simp add: fold_key_def big_text_def stringifyBigInt_def)
qed

theorem fold_key_separates_witness:
  "fold_key (make_sub ''a'' (read_args\<lparr>arg_data := JBig 5\<rparr>)) = fold_key (make_sub ''b'' (read_args\<lparr>arg_data := JStr ''5''\<rparr>)) \<and>
   fold_key (make_sub ''a'' (read_args\<lparr>arg_data := JBig 5\<rparr>)) \<noteq> fold_key (make_sub ''b'' (read_args\<lparr>arg_data := JStr ''6''\<rparr>))"
proof -
  have five: "int_text 5 = ''5''" by code_simp
  show ?thesis
    using fold_key_separates [of "make_sub ''a'' (read_args\<lparr>arg_data := JBig 5\<rparr>)" "make_sub ''b'' (read_args\<lparr>arg_data := JStr ''5''\<rparr>)"]
      fold_key_separates [of "make_sub ''a'' (read_args\<lparr>arg_data := JBig 5\<rparr>)" "make_sub ''b'' (read_args\<lparr>arg_data := JStr ''6''\<rparr>)"]
    by (simp add: make_sub_def read_args_def five)
qed

section \<open>Delivery\<close>

text \<open>\<open>onFault\<close> calls in the trace, oldest first.\<close>

fun is_caller_call :: "dcall \<Rightarrow> bool" where
  "is_caller_call (Emitted l f) = False"
| "is_caller_call c = True"

definition caller_calls :: "'w disp \<Rightarrow> dcall list" where
  "caller_calls d = filter is_caller_call (calls d)"

interpretation callers: callback_invariant h "\<lambda>d. caller_calls d = cs" for h cs
  by unfold_locales (auto simp: caller_calls_def)

lemma caller_calls_emitFault [simp]: "caller_calls (emitFault h f d) = caller_calls d"
  using callers.I_emitFault [of d "caller_calls d"] by simp

lemma caller_calls_react [simp]: "caller_calls (fst (react h r d)) = caller_calls d"
  using callers.I_react [of d "caller_calls d"] by simp

lemma caller_calls_log [simp]:
  "caller_calls (log_call c d) = caller_calls d @ (if is_caller_call c then [c] else [])"
  by (simp add: caller_calls_def)

lemma caller_calls_release [simp]: "caller_calls (release n d) = caller_calls d"
  by (simp add: caller_calls_def)

definition always_alive :: "'w host \<Rightarrow> bool" where
  "always_alive h \<longleftrightarrow> (\<forall>i w. alive h i w)"

lemma caller_calls_fault:
  "always_alive h \<Longrightarrow> caller_calls (fst (fault_if_alive h i f d)) = caller_calls d @ [Called_fault i f]"
  by (simp add: fault_if_alive_def call_fault_def always_alive_def)

lemma caller_calls_fail_loop:
  assumes "always_alive h" and "safe_faults h"
  shows "caller_calls (fst (fail_loop h ps f d)) = caller_calls d @ map (\<lambda>p. Called_fault (pid p) f) ps"
proof (induction ps arbitrary: d)
  case (Cons p ps)
  obtain d1 where d1: "fault_if_alive h (pid p) f d = (d1, None)"
    using safe_fault_if_alive [OF assms(2)] by (metis prod.collapse)
  then have "caller_calls d1 = caller_calls d @ [Called_fault (pid p) f]"
    using caller_calls_fault [OF assms(1), of "pid p" f d] by simp
  with d1 Cons.IH show ?case by simp
qed simp

text \<open>The failure a reply stands for, when it is one.\<close>

definition reply_fault :: "registry \<Rightarrow> reply \<Rightarrow> api_fault option" where
  "reply_fault reg r = (case r of
     Rejected e \<Rightarrow> Some (Network e)
   | Replied status t \<Rightarrow>
       if 400 \<le> status then Some (Http status)
       else (case read_reply reg t of Return (Inl f) \<Rightarrow> Some f | _ \<Rightarrow> None))"

lemma flush_resume_fault:
  "reply_fault reg r = Some f \<Longrightarrow> flush_resume reg h fl r d = Return (fail_batch h fl f d)"
  by (auto simp: reply_fault_def flush_resume_def split: reply.splits if_splits outcome.splits sum.splits)

text \<open>When the transport rejects, the status is 400 or above, or the body is not a batch
  response, every caller of the batch whose control lives gets exactly that fault, once, in the
  order of the batch; nobody gets an \<open>onOk\<close>, and the requests leave the in-flight count.\<close>

theorem failed_batch_delivery:
  assumes "reply_fault reg r = Some f"
    and "\<forall>i w. alive h i w" and "\<forall>i f w. snd (snd (onFault h i f w)) = None"
  shows "\<exists>d'. flush_resume reg h fl r d = Return (d', None) \<and>
    filter is_caller_call (calls d') =
      filter is_caller_call (calls d) @ map (\<lambda>p. Called_fault (pid p) f) (batch fl) \<and>
    inFlight d' - int (outstanding d') = inFlight d - int (outstanding d) - int (length (batch fl))"
proof -
  have h: "always_alive h" "safe_faults h"
    using assms(2,3) by (auto simp: always_alive_def safe_faults_def)
  obtain d1 where d1: "fail_loop h (batch fl) f (emitFault h f d) = (d1, None)"
    using safe_fail_loop [OF h(2)] by (metis prod.collapse)
  have c: "caller_calls d1 = caller_calls d @ map (\<lambda>p. Called_fault (pid p) f) (batch fl)"
    using caller_calls_fail_loop [OF h, of "batch fl" f "emitFault h f d"] d1 by simp
  have r: "flush_resume reg h fl r d = Return (release (length (batch fl)) d1, None)"
    using flush_resume_fault [OF assms(1), of h fl d] d1 by (simp add: fail_batch_def failAll_def)
  have "balanced (inFlight d - int (outstanding d)) d" by (simp add: balanced_def)
  from flush_resume_balanced [OF r this] c r show ?thesis
    by (auto simp: caller_calls_def balanced_def)
qed

theorem failed_batch_delivery_witness:
  "\<exists>d'. flush_resume no_refs quiet_host \<lparr>batch = [read_pending ''a'', read_pending ''b''], respIdOf = [], body = ''''\<rparr>
      (Replied 503 '''') (init_disp ()) = Return (d', None) \<and>
    filter is_caller_call (calls d') = [Called_fault ''a'' (Http 503), Called_fault ''b'' (Http 503)]"
proof -
  have "reply_fault no_refs (Replied 503 '''') = Some (Http 503)" by (simp add: reply_fault_def)
  from failed_batch_delivery [OF this, of quiet_host
      "\<lparr>batch = [read_pending ''a'', read_pending ''b''], respIdOf = [], body = ''''\<rparr>" "init_disp ()"]
  show ?thesis
    by (auto simp: quiet_host_def init_disp_def read_pending_def make_sub_def)
qed













text \<open>An \<open>onFault\<close> callback that throws while a batch fails ends the loop: the callers after it hear
  nothing and the in-flight count keeps the whole batch.\<close>

lemma throwing_onFault_leaks:
  assumes "always_alive h" and "snd (snd (onFault h (pid p) (Http 503) (world d))) = Some e"
    and "map_of (faultListeners d) KHttp = None"
  shows "\<exists>d'. flush_resume reg h \<lparr>batch = p # ps, respIdOf = [], body = ''''\<rparr> (Replied 503 '''') d = Return (d', Some e)"
proof -
  have "snd (call_fault h (pid p) (Http 503) d) = Some e"
    using assms(2) by (simp add: call_fault_def)
  then obtain d1 where "call_fault h (pid p) (Http 503) d = (d1, Some e)" by (metis prod.collapse)
  then show ?thesis
    using assms(1,3)
    by (simp add: flush_resume_def fail_batch_def failAll_def emitFault_def fault_if_alive_def always_alive_def)
qed


end
