(* ===== verification/VirtualList.thy ===== *)
theory VirtualList
  imports Prelude
begin

text \<open>
  The recycling list (\<^verbatim>\<open>core/virtual-list.ts\<close>): the window arithmetic, and the pool of row
  elements whose content is swapped as data, scroll position and viewport change. Lengths in
  pixels are exact rationals. A row element is what the user sees of it: whether it is hidden,
  where it is translated to, and the item and index last painted into it.

  Main results: the window stays inside the list and inside the pool, covers the viewport when
  there is at least one overscan row, and after any sequence of events the visible rows show
  exactly the window's items, in order, without creating elements while scrolling.
\<close>

section \<open>Window arithmetic\<close>

record window_input =
  scrollTop :: rat
  viewportHeight :: rat
  rowHeight :: rat
  total :: int
  overscan :: int

record window_result =
  firstIndex :: int
  renderCount :: int
  offsetTop :: rat
  spacerHeight :: rat

definition clamped_scroll :: "window_input \<Rightarrow> rat" where
  "clamped_scroll w =
     min (max (scrollTop w) 0) (max 0 (of_int (total w) * rowHeight w - viewportHeight w))"

definition computeWindow :: "window_input \<Rightarrow> window_result" where
  "computeWindow w =
     (if rowHeight w \<le> 0 \<or> total w \<le> 0
      then \<lparr>firstIndex = 0, renderCount = 0, offsetTop = 0, spacerHeight = 0\<rparr>
      else
        let spacer = of_int (total w) * rowHeight w;
            rawFirst = \<lfloor>clamped_scroll w / rowHeight w\<rfloor> - overscan w;
            first = max 0 (min rawFirst (total w - 1));
            visibleRows = \<lceil>viewportHeight w / rowHeight w\<rceil>;
            want = visibleRows + overscan w * 2;
            count = max 0 (min want (total w - first))
        in \<lparr>firstIndex = first, renderCount = count, offsetTop = of_int first * rowHeight w,
            spacerHeight = spacer\<rparr>)"

definition poolSize :: "rat \<Rightarrow> rat \<Rightarrow> int \<Rightarrow> int" where
  "poolSize vh rh os = (if rh \<le> 0 then 0 else \<lceil>vh / rh\<rceil> + os * 2 + 1)"

section \<open>The pool\<close>

text \<open>\<open>slot_index\<close> is -1 while the slot is parked; \<open>painted\<close> is what the last \<open>update\<close> put there.\<close>

record 'i slot =
  hidden :: bool
  translateY :: "rat option"
  painted :: "('i \<times> int) option"
  slot_index :: int
  slot_key :: "string option"

record 'i options =
  opt_rowHeight :: rat
  opt_overscan :: int
  opt_key :: "('i \<Rightarrow> int \<Rightarrow> string) option"

record 'i vlist =
  pool :: "'i slot list"
  currentItems :: "'i list"
  scroll_pos :: rat
  client_height :: rat
  content_offset :: rat
  spacer_height :: rat

definition makeSlot :: "'i slot" where
  "makeSlot = \<lparr>hidden = True, translateY = None, painted = None, slot_index = - 1, slot_key = None\<rparr>"

definition ensurePool :: "int \<Rightarrow> 'i slot list \<Rightarrow> 'i slot list" where
  "ensurePool n ps = ps @ replicate (nat n - length ps) makeSlot"

definition parkSlot :: "'i slot \<Rightarrow> 'i slot" where
  "parkSlot s =
     (if hidden s \<and> slot_index s = - 1 then s
      else s\<lparr>hidden := True, slot_index := - 1, slot_key := None\<rparr>)"

text \<open>The body of the fill loop for a slot of the window.\<close>

definition fill_slot :: "'i options \<Rightarrow> int \<Rightarrow> int \<Rightarrow> 'i \<Rightarrow> 'i slot \<Rightarrow> 'i slot" where
  "fill_slot opts i index item s =
     (let k = map_option (\<lambda>key. key item index) (opt_key opts);
          s' = s\<lparr>translateY := Some (of_int i * opt_rowHeight opts), hidden := False\<rparr>
      in if slot_index s = index \<and> k \<noteq> None \<and> slot_key s = k then s'
         else s'\<lparr>painted := Some (item, index), slot_index := index, slot_key := k\<rparr>)"

fun fill_from :: "'i options \<Rightarrow> window_result \<Rightarrow> 'i list \<Rightarrow> nat \<Rightarrow> 'i slot list \<Rightarrow> 'i slot list" where
  "fill_from opts win its i [] = []"
| "fill_from opts win its i (s # ss) =
     (if renderCount win \<le> int i then parkSlot s
      else let index = firstIndex win + int i
           in fill_slot opts (int i) index (its ! nat index) s)
     # fill_from opts win its (Suc i) ss"

definition window_of :: "'i options \<Rightarrow> 'i vlist \<Rightarrow> window_result" where
  "window_of opts v = computeWindow
     \<lparr>scrollTop = scroll_pos v, viewportHeight = client_height v, rowHeight = opt_rowHeight opts,
      total = int (length (currentItems v)), overscan = opt_overscan opts\<rparr>"

text \<open>\<open>render(currentItems)\<close>, which is what \<open>rerender\<close> does.\<close>

definition render :: "'i options \<Rightarrow> 'i vlist \<Rightarrow> 'i vlist" where
  "render opts v =
     (let win = window_of opts v
      in v\<lparr>spacer_height := spacerHeight win, content_offset := offsetTop win,
           pool := fill_from opts win (currentItems v) 0 (ensurePool (renderCount win) (pool v))\<rparr>)"

definition onResize :: "'i options \<Rightarrow> 'i vlist \<Rightarrow> 'i vlist" where
  "onResize opts v =
     render opts (v\<lparr>pool := ensurePool (poolSize (client_height v) (opt_rowHeight opts) (opt_overscan opts)) (pool v)\<rparr>)"

text \<open>The constructor: the effect renders the first data, then the pool is sized and rendered again.\<close>

definition virtualList :: "'i options \<Rightarrow> 'i list \<Rightarrow> rat \<Rightarrow> rat \<Rightarrow> 'i vlist" where
  "virtualList opts its st vh =
     onResize opts (render opts
       \<lparr>pool = [], currentItems = its, scroll_pos = st, client_height = vh, content_offset = 0,
        spacer_height = 0\<rparr>)"

text \<open>\<open>Data\<close>: the effect runs again; \<open>Scroll\<close> and \<open>Resize\<close>: the browser reports; \<open>Refresh\<close>: the handle.\<close>

datatype 'i event = Data "'i list" | Scroll rat | Resize rat | Refresh

fun vl_step :: "'i options \<Rightarrow> 'i vlist \<Rightarrow> 'i event \<Rightarrow> 'i vlist" where
  "vl_step opts v (Data its) = render opts (v\<lparr>currentItems := its\<rparr>)"
| "vl_step opts v (Scroll st) = render opts (v\<lparr>scroll_pos := st\<rparr>)"
| "vl_step opts v (Resize vh) = onResize opts (v\<lparr>client_height := vh\<rparr>)"
| "vl_step opts v Refresh = onResize opts v"

section \<open>The window\<close>

text \<open>Row \<open>k\<close> of the list is at least partly inside the viewport.\<close>

definition row_visible :: "window_input \<Rightarrow> int \<Rightarrow> bool" where
  "row_visible w k \<longleftrightarrow> 0 \<le> k \<and> k < total w \<and>
     of_int k * rowHeight w < clamped_scroll w + viewportHeight w \<and>
     clamped_scroll w < of_int (k + 1) * rowHeight w"

lemma computeWindow_simps:
  assumes "0 < rowHeight w" and "0 < total w"
  shows "firstIndex (computeWindow w) =
      max 0 (min (\<lfloor>clamped_scroll w / rowHeight w\<rfloor> - overscan w) (total w - 1))"
    and "renderCount (computeWindow w) =
      max 0 (min (\<lceil>viewportHeight w / rowHeight w\<rceil> + overscan w * 2) (total w - firstIndex (computeWindow w)))"
    and "offsetTop (computeWindow w) = of_int (firstIndex (computeWindow w)) * rowHeight w"
    and "spacerHeight (computeWindow w) = of_int (total w) * rowHeight w"
  using assms by (simp_all add: computeWindow_def Let_def)

lemma computeWindow_degenerate [simp]:
  "\<not> (0 < rowHeight w \<and> 0 < total w) \<Longrightarrow>
   computeWindow w = \<lparr>firstIndex = 0, renderCount = 0, offsetTop = 0, spacerHeight = 0\<rparr>"
  by (auto simp: computeWindow_def)

lemma window_bounds:
  "0 \<le> firstIndex (computeWindow w) \<and> 0 \<le> renderCount (computeWindow w) \<and>
   firstIndex (computeWindow w) + renderCount (computeWindow w) \<le> max 0 (total w)"
proof (cases "0 < rowHeight w \<and> 0 < total w")
  case True
  then show ?thesis by (auto simp: computeWindow_simps)
qed simp

lemma window_in_pool:
  assumes "0 \<le> viewportHeight w" and "0 \<le> overscan w"
  shows "renderCount (computeWindow w) \<le> max 0 (poolSize (viewportHeight w) (rowHeight w) (overscan w))"
proof (cases "0 < rowHeight w \<and> 0 < total w")
  case True
  then show ?thesis by (auto simp: computeWindow_simps poolSize_def)
qed simp

lemma window_covers:
  assumes "0 < rowHeight w" and "0 \<le> viewportHeight w" and "1 \<le> overscan w" and "row_visible w k"
  shows "firstIndex (computeWindow w) \<le> k \<and> k < firstIndex (computeWindow w) + renderCount (computeWindow w)"
proof -
  let ?c = "clamped_scroll w / rowHeight w" and ?v = "viewportHeight w / rowHeight w"
  have t: "0 < total w" and k: "0 \<le> k" "k < total w" using assms(4) by (auto simp: row_visible_def)
  have "of_int k < ?c + ?v" "?c < of_int (k + 1)"
    using assms(1,4) by (auto simp: row_visible_def field_simps)
  moreover have "?c < of_int \<lfloor>?c\<rfloor> + 1" by linarith
  moreover have "?v \<le> of_int \<lceil>?v\<rceil>" by linarith
  ultimately have "of_int k < (of_int \<lfloor>?c\<rfloor> + 1 + of_int \<lceil>?v\<rceil> :: rat)" by linarith
  then have up: "k \<le> \<lfloor>?c\<rfloor> + \<lceil>?v\<rceil>" by linarith
  have lo: "\<lfloor>?c\<rfloor> \<le> k" using \<open>?c < of_int (k + 1)\<close> by linarith
  have "0 \<le> \<lceil>?v\<rceil>" using assms(1,2) by (simp add: le_ceiling_iff) (metis divide_nonneg_pos less_le_trans neg_less_0_iff_less zero_less_one)
  then show ?thesis using up lo k assms(3) t by (simp add: computeWindow_simps [OF assms(1) t])
qed

text \<open>For every scroll position, even one outside the list, the window lies inside the list and
  fits the fixed pool; with at least one overscan row it contains every row that is at least
  partly visible.\<close>

theorem window_correct:
  assumes "0 < rowHeight w" and "0 \<le> viewportHeight w" and "1 \<le> overscan w"
  shows "0 \<le> firstIndex (computeWindow w) \<and>
    firstIndex (computeWindow w) + renderCount (computeWindow w) \<le> max 0 (total w) \<and>
    renderCount (computeWindow w) \<le> poolSize (viewportHeight w) (rowHeight w) (overscan w) \<and>
    (\<forall>k. row_visible w k \<longrightarrow>
       firstIndex (computeWindow w) \<le> k \<and> k < firstIndex (computeWindow w) + renderCount (computeWindow w))"
proof -
  have "0 \<le> poolSize (viewportHeight w) (rowHeight w) (overscan w)"
  proof -
    have "0 \<le> viewportHeight w / rowHeight w" using assms(1,2) by simp
    then have "0 \<le> \<lceil>viewportHeight w / rowHeight w\<rceil>" by linarith
    with assms(1,3) show ?thesis by (simp add: poolSize_def)
  qed
  then show ?thesis
    using window_bounds [of w] window_in_pool [OF assms(2), of ] window_covers [OF assms] assms(3) by auto
qed

theorem window_correct_witness:
  "firstIndex (computeWindow \<lparr>scrollTop = 210, viewportHeight = 100, rowHeight = 20, total = 50, overscan = 4\<rparr>) \<le> 15 \<and>
   15 < firstIndex (computeWindow \<lparr>scrollTop = 210, viewportHeight = 100, rowHeight = 20, total = 50, overscan = 4\<rparr>) +
     renderCount (computeWindow \<lparr>scrollTop = 210, viewportHeight = 100, rowHeight = 20, total = 50, overscan = 4\<rparr>)"
proof -
  let ?w = "\<lparr>scrollTop = 210, viewportHeight = 100, rowHeight = 20, total = 50, overscan = 4\<rparr>"
  have "row_visible ?w 15" by (simp add: row_visible_def clamped_scroll_def)
  moreover have "0 < rowHeight ?w" "0 \<le> viewportHeight ?w" "1 \<le> overscan ?w" by simp_all
  ultimately show ?thesis using window_correct [of ?w] by blast
qed

text \<open>Without overscan the last, partly visible row is missing at a fractional scroll position.\<close>

lemma no_overscan_gap:
  "row_visible \<lparr>scrollTop = 10, viewportHeight = 100, rowHeight = 20, total = 50, overscan = 0\<rparr> 5 \<and>
   firstIndex (computeWindow \<lparr>scrollTop = 10, viewportHeight = 100, rowHeight = 20, total = 50, overscan = 0\<rparr>) +
   renderCount (computeWindow \<lparr>scrollTop = 10, viewportHeight = 100, rowHeight = 20, total = 50, overscan = 0\<rparr>) = 5"
  by (simp add: row_visible_def clamped_scroll_def computeWindow_def)

section \<open>What is shown\<close>

text \<open>A slot records what it shows: parked slots are hidden, shown ones carry their index and key.\<close>

definition slot_ok :: "'i options \<Rightarrow> 'i slot \<Rightarrow> bool" where
  "slot_ok opts s \<longleftrightarrow> (slot_index s = - 1 \<longrightarrow> hidden s) \<and>
     (slot_index s \<noteq> - 1 \<longrightarrow> (\<exists>x. painted s = Some (x, slot_index s) \<and>
        slot_key s = map_option (\<lambda>key. key x (slot_index s)) (opt_key opts)))"

text \<open>The keys tell different items apart.\<close>

definition key_exact :: "'i options \<Rightarrow> bool" where
  "key_exact opts \<longleftrightarrow> (case opt_key opts of None \<Rightarrow> True
     | Some key \<Rightarrow> \<forall>x y i. key x i = key y i \<longrightarrow> x = y)"

lemma slot_ok_make [simp]: "slot_ok opts makeSlot"
  by (simp add: slot_ok_def makeSlot_def)

lemma slot_ok_park: "slot_ok opts (parkSlot s)" "hidden (parkSlot s)"
  by (auto simp: slot_ok_def parkSlot_def)

lemma fill_slot_shows:
  assumes "slot_ok opts s" and "0 \<le> index"
  shows "slot_ok opts (fill_slot opts i index item s)"
    and "\<not> hidden (fill_slot opts i index item s)"
    and "translateY (fill_slot opts i index item s) = Some (of_int i * opt_rowHeight opts)"
    and "slot_index (fill_slot opts i index item s) = index"
    and "key_exact opts \<Longrightarrow> painted (fill_slot opts i index item s) = Some (item, index)"
  using assms by (auto simp: fill_slot_def Let_def slot_ok_def key_exact_def split: option.splits) blast+

lemma length_fill_from [simp]: "length (fill_from opts win its i ss) = length ss"
  by (induction opts win its i ss rule: fill_from.induct) simp_all

lemma fill_from_nth:
  "j < length ss \<Longrightarrow> fill_from opts win its i ss ! j =
     (if renderCount win \<le> int (i + j) then parkSlot (ss ! j)
      else fill_slot opts (int (i + j)) (firstIndex win + int (i + j)) (its ! nat (firstIndex win + int (i + j))) (ss ! j))"
proof (induction opts win its i ss arbitrary: j rule: fill_from.induct)
  case (2 opts win its i s ss)
  then show ?case by (cases j) (simp_all add: Let_def)
qed simp

lemma fill_from_ok:
  assumes "list_all (slot_ok opts) ss" and "0 \<le> firstIndex win"
  shows "list_all (slot_ok opts) (fill_from opts win its i ss)"
  using assms
  by (auto simp: list_all_length fill_from_nth intro!: fill_slot_shows(1) slot_ok_park(1))

lemma length_ensurePool [simp]: "length (ensurePool n ps) = max (length ps) (nat n)"
  by (simp add: ensurePool_def)

lemma ensurePool_ok: "list_all (slot_ok opts) ps \<Longrightarrow> list_all (slot_ok opts) (ensurePool n ps)"
  by (auto simp: ensurePool_def list_all_iff set_replicate_conv_if split: if_splits)

text \<open>The user sees the window: the rows that are not hidden, with what is painted and where.\<close>

definition visible_rows :: "'i vlist \<Rightarrow> (rat option \<times> ('i \<times> int) option) list" where
  "visible_rows v = map (\<lambda>s. (translateY s, painted s)) (filter (\<lambda>s. \<not> hidden s) (pool v))"

definition window_rows :: "'i options \<Rightarrow> 'i vlist \<Rightarrow> (rat option \<times> ('i \<times> int) option) list" where
  "window_rows opts v =
     (let win = window_of opts v in
      map (\<lambda>i. (Some (of_nat i * opt_rowHeight opts),
                Some (currentItems v ! nat (firstIndex win + int i), firstIndex win + int i)))
        [0 ..< nat (renderCount win)])"

lemma window_of_render [simp]: "window_of opts (render opts v) = window_of opts v"
  by (simp add: window_of_def render_def Let_def)

lemma currentItems_render [simp]: "currentItems (render opts v) = currentItems v"
  by (simp add: render_def Let_def)

lemma filter_prefix:
  assumes "n \<le> length xs" and "\<And>j. j < n \<Longrightarrow> P (xs ! j)" and "\<And>j. n \<le> j \<Longrightarrow> j < length xs \<Longrightarrow> \<not> P (xs ! j)"
  shows "filter P xs = take n xs"
proof -
  have "filter P (take n xs) = take n xs"
    using assms(1,2) by (auto simp: filter_id_conv in_set_conv_nth)
  moreover have "filter P (drop n xs) = []"
    using assms(3) by (auto simp: filter_empty_conv in_set_conv_nth)
  ultimately show ?thesis by (metis append_Nil2 append_take_drop_id filter_append)
qed

lemma render_shows_window:
  assumes "list_all (slot_ok opts) (pool v)" and "key_exact opts"
  shows "visible_rows (render opts v) = window_rows opts (render opts v)"
proof -
  define win where "win = window_of opts v"
  define ss where "ss = ensurePool (renderCount win) (pool v)"
  define n where "n = nat (renderCount win)"
  have ok: "list_all (slot_ok opts) ss" unfolding ss_def by (rule ensurePool_ok [OF assms(1)])
  have fi: "0 \<le> firstIndex win" and rc: "0 \<le> renderCount win"
    unfolding win_def window_of_def using window_bounds by blast+
  have len: "n \<le> length ss" by (simp add: ss_def n_def)
  define out where "out = fill_from opts win (currentItems v) 0 ss"
  have nth: "out ! j = (if n \<le> j then parkSlot (ss ! j)
      else fill_slot opts (int j) (firstIndex win + int j) (currentItems v ! nat (firstIndex win + int j)) (ss ! j))"
    if "j < length ss" for j
    using that rc by (auto simp: out_def fill_from_nth n_def)
  have okj: "slot_ok opts (ss ! j)" if "j < length ss" for j using ok that by (simp add: list_all_length)
  have "filter (\<lambda>s. \<not> hidden s) out = take n out"
    using len fill_slot_shows(2) [OF okj] fi nth slot_ok_park(2)
    by (intro filter_prefix) (auto simp: out_def)
  also have "map (\<lambda>s. (translateY s, painted s)) (take n out) = map (\<lambda>i. (Some (of_nat i * opt_rowHeight opts),
                Some (currentItems v ! nat (firstIndex win + int i), firstIndex win + int i))) [0 ..< n]"
  proof (rule nth_equalityI)
    fix j assume "j < length (map (\<lambda>s. (translateY s, painted s)) (take n out))"
    then have j: "j < n" "j < length ss" using len by (auto simp: out_def)
    then show "map (\<lambda>s. (translateY s, painted s)) (take n out) ! j = map (\<lambda>i. (Some (of_nat i * opt_rowHeight opts),
                Some (currentItems v ! nat (firstIndex win + int i), firstIndex win + int i))) [0 ..< n] ! j"
      using nth [OF j(2)] fill_slot_shows(3,5) [OF okj [OF j(2)]] fi assms(2) by (simp add: out_def)
  qed (use len in \<open>simp add: out_def\<close>)
  finally show ?thesis
    by (simp add: visible_rows_def window_rows_def render_def Let_def out_def ss_def win_def n_def window_of_def)
qed

definition vlist_ok :: "'i options \<Rightarrow> 'i vlist \<Rightarrow> bool" where
  "vlist_ok opts v \<longleftrightarrow> list_all (slot_ok opts) (pool v) \<and> 0 \<le> client_height v \<and>
     nat (poolSize (client_height v) (opt_rowHeight opts) (opt_overscan opts)) \<le> length (pool v) \<and>
     (key_exact opts \<longrightarrow> visible_rows v = window_rows opts v)"

lemma slots_ok_render:
  "list_all (slot_ok opts) (pool v) \<Longrightarrow> list_all (slot_ok opts) (pool (render opts v))"
  using window_bounds by (auto simp: render_def Let_def window_of_def intro!: fill_from_ok ensurePool_ok)

lemma pool_render:
  assumes "0 \<le> client_height v" and "0 \<le> opt_overscan opts"
    and "nat (poolSize (client_height v) (opt_rowHeight opts) (opt_overscan opts)) \<le> length (pool v)"
  shows "length (pool (render opts v)) = length (pool v)"
proof -
  have "renderCount (window_of opts v) \<le> max 0 (poolSize (client_height v) (opt_rowHeight opts) (opt_overscan opts))"
    using window_in_pool [of "\<lparr>scrollTop = scroll_pos v, viewportHeight = client_height v,
      rowHeight = opt_rowHeight opts, total = int (length (currentItems v)), overscan = opt_overscan opts\<rparr>"] assms(1,2)
    by (simp add: window_of_def)
  with assms(3) show ?thesis by (simp add: render_def Let_def)
qed

lemma client_height_render [simp]: "client_height (render opts v) = client_height v"
  by (simp add: render_def Let_def)

lemma vlist_ok_render:
  assumes "list_all (slot_ok opts) (pool v)" and "0 \<le> client_height v" and "0 \<le> opt_overscan opts"
    and "nat (poolSize (client_height v) (opt_rowHeight opts) (opt_overscan opts)) \<le> length (pool v)"
  shows "vlist_ok opts (render opts v)"
  using assms slots_ok_render [OF assms(1)] pool_render [OF assms(2-4)] render_shows_window [OF assms(1)]
  by (simp add: vlist_ok_def)

lemma vlist_ok_onResize:
  assumes "list_all (slot_ok opts) (pool v)" and "0 \<le> client_height v" and "0 \<le> opt_overscan opts"
  shows "vlist_ok opts (onResize opts v)"
  unfolding onResize_def using assms by (intro vlist_ok_render) (auto intro: ensurePool_ok)

definition event_ok :: "'i event \<Rightarrow> bool" where
  "event_ok e = (case e of Resize vh \<Rightarrow> 0 \<le> vh | _ \<Rightarrow> True)"

lemma vlist_ok_step:
  assumes "vlist_ok opts v" and "event_ok e" and "0 \<le> opt_overscan opts"
  shows "vlist_ok opts (vl_step opts v e)"
proof -
  have v: "list_all (slot_ok opts) (pool v)" "0 \<le> client_height v"
    "nat (poolSize (client_height v) (opt_rowHeight opts) (opt_overscan opts)) \<le> length (pool v)"
    using assms(1) by (simp_all add: vlist_ok_def)
  have "vlist_ok opts (render opts (v\<lparr>currentItems := its\<rparr>))"
    "vlist_ok opts (render opts (v\<lparr>scroll_pos := p\<rparr>))"
    "0 \<le> vh \<Longrightarrow> vlist_ok opts (onResize opts (v\<lparr>client_height := vh\<rparr>))"
    "vlist_ok opts (onResize opts v)" for its p vh
    using v assms(3) by (auto intro: vlist_ok_render vlist_ok_onResize)
  then show ?thesis using assms(2) by (cases e) (simp_all add: event_ok_def)
qed

lemma vlist_ok_run:
  assumes "0 \<le> opt_overscan opts" and "0 \<le> vh" and "list_all event_ok evs"
  shows "vlist_ok opts (foldl (vl_step opts) (virtualList opts its st vh) evs)"
proof -
  have "vlist_ok opts (virtualList opts its st vh)"
    unfolding virtualList_def using assms(1,2)
    by (intro vlist_ok_onResize slots_ok_render) auto
  then show ?thesis
    using assms(3) by (induction evs arbitrary: its rule: rev_induct) (auto intro: vlist_ok_step assms(1))
qed

text \<open>C26: After any sequence of data changes, scrolls, resizes and refreshes, the rows that are not
  hidden show exactly the items of the current window, in order and at their offsets, provided
  the keys tell items apart; and neither a scroll nor new data ever adds a row element.\<close>

theorem visible_rows_are_window:
  assumes "0 \<le> opt_overscan opts" and "0 \<le> vh" and "list_all event_ok evs"
  shows "(key_exact opts \<longrightarrow>
      visible_rows (foldl (vl_step opts) (virtualList opts its st vh) evs) =
      window_rows opts (foldl (vl_step opts) (virtualList opts its st vh) evs)) \<and>
    length (pool (vl_step opts (foldl (vl_step opts) (virtualList opts its st vh) evs) (Scroll st'))) =
      length (pool (foldl (vl_step opts) (virtualList opts its st vh) evs)) \<and>
    length (pool (vl_step opts (foldl (vl_step opts) (virtualList opts its st vh) evs) (Data its'))) =
      length (pool (foldl (vl_step opts) (virtualList opts its st vh) evs))"
  using vlist_ok_run [OF assms, of its st] assms(1) by (auto simp: vlist_ok_def pool_render)

theorem visible_rows_are_window_witness:
  "visible_rows (foldl (vl_step \<lparr>opt_rowHeight = 20, opt_overscan = 1, opt_key = Some (\<lambda>x i. x)\<rparr>)
      (virtualList \<lparr>opt_rowHeight = 20, opt_overscan = 1, opt_key = Some (\<lambda>x i. x)\<rparr> [''a'', ''b''] 0 40) [Data [''c''], Scroll 7]) =
   [(Some 0, Some (''c'', 0))]"
proof -
  let ?o = "\<lparr>opt_rowHeight = 20, opt_overscan = 1, opt_key = Some (\<lambda>x i. x)\<rparr> :: string options"
  let ?v = "foldl (vl_step ?o) (virtualList ?o [''a'', ''b''] 0 40) [Data [''c''], Scroll 7]"
  have "key_exact ?o" by (simp add: key_exact_def)
  then have "visible_rows ?v = window_rows ?o ?v"
    by (intro visible_rows_are_window [THEN conjunct1, rule_format]) (simp_all add: event_ok_def)
  also have "\<dots> = [(Some 0, Some (''c'', 0))]"
    by (simp add: window_rows_def window_of_def render_def Let_def computeWindow_def clamped_scroll_def
        virtualList_def onResize_def)
  finally show ?thesis .
qed

text \<open>A key that does not change with the content leaves the old content in place.\<close>

lemma equal_key_keeps_old_content:
  "painted (pool (vl_step \<lparr>opt_rowHeight = 20, opt_overscan = 1, opt_key = Some (\<lambda>x i. ''k'')\<rparr>
     (virtualList \<lparr>opt_rowHeight = 20, opt_overscan = 1, opt_key = Some (\<lambda>x i. ''k'')\<rparr> [''old''] 0 20)
     (Data [''new''])) ! 0) = Some (''old'', 0)"
  by (simp add: virtualList_def onResize_def render_def window_of_def Let_def computeWindow_def
      clamped_scroll_def ensurePool_def makeSlot_def fill_slot_def poolSize_def parkSlot_def numeral_eq_Suc)


end
