(* ===== verification/Signals.thy ===== *)
theory Signals
  imports Prelude
begin

text \<open>
  The reactive core (\<^verbatim>\<open>core/signal.ts\<close>): signals, lazily recomputed values, effects, batches and
  the flush. The bodies of computeds and effects are programs, a tree of the operations the
  module exports, each continued by a function of what it returned; the state is the module's
  variables and the fields of its objects, which are numbered.

  Running a program is defined with fuel, one unit per operation or call; \<open>None\<close> means that the
  fuel ran out, and the theorems of \<open>SignalsSpec\<close> that speak of a result show that enough fuel
  gives one. The version counters are written by the source and never read; they are left out.
  \<open>Object.is\<close> is equality of values.
\<close>

section \<open>Programs\<close>

datatype 'v prog =
    Done 'v
  | Raise string
  | GetSig nat "'v \<Rightarrow> 'v prog"
  | PeekSig nat "'v \<Rightarrow> 'v prog"
  | SetSig nat 'v "'v prog"
  | BumpSig nat "'v prog"
  | GetCmp nat "'v \<Rightarrow> 'v prog"
  | PeekCmp nat "'v \<Rightarrow> 'v prog"
  | InBatch "'v prog" "'v \<Rightarrow> 'v prog"
  | Untracked "'v prog" "'v \<Rightarrow> 'v prog"
  | StartEffect nat "'v prog"
  | DisposeEffect nat "'v prog"

text \<open>\<open>ecleanup e v\<close> is the cleanup function that effect \<open>e\<close> returns when its body ends with \<open>v\<close>.\<close>

record 'v env =
  cfn :: "nat \<Rightarrow> 'v prog"
  cname :: "nat \<Rightarrow> string"
  efn :: "nat \<Rightarrow> 'v prog"
  ename :: "nat \<Rightarrow> string"
  ecleanup :: "nat \<Rightarrow> 'v \<Rightarrow> 'v prog option"

section \<open>State\<close>

datatype source = Sig nat | Cmp nat

datatype comp = CC nat | CE nat

datatype exn = User string | SignalCycle nat "string list"

text \<open>A computed is dirty when it is not in \<open>clean\<close>. \<open>ran\<close> is the trace of completed effect runs.\<close>

record 'v st =
  sval :: "nat \<Rightarrow> 'v"
  subs :: "source \<Rightarrow> comp list"
  deps :: "comp \<Rightarrow> source list"
  cached :: "nat \<Rightarrow> 'v"
  clean :: "nat list"
  running :: "comp list"
  current :: "comp option"
  pending_effects :: "nat list"
  disposed :: "nat list"
  cleanup :: "nat \<Rightarrow> 'v prog option"
  batchDepth :: nat
  flushing :: bool
  microtasks :: nat
  ran :: "(nat \<times> 'v) list"

definition MAX_FLUSH_PASSES :: nat where
  "MAX_FLUSH_PASSES = 100"

definition set_add :: "'a \<Rightarrow> 'a list \<Rightarrow> 'a list" where
  "set_add x xs = (if x \<in> set xs then xs else xs @ [x])"

definition clearDeps :: "comp \<Rightarrow> 'v st \<Rightarrow> 'v st" where
  "clearDeps c s =
     s\<lparr>subs := (\<lambda>x. if x \<in> set (deps s c) then removeAll c (subs s x) else subs s x),
       deps := (deps s)(c := [])\<rparr>"

definition track :: "source \<Rightarrow> 'v st \<Rightarrow> 'v st" where
  "track x s = (case current s of
     None \<Rightarrow> s
   | Some c \<Rightarrow> s\<lparr>subs := (subs s)(x := set_add c (subs s x)), deps := (deps s)(c := set_add x (deps s c))\<rparr>)"

definition scheduleFlush :: "'v st \<Rightarrow> 'v st" where
  "scheduleFlush s =
     (if 0 < batchDepth s then s
      else if \<not> flushing s then s\<lparr>flushing := True, microtasks := Suc (microtasks s)\<rparr> else s)"

lemma scheduleFlush_sel [simp]:
  "sval (scheduleFlush s) = sval s" "subs (scheduleFlush s) = subs s" "deps (scheduleFlush s) = deps s"
  "cached (scheduleFlush s) = cached s" "clean (scheduleFlush s) = clean s" "running (scheduleFlush s) = running s"
  "current (scheduleFlush s) = current s" "pending_effects (scheduleFlush s) = pending_effects s"
  "disposed (scheduleFlush s) = disposed s" "cleanup (scheduleFlush s) = cleanup s"
  "batchDepth (scheduleFlush s) = batchDepth s" "ran (scheduleFlush s) = ran s"
  by (simp_all add: scheduleFlush_def)

text \<open>
  \<open>for (const c of [...subs]) c.notify()\<close>: an effect becomes pending; a clean computed turns
  dirty and notifies its own subscribers before the rest of the list.
\<close>

function notify_all :: "comp list \<Rightarrow> 'v st \<Rightarrow> 'v st" where
  "notify_all [] s = s"
| "notify_all (CE e # cs) s =
     notify_all cs
       (if e \<in> set (disposed s) then s
        else scheduleFlush (s\<lparr>pending_effects := set_add e (pending_effects s)\<rparr>))"
| "notify_all (CC n # cs) s =
     (if n \<in> set (clean s)
      then notify_all (subs s (Cmp n) @ cs) (s\<lparr>clean := removeAll n (clean s)\<rparr>)
      else notify_all cs s)"
  by pat_completeness auto
termination
  by (relation "inv_image (less_than <*lex*> less_than) (\<lambda>(cs, s). (length (clean s), length cs))")
    (auto simp: length_removeAll_less)

definition pushAndSchedule :: "nat \<Rightarrow> 'v st \<Rightarrow> 'v st" where
  "pushAndSchedule n s = scheduleFlush (notify_all (subs s (Sig n)) s)"

definition set_signal :: "nat \<Rightarrow> 'v \<Rightarrow> 'v st \<Rightarrow> 'v st" where
  "set_signal n v s = (if v = sval s n then s else pushAndSchedule n (s\<lparr>sval := (sval s)(n := v)\<rparr>))"

section \<open>Running\<close>

text \<open>What a call ended with: a value, nothing to return, or an exception.\<close>

datatype 'v res = Ok 'v | Finished | Exn exn

type_synonym 'v result = "('v res \<times> 'v st) option"

definition with_value :: "'v result \<Rightarrow> ('v \<Rightarrow> 'v st \<Rightarrow> 'v result) \<Rightarrow> 'v result" where
  "with_value m f = (case m of
     Some (Ok v, s) \<Rightarrow> f v s | Some (Exn e, s) \<Rightarrow> Some (Exn e, s) | _ \<Rightarrow> None)"

definition and_then :: "'v result \<Rightarrow> ('v st \<Rightarrow> 'v result) \<Rightarrow> 'v result" where
  "and_then m f = (case m of
     None \<Rightarrow> None | Some (Exn e, s) \<Rightarrow> Some (Exn e, s) | Some (_, s) \<Rightarrow> f s)"

text \<open>
  The calls between the functions of the module. Each function is defined from \<open>call\<close>, the
  meaning of the calls it makes; \<open>go\<close> ties the knot with one unit of fuel per call.
\<close>

datatype 'v task =
  Exec "'v prog" | Recompute nat | RunEffect nat | RunCleanup nat | RunAll "nat list" | FlushLoop nat | Flush

type_synonym 'v caller = "'v task \<Rightarrow> 'v st \<Rightarrow> 'v result"

definition quoted :: "string \<Rightarrow> string" where
  "quoted s = [CHR 0x22] @ s @ [CHR 0x22]"

definition recompute :: "'v env \<Rightarrow> 'v caller \<Rightarrow> nat \<Rightarrow> 'v st \<Rightarrow> 'v result" where
  "recompute env call n s =
     (if CC n \<in> set (running s)
      then Some (Exn (SignalCycle 0 [''computed '' @ quoted (cname env n) @ '' re-entered while computing'']), s)
      else
        (case call (Exec (cfn env n))
            (clearDeps (CC n) (s\<lparr>running := CC n # running s, current := Some (CC n)\<rparr>)) of
           None \<Rightarrow> None
         | Some (r, s1) \<Rightarrow>
             (let s2 = (case r of Ok v \<Rightarrow> s1\<lparr>cached := (cached s1)(n := v)\<rparr> | _ \<Rightarrow> s1)
              in Some ((case r of Exn e \<Rightarrow> Exn e | _ \<Rightarrow> Finished),
                  s2\<lparr>current := current s, running := removeAll (CC n) (running s2),
                     clean := set_add n (clean s2)\<rparr>))))"

definition read_computed :: "'v caller \<Rightarrow> nat \<Rightarrow> ('v \<Rightarrow> 'v prog) \<Rightarrow> 'v st \<Rightarrow> 'v result" where
  "read_computed call n f s =
     (if n \<in> set (clean s) then call (Exec (f (cached s n))) s
      else and_then (call (Recompute n) s) (\<lambda>s. call (Exec (f (cached s n))) s))"

definition run_cleanup :: "'v caller \<Rightarrow> nat \<Rightarrow> 'v st \<Rightarrow> 'v result" where
  "run_cleanup call e s =
     (case cleanup s e of
        None \<Rightarrow> Some (Finished, s)
      | Some c \<Rightarrow> and_then (call (Exec c) (s\<lparr>cleanup := (cleanup s)(e := None)\<rparr>)) (\<lambda>s. Some (Finished, s)))"

definition run_effect :: "'v env \<Rightarrow> 'v caller \<Rightarrow> nat \<Rightarrow> 'v st \<Rightarrow> 'v result" where
  "run_effect env call e s =
     (if e \<in> set (disposed s) then Some (Finished, s)
      else if CE e \<in> set (running s)
      then Some (Exn (SignalCycle 0 [''effect '' @ quoted (ename env e) @ '' re-entered while running'']), s)
      else and_then (call (RunCleanup e) s) (\<lambda>s1.
        (case call (Exec (efn env e))
            (clearDeps (CE e) (s1\<lparr>running := CE e # running s1, current := Some (CE e)\<rparr>)) of
           None \<Rightarrow> None
         | Some (r, s2) \<Rightarrow>
             (let s3 = (case r of
                   Ok v \<Rightarrow> s2\<lparr>cleanup := (cleanup s2)(e := ecleanup env e v), ran := ran s2 @ [(e, v)]\<rparr>
                 | _ \<Rightarrow> s2)
              in Some ((case r of Exn x \<Rightarrow> Exn x | _ \<Rightarrow> Finished),
                  s3\<lparr>current := current s1, running := removeAll (CE e) (running s3)\<rparr>)))))"

definition dispose :: "'v caller \<Rightarrow> nat \<Rightarrow> 'v st \<Rightarrow> 'v result" where
  "dispose call e s =
     (if e \<in> set (disposed s) then Some (Finished, s)
      else let s1 = clearDeps (CE e) (s\<lparr>disposed := e # disposed s\<rparr>)
           in call (RunCleanup e) (s1\<lparr>pending_effects := removeAll e (pending_effects s1)\<rparr>))"

text \<open>\<open>batch\<close>: the flush at the end also runs when the body throws, and its exception wins.\<close>

definition in_batch :: "'v caller \<Rightarrow> 'v prog \<Rightarrow> ('v \<Rightarrow> 'v prog) \<Rightarrow> 'v st \<Rightarrow> 'v result" where
  "in_batch call q f s =
     (case call (Exec q) (s\<lparr>batchDepth := Suc (batchDepth s)\<rparr>) of
        None \<Rightarrow> None
      | Some (r, s1) \<Rightarrow>
          (let s2 = s1\<lparr>batchDepth := batchDepth s1 - 1\<rparr> in
           and_then (if batchDepth s2 = 0 then call Flush s2 else Some (Finished, s2))
             (\<lambda>s3. with_value (Some (r, s3)) (\<lambda>v. call (Exec (f v))))))"

definition untracked :: "'v caller \<Rightarrow> 'v prog \<Rightarrow> ('v \<Rightarrow> 'v prog) \<Rightarrow> 'v st \<Rightarrow> 'v result" where
  "untracked call q f s =
     (case call (Exec q) (s\<lparr>current := None\<rparr>) of
        None \<Rightarrow> None
      | Some (r, s1) \<Rightarrow> with_value (Some (r, s1\<lparr>current := current s\<rparr>)) (\<lambda>v. call (Exec (f v))))"

fun exec :: "'v caller \<Rightarrow> 'v prog \<Rightarrow> 'v st \<Rightarrow> 'v result" where
  "exec call (Done v) s = Some (Ok v, s)"
| "exec call (Raise e) s = Some (Exn (User e), s)"
| "exec call (GetSig n f) s = (let s' = track (Sig n) s in call (Exec (f (sval s' n))) s')"
| "exec call (PeekSig n f) s = call (Exec (f (sval s n))) s"
| "exec call (SetSig n v p) s = call (Exec p) (set_signal n v s)"
| "exec call (BumpSig n p) s = call (Exec p) (pushAndSchedule n s)"
| "exec call (GetCmp n f) s = read_computed call n f (track (Cmp n) s)"
| "exec call (PeekCmp n f) s = read_computed call n f s"
| "exec call (InBatch q f) s = in_batch call q f s"
| "exec call (Untracked q f) s = untracked call q f s"
| "exec call (StartEffect e p) s = and_then (call (RunEffect e) s) (call (Exec p))"
| "exec call (DisposeEffect e p) s = and_then (dispose call e s) (call (Exec p))"

definition run_all :: "'v caller \<Rightarrow> nat list \<Rightarrow> 'v st \<Rightarrow> 'v result" where
  "run_all call es s = (case es of
     [] \<Rightarrow> Some (Finished, s)
   | e # es' \<Rightarrow> and_then (call (RunEffect e) s) (call (RunAll es')))"

definition flush_loop :: "'v env \<Rightarrow> 'v caller \<Rightarrow> nat \<Rightarrow> 'v st \<Rightarrow> 'v result" where
  "flush_loop env call passes s =
     (if pending_effects s = [] then Some (Finished, s)
      else if MAX_FLUSH_PASSES < Suc passes
      then Some (Exn (SignalCycle (Suc passes) (map (ename env) (pending_effects s))), s\<lparr>pending_effects := []\<rparr>)
      else and_then (call (RunAll (pending_effects s)) (s\<lparr>pending_effects := []\<rparr>)) (call (FlushLoop (Suc passes))))"

definition flush :: "'v caller \<Rightarrow> 'v st \<Rightarrow> 'v result" where
  "flush call s =
     (if 0 < batchDepth s then Some (Finished, s)
      else map_option (\<lambda>(r, s1). (r, s1\<lparr>flushing := False\<rparr>)) (call (FlushLoop 0) s))"

fun go :: "'v env \<Rightarrow> nat \<Rightarrow> 'v caller" where
  "go env 0 t s = None"
| "go env (Suc k) t s = (case t of
     Exec p \<Rightarrow> exec (go env k) p s
   | Recompute n \<Rightarrow> recompute env (go env k) n s
   | RunEffect e \<Rightarrow> run_effect env (go env k) e s
   | RunCleanup e \<Rightarrow> run_cleanup (go env k) e s
   | RunAll es \<Rightarrow> run_all (go env k) es s
   | FlushLoop p \<Rightarrow> flush_loop env (go env k) p s
   | Flush \<Rightarrow> flush (go env k) s)"

definition flushSync :: "'v caller \<Rightarrow> 'v st \<Rightarrow> 'v result" where
  "flushSync call s =
     (if flushing s \<or> pending_effects s \<noteq> [] then call Flush (s\<lparr>flushing := True\<rparr>) else Some (Finished, s))"

text \<open>The module before any write: \<open>ini\<close> gives the signals' first values.\<close>

definition init_st :: "(nat \<Rightarrow> 'v) \<Rightarrow> 'v \<Rightarrow> 'v st" where
  "init_st ini undef = \<lparr>sval = ini, subs = (\<lambda>x. []), deps = (\<lambda>c. []), cached = (\<lambda>n. undef), clean = [],
     running = [], current = None, pending_effects = [], disposed = [], cleanup = (\<lambda>e. None),
     batchDepth = 0, flushing = False, microtasks = 0, ran = []\<rparr>"

end
