(* ===== verification/SignalsSpec.thy ===== *)
theory SignalsSpec
  imports Signals
begin

text \<open>
  What the reactive core guarantees. For bodies that only read signals and computeds of smaller
  number (so that there is no cycle), \<open>evals\<close> says what a body is worth for given signal values;
  \<open>coherent\<close> is the invariant that a clean computed holds that value and is subscribed to
  everything it read, and that an effect that is not pending last ran on the current values. It is
  kept by every operation of a client, reads and flushes always return, and a flush leaves
  nothing pending. For arbitrary bodies: the bound on the passes of a flush, and what it reports.
\<close>

section \<open>Enough fuel\<close>

definition returns :: "'v env \<Rightarrow> 'v task \<Rightarrow> 'v st \<Rightarrow> 'v res \<times> 'v st \<Rightarrow> bool" where
  "returns env t s r \<longleftrightarrow> (\<exists>k. \<forall>j \<ge> k. go env j t s = Some r)"

lemma returns_unique: "returns env t s r \<Longrightarrow> returns env t s r' \<Longrightarrow> r = r'"
  unfolding returns_def by (metis max.cobounded1 max.cobounded2 option.inject)

lemma returnsI: "(\<And>j. k \<le> j \<Longrightarrow> go env (Suc j) t s = Some r) \<Longrightarrow> returns env t s r"
  unfolding returns_def by (metis Suc_le_D Suc_le_mono)

lemma returnsE:
  assumes "returns env t s r"
  obtains k where "\<And>j. k \<le> j \<Longrightarrow> go env j t s = Some r"
  using assms unfolding returns_def by blast

lemma returns_Done: "returns env (Exec (Done v)) s (Ok v, s)"
  by (rule returnsI [of 0]) simp

lemma returns_GetSig:
  "returns env (Exec (f (sval s n))) (track (Sig n) s) r \<Longrightarrow> sval (track (Sig n) s) = sval s \<Longrightarrow>
   returns env (Exec (GetSig n f)) s r"
  by (elim returnsE, rule returnsI) (auto simp: Let_def)

lemma returns_GetCmp_clean:
  assumes "n \<in> set (clean (track (Cmp n) s))"
    and "returns env (Exec (f (cached (track (Cmp n) s) n))) (track (Cmp n) s) r"
  shows "returns env (Exec (GetCmp n f)) s r"
proof -
  from assms(2) obtain k where k: "\<And>j. k \<le> j \<Longrightarrow>
      go env j (Exec (f (cached (track (Cmp n) s) n))) (track (Cmp n) s) = Some r"
    by (rule returnsE) blast
  show ?thesis by (rule returnsI [of k]) (simp add: read_computed_def assms(1) k)
qed

lemma returns_GetCmp_dirty:
  assumes "n \<notin> set (clean (track (Cmp n) s))"
    and "returns env (Recompute n) (track (Cmp n) s) (Finished, s1)"
    and "returns env (Exec (f (cached s1 n))) s1 r"
  shows "returns env (Exec (GetCmp n f)) s r"
proof -
  from assms(2,3) obtain k1 k2 where
    "\<And>j. k1 \<le> j \<Longrightarrow> go env j (Recompute n) (track (Cmp n) s) = Some (Finished, s1)"
    "\<And>j. k2 \<le> j \<Longrightarrow> go env j (Exec (f (cached s1 n))) s1 = Some r"
    by (elim returnsE) blast
  then show ?thesis
    by (intro returnsI [of "max k1 k2"]) (simp add: read_computed_def assms(1) and_then_def)
qed

lemma returns_Recompute:
  assumes "CC n \<notin> set (running s)"
    and "returns env (Exec (cfn env n)) (clearDeps (CC n) (s\<lparr>running := CC n # running s, current := Some (CC n)\<rparr>)) (Ok v, s1)"
  shows "returns env (Recompute n) s (Finished, s1\<lparr>cached := (cached s1)(n := v), current := current s,
      running := removeAll (CC n) (running s1), clean := set_add n (clean s1)\<rparr>)"
proof -
  from assms(2) obtain k where k: "\<And>j. k \<le> j \<Longrightarrow> go env j (Exec (cfn env n))
      (clearDeps (CC n) (s\<lparr>running := CC n # running s, current := Some (CC n)\<rparr>)) = Some (Ok v, s1)"
    by (rule returnsE) blast
  show ?thesis by (rule returnsI [of k]) (simp add: recompute_def assms(1) k)
qed

section \<open>What a body is worth\<close>

inductive evals :: "'v env \<Rightarrow> (nat \<Rightarrow> 'v) \<Rightarrow> 'v prog \<Rightarrow> 'v \<Rightarrow> source list \<Rightarrow> bool" for env \<rho> where
  evals_Done: "evals env \<rho> (Done v) v []"
| evals_Sig: "evals env \<rho> (f (\<rho> n)) v R \<Longrightarrow> evals env \<rho> (GetSig n f) v (Sig n # R)"
| evals_Cmp: "evals env \<rho> (cfn env n) u Q \<Longrightarrow> evals env \<rho> (f u) v R \<Longrightarrow>
    evals env \<rho> (GetCmp n f) v (Cmp n # R)"

inductive_cases evals_DoneE: "evals env \<rho> (Done w) v R"
inductive_cases evals_SigE: "evals env \<rho> (GetSig n f) v R"
inductive_cases evals_CmpE: "evals env \<rho> (GetCmp n f) v R"

lemma evals_unique: "evals env \<rho> p v R \<Longrightarrow> evals env \<rho> p v' R' \<Longrightarrow> v = v' \<and> R = R'"
proof (induction arbitrary: v' R' rule: evals.induct)
  case (evals_Done v)
  then show ?case by (auto elim: evals_DoneE)
next
  case (evals_Sig f n v R)
  then show ?case by (elim evals_SigE) blast
next
  case (evals_Cmp n u Q f v R)
  from evals_Cmp.prems evals_Cmp.IH show ?case by (elim evals_CmpE) blast
qed

text \<open>A body that reads only what did not change is worth the same.\<close>

lemma evals_transfer:
  assumes "evals env \<rho> p v R" and "\<forall>x \<in> set R. good x"
    and "\<And>m Q u x. good (Cmp m) \<Longrightarrow> evals env \<rho> (cfn env m) u Q \<Longrightarrow> x \<in> set Q \<Longrightarrow> good x"
    and "\<And>n. good (Sig n) \<Longrightarrow> \<rho>' n = \<rho> n"
  shows "evals env \<rho>' p v R"
  using assms(1,2)
proof (induction rule: evals.induct)
  case (evals_Done v)
  show ?case by (rule evals.intros)
next
  case (evals_Sig f n v R)
  then show ?case using assms(4) by (intro evals.intros) simp_all
next
  case (evals_Cmp n u Q f v R)
  then show ?case using assms(3) by (intro evals.intros) auto
qed

text \<open>Bodies that only read, from computeds below \<open>n\<close>.\<close>

primrec pure_below :: "nat \<Rightarrow> 'v prog \<Rightarrow> bool" where
  "pure_below n (Done v) = True"
| "pure_below n (Raise e) = False"
| "pure_below n (GetSig m f) = (\<forall>v. pure_below n (f v))"
| "pure_below n (PeekSig m f) = False"
| "pure_below n (SetSig m v p) = False"
| "pure_below n (BumpSig m p) = False"
| "pure_below n (GetCmp m f) = (m < n \<and> (\<forall>v. pure_below n (f v)))"
| "pure_below n (PeekCmp m f) = False"
| "pure_below n (InBatch q f) = False"
| "pure_below n (Untracked q f) = False"
| "pure_below n (StartEffect e p) = False"
| "pure_below n (DisposeEffect e p) = False"

definition acyclic_env :: "'v env \<Rightarrow> bool" where
  "acyclic_env env \<longleftrightarrow> (\<forall>n. pure_below n (cfn env n)) \<and> (\<forall>e. \<exists>n. pure_below n (efn env e)) \<and>
     (\<forall>e v p. ecleanup env e v = Some p \<longrightarrow> (\<exists>n. pure_below n p))"

section \<open>Coherence\<close>

definition fresh_for :: "'v env \<Rightarrow> 'v st \<Rightarrow> comp \<Rightarrow> 'v prog \<Rightarrow> 'v \<Rightarrow> bool" where
  "fresh_for env s c p v \<longleftrightarrow> (\<exists>R. evals env (sval s) p v R \<and>
     (\<forall>x \<in> set R. c \<in> set (subs s x) \<and> (\<forall>m. x = Cmp m \<longrightarrow> m \<in> set (clean s))))"

definition last_value :: "nat \<Rightarrow> 'v st \<Rightarrow> 'v option" where
  "last_value e s = map_of (rev (ran s)) e"

definition coherent :: "'v env \<Rightarrow> nat set \<Rightarrow> 'v st \<Rightarrow> bool" where
  "coherent env E s \<longleftrightarrow>
     (\<forall>n \<in> set (clean s). fresh_for env s (CC n) (cfn env n) (cached s n)) \<and>
     (\<forall>e v. last_value e s = Some v \<longrightarrow> e \<notin> set (disposed s) \<longrightarrow> e \<notin> set (pending_effects s) \<longrightarrow> e \<notin> E \<longrightarrow>
        fresh_for env s (CE e) (efn env e) v)"

lemma coherentI:
  assumes "\<And>n. n \<in> set (clean s) \<Longrightarrow> fresh_for env s (CC n) (cfn env n) (cached s n)"
    and "\<And>e v. last_value e s = Some v \<Longrightarrow> e \<notin> set (disposed s) \<Longrightarrow> e \<notin> set (pending_effects s) \<Longrightarrow>
      e \<notin> E \<Longrightarrow> fresh_for env s (CE e) (efn env e) v"
  shows "coherent env E s"
  using assms by (simp add: coherent_def)

lemma coherentD:
  assumes "coherent env E s"
  shows "n \<in> set (clean s) \<Longrightarrow> fresh_for env s (CC n) (cfn env n) (cached s n)"
    and "last_value e s = Some v \<Longrightarrow> e \<notin> set (disposed s) \<Longrightarrow> e \<notin> set (pending_effects s) \<Longrightarrow>
      e \<notin> E \<Longrightarrow> fresh_for env s (CE e) (efn env e) v"
  using assms by (simp_all add: coherent_def)

subsection \<open>Writes\<close>

definition told :: "'v st \<Rightarrow> comp \<Rightarrow> bool" where
  "told s c = (case c of CC m \<Rightarrow> m \<notin> set (clean s)
     | CE e \<Rightarrow> e \<in> set (disposed s) \<or> e \<in> set (pending_effects s))"

lemma set_set_add [simp]: "set (set_add x xs) = insert x (set xs)"
  by (auto simp: set_add_def)

lemma notify_all_sel [simp]:
  "sval (notify_all cs s) = sval s \<and> subs (notify_all cs s) = subs s \<and> deps (notify_all cs s) = deps s \<and>
   cached (notify_all cs s) = cached s \<and> running (notify_all cs s) = running s \<and>
   current (notify_all cs s) = current s \<and> disposed (notify_all cs s) = disposed s \<and>
   cleanup (notify_all cs s) = cleanup s \<and> batchDepth (notify_all cs s) = batchDepth s \<and>
   ran (notify_all cs s) = ran s"
  by (induction cs s rule: notify_all.induct) simp_all

lemma notify_all_mono:
  "set (clean (notify_all cs s)) \<subseteq> set (clean s) \<and>
   set (pending_effects s) \<subseteq> set (pending_effects (notify_all cs s))"
  by (induction cs s rule: notify_all.induct) (auto split: if_splits)

lemma told_mono: "told s c \<Longrightarrow> told (notify_all cs s) c"
  using notify_all_mono [of cs s] by (auto simp: told_def split: comp.splits)

lemma notify_all_told:
  "(\<forall>c \<in> set cs. told (notify_all cs s) c) \<and>
   (\<forall>m \<in> set (clean s) - set (clean (notify_all cs s)). \<forall>c \<in> set (subs s (Cmp m)). told (notify_all cs s) c)"
proof (induction cs s rule: notify_all.induct)
  case (2 e cs s)
  have "told (if e \<in> set (disposed s) then s
      else scheduleFlush (s\<lparr>pending_effects := set_add e (pending_effects s)\<rparr>)) (CE e)"
    by (simp add: told_def)
  with 2 show ?case by (auto intro: told_mono)
next
  case (3 n cs s)
  show ?case
  proof (cases "n \<in> set (clean s)")
    case True
    let ?s = "s\<lparr>clean := removeAll n (clean s)\<rparr>"
    have "told ?s (CC n)" by (simp add: told_def)
    with True 3(1) [OF True] show ?thesis by (auto intro: told_mono)
  next
    case False
    then have "told s (CC n)" by (simp add: told_def)
    with False 3(2) [OF False] show ?thesis by (auto intro: told_mono)
  qed
qed simp

lemma fresh_for_write:
  assumes f: "fresh_for env s c p v"
    and coh: "coherent env E s"
    and eq: "\<And>m. m \<noteq> n \<Longrightarrow> \<rho>' m = sval s m"
    and s': "sval s' = \<rho>'" "subs s' = subs s" "set (clean s') \<subseteq> set (clean s)"
    and sig: "\<forall>d \<in> set (subs s (Sig n)). told s' d"
    and cmp: "\<forall>m \<in> set (clean s) - set (clean s'). \<forall>d \<in> set (subs s (Cmp m)). told s' d"
    and c: "\<not> told s' c"
  shows "fresh_for env s' c p v"
proof -
  obtain R where R: "evals env (sval s) p v R"
    "\<forall>x \<in> set R. c \<in> set (subs s x) \<and> (\<forall>m. x = Cmp m \<longrightarrow> m \<in> set (clean s))"
    using f by (auto simp: fresh_for_def)
  define good where "good x = (case x of Sig k \<Rightarrow> k \<noteq> n | Cmp m \<Rightarrow> m \<in> set (clean s'))" for x
  have good: "good x" if "d \<in> set (subs s x)" "\<not> told s' d" "\<forall>m. x = Cmp m \<longrightarrow> m \<in> set (clean s)" for x d
    using that sig cmp by (cases x) (auto simp: good_def)
  have closed: "good x" if "good (Cmp m)" "evals env (sval s) (cfn env m) u Q" "x \<in> set Q" for m u Q x
  proof -
    have m: "m \<in> set (clean s')" using that(1) by (simp add: good_def)
    with s'(3) coh have "fresh_for env s (CC m) (cfn env m) (cached s m)" by (auto simp: coherent_def)
    then obtain Q' where Q': "evals env (sval s) (cfn env m) (cached s m) Q'"
      "\<forall>x \<in> set Q'. CC m \<in> set (subs s x) \<and> (\<forall>m. x = Cmp m \<longrightarrow> m \<in> set (clean s))"
      by (auto simp: fresh_for_def)
    with evals_unique [OF Q'(1) that(2)] that(3) m show ?thesis
      by (intro good [of "CC m"]) (auto simp: told_def)
  qed
  have all: "\<forall>x \<in> set R. good x" using R(2) good c by blast
  have "evals env \<rho>' p v R"
    by (rule evals_transfer [OF R(1) all closed]) (auto simp: good_def eq)
  with R(2) all s' show ?thesis
    unfolding fresh_for_def by (intro exI [of _ R]) (auto simp: good_def)
qed

lemma pushAndSchedule_sel [simp]:
  "sval (pushAndSchedule n s) = sval s" "subs (pushAndSchedule n s) = subs s"
  "deps (pushAndSchedule n s) = deps s" "cached (pushAndSchedule n s) = cached s"
  "running (pushAndSchedule n s) = running s" "current (pushAndSchedule n s) = current s"
  "disposed (pushAndSchedule n s) = disposed s" "cleanup (pushAndSchedule n s) = cleanup s"
  "batchDepth (pushAndSchedule n s) = batchDepth s" "ran (pushAndSchedule n s) = ran s"
  by (simp_all add: pushAndSchedule_def)

lemma coherent_push:
  assumes coh: "coherent env E s" and eq: "\<And>m. m \<noteq> n \<Longrightarrow> \<rho>' m = sval s m"
  shows "coherent env E (pushAndSchedule n (s\<lparr>sval := \<rho>'\<rparr>))"
proof -
  let ?s' = "pushAndSchedule n (s\<lparr>sval := \<rho>'\<rparr>)"
  let ?t = "notify_all (subs s (Sig n)) (s\<lparr>sval := \<rho>'\<rparr>)"
  have told: "told ?s' d \<longleftrightarrow> told ?t d" for d
    by (simp add: told_def pushAndSchedule_def split: comp.split)
  have sig: "\<forall>d \<in> set (subs s (Sig n)). told ?s' d"
    and cmp: "\<forall>m \<in> set (clean s) - set (clean ?s'). \<forall>d \<in> set (subs s (Cmp m)). told ?s' d"
    using notify_all_told [of "subs s (Sig n)" "s\<lparr>sval := \<rho>'\<rparr>"]
    unfolding told by (simp_all add: pushAndSchedule_def)
  have mono: "set (clean ?s') \<subseteq> set (clean s)" "set (pending_effects s) \<subseteq> set (pending_effects ?s')"
    using notify_all_mono [of "subs s (Sig n)" "s\<lparr>sval := \<rho>'\<rparr>"]
    by (simp_all add: pushAndSchedule_def)
  have keep: "fresh_for env ?s' c p v" if "fresh_for env s c p v" "\<not> told ?s' c" for c p v
    by (rule fresh_for_write [OF that(1) coh eq _ _ mono(1) sig cmp that(2)]) simp_all
  show ?thesis
    unfolding coherent_def
  proof (intro conjI ballI allI impI)
    fix m assume m: "m \<in> set (clean ?s')"
    with mono(1) coh have "fresh_for env s (CC m) (cfn env m) (cached s m)" by (auto simp: coherent_def)
    with m show "fresh_for env ?s' (CC m) (cfn env m) (cached ?s' m)"
      by (simp add: keep told_def)
  next
    fix e v assume e: "last_value e ?s' = Some v" "e \<notin> set (disposed ?s')" "e \<notin> set (pending_effects ?s')" "e \<notin> E"
    with mono(2) coh have "fresh_for env s (CE e) (efn env e) v"
      by (auto simp: coherent_def last_value_def)
    with e show "fresh_for env ?s' (CE e) (efn env e) v"
      by (simp add: keep told_def)
  qed
qed

lemma coherent_set: "coherent env E s \<Longrightarrow> coherent env E (set_signal n v s)"
  using coherent_push [of env E s n "(sval s)(n := v)"] by (simp add: set_signal_def)

lemma coherent_bump: "coherent env E s \<Longrightarrow> coherent env E (pushAndSchedule n s)"
  using coherent_push [of env E s n "sval s"] by simp

subsection \<open>Reads\<close>

text \<open>What a run of a pure body below \<open>n\<close> may change.\<close>

definition extends :: "nat \<Rightarrow> 'v st \<Rightarrow> 'v st \<Rightarrow> bool" where
  "extends n s s' \<longleftrightarrow> sval s' = sval s \<and> pending_effects s' = pending_effects s \<and> disposed s' = disposed s \<and>
     ran s' = ran s \<and> running s' = running s \<and> current s' = current s \<and> batchDepth s' = batchDepth s \<and>
     cleanup s' = cleanup s \<and> flushing s' = flushing s \<and> set (clean s) \<subseteq> set (clean s') \<and> set (clean s') \<subseteq> set (clean s) \<union> {..<n} \<and>
     (\<forall>m \<in> set (clean s). cached s' m = cached s m) \<and>
     (\<forall>x d. d \<in> set (subs s x) \<longrightarrow> (\<forall>m. d = CC m \<longrightarrow> m \<notin> set (clean s') - set (clean s)) \<longrightarrow> d \<in> set (subs s' x))"

lemma extends_refl [simp]: "extends n s s"
  by (simp add: extends_def)

lemma extends_trans: "extends n s t \<Longrightarrow> extends n t u \<Longrightarrow> extends n s u"
  unfolding extends_def by auto blast+

lemma extends_mono: "extends m s t \<Longrightarrow> m \<le> n \<Longrightarrow> extends n s t"
  unfolding extends_def by fastforce

lemma track_sel [simp]:
  "sval (track x s) = sval s" "cached (track x s) = cached s" "clean (track x s) = clean s"
  "running (track x s) = running s" "current (track x s) = current s"
  "pending_effects (track x s) = pending_effects s" "disposed (track x s) = disposed s"
  "cleanup (track x s) = cleanup s" "batchDepth (track x s) = batchDepth s" "ran (track x s) = ran s"
  "flushing (track x s) = flushing s"
  by (simp_all add: track_def split: option.split)

lemma track_subs: "d \<in> set (subs (track x s) y) \<longleftrightarrow> d \<in> set (subs s y) \<or> (y = x \<and> current s = Some d)"
  by (auto simp: track_def split: option.split)

lemma extends_track: "extends n s (track x s)"
  by (auto simp: extends_def track_subs)

lemma fresh_for_extends:
  assumes "fresh_for env s c p v" and "extends n s s'" and "\<forall>m. c = CC m \<longrightarrow> m \<notin> set (clean s') - set (clean s)"
  shows "fresh_for env s' c p v"
proof -
  obtain R where R: "evals env (sval s) p v R"
    "\<forall>x \<in> set R. c \<in> set (subs s x) \<and> (\<forall>m. x = Cmp m \<longrightarrow> m \<in> set (clean s))"
    using assms(1) by (auto simp: fresh_for_def)
  with assms(2,3) show ?thesis
    unfolding fresh_for_def extends_def by (intro exI [of _ R]) auto
qed

lemma coherent_track: "coherent env E s \<Longrightarrow> coherent env E (track x s)"
  by (auto simp: coherent_def last_value_def intro: fresh_for_extends [OF _ extends_track])

lemma clearDeps_sel [simp]:
  "sval (clearDeps c s) = sval s" "cached (clearDeps c s) = cached s" "clean (clearDeps c s) = clean s"
  "running (clearDeps c s) = running s" "current (clearDeps c s) = current s"
  "pending_effects (clearDeps c s) = pending_effects s" "disposed (clearDeps c s) = disposed s"
  "cleanup (clearDeps c s) = cleanup s" "batchDepth (clearDeps c s) = batchDepth s" "ran (clearDeps c s) = ran s"
  "flushing (clearDeps c s) = flushing s"
  by (simp_all add: clearDeps_def)

lemma clearDeps_subs: "d \<noteq> c \<Longrightarrow> d \<in> set (subs (clearDeps c s) x) \<longleftrightarrow> d \<in> set (subs s x)"
  by (simp add: clearDeps_def)

text \<open>Clearing the subscriptions of a dirty computed or of an exempt effect keeps coherence.\<close>

lemma coherent_start:
  assumes "coherent env E s" and "\<forall>m. c = CC m \<longrightarrow> m \<notin> set (clean s)" and "\<forall>e. c = CE e \<longrightarrow> e \<in> E"
    and "sval s' = sval s" "cached s' = cached s" "clean s' = clean s" "pending_effects s' = pending_effects s"
      "disposed s' = disposed s" "ran s' = ran s" "subs s' = subs s"
  shows "coherent env E (clearDeps c s')"
proof -
  have keep: "fresh_for env (clearDeps c s') d p v" if "fresh_for env s d p v" "d \<noteq> c" for d p v
    using that assms(4,6,10) by (auto simp: fresh_for_def clearDeps_subs)
  show ?thesis
  proof (rule coherentI)
    fix n assume "n \<in> set (clean (clearDeps c s'))"
    with assms(2,6) have "n \<in> set (clean s)" "CC n \<noteq> c" by auto
    with coherentD(1) [OF assms(1)] keep assms(5)
    show "fresh_for env (clearDeps c s') (CC n) (cfn env n) (cached (clearDeps c s') n)" by simp
  next
    fix e v assume "last_value e (clearDeps c s') = Some v" "e \<notin> set (disposed (clearDeps c s'))"
      "e \<notin> set (pending_effects (clearDeps c s'))" "e \<notin> E"
    with assms(3,7-9) have "last_value e s = Some v" "e \<notin> set (disposed s)" "e \<notin> set (pending_effects s)"
      "CE e \<noteq> c" by (auto simp: last_value_def)
    with coherentD(2) [OF assms(1)] keep \<open>e \<notin> E\<close>
    show "fresh_for env (clearDeps c s') (CE e) (efn env e) v" by simp
  qed
qed

definition may_run :: "nat \<Rightarrow> 'v st \<Rightarrow> bool" where
  "may_run n s \<longleftrightarrow> (\<forall>m < n. CC m \<notin> set (running s)) \<and>
     (\<forall>m. current s = Some (CC m) \<longrightarrow> n \<le> m \<and> m \<notin> set (clean s))"

definition runs_pure :: "'v env \<Rightarrow> nat set \<Rightarrow> nat \<Rightarrow> 'v st \<Rightarrow> 'v prog \<Rightarrow> bool" where
  "runs_pure env E n s p \<longleftrightarrow> (\<exists>v s' R. returns env (Exec p) s (Ok v, s') \<and> evals env (sval s) p v R \<and>
     extends n s s' \<and> coherent env E s' \<and>
     (\<forall>x \<in> set R. (\<forall>c. current s = Some c \<longrightarrow> c \<in> set (subs s' x)) \<and> (\<forall>m. x = Cmp m \<longrightarrow> m \<in> set (clean s'))))"

lemma may_run_extends: "may_run n s \<Longrightarrow> extends n s s' \<Longrightarrow> may_run n s'"
  unfolding may_run_def extends_def by auto

lemma may_run_mono: "may_run n s \<Longrightarrow> m \<le> n \<Longrightarrow> may_run m s"
  unfolding may_run_def by auto

text \<open>A read that was tracked before the rest of the body stays tracked.\<close>

lemma tracked_extends:
  assumes "may_run n s" and "extends n s s'" and "c \<in> set (subs s x)" and "current s = Some c"
  shows "c \<in> set (subs s' x)"
  using assms unfolding may_run_def extends_def by fastforce

lemma runs_pure_read:
  assumes ext: "extends n s t" and rest: "runs_pure env E n t (f u)" and run: "may_run n t"
    and ret: "\<And>r. returns env (Exec (f u)) t r \<Longrightarrow> returns env (Exec p) s r"
    and ev: "\<And>v R. evals env (sval s) (f u) v R \<Longrightarrow> evals env (sval s) p v (x # R)"
    and tr: "\<And>c. current s = Some c \<Longrightarrow> c \<in> set (subs t x)"
    and cl: "\<And>m. x = Cmp m \<Longrightarrow> m \<in> set (clean t)"
  shows "runs_pure env E n s p"
proof -
  from ext have same: "sval t = sval s" "current t = current s" by (simp_all add: extends_def)
  from rest obtain v s' R where r: "returns env (Exec (f u)) t (Ok v, s')" "evals env (sval t) (f u) v R"
    "extends n t s'" "coherent env E s'"
    "\<forall>y \<in> set R. (\<forall>c. current t = Some c \<longrightarrow> c \<in> set (subs s' y)) \<and> (\<forall>m. y = Cmp m \<longrightarrow> m \<in> set (clean s'))"
    unfolding runs_pure_def by blast
  have "c \<in> set (subs s' x)" if "current s = Some c" for c
    using tracked_extends [OF run r(3) tr [OF that]] that same by simp
  moreover have "m \<in> set (clean s')" if "x = Cmp m" for m
    using cl [OF that] r(3) by (auto simp: extends_def)
  ultimately have "\<forall>y \<in> set (x # R). (\<forall>c. current s = Some c \<longrightarrow> c \<in> set (subs s' y)) \<and>
      (\<forall>m. y = Cmp m \<longrightarrow> m \<in> set (clean s'))"
    using r(5) same by simp
  with ret [OF r(1)] ev r(2) extends_trans [OF ext r(3)] r(4) same show ?thesis
    unfolding runs_pure_def by metis
qed

lemma recompute_pure:
  assumes body: "runs_pure env E m (clearDeps (CC m) (s\<lparr>running := CC m # running s, current := Some (CC m)\<rparr>)) (cfn env m)"
    and run: "CC m \<notin> set (running s)" and dirty: "m \<notin> set (clean s)"
  shows "\<exists>s'. returns env (Recompute m) s (Finished, s') \<and> extends (Suc m) s s' \<and> coherent env E s' \<and> m \<in> set (clean s')"
proof -
  define s1 where "s1 = clearDeps (CC m) (s\<lparr>running := CC m # running s, current := Some (CC m)\<rparr>)"
  from body obtain v s2 R where r: "returns env (Exec (cfn env m)) s1 (Ok v, s2)"
    "evals env (sval s1) (cfn env m) v R" "extends m s1 s2" "coherent env E s2"
    "\<forall>x \<in> set R. (\<forall>c. current s1 = Some c \<longrightarrow> c \<in> set (subs s2 x)) \<and> (\<forall>k. x = Cmp k \<longrightarrow> k \<in> set (clean s2))"
    unfolding runs_pure_def s1_def by blast
  define s3 where "s3 = s2\<lparr>cached := (cached s2)(m := v), current := current s,
      running := removeAll (CC m) (running s2), clean := set_add m (clean s2)\<rparr>"
  have ret: "returns env (Recompute m) s (Finished, s3)"
    using returns_Recompute [OF run r(1) [unfolded s1_def]] by (simp add: s3_def)
  have sub1: "d \<in> set (subs s1 x)" if "d \<in> set (subs s x)" "d \<noteq> CC m" for d x
    using that by (simp add: s1_def clearDeps_subs)
  have ext: "extends (Suc m) s s3"
  proof -
    have "running s3 = running s" using r(3) run by (simp add: s3_def extends_def s1_def removeAll_id)
    moreover have "set (clean s3) \<subseteq> set (clean s) \<union> {..<Suc m}" "set (clean s) \<subseteq> set (clean s3)"
      using r(3) by (auto simp: s3_def extends_def s1_def)
    moreover have "\<forall>k \<in> set (clean s). cached s3 k = cached s k"
      using r(3) dirty by (auto simp: s3_def extends_def s1_def)
    moreover have "d \<in> set (subs s3 x)"
      if "d \<in> set (subs s x)" "\<forall>k. d = CC k \<longrightarrow> k \<notin> set (clean s3) - set (clean s)" for d x
    proof -
      have "d \<noteq> CC m" using that(2) dirty by (auto simp: s3_def)
      then have "d \<in> set (subs s1 x)" by (rule sub1 [OF that(1)])
      moreover have "\<forall>y c. c \<in> set (subs s1 y) \<longrightarrow>
          (\<forall>k. c = CC k \<longrightarrow> k \<notin> set (clean s2) - set (clean s1)) \<longrightarrow> c \<in> set (subs s2 y)"
        using r(3) unfolding extends_def by (elim conjE)
      moreover have "\<forall>k. d = CC k \<longrightarrow> k \<notin> set (clean s2) - set (clean s1)"
        using that(2) by (auto simp: s3_def s1_def)
      ultimately show ?thesis by (simp add: s3_def)
    qed
    ultimately show ?thesis using r(3) by (simp add: extends_def s3_def s1_def)
  qed
  have keep: "fresh_for env s3 c p w" if "fresh_for env s2 c p w" for c p w
    using that by (auto simp: fresh_for_def s3_def)
  have new: "fresh_for env s3 (CC m) (cfn env m) v"
    using r(2,3,5) by (auto simp: fresh_for_def s3_def s1_def extends_def)
  have "coherent env E s3"
  proof (rule coherentI)
    fix k assume k: "k \<in> set (clean s3)"
    show "fresh_for env s3 (CC k) (cfn env k) (cached s3 k)"
    proof (cases "k = m")
      case True
      with new show ?thesis by (simp add: s3_def)
    next
      case False
      with k coherentD(1) [OF r(4)] keep show ?thesis by (simp add: s3_def)
    qed
  next
    fix e w assume "last_value e s3 = Some w" "e \<notin> set (disposed s3)" "e \<notin> set (pending_effects s3)" "e \<notin> E"
    with coherentD(2) [OF r(4)] keep show "fresh_for env s3 (CE e) (efn env e) w"
      by (simp add: s3_def last_value_def)
  qed
  moreover have "m \<in> set (clean s3)" by (simp add: s3_def)
  ultimately show ?thesis using ret ext by blast
qed

lemma exec_pure:
  assumes ac: "acyclic_env env"
  shows "pure_below n p \<Longrightarrow> coherent env E s \<Longrightarrow> may_run n s \<Longrightarrow> runs_pure env E n s p"
proof (induction n arbitrary: p s rule: less_induct)
  case (less n)
  from less.prems show ?case
  proof (induction p arbitrary: s)
    case (Done v)
    then show ?case
      unfolding runs_pure_def by (intro exI [of _ v] exI [of _ s] exI [of _ "[]"]) (auto intro: returns_Done evals.intros)
  next
    case (GetSig m f)
    let ?t = "track (Sig m) s"
    have "runs_pure env E n ?t (f (sval s m))"
      using GetSig by (auto intro!: GetSig.IH coherent_track may_run_extends [OF _ extends_track])
    then show ?case
      by (rule runs_pure_read [OF extends_track])
        (use GetSig.prems in \<open>auto intro: may_run_extends [OF _ extends_track] returns_GetSig evals.intros simp: track_subs\<close>)
  next
    case (GetCmp m f)
    let ?t = "track (Cmp m) s"
    have m: "m < n" and pf: "\<And>v. pure_below n (f v)" using GetCmp.prems(1) by auto
    have t: "coherent env E ?t" "may_run n ?t"
      using GetCmp.prems by (auto intro: coherent_track may_run_extends [OF _ extends_track])
    obtain t1 where t1: "extends n ?t t1" "coherent env E t1" "m \<in> set (clean t1)"
      "\<And>r. returns env (Exec (f (cached t1 m))) t1 r \<Longrightarrow> returns env (Exec (GetCmp m f)) s r"
    proof (cases "m \<in> set (clean ?t)")
      case True
      then show ?thesis
        by (intro that [of ?t] extends_refl t(1) returns_GetCmp_clean) simp_all
    next
      case False
      have "runs_pure env E m (clearDeps (CC m) (?t\<lparr>running := CC m # running ?t, current := Some (CC m)\<rparr>)) (cfn env m)"
      proof (rule less.IH [OF m])
        show "pure_below m (cfn env m)" using ac by (simp add: acyclic_env_def)
        show "coherent env E (clearDeps (CC m) (?t\<lparr>running := CC m # running ?t, current := Some (CC m)\<rparr>))"
          by (rule coherent_start [OF t(1)]) (use False in auto)
        show "may_run m (clearDeps (CC m) (?t\<lparr>running := CC m # running ?t, current := Some (CC m)\<rparr>))"
          using t(2) m False by (auto simp: may_run_def)
      qed
      then obtain t1 where t1: "returns env (Recompute m) ?t (Finished, t1)" "extends (Suc m) ?t t1"
        "coherent env E t1" "m \<in> set (clean t1)"
        using recompute_pure [of env E m ?t] t(2) m False by (auto simp: may_run_def)
      show ?thesis
        by (rule that [of t1]) (use t1 m False in \<open>auto intro: extends_mono returns_GetCmp_dirty\<close>)
    qed
    have ext: "extends n s t1" by (rule extends_trans [OF extends_track t1(1)])
    have run1: "may_run n t1" by (rule may_run_extends [OF t(2) t1(1)])
    obtain Q where Q: "evals env (sval s) (cfn env m) (cached t1 m) Q"
      using coherentD(1) [OF t1(2,3)] ext by (auto simp: fresh_for_def extends_def)
    show ?case
    proof (rule runs_pure_read [OF ext _ run1 t1(4)])
      show "runs_pure env E n t1 (f (cached t1 m))" by (rule GetCmp.IH [OF _ pf t1(2) run1]) simp
      show "c \<in> set (subs t1 (Cmp m))" if "current s = Some c" for c
        by (rule tracked_extends [OF t(2) t1(1)]) (use that in \<open>auto simp: track_subs\<close>)
    qed (use Q t1(3) in \<open>auto intro: evals.intros\<close>)
  qed simp_all
qed

subsection \<open>Effects and the flush\<close>

text \<open>Between the operations of a client nothing runs and no batch is open.\<close>

definition quiescent :: "'v st \<Rightarrow> bool" where
  "quiescent s \<longleftrightarrow> running s = [] \<and> current s = None \<and> batchDepth s = 0 \<and>
     (\<forall>e p. cleanup s e = Some p \<longrightarrow> (\<exists>n. pure_below n p))"

lemma quiescent_may_run: "quiescent s \<Longrightarrow> may_run n s"
  by (simp add: quiescent_def may_run_def)

lemma quiescent_extends: "quiescent s \<Longrightarrow> extends n s s' \<Longrightarrow> quiescent s'"
  by (simp add: quiescent_def extends_def)

lemma coherent_clean_subs:
  assumes "coherent env E s" and "sval s' = sval s" "subs s' = subs s" "cached s' = cached s" "clean s' = clean s"
    "disposed s' = disposed s" "ran s' = ran s" and "set (pending_effects s) \<subseteq> set (pending_effects s') \<union> E'" "E \<subseteq> E'"
  shows "coherent env E' s'"
proof -
  have keep: "fresh_for env s' c p v" if "fresh_for env s c p v" for c p v
    using that assms(2-5) by (simp add: fresh_for_def)
  show ?thesis
    using assms(4-9) by (intro coherentI keep)
      (auto intro: coherentD(1) [OF assms(1)] coherentD(2) [OF assms(1)] simp: last_value_def)
qed

lemma cleanup_pure:
  assumes ac: "acyclic_env env" and coh: "coherent env E s" and q: "quiescent s"
  shows "\<exists>s'. returns env (RunCleanup e) s (Finished, s') \<and> coherent env E s' \<and> quiescent s' \<and>
    sval s' = sval s \<and> pending_effects s' = pending_effects s \<and> disposed s' = disposed s \<and> ran s' = ran s"
proof (cases "cleanup s e")
  case None
  then have "returns env (RunCleanup e) s (Finished, s)"
    by (intro returnsI [of 0]) (simp add: run_cleanup_def)
  with coh q show ?thesis by blast
next
  case (Some c)
  let ?s = "s\<lparr>cleanup := (cleanup s)(e := None)\<rparr>"
  obtain n where n: "pure_below n c" using q Some by (auto simp: quiescent_def)
  have q': "quiescent ?s" using q by (simp add: quiescent_def)
  have "coherent env E ?s" by (rule coherent_clean_subs [OF coh]) auto
  from exec_pure [OF ac n this quiescent_may_run [OF q']] obtain v s' where
    r: "returns env (Exec c) ?s (Ok v, s')" "extends n ?s s'" "coherent env E s'"
    unfolding runs_pure_def by blast
  obtain k where "\<And>j. k \<le> j \<Longrightarrow> go env j (Exec c) ?s = Some (Ok v, s')" using r(1) by (rule returnsE) blast
  then have "returns env (RunCleanup e) s (Finished, s')"
    by (intro returnsI [of k]) (simp add: run_cleanup_def Some and_then_def)
  with r quiescent_extends [OF q' r(2)] show ?thesis by (auto simp: extends_def)
qed

lemma effect_pure:
  assumes ac: "acyclic_env env" and coh: "coherent env (insert e E) s" and q: "quiescent s"
  shows "\<exists>s'. returns env (RunEffect e) s (Finished, s') \<and> coherent env E s' \<and> quiescent s' \<and>
    sval s' = sval s \<and> pending_effects s' = pending_effects s \<and> disposed s' = disposed s \<and>
    fst ` set (ran s) \<subseteq> fst ` set (ran s')"
proof (cases "e \<in> set (disposed s)")
  case True
  then have "returns env (RunEffect e) s (Finished, s)"
    by (intro returnsI [of 0]) (simp add: run_effect_def)
  moreover have "coherent env E s"
    using True by (intro coherentI) (auto intro: coherentD [OF coh])
  ultimately show ?thesis using q by blast
next
  case False
  obtain s1 where s1: "returns env (RunCleanup e) s (Finished, s1)" "coherent env (insert e E) s1"
    "quiescent s1" "sval s1 = sval s" "pending_effects s1 = pending_effects s" "disposed s1 = disposed s" "ran s1 = ran s"
    using cleanup_pure [OF ac coh q] by blast
  define t where "t = clearDeps (CE e) (s1\<lparr>running := CE e # running s1, current := Some (CE e)\<rparr>)"
  have ct: "coherent env (insert e E) t" unfolding t_def by (rule coherent_start [OF s1(2)]) auto
  obtain n where n: "pure_below n (efn env e)" using ac unfolding acyclic_env_def by metis
  have "may_run n t" using s1(3) by (simp add: t_def may_run_def quiescent_def)
  from exec_pure [OF ac n ct this] obtain v s2 R where
    r: "returns env (Exec (efn env e)) t (Ok v, s2)" "evals env (sval t) (efn env e) v R" "extends n t s2"
    "coherent env (insert e E) s2"
    "\<forall>x \<in> set R. (\<forall>c. current t = Some c \<longrightarrow> c \<in> set (subs s2 x)) \<and> (\<forall>m. x = Cmp m \<longrightarrow> m \<in> set (clean s2))"
    unfolding runs_pure_def by blast
  define s3 where "s3 = s2\<lparr>cleanup := (cleanup s2)(e := ecleanup env e v), ran := ran s2 @ [(e, v)],
      current := current s1, running := removeAll (CE e) (running s2)\<rparr>"
  obtain k1 k2 where k: "\<And>j. k1 \<le> j \<Longrightarrow> go env j (RunCleanup e) s = Some (Finished, s1)"
    "\<And>j. k2 \<le> j \<Longrightarrow> go env j (Exec (efn env e)) t = Some (Ok v, s2)"
    using s1(1) r(1) by (elim returnsE) blast
  have "CE e \<notin> set (running s)" using q by (simp add: quiescent_def)
  then have "returns env (RunEffect e) s (Finished, s3)"
    using False k by (intro returnsI [of "max k1 k2"]) (simp add: run_effect_def and_then_def t_def s3_def)
  moreover have "quiescent s3"
    using s1(3) r(3) ac by (auto simp: quiescent_def extends_def s3_def t_def acyclic_env_def)
  moreover have "coherent env E s3"
  proof (rule coherentI)
    have keep: "fresh_for env s3 c p w" if "fresh_for env s2 c p w" for c p w
      using that by (auto simp: fresh_for_def s3_def)
    show "fresh_for env s3 (CC m) (cfn env m) (cached s3 m)" if "m \<in> set (clean s3)" for m
      using that coherentD(1) [OF r(4)] keep by (simp add: s3_def)
    show "fresh_for env s3 (CE e') (efn env e') w"
      if "last_value e' s3 = Some w" "e' \<notin> set (disposed s3)" "e' \<notin> set (pending_effects s3)" "e' \<notin> E" for e' w
    proof (cases "e' = e")
      case True
      with that(1) have "w = v" by (simp add: last_value_def s3_def)
      with True r(2,3,5) show ?thesis by (auto simp: fresh_for_def s3_def t_def extends_def)
    next
      case False
      with that coherentD(2) [OF r(4)] keep show ?thesis by (simp add: last_value_def s3_def)
    qed
  qed
  ultimately show ?thesis
    using s1(4-7) r(3) by (intro exI [of _ s3]) (simp add: s3_def extends_def t_def, blast)
qed

lemma returns_RunAll_Cons:
  assumes "returns env (RunEffect e) s (Finished, s1)" and "returns env (RunAll es) s1 r"
  shows "returns env (RunAll (e # es)) s r"
proof -
  from assms obtain k1 k2 where "\<And>j. k1 \<le> j \<Longrightarrow> go env j (RunEffect e) s = Some (Finished, s1)"
    "\<And>j. k2 \<le> j \<Longrightarrow> go env j (RunAll es) s1 = Some r" by (elim returnsE) blast
  then show ?thesis by (intro returnsI [of "max k1 k2"]) (simp add: run_all_def and_then_def)
qed

lemma run_all_pure:
  assumes ac: "acyclic_env env"
  shows "coherent env (set es \<union> E) s \<Longrightarrow> quiescent s \<Longrightarrow>
    \<exists>s'. returns env (RunAll es) s (Finished, s') \<and> coherent env E s' \<and> quiescent s' \<and>
      sval s' = sval s \<and> pending_effects s' = pending_effects s \<and> disposed s' = disposed s \<and>
      fst ` set (ran s) \<subseteq> fst ` set (ran s')"
proof (induction es arbitrary: s)
  case Nil
  then have "returns env (RunAll []) s (Finished, s)"
    by (intro returnsI [of 0]) (simp add: run_all_def)
  with Nil show ?case by auto
next
  case (Cons e es)
  then obtain s1 where s1: "returns env (RunEffect e) s (Finished, s1)" "coherent env (set es \<union> E) s1" "quiescent s1"
    "sval s1 = sval s" "pending_effects s1 = pending_effects s" "disposed s1 = disposed s"
    "fst ` set (ran s) \<subseteq> fst ` set (ran s1)"
    using effect_pure [OF ac, of e "set es \<union> E" s] by auto
  obtain s2 where s2: "returns env (RunAll es) s1 (Finished, s2)" "coherent env E s2" "quiescent s2"
    "sval s2 = sval s1" "pending_effects s2 = pending_effects s1" "disposed s2 = disposed s1"
    "fst ` set (ran s1) \<subseteq> fst ` set (ran s2)"
    using Cons.IH [OF s1(2,3)] by blast
  have "returns env (RunAll (e # es)) s (Finished, s2)" by (rule returns_RunAll_Cons [OF s1(1) s2(1)])
  then show ?case using s1(4-7) s2(2-7) by (intro exI [of _ s2]) auto
qed

lemma flush_pure:
  assumes ac: "acyclic_env env" and coh: "coherent env {} s" and q: "quiescent s"
  shows "\<exists>s'. returns env Flush s (Finished, s') \<and> coherent env {} s' \<and> quiescent s' \<and>
    pending_effects s' = [] \<and> \<not> flushing s' \<and> sval s' = sval s \<and> disposed s' = disposed s \<and>
    fst ` set (ran s) \<subseteq> fst ` set (ran s')"
proof -
  have "\<exists>s1. returns env (FlushLoop 0) s (Finished, s1) \<and> coherent env {} s1 \<and> quiescent s1 \<and>
      pending_effects s1 = [] \<and> sval s1 = sval s \<and> disposed s1 = disposed s \<and>
      fst ` set (ran s) \<subseteq> fst ` set (ran s1)"
  proof (cases "pending_effects s = []")
    case True
    then have "returns env (FlushLoop 0) s (Finished, s)"
      by (intro returnsI [of 0]) (simp add: flush_loop_def)
    with True coh q show ?thesis by blast
  next
    case False
    let ?t = "s\<lparr>pending_effects := []\<rparr>"
    have "coherent env (set (pending_effects s) \<union> {}) ?t" by (rule coherent_clean_subs [OF coh]) auto
    moreover have "quiescent ?t" using q by (simp add: quiescent_def)
    ultimately obtain s1 where s1: "returns env (RunAll (pending_effects s)) ?t (Finished, s1)"
      "coherent env {} s1" "quiescent s1" "sval s1 = sval s" "pending_effects s1 = []" "disposed s1 = disposed s"
      "fst ` set (ran s) \<subseteq> fst ` set (ran s1)"
      using run_all_pure [OF ac, of "pending_effects s" "{}" ?t] by auto
    obtain k where k: "\<And>j. k \<le> j \<Longrightarrow> go env j (RunAll (pending_effects s)) ?t = Some (Finished, s1)"
      using s1(1) by (rule returnsE) blast
    have "go env (Suc (Suc j)) (FlushLoop 0) s = Some (Finished, s1)" if "k \<le> j" for j
      using k [of "Suc j"] that False s1(5) by (simp add: flush_loop_def and_then_def MAX_FLUSH_PASSES_def)
    then have "returns env (FlushLoop 0) s (Finished, s1)"
      by (intro returnsI [of "Suc k"]) (metis Suc_le_D Suc_le_mono)
    with s1 show ?thesis by blast
  qed
  then obtain s1 where s1: "returns env (FlushLoop 0) s (Finished, s1)" "coherent env {} s1" "quiescent s1"
    "pending_effects s1 = []" "sval s1 = sval s" "disposed s1 = disposed s"
    "fst ` set (ran s) \<subseteq> fst ` set (ran s1)" by blast
  let ?u = "s1\<lparr>flushing := False\<rparr>"
  obtain k where "\<And>j. k \<le> j \<Longrightarrow> go env j (FlushLoop 0) s = Some (Finished, s1)" using s1(1) by (rule returnsE) blast
  then have "returns env Flush s (Finished, ?u)"
    using q by (intro returnsI [of k]) (simp add: flush_def quiescent_def)
  moreover have "coherent env {} ?u" by (rule coherent_clean_subs [OF s1(2)]) auto
  moreover have "quiescent ?u" using s1(3) by (simp add: quiescent_def)
  ultimately show ?thesis using s1(4-7) by (intro exI [of _ ?u]) simp
qed

section \<open>Clients\<close>

primrec writes :: "(nat \<times> 'v) list \<Rightarrow> 'v \<Rightarrow> 'v prog" where
  "writes [] u = Done u"
| "writes (w # ws) u = SetSig (fst w) (snd w) (writes ws u)"

text \<open>
  What code outside the module does between turns: write or bump a signal, write several in a
  batch, read a computed, start and dispose an effect, and run the scheduled flush.
\<close>

inductive client :: "'v env \<Rightarrow> 'v st \<Rightarrow> bool" for env where
  client_init: "client env (init_st ini undef)"
| client_set: "client env s \<Longrightarrow> client env (set_signal n v s)"
| client_bump: "client env s \<Longrightarrow> client env (pushAndSchedule n s)"
| client_read: "client env s \<Longrightarrow> returns env (Exec (GetCmp n Done)) s (Ok v, s') \<Longrightarrow> client env s'"
| client_start: "client env s \<Longrightarrow> last_value e s = None \<Longrightarrow> returns env (RunEffect e) s (Finished, s') \<Longrightarrow> client env s'"
| client_dispose: "client env s \<Longrightarrow> returns env (Exec (DisposeEffect e (Done v))) s (Ok v, s') \<Longrightarrow> client env s'"
| client_batch: "client env s \<Longrightarrow> returns env (Exec (InBatch (writes ws u) Done)) s (Ok v, s') \<Longrightarrow> client env s'"
| client_flush: "client env s \<Longrightarrow> returns env Flush s (Finished, s') \<Longrightarrow> client env s'"

lemma coherent_init: "coherent env {} (init_st ini undef) \<and> quiescent (init_st ini undef)"
  by (auto simp: coherent_def init_st_def last_value_def quiescent_def)

lemma quiescent_push: "quiescent s \<Longrightarrow> quiescent (pushAndSchedule n (s\<lparr>sval := f\<rparr>))"
  by (simp add: quiescent_def)

lemma read_pure:
  assumes ac: "acyclic_env env" and coh: "coherent env {} s" and q: "quiescent s"
  shows "\<exists>v s' R. returns env (Exec (GetCmp n Done)) s (Ok v, s') \<and> evals env (sval s) (cfn env n) v R \<and>
    coherent env {} s' \<and> quiescent s' \<and> sval s' = sval s"
proof -
  have "pure_below (Suc n) (GetCmp n Done)" by simp
  from exec_pure [OF ac this coh quiescent_may_run [OF q]] obtain v s' R where
    r: "returns env (Exec (GetCmp n Done)) s (Ok v, s')" "evals env (sval s) (GetCmp n Done) v R"
    "extends (Suc n) s s'" "coherent env {} s'" unfolding runs_pure_def by blast
  from r(2) obtain Q where "evals env (sval s) (cfn env n) v Q"
    by (auto elim!: evals_CmpE evals_DoneE)
  moreover have "sval s' = sval s" using r(3) by (simp add: extends_def)
  ultimately show ?thesis using r(1,4) quiescent_extends [OF q r(3)] by blast
qed

lemma dispose_pure:
  assumes ac: "acyclic_env env" and coh: "coherent env {} s" and q: "quiescent s"
  shows "\<exists>s'. returns env (Exec (DisposeEffect e (Done v))) s (Ok v, s') \<and> coherent env {} s' \<and> quiescent s'"
proof (cases "e \<in> set (disposed s)")
  case True
  have "go env (Suc (Suc j)) (Exec (DisposeEffect e (Done v))) s = Some (Ok v, s)" for j
    using True by (simp add: dispose_def and_then_def)
  then have "returns env (Exec (DisposeEffect e (Done v))) s (Ok v, s)"
    by (intro returnsI [of 1]) (metis Suc_le_D One_nat_def)
  with coh q show ?thesis by blast
next
  case False
  define s1 where "s1 = clearDeps (CE e) (s\<lparr>disposed := e # disposed s\<rparr>)"
  define s2 where "s2 = s1\<lparr>pending_effects := removeAll e (pending_effects s1)\<rparr>"
  have keep: "fresh_for env s2 c p w" if "fresh_for env s c p w" "c \<noteq> CE e" for c p w
    using that by (auto simp: fresh_for_def s2_def s1_def clearDeps_subs)
  have c2: "coherent env {} s2"
  proof (rule coherentI)
    show "fresh_for env s2 (CC n) (cfn env n) (cached s2 n)" if "n \<in> set (clean s2)" for n
      using that keep coherentD(1) [OF coh] by (simp add: s2_def s1_def)
    show "fresh_for env s2 (CE e') (efn env e') w"
      if "last_value e' s2 = Some w" "e' \<notin> set (disposed s2)" "e' \<notin> set (pending_effects s2)" "e' \<notin> {}" for e' w
      using that keep coherentD(2) [OF coh] by (auto simp: s2_def s1_def last_value_def)
  qed
  have q2: "quiescent s2" using q by (simp add: quiescent_def s2_def s1_def)
  obtain s3 where s3: "returns env (RunCleanup e) s2 (Finished, s3)" "coherent env {} s3" "quiescent s3"
    using cleanup_pure [OF ac c2 q2] by blast
  obtain k where k: "\<And>j. k \<le> j \<Longrightarrow> go env j (RunCleanup e) s2 = Some (Finished, s3)"
    using s3(1) by (rule returnsE) blast
  have "go env (Suc (Suc j)) (Exec (DisposeEffect e (Done v))) s = Some (Ok v, s3)" if "k \<le> j" for j
    using k [of "Suc j"] that False by (simp add: dispose_def and_then_def s2_def s1_def Let_def)
  then have "returns env (Exec (DisposeEffect e (Done v))) s (Ok v, s3)"
    by (intro returnsI [of "Suc k"]) (metis Suc_le_D Suc_le_mono)
  with s3 show ?thesis by blast
qed

lemma ran_set [simp]: "ran (set_signal n v s) = ran s"
  by (simp add: set_signal_def)

lemma returns_writes:
  "returns env (Exec (writes ws u)) s (Ok u, foldl (\<lambda>s w. set_signal (fst w) (snd w) s) s ws)"
proof (induction ws arbitrary: s)
  case Nil
  then show ?case by (simp add: returns_Done)
next
  case (Cons w ws)
  obtain k where "\<And>j. k \<le> j \<Longrightarrow> go env j (Exec (writes ws u)) (set_signal (fst w) (snd w) s) =
      Some (Ok u, foldl (\<lambda>s w. set_signal (fst w) (snd w) s) (set_signal (fst w) (snd w) s) ws)"
    using Cons.IH by (rule returnsE) blast
  then show ?case by (intro returnsI [of k]) simp
qed

lemma set_signal_sel [simp]:
  "running (set_signal n v s) = running s" "current (set_signal n v s) = current s"
  "batchDepth (set_signal n v s) = batchDepth s" "cleanup (set_signal n v s) = cleanup s"
  "sval (set_signal n v s) = (sval s)(n := v)"
  by (auto simp: set_signal_def)

lemma writes_sel [simp]:
  "running (foldl (\<lambda>s w. set_signal (fst w) (snd w) s) s ws) = running s"
  "current (foldl (\<lambda>s w. set_signal (fst w) (snd w) s) s ws) = current s"
  "batchDepth (foldl (\<lambda>s w. set_signal (fst w) (snd w) s) s ws) = batchDepth s"
  "cleanup (foldl (\<lambda>s w. set_signal (fst w) (snd w) s) s ws) = cleanup s"
  by (induction ws arbitrary: s) simp_all

lemma coherent_writes:
  "coherent env E s \<Longrightarrow> coherent env E (foldl (\<lambda>s w. set_signal (fst w) (snd w) s) s ws)"
  by (induction ws arbitrary: s) (simp_all add: coherent_set)

lemma batch_pure:
  assumes ac: "acyclic_env env" and coh: "coherent env {} s" and q: "quiescent s"
  shows "\<exists>s'. returns env (Exec (InBatch (writes ws u) Done)) s (Ok u, s') \<and> coherent env {} s' \<and> quiescent s' \<and>
    pending_effects s' = [] \<and> sval s' = foldl (\<lambda>f w. f(fst w := snd w)) (sval s) ws \<and>
    fst ` set (ran s) \<subseteq> fst ` set (ran s')"
proof -
  let ?s1 = "s\<lparr>batchDepth := Suc (batchDepth s)\<rparr>"
  define s2 where "s2 = foldl (\<lambda>s w. set_signal (fst w) (snd w) s) ?s1 ws"
  let ?s3 = "s2\<lparr>batchDepth := batchDepth s2 - 1\<rparr>"
  have "coherent env {} ?s1" by (rule coherent_clean_subs [OF coh]) auto
  then have "coherent env {} s2" unfolding s2_def by (rule coherent_writes)
  then have c3: "coherent env {} ?s3" by (rule coherent_clean_subs) auto
  have q3: "quiescent ?s3" using q by (simp add: quiescent_def s2_def)
  have val: "sval s2 = foldl (\<lambda>f w. f(fst w := snd w)) (sval s) ws"
  proof -
    have "sval (foldl (\<lambda>s w. set_signal (fst w) (snd w) s) t ws) = foldl (\<lambda>f w. f(fst w := snd w)) (sval t) ws" for t
      by (induction ws arbitrary: t) simp_all
    then show ?thesis by (simp add: s2_def)
  qed
  obtain s4 where s4: "returns env Flush ?s3 (Finished, s4)" "coherent env {} s4" "quiescent s4"
    "pending_effects s4 = []" "sval s4 = sval ?s3" "fst ` set (ran ?s3) \<subseteq> fst ` set (ran s4)" using flush_pure [OF ac c3 q3] by blast
  obtain k1 k2 where k: "\<And>j. k1 \<le> j \<Longrightarrow> go env j (Exec (writes ws u)) ?s1 = Some (Ok u, s2)"
    "\<And>j. k2 \<le> j \<Longrightarrow> go env j Flush ?s3 = Some (Finished, s4)"
    using returns_writes [of env ws u ?s1] s4(1) unfolding s2_def by (elim returnsE) blast
  have "batchDepth s2 - 1 = 0" using q by (simp add: s2_def quiescent_def)
  then have "go env (Suc (Suc j)) (Exec (InBatch (writes ws u) Done)) s = Some (Ok u, s4)" if "max k1 k2 \<le> j" for j
    using k(1) [of "Suc j"] k(2) [of "Suc j"] that
    by (simp add: in_batch_def and_then_def with_value_def Let_def)
  then have "returns env (Exec (InBatch (writes ws u) Done)) s (Ok u, s4)"
    by (intro returnsI [of "Suc (max k1 k2)"]) (metis Suc_le_D Suc_le_mono)
  moreover have "ran ?s3 = ran s"
  proof -
    have "ran (foldl (\<lambda>s w. set_signal (fst w) (snd w) s) t ws) = ran t" for t
      by (induction ws arbitrary: t) simp_all
    then show ?thesis by (simp add: s2_def)
  qed
  ultimately show ?thesis using s4 val by (intro exI [of _ s4]) simp
qed

lemma client_invariant:
  assumes ac: "acyclic_env env"
  shows "client env s \<Longrightarrow> coherent env {} s \<and> quiescent s"
proof (induction rule: client.induct)
  case (client_init ini undef)
  then show ?case by (rule coherent_init)
next
  case (client_set s n v)
  then show ?case by (simp add: coherent_set quiescent_def)
next
  case (client_bump s n)
  then show ?case by (simp add: coherent_bump quiescent_def)
next
  case (client_read s n v s')
  then show ?case using read_pure [OF ac, of s n] returns_unique by blast
next
  case (client_start s e s')
  have "coherent env (insert e {}) s" by (rule coherent_clean_subs) (use client_start in auto)
  then show ?case using client_start effect_pure [OF ac, of e "{}" s] returns_unique by blast
next
  case (client_dispose s e v s')
  then show ?case using dispose_pure [OF ac, of s e v] returns_unique by blast
next
  case (client_batch s ws u v s')
  then show ?case using batch_pure [OF ac, of s ws u] returns_unique by blast
next
  case (client_flush s s')
  then show ?case using flush_pure [OF ac, of s] returns_unique by blast
qed

text \<open>C1: However a client has written, batched, read, started and disposed before, reading a
  computed returns, and returns exactly what its body is worth for the current signal values
  (no stale and no half-updated value); the read changes no signal. Bodies only read, from
  computeds of smaller number.\<close>

theorem computed_reads_current:
  assumes "acyclic_env env" and "client env s"
  shows "\<exists>v s' R. returns env (Exec (GetCmp n Done)) s (Ok v, s') \<and> evals env (sval s) (cfn env n) v R \<and>
    sval s' = sval s"
  using read_pure [OF assms(1), of s n] client_invariant [OF assms] by blast

text \<open>Computed 0 is a sum of two signals, computed 1 its double, effect 0 watches both.\<close>

definition demo_env :: "int env" where
  "demo_env = \<lparr>cfn = (\<lambda>n. if n = 0 then GetSig 0 (\<lambda>a. GetSig 1 (\<lambda>b. Done (a + b)))
       else if n = 1 then GetCmp 0 (\<lambda>c. Done (2 * c)) else Done 0),
     cname = (\<lambda>n. ''c''), efn = (\<lambda>e. GetCmp 0 (\<lambda>c. GetCmp 1 (\<lambda>d. Done (c + d)))), ename = (\<lambda>e. ''e''),
     ecleanup = (\<lambda>e v. None)\<rparr>"

lemma acyclic_demo: "acyclic_env demo_env"
  by (auto simp: acyclic_env_def demo_env_def intro: exI [of _ 2])

theorem computed_reads_current_witness:
  "\<exists>s'. returns demo_env (Exec (GetCmp 1 Done)) (set_signal 1 5 (init_st (\<lambda>n. 1) 0)) (Ok 12, s')"
proof -
  define vals :: "nat \<Rightarrow> int" where "vals = (\<lambda>n. 1)(1 := 5)"
  have "client demo_env (set_signal 1 5 (init_st (\<lambda>n. 1) 0))" by (intro client.intros)
  from computed_reads_current [OF acyclic_demo this, of 1] obtain v s' R where
    r: "returns demo_env (Exec (GetCmp 1 Done)) (set_signal 1 5 (init_st (\<lambda>n. 1) 0)) (Ok v, s')"
    "evals demo_env vals (cfn demo_env 1) v R"
    by (auto simp: init_st_def vals_def)
  have "evals demo_env vals (Done (vals 0 + vals 1)) (vals 0 + vals 1) []" by (rule evals.intros)
  then have "evals demo_env vals (GetSig 0 (\<lambda>a. GetSig 1 (\<lambda>b. Done (a + b)))) (vals 0 + vals 1) [Sig 0, Sig 1]"
    by (intro evals_Sig)
  then have "evals demo_env vals (cfn demo_env 0) 6 [Sig 0, Sig 1]"
    by (simp add: demo_env_def vals_def)
  from evals_Cmp [where f = "\<lambda>c. Done (2 * c)", OF this evals_Done]
  have "evals demo_env vals (cfn demo_env 1) 12 [Cmp 0]" by (simp add: demo_env_def)
  with r show ?thesis using evals_unique by metis
qed

text \<open>Every effect that has run and is not disposed last ran on the current values, and nothing is pending.\<close>

definition settled :: "'v env \<Rightarrow> 'v st \<Rightarrow> bool" where
  "settled env s \<longleftrightarrow> pending_effects s = [] \<and>
     (\<forall>e \<in> fst ` set (ran s). e \<notin> set (disposed s) \<longrightarrow>
        (\<exists>v R. last_value e s = Some v \<and> evals env (sval s) (efn env e) v R))"

lemma settledI:
  assumes "coherent env {} s" "pending_effects s = []"
  shows "settled env s"
  unfolding settled_def
proof (intro conjI ballI impI)
  fix e assume e: "e \<in> fst ` set (ran s)" "e \<notin> set (disposed s)"
  then obtain v where v: "last_value e s = Some v"
    by (cases "last_value e s") (auto simp: last_value_def map_of_eq_None_iff)
  then show "\<exists>v R. last_value e s = Some v \<and> evals env (sval s) (efn env e) v R"
    using coherentD(2) [OF assms(1) v e(2)] assms(2) by (auto simp: fresh_for_def)
qed (rule assms(2))

text \<open>C5: When the bodies of computeds and effects only read, from computeds of smaller number, and whatever was
  written, batched, read, started and disposed before: the scheduled flush returns without an error, changes no signal,
  and leaves nothing pending and every effect that had run and is not disposed last run on the current signal
  values, so that none is left behind a write. A batch of writes returns in such a state too, on the written values.\<close>

theorem flush_settles_effects:
  assumes "acyclic_env env" and "client env s"
  shows "(\<exists>s'. returns env Flush s (Finished, s') \<and> settled env s' \<and> sval s' = sval s \<and>
      disposed s' = disposed s \<and> fst ` set (ran s) \<subseteq> fst ` set (ran s')) \<and>
    (\<exists>s'. returns env (Exec (InBatch (writes ws u) Done)) s (Ok u, s') \<and> settled env s' \<and>
      sval s' = foldl (\<lambda>f w. f(fst w := snd w)) (sval s) ws \<and> fst ` set (ran s) \<subseteq> fst ` set (ran s'))"
proof -
  have c: "coherent env {} s" "quiescent s" using client_invariant [OF assms] by auto
  show ?thesis using flush_pure [OF assms(1) c] batch_pure [OF assms(1) c, of ws u] settledI by blast
qed

text \<open>An effect is started, a signal it reads is written, and the flush runs it again.\<close>

lemma demo_started:
  "\<exists>s. returns demo_env (RunEffect 0) (init_st (\<lambda>n. 1) 0) (Finished, s) \<and> ran s = [(0, 6)] \<and> disposed s = [] \<and> sval s = (\<lambda>n. 1)"
proof -
  have "\<exists>s. (\<forall>k. go demo_env (Suc (Suc (Suc (Suc (Suc (Suc (Suc (Suc (Suc (Suc k)))))))))) (RunEffect 0) (init_st (\<lambda>n. 1) 0) =
      Some (Finished, s)) \<and> ran s = [(0, 6)] \<and> disposed s = [] \<and> sval s = (\<lambda>n. 1)"
    by (simp add: run_effect_def run_cleanup_def and_then_def read_computed_def recompute_def demo_env_def init_st_def
        track_def clearDeps_def set_add_def Let_def)
  then obtain s where s: "\<And>k. go demo_env (Suc (Suc (Suc (Suc (Suc (Suc (Suc (Suc (Suc (Suc k)))))))))) (RunEffect 0)
      (init_st (\<lambda>n. 1) 0) = Some (Finished, s)" "ran s = [(0, 6)]" "disposed s = []" "sval s = (\<lambda>n. 1)" by blast
  have "returns demo_env (RunEffect 0) (init_st (\<lambda>n. 1) 0) (Finished, s)"
  proof (rule returnsI [of 9])
    fix j :: nat assume "9 \<le> j"
    then obtain i where "j = 9 + i" using le_Suc_ex by blast
    then have "Suc j = Suc (Suc (Suc (Suc (Suc (Suc (Suc (Suc (Suc (Suc i)))))))))" by simp
    with s(1) show "go demo_env (Suc j) (RunEffect 0) (init_st (\<lambda>n. 1) 0) = Some (Finished, s)" by metis
  qed
  with s show ?thesis by blast
qed

theorem flush_settles_effects_witness:
  "\<exists>s s'. returns demo_env (RunEffect 0) (init_st (\<lambda>n. 1) 0) (Finished, s) \<and>
     returns demo_env Flush (set_signal 1 5 s) (Finished, s') \<and> last_value 0 s' = Some 18"
proof -
  obtain s where s: "returns demo_env (RunEffect 0) (init_st (\<lambda>n. 1) 0) (Finished, s)" "ran s = [(0, 6)]"
    "disposed s = []" "sval s = (\<lambda>n. 1)" using demo_started by blast
  have "client demo_env (set_signal 1 5 s)"
    by (intro client_set client_start [OF client_init _ s(1)]) (simp add: last_value_def init_st_def)
  from flush_settles_effects [OF acyclic_demo this] obtain s' where
    s': "returns demo_env Flush (set_signal 1 5 s) (Finished, s')" "settled demo_env s'"
    "sval s' = sval (set_signal 1 5 s)" "disposed s' = disposed (set_signal 1 5 s)"
    "fst ` set (ran (set_signal 1 5 s)) \<subseteq> fst ` set (ran s')" by blast
  have "0 \<in> fst ` set (ran s')" using s'(5) s(2) by auto
  moreover have "disposed (set_signal 1 5 s) = []" using s(3) by (simp add: set_signal_def)
  ultimately obtain v R where v: "last_value 0 s' = Some v" "evals demo_env (sval s') (efn demo_env 0) v R"
    using s'(2,4) unfolding settled_def by auto
  define vals :: "nat \<Rightarrow> int" where "vals = (\<lambda>n. 1)(1 := 5)"
  have vals: "sval s' = vals" using s'(3) s(4) by (simp add: vals_def)
  have "evals demo_env vals (GetSig 0 (\<lambda>a. GetSig 1 (\<lambda>b. Done (a + b)))) (vals 0 + vals 1) [Sig 0, Sig 1]"
    by (intro evals_Sig evals.intros)
  then have c0: "evals demo_env vals (cfn demo_env 0) 6 [Sig 0, Sig 1]" by (simp add: demo_env_def vals_def)
  from evals_Cmp [where f = "\<lambda>c. Done (2 * c)", OF this evals_Done]
  have c1: "evals demo_env vals (cfn demo_env 1) 12 [Cmp 0]" by (simp add: demo_env_def)
  have "evals demo_env vals (GetCmp 1 (\<lambda>d. Done (6 + d))) 18 [Cmp 1]"
    using evals_Cmp [where f = "\<lambda>d. Done (6 + d)", OF c1 evals_Done] by simp
  from evals_Cmp [where f = "\<lambda>c. GetCmp 1 (\<lambda>d. Done (c + d))", OF c0 this]
  have "evals demo_env vals (efn demo_env 0) 18 [Cmp 0, Cmp 1]" by (simp add: demo_env_def)
  then have "v = 18" using v(2) evals_unique vals by metis
  with v(1) s(1) s'(1) show ?thesis by blast
qed

section \<open>Arbitrary bodies\<close>

text \<open>An effect that rewrites the signal it reads, never to the same value.\<close>

definition runaway :: "'v env \<Rightarrow> nat \<Rightarrow> nat \<Rightarrow> ('v \<Rightarrow> 'v) \<Rightarrow> bool" where
  "runaway env e n g \<longleftrightarrow> efn env e = GetSig n (\<lambda>v. SetSig n (g v) (Done v)) \<and> (\<forall>v. g v \<noteq> v) \<and>
     (\<forall>v. ecleanup env e v = None)"

definition spinning :: "nat \<Rightarrow> nat \<Rightarrow> 'v st \<Rightarrow> bool" where
  "spinning e n s \<longleftrightarrow> subs s (Sig n) = [CE e] \<and> e \<notin> set (disposed s) \<and> running s = [] \<and> cleanup s e = None \<and>
     batchDepth s = 0"

lemma spin_once:
  assumes "runaway env e n g" and "spinning e n s" and "pending_effects s = []"
  shows "\<exists>s'. returns env (RunAll [e]) s (Finished, s') \<and> spinning e n s' \<and>
    pending_effects s' = [e] \<and> sval s' n = g (sval s n)"
proof -
  have "\<exists>s'. (\<forall>k. go env (Suc (Suc (Suc (Suc (Suc k))))) (RunAll [e]) s = Some (Finished, s')) \<and> spinning e n s' \<and>
      pending_effects s' = [e] \<and> sval s' n = g (sval s n)"
    using assms
    by (simp add: runaway_def spinning_def run_all_def run_effect_def run_cleanup_def and_then_def Let_def
        clearDeps_def track_def set_signal_def pushAndSchedule_def set_add_def)
  then obtain s' where s': "\<And>k. go env (Suc (Suc (Suc (Suc (Suc k))))) (RunAll [e]) s = Some (Finished, s')"
    "spinning e n s'" "pending_effects s' = [e]" "sval s' n = g (sval s n)" by blast
  have "returns env (RunAll [e]) s (Finished, s')"
  proof (rule returnsI [of 4])
    fix j :: nat assume "4 \<le> j"
    then obtain i where "j = 4 + i" using le_Suc_ex by blast
    then have "Suc j = Suc (Suc (Suc (Suc (Suc i))))" by simp
    with s'(1) show "go env (Suc j) (RunAll [e]) s = Some (Finished, s')" by metis
  qed
  with s' show ?thesis by blast
qed

lemma spin_loop:
  assumes "runaway env e n g"
  shows "passes \<le> MAX_FLUSH_PASSES \<Longrightarrow> spinning e n s \<Longrightarrow> pending_effects s = [e] \<Longrightarrow>
    \<exists>s'. returns env (FlushLoop passes) s (Exn (SignalCycle (Suc MAX_FLUSH_PASSES) [ename env e]), s') \<and>
      pending_effects s' = [] \<and> sval s' n = (g ^^ (MAX_FLUSH_PASSES - passes)) (sval s n)"
proof (induction "MAX_FLUSH_PASSES - passes" arbitrary: passes s)
  case 0
  then have "passes = MAX_FLUSH_PASSES" by simp
  moreover have "returns env (FlushLoop MAX_FLUSH_PASSES) s
      (Exn (SignalCycle (Suc MAX_FLUSH_PASSES) [ename env e]), s\<lparr>pending_effects := []\<rparr>)"
    using 0 by (intro returnsI [of 0]) (simp add: flush_loop_def)
  ultimately show ?case by (intro exI [of _ "s\<lparr>pending_effects := []\<rparr>"]) simp
next
  case (Suc d)
  let ?t = "s\<lparr>pending_effects := []\<rparr>"
  have "spinning e n ?t" using Suc.prems(2) by (simp add: spinning_def)
  then obtain t where t: "returns env (RunAll [e]) ?t (Finished, t)" "spinning e n t" "pending_effects t = [e]"
    "sval t n = g (sval s n)"
    using spin_once [OF assms, of ?t] by auto
  have "d = MAX_FLUSH_PASSES - Suc passes" "Suc passes \<le> MAX_FLUSH_PASSES" using Suc.hyps(2) by simp_all
  then obtain s' where s': "returns env (FlushLoop (Suc passes)) t (Exn (SignalCycle (Suc MAX_FLUSH_PASSES) [ename env e]), s')"
    "pending_effects s' = []" "sval s' n = (g ^^ d) (sval t n)"
    using Suc.hyps(1) [of "Suc passes" t] t(2,3) by auto
  obtain k1 k2 where k: "\<And>j. k1 \<le> j \<Longrightarrow> go env j (RunAll [e]) ?t = Some (Finished, t)"
    "\<And>j. k2 \<le> j \<Longrightarrow> go env j (FlushLoop (Suc passes)) t = Some (Exn (SignalCycle (Suc MAX_FLUSH_PASSES) [ename env e]), s')"
    using t(1) s'(1) by (elim returnsE) blast
  have "returns env (FlushLoop passes) s (Exn (SignalCycle (Suc MAX_FLUSH_PASSES) [ename env e]), s')"
    using Suc.prems k \<open>Suc passes \<le> MAX_FLUSH_PASSES\<close>
    by (intro returnsI [of "max k1 k2"]) (simp add: flush_loop_def and_then_def)
  moreover have "MAX_FLUSH_PASSES - passes = Suc d" using Suc.hyps(2) by simp
  ultimately show ?case using s'(2,3) t(4) by (intro exI [of _ s']) (simp add: funpow_swap1)
qed

lemma flush_loop_result:
  "go env k (FlushLoop passes) s = Some (r, s') \<Longrightarrow> r = Finished \<Longrightarrow> pending_effects s' = []"
proof (induction k arbitrary: passes s)
  case (Suc k)
  then show ?case
    by (auto simp: flush_loop_def and_then_def split: if_splits option.splits res.splits)
qed simp

text \<open>C6: An effect that keeps rewriting the signal it reads does not hang the flush: after exactly
  \<open>MAX_FLUSH_PASSES\<close> runs the flush ends with a cycle error that carries the effect's name, nothing
  stays pending, and the flush can be scheduled again. And whatever the bodies do, a flush that
  ends without an error has left no effect pending.\<close>

theorem runaway_effect_is_named:
  fixes env :: "'v env"
  assumes "runaway env e n g" and "spinning e n s" and "pending_effects s = [e]"
  shows "(\<exists>s'. returns env Flush s (Exn (SignalCycle 101 [ename env e]), s') \<and> pending_effects s' = [] \<and>
      \<not> flushing s' \<and> sval s' n = (g ^^ 100) (sval s n)) \<and>
    (\<forall>(env' :: 'v env) k t t'. batchDepth t = 0 \<and> go env' k Flush t = Some (Finished, t') \<longrightarrow>
       pending_effects t' = [] \<and> \<not> flushing t')"
proof (intro conjI allI impI)
  obtain s1 where s1: "returns env (FlushLoop 0) s (Exn (SignalCycle 101 [ename env e]), s1)"
    "pending_effects s1 = []" "sval s1 n = (g ^^ 100) (sval s n)"
    using spin_loop [OF assms(1) _ assms(2,3), of 0] by (auto simp: MAX_FLUSH_PASSES_def)
  obtain k where k: "\<And>j. k \<le> j \<Longrightarrow> go env j (FlushLoop 0) s = Some (Exn (SignalCycle 101 [ename env e]), s1)"
    using s1(1) by (rule returnsE) blast
  have "returns env Flush s (Exn (SignalCycle 101 [ename env e]), s1\<lparr>flushing := False\<rparr>)"
    using assms(2) k by (intro returnsI [of k]) (simp add: flush_def spinning_def)
  with s1 show "\<exists>s'. returns env Flush s (Exn (SignalCycle 101 [ename env e]), s') \<and> pending_effects s' = [] \<and>
      \<not> flushing s' \<and> sval s' n = (g ^^ 100) (sval s n)"
    by (intro exI [of _ "s1\<lparr>flushing := False\<rparr>"]) simp
next
  fix env' :: "'v env" and k t t' assume a: "batchDepth t = 0 \<and> go env' k Flush t = Some (Finished, t')"
  then obtain j where k: "k = Suc j" by (cases k) auto
  with a obtain u where "go env' j (FlushLoop 0) t = Some (Finished, u)" "t' = u\<lparr>flushing := False\<rparr>"
    by (auto simp: flush_def)
  with flush_loop_result [OF this(1)] show "pending_effects t' = []" "\<not> flushing t'" by simp_all
qed

definition spin_env :: "int env" where
  "spin_env = \<lparr>cfn = (\<lambda>n. Done 0), cname = (\<lambda>n. ''c''),
     efn = (\<lambda>e. GetSig 0 (\<lambda>v. SetSig 0 (v + 1) (Done v))), ename = (\<lambda>e. ''spin''), ecleanup = (\<lambda>e v. None)\<rparr>"

theorem runaway_effect_is_named_witness:
  "\<exists>s'. returns spin_env Flush ((init_st (\<lambda>n. 0) 0)\<lparr>subs := (\<lambda>x. [CE 7]), pending_effects := [7]\<rparr>)
      (Exn (SignalCycle 101 [''spin'']), s') \<and> sval s' 0 = ((\<lambda>v. v + 1) ^^ 100) 0"
proof -
  let ?s = "(init_st (\<lambda>n. 0) 0)\<lparr>subs := (\<lambda>x. [CE 7]), pending_effects := [7]\<rparr> :: int st"
  have "runaway spin_env 7 0 (\<lambda>v. v + 1)" "spinning 7 0 ?s" "pending_effects ?s = [7]"
    by (simp_all add: runaway_def spin_env_def spinning_def init_st_def)
  from runaway_effect_is_named [OF this, THEN conjunct1]
  show ?thesis by (auto simp: spin_env_def init_st_def)
qed

text \<open>
  A computed whose body throws is marked clean on the way out: the next read returns the old
  cached value without running the body and without an error.
\<close>

lemma failed_computed_reads_stale:
  assumes "cfn env n = Raise x" and "n \<notin> set (clean s)" and "CC n \<notin> set (running s)" and "current s = None"
  shows "\<exists>s'. returns env (Exec (GetCmp n Done)) s (Exn (User x), s') \<and>
    returns env (Exec (GetCmp n Done)) s' (Ok (cached s n), s')"
proof -
  define s' where "s' = (clearDeps (CC n) (s\<lparr>running := CC n # running s, current := Some (CC n)\<rparr>))
    \<lparr>current := None, running := removeAll (CC n) (CC n # running s), clean := set_add n (clean s)\<rparr>"
  have "go env (Suc (Suc (Suc k))) (Exec (GetCmp n Done)) s = Some (Exn (User x), s')" for k
    using assms by (simp add: track_def read_computed_def recompute_def and_then_def s'_def)
  then have "returns env (Exec (GetCmp n Done)) s (Exn (User x), s')"
    by (intro returnsI [of 2]) (metis add_2_eq_Suc le_Suc_ex)
  moreover have "go env (Suc (Suc k)) (Exec (GetCmp n Done)) s' = Some (Ok (cached s n), s')" for k
    by (simp add: track_def read_computed_def s'_def)
  then have "returns env (Exec (GetCmp n Done)) s' (Ok (cached s n), s')"
    by (intro returnsI [of 1]) (metis One_nat_def Suc_le_D)
  ultimately show ?thesis by blast
qed

text \<open>An effect that throws during a pass takes the effects after it out of the flush.\<close>

lemma failing_effect_drops_rest:
  assumes "efn env e = Raise x" and "e \<notin> set (disposed s)" and "CE e \<notin> set (running s)" and "cleanup s e = None"
  shows "\<exists>s'. returns env (RunAll (e # es)) s (Exn (User x), s') \<and> pending_effects s' = pending_effects s \<and> ran s' = ran s"
proof -
  define s' where "s' = (clearDeps (CE e) (s\<lparr>running := CE e # running s, current := Some (CE e)\<rparr>))
    \<lparr>current := current s, running := removeAll (CE e) (CE e # running s)\<rparr>"
  have "go env (Suc (Suc (Suc k))) (RunAll (e # es)) s = Some (Exn (User x), s')" for k
    using assms by (simp add: run_all_def run_effect_def run_cleanup_def and_then_def s'_def)
  then have "returns env (RunAll (e # es)) s (Exn (User x), s')"
    by (intro returnsI [of 2]) (metis add_2_eq_Suc le_Suc_ex)
  then show ?thesis by (intro exI [of _ s']) (simp add: s'_def)
qed

end
