(* ===== verification/Grouping.thy ===== *)
theory Grouping
  imports JsValue
begin

text \<open>
  Row grouping, from \<^verbatim>\<open>filter/group-axis.ts\<close>: the picker's axis vocabulary and the walk that turns
  ordered rows into headers and rows for the recycling list. The walk stamps the run length on
  a header it pushed earlier, a shared mutable object of the source; here the header is its
  index in the output. A row is any type with an attribute bag, the parameter \<open>attrs\<close>.

  Main result: the walk is the list of runs of equal keys, written out.
\<close>

section \<open>Axes\<close>

record group_attr =
  attr :: string
  lookup :: "string option"
  tagPrefix :: "string option"

definition groupAttrFromGroupValue :: "string option \<Rightarrow> group_attr option" where
  "groupAttrFromGroupValue v =
     (if v = Some ''milestone'' then Some \<lparr>attr = ''milestone_ref'', lookup = Some ''milestones'', tagPrefix = None\<rparr>
      else if v = Some ''component'' then Some \<lparr>attr = ''component_ref'', lookup = Some ''components'', tagPrefix = None\<rparr>
      else if v = Some ''status'' then Some \<lparr>attr = ''status'', lookup = Some ''statuses'', tagPrefix = None\<rparr>
      else if v = Some ''assignee'' then Some \<lparr>attr = ''assignee'', lookup = Some ''persons'', tagPrefix = None\<rparr>
      else None)"

definition CARD_TYPE_TO_LOOKUP :: "string props" where
  "CARD_TYPE_TO_LOOKUP =
     [(''person'', ''persons''), (''status'', ''statuses''), (''milestone'', ''milestones''),
      (''component'', ''components''), (''tag'', ''tags'')]"

text \<open>The catalog is an object literal: an inherited member is not a string.\<close>

definition lookupNameForCardType :: "string \<Rightarrow> string outcome" where
  "lookupNameForCardType t = (case map_of CARD_TYPE_TO_LOOKUP t of
     Some n \<Rightarrow> Return n
   | None \<Rightarrow> if t \<in> set object_prototype_names then OffType t else Return t)"

definition groupAxisForAttr :: "string option \<Rightarrow> string option \<Rightarrow> group_attr option outcome" where
  "groupAxisForAttr a target = (case a of
     None \<Rightarrow> Return None
   | Some n \<Rightarrow>
       if n = '''' then Return None
       else (case target of
         None \<Rightarrow> Return (Some \<lparr>attr = n, lookup = None, tagPrefix = None\<rparr>)
       | Some t \<Rightarrow>
           if t = '''' then Return (Some \<lparr>attr = n, lookup = None, tagPrefix = None\<rparr>)
           else obind (lookupNameForCardType t)
             (\<lambda>l. Return (Some \<lparr>attr = n, lookup = Some l, tagPrefix = None\<rparr>))))"

section \<open>The walk\<close>

datatype 'a group_item =
    GroupHeader (header_label: string) (header_count: nat) (header_key: string)
  | GroupRow (row_of: 'a) (row_idx: nat)

definition GROUP_EMPTY_KEY :: string where
  "GROUP_EMPTY_KEY = ''__empty__''"

definition is_empty_value :: "js \<Rightarrow> bool" where
  "is_empty_value v \<longleftrightarrow> v = JUndef \<or> v = JNull \<or> v = JStr ''''"

definition group_key :: "js \<Rightarrow> string" where
  "group_key v = (if is_empty_value v then GROUP_EMPTY_KEY else js_text v)"

definition group_label :: "(js \<Rightarrow> string) \<Rightarrow> js \<Rightarrow> string" where
  "group_label labelOf v = (if is_empty_value v then ''(unset)'' else labelOf v)"

text \<open>\<open>header.count += 1\<close> on the header at an index of the output.\<close>

definition bump_header :: "nat option \<Rightarrow> 'a group_item list \<Rightarrow> 'a group_item list" where
  "bump_header h out = (case h of
     None \<Rightarrow> out
   | Some i \<Rightarrow> (case out ! i of
       GroupHeader l n k \<Rightarrow> out[i := GroupHeader l (n + 1) k]
     | GroupRow r j \<Rightarrow> out))"

fun walk_rows ::
  "('a \<Rightarrow> js) \<Rightarrow> (js \<Rightarrow> string) \<Rightarrow> nat \<Rightarrow> 'a list \<Rightarrow> 'a group_item list \<Rightarrow> nat option \<Rightarrow> string option \<Rightarrow> 'a group_item list"
where
  "walk_rows val labelOf i [] out header prevKey = out"
| "walk_rows val labelOf i (row # rows) out header prevKey =
     (let key = group_key (val row) in
      if prevKey \<noteq> Some key
      then let h = Some (length out); out' = out @ [GroupHeader (group_label labelOf (val row)) 0 key]
           in walk_rows val labelOf (Suc i) rows (bump_header h out' @ [GroupRow row i]) h (Some key)
      else walk_rows val labelOf (Suc i) rows (bump_header header out @ [GroupRow row i]) header prevKey)"

definition walkGrouped ::
  "('a \<Rightarrow> js props) \<Rightarrow> 'a list \<Rightarrow> string option \<Rightarrow> (js \<Rightarrow> string) \<Rightarrow> 'a group_item list"
where
  "walkGrouped attrs rows attrName labelOf = (case attrName of
     None \<Rightarrow> map (\<lambda>(i, row). GroupRow row i) (enumerate 0 rows)
   | Some a \<Rightarrow> walk_rows (\<lambda>r. prop_get (attrs r) a) labelOf 0 rows [] None None)"

section \<open>Runs\<close>

text \<open>The reference: split the rows into runs of equal keys, then write each run out.\<close>

function runs :: "('a \<Rightarrow> 'k) \<Rightarrow> 'a list \<Rightarrow> 'a list list" where
  "runs key [] = []"
| "runs key (x # xs) =
     (x # takeWhile (\<lambda>y. key y = key x) xs) # runs key (dropWhile (\<lambda>y. key y = key x) xs)"
  by pat_completeness auto
termination
  by (relation "measure (length \<circ> snd)") (auto simp: less_Suc_eq_le intro: length_dropWhile_le)

definition row_items :: "nat \<Rightarrow> 'a list \<Rightarrow> 'a group_item list" where
  "row_items i rows = map (\<lambda>(j, r). GroupRow r j) (enumerate i rows)"

fun write_runs :: "('a \<Rightarrow> string) \<Rightarrow> ('a \<Rightarrow> string) \<Rightarrow> nat \<Rightarrow> 'a list list \<Rightarrow> 'a group_item list" where
  "write_runs lab key i [] = []"
| "write_runs lab key i (run # rest) =
     GroupHeader (lab (hd run)) (length run) (key (hd run)) # row_items i run @
     write_runs lab key (i + length run) rest"

lemma row_items_simps [simp]:
  "row_items i [] = []" "row_items i (x # xs) = GroupRow x i # row_items (Suc i) xs"
  by (simp_all add: row_items_def)

lemma bump_at [simp]:
  "bump_header (Some (length pre)) (pre @ GroupHeader l c k # mid) = pre @ GroupHeader l (Suc c) k # mid"
  by (simp add: bump_header_def)

lemma bump_first [simp]: "bump_header (Some 0) [GroupHeader l c k] = [GroupHeader l (Suc c) k]"
  using bump_at [of "[]" l c k "[]"] by simp

lemma walk_rows_run:
  "walk_rows val labelOf i rows (pre @ GroupHeader l c k # mid) (Some (length pre)) (Some k) =
   (let key = \<lambda>r. group_key (val r); run = takeWhile (\<lambda>r. key r = k) rows in
    pre @ GroupHeader l (c + length run) k # mid @ row_items i run @
    write_runs (\<lambda>r. group_label labelOf (val r)) key (i + length run)
      (runs key (dropWhile (\<lambda>r. key r = k) rows)))"
proof (induction rows arbitrary: i pre l c k mid)
  case (Cons x xs)
  show ?case
  proof (cases "group_key (val x) = k")
    case True
    then show ?thesis using Cons.IH [of "Suc i" pre l "Suc c" k "mid @ [GroupRow x i]"]
      by (simp add: Let_def)
  next
    case False
    have b: "bump_header (Some (Suc (length pre + length mid)))
        (pre @ GroupHeader l c k # mid @ [GroupHeader l' 0 k']) =
        (pre @ GroupHeader l c k # mid) @ [GroupHeader l' 1 k']" for l' k'
      using bump_at [of "pre @ GroupHeader l c k # mid" l' 0 k' "[]"] by simp
    show ?thesis
      using False b Cons.IH [of "Suc i" "pre @ GroupHeader l c k # mid" "group_label labelOf (val x)" 1
          "group_key (val x)" "[GroupRow x i]"]
      by (simp add: Let_def)
  qed
qed simp

lemma walk_rows_start:
  "walk_rows val labelOf i rows [] None None =
   write_runs (\<lambda>r. group_label labelOf (val r)) (\<lambda>r. group_key (val r)) i (runs (\<lambda>r. group_key (val r)) rows)"
proof (cases rows)
  case (Cons x xs)
  show ?thesis
    using walk_rows_run [of val labelOf "Suc i" xs "[]" "group_label labelOf (val x)" 1
        "group_key (val x)" "[GroupRow x i]"] Cons
    by (simp add: Let_def)
qed simp

text \<open>Grouping the rows of a list is writing out its runs of equal keys: one header per run, with the
  label of the run's first row and the number of its rows, followed by those rows with their
  positions in the ungrouped list.\<close>

theorem walkGrouped_runs:
  "walkGrouped attrs rows (Some a) labelOf =
     (let val = \<lambda>r. prop_get (attrs r) a in
      write_runs (\<lambda>r. group_label labelOf (val r)) (\<lambda>r. group_key (val r)) 0 (runs (\<lambda>r. group_key (val r)) rows))"
  by (simp add: walkGrouped_def walk_rows_start Let_def)

section \<open>What the runs are\<close>

lemma concat_runs: "concat (runs key xs) = xs"
  by (induction key xs rule: runs.induct) simp_all

lemma run_uniform: "run \<in> set (runs key xs) \<Longrightarrow> run \<noteq> [] \<and> (\<forall>x \<in> set run. key x = key (hd run))"
proof (induction key xs rule: runs.induct)
  case (2 key x xs)
  from "2.prems" consider "run = x # takeWhile (\<lambda>y. key y = key x) xs"
    | "run \<in> set (runs key (dropWhile (\<lambda>y. key y = key x) xs))"
    by auto
  then show ?case
  proof cases
    case 1
    show ?thesis unfolding 1 by (auto dest: set_takeWhileD)
  next
    case 2
    then show ?thesis by (rule "2.IH")
  qed
qed simp

fun rows_in :: "'a group_item list \<Rightarrow> ('a \<times> nat) list" where
  "rows_in [] = []"
| "rows_in (GroupRow r j # its) = (r, j) # rows_in its"
| "rows_in (GroupHeader l n k # its) = rows_in its"

lemma rows_in_append [simp]: "rows_in (xs @ ys) = rows_in xs @ rows_in ys"
  by (induction xs rule: rows_in.induct) simp_all

lemma rows_in_row_items [simp]: "rows_in (row_items i xs) = zip xs [i ..< i + length xs]"
proof (induction xs arbitrary: i)
  case (Cons x xs)
  have "[i ..< i + length (x # xs)] = i # [Suc i ..< Suc i + length xs]" by (simp add: upt_rec)
  then show ?case by (simp only: row_items_simps rows_in.simps zip_Cons_Cons Cons [of "Suc i"])
qed simp

lemma write_runs_rows:
  "rows_in (write_runs lab key i rs) = zip (concat rs) [i ..< i + length (concat rs)]"
proof (induction rs arbitrary: i)
  case (Cons run rs)
  have "[i ..< i + (length run + length (concat rs))] =
      [i ..< i + length run] @ [i + length run ..< i + (length run + length (concat rs))]"
    using upt_add_eq_append [of i "i + length run" "length (concat rs)"] by (simp add: add.assoc)
  then show ?case by (simp add: Cons add.assoc)
qed simp

text \<open>Every row comes out once, in order, with its position.\<close>

lemma walkGrouped_rows: "rows_in (walkGrouped attrs rows (Some a) labelOf) = zip rows [0 ..< length rows]"
  by (simp add: walkGrouped_def walk_rows_start write_runs_rows concat_runs)

fun headers_in :: "'a group_item list \<Rightarrow> string list" where
  "headers_in [] = []"
| "headers_in (GroupHeader l n k # is) = k # headers_in is"
| "headers_in (GroupRow r j # is) = headers_in is"

lemma headers_in_append [simp]: "headers_in (xs @ ys) = headers_in xs @ headers_in ys"
  by (induction xs rule: headers_in.induct) auto

lemma headers_in_rows [simp]: "headers_in (row_items i rows) = []"
  by (induction rows arbitrary: i) (simp_all)

lemma headers_in_write_runs: "headers_in (write_runs lab key i rs) = map (key \<circ> hd) rs"
  by (induction rs arbitrary: i) simp_all

lemma walkGrouped_headers:
  "headers_in (walkGrouped attrs rows (Some a) labelOf) =
     map ((\<lambda>r. group_key (prop_get (attrs r) a)) \<circ> hd) (runs (\<lambda>r. group_key (prop_get (attrs r) a)) rows)"
  by (simp add: walkGrouped_def walk_rows_start headers_in_write_runs)

text \<open>
  When the caller ordered the rows by the group key, as the source relies on, no key has two
  headers.
\<close>

lemma runs_heads_subset: "hd ` set (runs key xs) \<subseteq> set xs"
proof (induction key xs rule: runs.induct)
  case (2 key x xs)
  then show ?case by (auto dest: set_dropWhileD)
qed simp

text \<open>Rows of equal keys stand together when the rows are sorted by an order that ties only those.\<close>

lemma tied_headers_distinct:
  assumes "sorted_wrt r xs"
    and "\<And>x y z. x \<in> set xs \<Longrightarrow> y \<in> set xs \<Longrightarrow> z \<in> set xs \<Longrightarrow> r y z \<Longrightarrow> key z = key x \<Longrightarrow> r x y \<Longrightarrow> key y = key x"
  shows "distinct (map (key \<circ> hd) (runs key xs))"
  using assms
proof (induction key xs rule: runs.induct)
  case (2 key x xs)
  let ?rest = "dropWhile (\<lambda>y. key y = key x) xs"
  have sub: "set ?rest \<subseteq> set (x # xs)" by (auto dest: set_dropWhileD)
  have "sorted_wrt r xs" using "2.prems"(1) by simp
  then have rest: "sorted_wrt r ?rest" using sorted_wrt_append [of r "takeWhile (\<lambda>y. key y = key x) xs" ?rest] by simp
  have "key x \<notin> key ` set ?rest"
  proof
    assume "key x \<in> key ` set ?rest"
    then obtain z where z: "z \<in> set ?rest" "key z = key x" by auto
    then obtain y ys where y: "?rest = y # ys" by (cases ?rest) auto
    then have ne: "key y \<noteq> key x" using hd_dropWhile [of "\<lambda>y. key y = key x" xs] by auto
    then have "z \<in> set ys" using z y by auto
    then have "r y z" using rest y by auto
    moreover have "y \<in> set xs" using y by (metis list.set_intros(1) set_dropWhileD)
    then have "r x y" using "2.prems"(1) by simp
    ultimately show False using "2.prems"(2) [of x y z] ne z sub y by auto
  qed
  moreover have "(key \<circ> hd) ` set (runs key ?rest) \<subseteq> key ` set ?rest"
    using runs_heads_subset [of key ?rest] by (auto simp: image_subset_iff)
  moreover have "distinct (map (key \<circ> hd) (runs key ?rest))"
    using "2.prems"(2) sub by (intro "2.IH" rest) blast
  ultimately show ?case by (auto simp: comp_def)
qed simp

lemma clustered_headers_distinct:
  "sorted (map (\<lambda>x. key x :: 'k :: linorder) xs) \<Longrightarrow> distinct (map (key \<circ> hd) (runs key xs))"
proof (induction key xs rule: runs.induct)
  case (2 key x xs)
  let ?rest = "dropWhile (\<lambda>y. key y = key x) xs"
  have s: "sorted (map key (x # xs))" using "2.prems" by simp
  have "sorted (map key (takeWhile (\<lambda>y. key y = key x) xs @ ?rest))" using s by simp
  then have rest: "sorted (map key ?rest)" by (simp only: map_append sorted_append)
  have "key x \<notin> key ` set ?rest"
  proof (cases ?rest)
    case (Cons y ys)
    then have "key y \<noteq> key x" using hd_dropWhile [of "\<lambda>y. key y = key x" xs] by auto
    moreover have "key x \<le> key y" using s Cons by (metis list.set_intros list.simps(9) set_dropWhileD sorted_simps(2) image_eqI set_map)
    moreover have "\<forall>z \<in> set ys. key y \<le> key z" using rest Cons by auto
    ultimately show ?thesis using Cons by fastforce
  next
    case Nil
    show ?thesis unfolding Nil by simp
  qed
  moreover have "(key \<circ> hd) ` set (runs key ?rest) \<subseteq> key ` set ?rest"
    using runs_heads_subset [of key ?rest] by (auto simp: image_subset_iff)
  ultimately show ?case using "2.IH" rest by auto
qed simp

end
