(* ===== verification/JsSort.thy ===== *)
theory JsSort
  imports Prelude "HOL-Library.Multiset"
begin

text \<open>
  \<open>Array.prototype.sort\<close> with a comparison function, and the contract a comparison function has to
  meet for its result to be determined: the interface \<open>js_comparator\<close>. The language fixes the
  result to be a stable sort; \<open>sort_unique\<close> shows that this leaves no choice, so that the
  insertion sort below stands for every implementation. A comparator is the sign of the number
  its code returns.
\<close>

fun js_insert :: "('a \<Rightarrow> 'a \<Rightarrow> int) \<Rightarrow> 'a \<Rightarrow> 'a list \<Rightarrow> 'a list" where
  "js_insert cmp x [] = [x]"
| "js_insert cmp x (y # ys) = (if cmp x y \<le> 0 then x # y # ys else y # js_insert cmp x ys)"

definition js_sort :: "('a \<Rightarrow> 'a \<Rightarrow> int) \<Rightarrow> 'a list \<Rightarrow> 'a list" where
  "js_sort cmp xs = foldr (js_insert cmp) xs []"

text \<open>The sign of a difference, of a string or bigint comparison by \<open>&lt;\<close> and \<open>&gt;\<close>.\<close>

definition cmp_of :: "'b :: linorder \<Rightarrow> 'b \<Rightarrow> int" where
  "cmp_of a b = (if a < b then - 1 else if b < a then 1 else 0)"

definition then_cmp :: "int \<Rightarrow> int \<Rightarrow> int" where
  "then_cmp c d = (if c \<noteq> 0 then c else d)"

lemma js_sort_simps [simp]: "js_sort cmp [] = []" "js_sort cmp (x # xs) = js_insert cmp x (js_sort cmp xs)"
  by (simp_all add: js_sort_def)

lemma mset_js_insert [simp]: "mset (js_insert cmp x xs) = add_mset x (mset xs)"
  by (induction xs) simp_all

lemma mset_js_sort [simp]: "mset (js_sort cmp xs) = mset xs"
  by (induction xs) simp_all

lemma set_js_sort [simp]: "set (js_sort cmp xs) = set xs"
  by (metis mset_js_sort set_mset_mset)

lemma length_js_sort [simp]: "length (js_sort cmp xs) = length xs"
  by (metis mset_js_sort size_mset)

lemma distinct_js_sort [simp]: "distinct (js_sort cmp xs) = distinct xs"
  by (metis mset_eq_imp_distinct_iff mset_js_sort)

locale js_comparator =
  fixes cmp :: "'a \<Rightarrow> 'a \<Rightarrow> int"
  assumes cmp_antisym: "cmp x y < 0 \<longleftrightarrow> 0 < cmp y x"
    and cmp_trans: "cmp x y \<le> 0 \<Longrightarrow> cmp y z \<le> 0 \<Longrightarrow> cmp x z \<le> 0"
begin

definition ordered :: "'a list \<Rightarrow> bool" where
  "ordered xs = sorted_wrt (\<lambda>x y. cmp x y \<le> 0) xs"

definition class_of :: "'a \<Rightarrow> 'a list \<Rightarrow> 'a list" where
  "class_of x xs = filter (\<lambda>y. cmp x y = 0) xs"

lemma cmp_refl [simp]: "cmp x x = 0"
  using cmp_antisym [of x x] by (cases "cmp x x < 0") auto

lemma cmp_total: "\<not> cmp x y \<le> 0 \<Longrightarrow> cmp y x \<le> 0"
  using cmp_antisym [of y x] by auto

lemma cmp_eq_iff: "cmp x y = 0 \<longleftrightarrow> cmp x y \<le> 0 \<and> cmp y x \<le> 0"
  using cmp_antisym [of x y] cmp_antisym [of y x]
  by (cases "cmp x y < 0"; cases "0 < cmp x y") auto

lemma cmp_sym_eq: "cmp x y = 0 \<longleftrightarrow> cmp y x = 0"
  by (auto simp: cmp_eq_iff)

lemma class_trans: "cmp x y = 0 \<Longrightarrow> cmp x z = 0 \<longleftrightarrow> cmp y z = 0"
  by (meson cmp_eq_iff cmp_trans)

lemma set_js_insert: "set (js_insert cmp x xs) = insert x (set xs)"
  by (metis mset_js_insert set_mset_add_mset_insert set_mset_mset)

lemma ordered_insert: "ordered xs \<Longrightarrow> ordered (js_insert cmp x xs)"
proof (induction xs)
  case (Cons y ys)
  show ?case
  proof (cases "cmp x y \<le> 0")
    case True
    with Cons.prems show ?thesis by (auto simp: ordered_def dest: cmp_trans)
  next
    case False
    with Cons cmp_total show ?thesis by (simp add: ordered_def set_js_insert)
  qed
qed (simp add: ordered_def)

lemma ordered_sort: "ordered (js_sort cmp xs)"
  by (induction xs) (auto simp: ordered_insert, simp add: ordered_def)

lemma class_insert:
  "ordered xs \<Longrightarrow> class_of z (js_insert cmp x xs) = (if cmp z x = 0 then x # class_of z xs else class_of z xs)"
proof (induction xs)
  case (Cons y ys)
  have "\<not> cmp x y \<le> 0 \<Longrightarrow> cmp z x = 0 \<Longrightarrow> cmp z y \<noteq> 0"
    using class_trans [of z x y] by linarith
  with Cons show ?case by (auto simp: class_of_def ordered_def)
qed (simp add: class_of_def)

text \<open>The sort is stable.\<close>

lemma class_sort: "class_of z (js_sort cmp xs) = class_of z xs"
  by (induction xs) (simp_all add: class_insert [OF ordered_sort], simp_all add: class_of_def)

lemma insert_front: "\<forall>y \<in> set ys. cmp x y \<le> 0 \<Longrightarrow> js_insert cmp x ys = x # ys"
  by (cases ys) auto

lemma sort_ordered: "ordered xs \<Longrightarrow> js_sort cmp xs = xs"
  by (induction xs) (auto simp: ordered_def insert_front)

text \<open>A stable, ordered rearrangement is the result of the sort.\<close>

lemma sort_unique:
  "ordered ys \<Longrightarrow> mset ys = mset xs \<Longrightarrow> (\<And>z. class_of z ys = class_of z xs) \<Longrightarrow> ys = js_sort cmp xs"
proof (induction ys arbitrary: xs)
  case Nil
  then show ?case by simp
next
  case (Cons y ys)
  define zs where "zs = js_sort cmp xs"
  have zs: "ordered zs" "mset zs = mset (y # ys)" "class_of w zs = class_of w (y # ys)" for w
    using Cons.prems ordered_sort class_sort by (simp_all add: zs_def)
  then obtain z zs' where z: "zs = z # zs'" by (cases zs) auto
  have "z \<in> set (y # ys)" "y \<in> set zs" using zs(2) z
    by (metis list.set_intros(1) set_mset_mset)+
  then have "cmp y z \<le> 0" "cmp z y \<le> 0"
    using Cons.prems(1) zs(1) z by (auto simp: ordered_def)
  then have "cmp y z = 0" by (simp add: cmp_eq_iff)
  then have "z = y" using zs(3) [of y] z by (simp add: class_of_def)
  have "zs' = js_sort cmp zs'" using zs(1) z by (intro sort_ordered [symmetric]) (simp add: ordered_def)
  have "ys = js_sort cmp zs'"
  proof (rule Cons.IH)
    show "ordered ys" using Cons.prems(1) by (simp add: ordered_def)
    show "mset ys = mset zs'" using zs(2) z \<open>z = y\<close> by simp
    show "class_of w ys = class_of w zs'" for w
      using zs(3) [of w] z \<open>z = y\<close> by (auto simp: class_of_def split: if_splits)
  qed
  with z \<open>z = y\<close> \<open>zs' = js_sort cmp zs'\<close> show ?case by (simp add: zs_def)
qed

lemma class_single: "sorted_wrt (\<lambda>x y. cmp x y < 0) ys \<Longrightarrow> length (class_of z ys) \<le> 1"
proof (induction ys)
  case (Cons y ys)
  have "cmp z y = 0 \<Longrightarrow> class_of z ys = []"
    using Cons.prems class_trans [of z y] by (auto simp: class_of_def filter_empty_conv)
  with Cons show ?case by (auto simp: class_of_def)
qed (simp add: class_of_def)

text \<open>When only equal elements tie, the result does not depend on the order of the input.\<close>

lemma sort_perm:
  assumes m: "mset xs = mset ys" and ties: "\<And>x y. x \<in> set xs \<Longrightarrow> y \<in> set xs \<Longrightarrow> cmp x y = 0 \<Longrightarrow> x = y"
  shows "js_sort cmp xs = js_sort cmp ys"
proof (rule sort_unique [OF ordered_sort])
  show "mset (js_sort cmp xs) = mset ys" using m by simp
  fix z
  have "x = y" if "x \<in> set (class_of z xs)" "y \<in> set (class_of z xs)" for x y
    using that ties class_trans [of z x y] by (auto simp: class_of_def)
  then have rep: "class_of z xs = replicate (length (class_of z xs)) (hd (class_of z xs))"
    by (cases "class_of z xs") (auto intro!: replicate_eqI)
  have "mset (class_of z xs) = mset (class_of z ys)" using m by (simp add: class_of_def)
  then have "class_of z ys = replicate (length (class_of z xs)) (hd (class_of z xs))"
    using rep by (metis in_set_replicate mset_eq_length replicate_eqI set_mset_mset)
  with rep show "class_of z (js_sort cmp xs) = class_of z ys" by (simp add: class_sort)
qed

text \<open>Leaving elements out before or after sorting is the same.\<close>

lemma filter_sort: "filter P (js_sort cmp xs) = js_sort cmp (filter P xs)"
proof (rule sort_unique)
  show "ordered (filter P (js_sort cmp xs))" using ordered_sort [of xs] by (simp add: ordered_def sorted_wrt_filter)
  show "mset (filter P (js_sort cmp xs)) = mset (filter P xs)" by simp
  fix z
  have "filter P (class_of z (js_sort cmp xs)) = filter P (class_of z xs)" by (simp add: class_sort)
  then show "class_of z (filter P (js_sort cmp xs)) = class_of z (filter P xs)"
    by (simp add: class_of_def conj_commute)
qed

text \<open>Without ties, the ordered rearrangement is the result.\<close>

lemma sort_strict:
  assumes ys: "sorted_wrt (\<lambda>x y. cmp x y < 0) ys" and m: "mset ys = mset xs"
  shows "js_sort cmp xs = ys"
proof -
  have "class_of z ys = class_of z xs" for z
  proof -
    have e: "mset (class_of z ys) = mset (class_of z xs)" using m by (simp add: class_of_def)
    with class_single [OF ys, of z] show ?thesis
      by (cases "class_of z ys") (auto dest: mset_eq_length)
  qed
  moreover have "ordered ys"
    unfolding ordered_def by (rule sorted_wrt_mono_rel [OF _ ys]) simp
  ultimately show ?thesis using sort_unique m by metis
qed

end

lemma cmp_of_antisym: "cmp_of a b < 0 \<longleftrightarrow> 0 < cmp_of b a"
  by (auto simp: cmp_of_def)

lemma cmp_of_le: "cmp_of a b \<le> 0 \<longleftrightarrow> a \<le> b"
  by (auto simp: cmp_of_def)

lemma cmp_of_eq [simp]: "cmp_of a b = 0 \<longleftrightarrow> a = b"
  by (auto simp: cmp_of_def)

lemma cmp_of_less [simp]: "cmp_of a b < 0 \<longleftrightarrow> a < b" "0 < cmp_of a b \<longleftrightarrow> b < a"
  by (auto simp: cmp_of_def)

lemma js_comparator_cmp_of: "js_comparator (\<lambda>x y. cmp_of (f x) (f y))"
  by unfold_locales (auto simp: cmp_of_le cmp_of_antisym)

lemma js_comparator_on: "js_comparator c \<Longrightarrow> js_comparator (\<lambda>x y. c (f x) (f y))"
  unfolding js_comparator_def by blast

lemma js_comparator_flip: "js_comparator c \<Longrightarrow> js_comparator (\<lambda>x y. c y x)"
  unfolding js_comparator_def by blast

lemma js_comparator_flip_of: "js_comparator (\<lambda>x y. cmp_of (f y) (f x))"
  by (rule js_comparator_flip) (rule js_comparator_cmp_of)

text \<open>Comparing by one criterion and then, among equals, by another again meets the contract.\<close>

lemma js_comparator_then:
  assumes c: "js_comparator c" and d: "js_comparator d"
  shows "js_comparator (\<lambda>x y. then_cmp (c x y) (d x y))"
proof
  fix x y
  show "then_cmp (c x y) (d x y) < 0 \<longleftrightarrow> 0 < then_cmp (c y x) (d y x)"
    using js_comparator.cmp_antisym [OF c, of x y] js_comparator.cmp_sym_eq [OF c, of x y]
      js_comparator.cmp_antisym [OF d, of x y]
    by (auto simp: then_cmp_def)
next
  fix x y z
  assume xy: "then_cmp (c x y) (d x y) \<le> 0" and yz: "then_cmp (c y z) (d y z) \<le> 0"
  then have le: "c x y \<le> 0" "c y z \<le> 0" by (auto simp: then_cmp_def split: if_splits)
  then have xz: "c x z \<le> 0" by (rule js_comparator.cmp_trans [OF c])
  show "then_cmp (c x z) (d x z) \<le> 0"
  proof (cases "c x z = 0")
    case True
    have "c y x \<le> 0" using js_comparator.cmp_trans [OF c le(2)] True js_comparator.cmp_sym_eq [OF c, of x z] by simp
    then have "c x y = 0" using le(1) js_comparator.cmp_antisym [OF c, of x y] by linarith
    moreover from this have "c y z = 0" using js_comparator.class_trans [OF c, of x y z] True by simp
    ultimately have "d x y \<le> 0" "d y z \<le> 0" using xy yz by (simp_all add: then_cmp_def)
    then show ?thesis using True js_comparator.cmp_trans [OF d] by (auto simp: then_cmp_def)
  next
    case False
    with xz show ?thesis by (simp add: then_cmp_def)
  qed
qed

end
