(* ===== verification/Transitions.thy ===== *)
theory Transitions
  imports FilterPredicate JsSort "HOL-Library.List_Lexorder" "HOL-Library.Char_ord"
begin

text \<open>
  The transition bar of \<^verbatim>\<open>task-detail/transition-buckets.ts\<close>: which of nine buckets a step from
  one phase to another belongs to, its tone, and the bucketing and ordering of the rows the
  server lists. Strings compare by their code units. The bucket map is an object with one
  member per bucket, here a function from buckets.

  Main results: the nine buckets are exactly the nine pairs of phases, each row is in the one
  bucket of its pair, and what the bar shows does not depend on the order the rows arrived in.
\<close>

section \<open>Rows and buckets\<close>

definition asTransitionPhase :: "js \<Rightarrow> phase" where
  "asTransitionPhase raw =
     (if raw = JStr ''triage'' then Triage else if raw = JStr ''terminal'' then Terminal else Active)"

record transition_row =
  tr_id :: int
  flowId :: int
  flowName :: string
  attributeDefId :: int
  attributeDefName :: string
  fromCardId :: int
  fromLabel :: string
  fromPhase :: phase
  toCardId :: int
  toLabel :: string
  toPhase :: phase
  tr_label :: string
  requiresRoleId :: int
  requiresRoleName :: string
  sortOrder :: rat
  standalone :: bool
  allowed :: bool

datatype bucket =
  Progress_triage | Accept | Reject | Defer | Progress | Close | Retriage | Reopen | Recategorize

definition ALL_BUCKETS :: "bucket list" where
  "ALL_BUCKETS = [Progress_triage, Accept, Reject, Defer, Progress, Close, Retriage, Reopen, Recategorize]"

datatype tone = Positive | Danger | Accent | Neutral

fun BUCKET_TONE :: "bucket \<Rightarrow> tone" where
  "BUCKET_TONE Progress_triage = Neutral"
| "BUCKET_TONE Accept = Positive"
| "BUCKET_TONE Reject = Danger"
| "BUCKET_TONE Defer = Neutral"
| "BUCKET_TONE Progress = Accent"
| "BUCKET_TONE Close = Danger"
| "BUCKET_TONE Retriage = Neutral"
| "BUCKET_TONE Reopen = Positive"
| "BUCKET_TONE Recategorize = Neutral"

definition bucketFor :: "phase \<Rightarrow> phase \<Rightarrow> bucket" where
  "bucketFor f t = (case f of
     Triage \<Rightarrow> (case t of Triage \<Rightarrow> Progress_triage | Active \<Rightarrow> Accept | Terminal \<Rightarrow> Reject)
   | Active \<Rightarrow> (case t of Triage \<Rightarrow> Defer | Active \<Rightarrow> Progress | Terminal \<Rightarrow> Close)
   | Terminal \<Rightarrow> (case t of Triage \<Rightarrow> Retriage | Active \<Rightarrow> Reopen | Terminal \<Rightarrow> Recategorize))"

definition bucketOf :: "transition_row \<Rightarrow> bucket" where
  "bucketOf t = bucketFor (fromPhase t) (toPhase t)"

section \<open>Order within a bucket, and the bucket map\<close>

definition compareTransitions :: "transition_row \<Rightarrow> transition_row \<Rightarrow> int" where
  "compareTransitions a b =
     then_cmp (cmp_of (sortOrder a) (sortOrder b))
       (then_cmp (cmp_of (tr_label a) (tr_label b)) (cmp_of (toCardId a) (toCardId b)))"

type_synonym bucket_map = "bucket \<Rightarrow> transition_row list"

definition emptyBucketMap :: bucket_map where
  "emptyBucketMap = (\<lambda>_. [])"

definition push_row :: "transition_row \<Rightarrow> bucket_map \<Rightarrow> bucket_map" where
  "push_row t m = m(bucketOf t := m (bucketOf t) @ [t])"

definition sort_bucket :: "bucket \<Rightarrow> bucket_map \<Rightarrow> bucket_map" where
  "sort_bucket b m = m(b := js_sort compareTransitions (m b))"

definition groupByBucket :: "transition_row list \<Rightarrow> bucket_map" where
  "groupByBucket transitions = fold sort_bucket ALL_BUCKETS (fold push_row transitions emptyBucketMap)"

definition hasAnyTransition :: "bucket_map \<Rightarrow> bool" where
  "hasAnyTransition m \<longleftrightarrow> list_ex (\<lambda>b. 0 < length (m b)) ALL_BUCKETS"

section \<open>The matrix\<close>

fun phases_of :: "bucket \<Rightarrow> phase \<times> phase" where
  "phases_of Progress_triage = (Triage, Triage)"
| "phases_of Accept = (Triage, Active)"
| "phases_of Reject = (Triage, Terminal)"
| "phases_of Defer = (Active, Triage)"
| "phases_of Progress = (Active, Active)"
| "phases_of Close = (Active, Terminal)"
| "phases_of Retriage = (Terminal, Triage)"
| "phases_of Reopen = (Terminal, Active)"
| "phases_of Recategorize = (Terminal, Terminal)"

lemma bucketFor_iff: "bucketFor f t = b \<longleftrightarrow> (f, t) = phases_of b"
  by (cases b; cases f; cases t) (simp_all add: bucketFor_def)

lemma all_buckets [simp]: "b \<in> set ALL_BUCKETS"
  by (cases b) (simp_all add: ALL_BUCKETS_def)

lemma distinct_buckets [simp]: "distinct ALL_BUCKETS"
  by (simp add: ALL_BUCKETS_def)

text \<open>The nine buckets are the nine pairs of phases: every bucket is listed once, no two pairs share a
  bucket, and every bucket is the bucket of a pair.\<close>

theorem buckets_are_phase_pairs:
  "distinct ALL_BUCKETS \<and> b \<in> set ALL_BUCKETS \<and>
   (bucketFor f t = bucketFor f' t' \<longleftrightarrow> f = f' \<and> t = t') \<and> (\<exists>p q. bucketFor p q = b)"
proof -
  have "bucketFor f t = bucketFor f' t' \<longleftrightarrow> f = f' \<and> t = t'"
    using bucketFor_iff [of f t "bucketFor f' t'"] bucketFor_iff [of f' t' "bucketFor f' t'"]
    by (metis prod.inject)
  moreover have "bucketFor (fst (phases_of b)) (snd (phases_of b)) = b" by (simp add: bucketFor_iff)
  ultimately show ?thesis by auto
qed

section \<open>The bucketing\<close>

lemma push_rows: "fold push_row ts m b = m b @ filter (\<lambda>t. bucketOf t = b) ts"
  by (induction ts arbitrary: m) (simp_all add: push_row_def)

lemma sort_buckets:
  "distinct bs \<Longrightarrow> fold sort_bucket bs m b = (if b \<in> set bs then js_sort compareTransitions (m b) else m b)"
  by (induction bs arbitrary: m) (auto simp: sort_bucket_def)

lemma groupByBucket_eq:
  "groupByBucket ts b = js_sort compareTransitions (filter (\<lambda>t. bucketOf t = b) ts)"
  by (simp add: groupByBucket_def sort_buckets push_rows emptyBucketMap_def)

interpretation by_transition: js_comparator compareTransitions
  unfolding compareTransitions_def by (intro js_comparator_then js_comparator_cmp_of)

lemma compareTransitions_tie:
  "compareTransitions a b = 0 \<longleftrightarrow> sortOrder a = sortOrder b \<and> tr_label a = tr_label b \<and> toCardId a = toCardId b"
  by (simp add: compareTransitions_def then_cmp_def)

text \<open>Each bucket shows exactly the rows of its pair of phases, by sort order, then label, then target
  card; the bar has something to show unless no row arrived.\<close>

theorem groupByBucket_exact:
  "mset (groupByBucket ts b) = mset (filter (\<lambda>t. bucketFor (fromPhase t) (toPhase t) = b) ts) \<and>
   sorted_wrt (\<lambda>x y. compareTransitions x y \<le> 0) (groupByBucket ts b) \<and>
   (hasAnyTransition (groupByBucket ts) \<longleftrightarrow> ts \<noteq> [])"
proof -
  have "hasAnyTransition (groupByBucket ts) \<longleftrightarrow> (\<exists>b. filter (\<lambda>t. bucketOf t = b) ts \<noteq> [])"
    by (auto simp: hasAnyTransition_def groupByBucket_eq list_ex_iff simp flip: length_greater_0_conv)
  also have "\<dots> \<longleftrightarrow> ts \<noteq> []" by (cases ts) auto
  finally show ?thesis
    using by_transition.ordered_sort by (simp add: groupByBucket_eq bucketOf_def by_transition.ordered_def)
qed

text \<open>The bar is deterministic: when rows that agree on sort order, label and target are the same row,
  the buckets do not depend on the order in which the server listed the rows.\<close>

theorem groupByBucket_order_free:
  assumes "mset ts = mset ts'"
    and "\<forall>a \<in> set ts. \<forall>b \<in> set ts. sortOrder a = sortOrder b \<and> tr_label a = tr_label b \<and> toCardId a = toCardId b \<longrightarrow> a = b"
  shows "groupByBucket ts = groupByBucket ts'"
proof
  fix b
  show "groupByBucket ts b = groupByBucket ts' b"
    unfolding groupByBucket_eq
    by (rule by_transition.sort_perm) (use assms in \<open>auto simp: compareTransitions_tie\<close>)
qed

definition wrow :: "int \<Rightarrow> rat \<Rightarrow> string \<Rightarrow> phase \<Rightarrow> transition_row" where
  "wrow i n l p = \<lparr>tr_id = i, flowId = 1, flowName = ''f'', attributeDefId = 2, attributeDefName = ''status'',
     fromCardId = 3, fromLabel = ''a'', fromPhase = Active, toCardId = i, toLabel = ''b'', toPhase = p,
     tr_label = l, requiresRoleId = 0, requiresRoleName = '''', sortOrder = n, standalone = True, allowed = True\<rparr>"

theorem groupByBucket_order_free_witness:
  "groupByBucket [wrow 1 5 ''b'' Terminal, wrow 2 5 ''a'' Terminal] Close = [wrow 2 5 ''a'' Terminal, wrow 1 5 ''b'' Terminal]"
proof -
  have "groupByBucket [wrow 1 5 ''b'' Terminal, wrow 2 5 ''a'' Terminal] =
      groupByBucket [wrow 2 5 ''a'' Terminal, wrow 1 5 ''b'' Terminal]"
    by (rule groupByBucket_order_free) (auto simp: wrow_def)
  moreover have "groupByBucket [wrow 2 5 ''a'' Terminal, wrow 1 5 ''b'' Terminal] Close =
      [wrow 2 5 ''a'' Terminal, wrow 1 5 ''b'' Terminal]"
    by code_simp
  ultimately show ?thesis by simp
qed

end
