(* ===== verification/Kanban.thy ===== *)
theory Kanban
  imports FilterPredicate JsSort
begin

text \<open>
  The card model and the board helpers of \<^verbatim>\<open>kanban/kanban-helpers.ts\<close>: bucket keys, columns, the
  sort order, and the plan of writes for one drop. Attribute names are never names inherited
  from \<open>Object.prototype\<close>; bucket keys come from data and may be, which \<open>bucketByKey\<close> shows.

  Main results: a drop, once written, sorts every card of the cell to the place it was dropped
  at, whatever their sort orders were, and writes nothing that did not change; every card is in
  exactly one bucket.
\<close>

section \<open>Cards\<close>

record card =
  card_id :: int
  card_type_id :: int
  card_type_name :: string
  parent_card_id :: "int option"
  card_phase :: "phase option"
  attributes :: "js props"
  personal_sort_order :: "rat option"
  approvals :: js
  watch :: js
  is_private :: bool
  created_at :: "string option"
  last_activity_at :: "string option"

definition UNSET_KEY :: string where
  "UNSET_KEY = ''__unset__''"

definition SORT_ORDER_STEP :: nat where
  "SORT_ORDER_STEP = 100"

section \<open>Keys and ids\<close>

definition bucketKeyOf :: "js \<Rightarrow> string" where
  "bucketKeyOf v = (case v of
     JNull \<Rightarrow> UNSET_KEY
   | JUndef \<Rightarrow> UNSET_KEY
   | JStr s \<Rightarrow> if s = '''' then UNSET_KEY else s
   | JBig i \<Rightarrow> int_text i
   | _ \<Rightarrow> js_text v)"

definition asAttrId :: "js \<Rightarrow> int option" where
  "asAttrId v = (case v of
     JBig i \<Rightarrow> if 0 < i then Some i else None
   | JNum (Fin x) \<Rightarrow> if is_int_rat x \<and> 0 < x then Some \<lfloor>x\<rfloor> else None
   | JStr s \<Rightarrow>
       if is_int_text s then (let n = int_of_text s in if 0 < n then Some n else None) else None
   | _ \<Rightarrow> None)"

section \<open>Buckets and columns\<close>

text \<open>
  The buckets are an object literal: for a key inherited from \<open>Object.prototype\<close>, \<open>out[k]\<close> is the
  inherited member, which has no \<open>push\<close>.
\<close>

fun bucket_loop :: "(card \<Rightarrow> string) \<Rightarrow> card list \<Rightarrow> card list props \<Rightarrow> card list props outcome" where
  "bucket_loop keyOf [] out = Return out"
| "bucket_loop keyOf (c # cs) out =
     (let k = keyOf c in
      case map_of out k of
        Some bucket \<Rightarrow> bucket_loop keyOf cs (obj_put k (bucket @ [c]) out)
      | None \<Rightarrow>
          if k \<in> set object_prototype_names then Throw ''bucket.push is not a function''
          else bucket_loop keyOf cs (obj_put k [c] out))"

definition bucketByKey :: "card list \<Rightarrow> (card \<Rightarrow> string) \<Rightarrow> card list props outcome" where
  "bucketByKey cards keyOf = bucket_loop keyOf cards []"

fun column_ids :: "int list \<Rightarrow> string list \<Rightarrow> string list" where
  "column_ids [] out = out"
| "column_ids (i # ids) out =
     (let k = int_text i in column_ids ids (if k \<in> set out then out else out @ [k]))"

fun column_keys :: "string list \<Rightarrow> string list \<Rightarrow> string list" where
  "column_keys [] out = out"
| "column_keys (k # ks) out =
     column_keys ks (if k = UNSET_KEY then out else if k \<in> set out then out else out @ [k])"

definition columnOrder :: "int list \<Rightarrow> string list \<Rightarrow> string list" where
  "columnOrder valueCardIds seenKeys =
     column_keys seenKeys (column_ids valueCardIds []) @ [UNSET_KEY]"

section \<open>Sort order\<close>

definition sortOrderOf :: "card \<Rightarrow> rat option" where
  "sortOrderOf c = (case prop_get (attributes c) ''sort_order'' of JNum (Fin x) \<Rightarrow> Some x | _ \<Rightarrow> None)"

record sort_update =
  upd_card :: int
  upd_order :: nat

fun sort_updates :: "nat \<Rightarrow> card list \<Rightarrow> sort_update list" where
  "sort_updates i [] = []"
| "sort_updates i (c # cs) =
     (let desired = (i + 1) * SORT_ORDER_STEP in
      if sortOrderOf c \<noteq> Some (of_nat desired)
      then \<lparr>upd_card = card_id c, upd_order = desired\<rparr> # sort_updates (Suc i) cs
      else sort_updates (Suc i) cs)"

definition drop_slot :: "int \<Rightarrow> nat \<Rightarrow> nat" where
  "drop_slot slot n =
     (let target = (if slot < 0 then 0 else slot) in if int n < target then n else nat target)"

definition final_order :: "card list \<Rightarrow> card \<Rightarrow> int \<Rightarrow> card list" where
  "final_order destStack movedCard slot =
     (let target = drop_slot slot (length destStack)
      in take target destStack @ [movedCard] @ drop target destStack)"

definition planSortRewrite :: "card list \<Rightarrow> card \<Rightarrow> int \<Rightarrow> sort_update list" where
  "planSortRewrite destStack movedCard slot = sort_updates 0 (final_order destStack movedCard slot)"

record update_op =
  op_card :: int
  op_attribute :: string
  op_value :: js

definition computeMoveBatch :: "card \<Rightarrow> int option \<Rightarrow> sort_update list \<Rightarrow> string \<Rightarrow> update_op list" where
  "computeMoveBatch c target sortUpdates columnAttrName =
     map (\<lambda>u. \<lparr>op_card = upd_card u, op_attribute = ''sort_order'', op_value = jint (int (upd_order u))\<rparr>) sortUpdates @
     (let currentColKey = bucketKeyOf (prop_get (attributes c) columnAttrName);
          targetColKey = (case target of None \<Rightarrow> UNSET_KEY | Some i \<Rightarrow> int_text i)
      in if currentColKey \<noteq> targetColKey
         then [\<lparr>op_card = card_id c, op_attribute = columnAttrName,
                op_value = (case target of None \<Rightarrow> JNull | Some i \<Rightarrow> JBig i)\<rparr>]
         else [])"

definition compareByOrder :: "card \<Rightarrow> card \<Rightarrow> int" where
  "compareByOrder a b = (case (sortOrderOf a, sortOrderOf b) of
     (Some x, Some y) \<Rightarrow> then_cmp (cmp_of x y) (cmp_of (card_id a) (card_id b))
   | (None, None) \<Rightarrow> cmp_of (card_id a) (card_id b)
   | (None, Some y) \<Rightarrow> 1
   | (Some x, None) \<Rightarrow> - 1)"

definition sortByOrder :: "card list \<Rightarrow> card list" where
  "sortByOrder cards = js_sort compareByOrder cards"

definition nextColumnIndex :: "int \<Rightarrow> int \<Rightarrow> int \<Rightarrow> int" where
  "nextColumnIndex currentIdx columnsLen dir =
     (if columnsLen \<le> 0 then 0
      else let next = currentIdx + dir in
        if next < 0 then 0 else if columnsLen - 1 < next then columnsLen - 1 else next)"

section \<open>Buckets are exact\<close>

lemma bucket_loop_group:
  "\<forall>c \<in> set cs. keyOf c \<notin> set object_prototype_names \<Longrightarrow>
   bucket_loop keyOf cs out = Return (group_into map_of obj_put keyOf cs out)"
  by (induction cs arbitrary: out) (auto simp: Let_def split: option.split)

lemma bucket_loop_throws:
  "\<forall>k \<in> set object_prototype_names. map_of out k = None \<Longrightarrow>
   \<exists>c \<in> set cs. keyOf c \<in> set object_prototype_names \<Longrightarrow>
   \<exists>e. bucket_loop keyOf cs out = Throw e"
proof (induction cs arbitrary: out)
  case (Cons c cs)
  show ?case
  proof (cases "keyOf c \<in> set object_prototype_names")
    case True
    then show ?thesis using Cons.prems by (simp add: Let_def)
  next
    case False
    then have "\<forall>k \<in> set object_prototype_names. map_of (obj_put (keyOf c) b out) k = None" for b
      using Cons.prems by auto
    moreover have "\<exists>c \<in> set cs. keyOf c \<in> set object_prototype_names"
      using Cons.prems False by auto
    ultimately show ?thesis using False Cons.IH by (simp add: Let_def split: option.split)
  qed
qed simp

text \<open>When no key is the name of an inherited object member, every card lands in the bucket of its
  key and only there, in the order of the input, and no bucket is empty; one such key and the
  whole bucketing throws.\<close>

theorem bucketByKey_exact:
  "(if \<exists>c \<in> set cards. keyOf c \<in> set object_prototype_names
    then \<exists>e. bucketByKey cards keyOf = Throw e
    else \<exists>out. bucketByKey cards keyOf = Return out \<and> distinct (map fst out) \<and>
      set (map fst out) = keyOf ` set cards \<and>
      (\<forall>k b. map_of out k = Some b \<longrightarrow> b = filter (\<lambda>c. keyOf c = k) cards \<and> b \<noteq> []))"
proof (cases "\<exists>c \<in> set cards. keyOf c \<in> set object_prototype_names")
  case True
  then show ?thesis using bucket_loop_throws [of "[]"] by (simp add: bucketByKey_def)
next
  case False
  then have "bucketByKey cards keyOf = Return (group_into map_of obj_put keyOf cards [])"
    by (simp add: bucketByKey_def bucket_loop_group)
  then show ?thesis
    using False obj_buckets.distinct_keys_group [of keyOf cards] obj_buckets.keys_group [of keyOf cards]
      obj_buckets.get_group [of keyOf cards]
    by (auto simp: Let_def split: if_splits)
qed

lemma column_ids_spec: "column_ids ids out = out @ dedup_acc out (map int_text ids)"
  by (induction ids arbitrary: out) (simp_all add: Let_def)

lemma column_keys_spec: "column_keys ks out = out @ dedup_acc out (filter (\<lambda>k. k \<noteq> UNSET_KEY) ks)"
  by (induction ks arbitrary: out) simp_all

section \<open>Columns\<close>

lemma int_text_not_unset: "int_text i \<noteq> UNSET_KEY"
proof
  assume "int_text i = UNSET_KEY"
  moreover have "\<not> is_int_text UNSET_KEY" by code_simp
  ultimately show False using is_int_text_int_text [of i] by simp
qed

text \<open>The columns are the ids of the value cards and then the keys seen on the cards, each once and in
  that order, with the column of unset cards last, always present and never repeated.\<close>

theorem columnOrder_dedup:
  "columnOrder ids keys = dedup (map int_text ids @ filter (\<lambda>k. k \<noteq> UNSET_KEY) keys) @ [UNSET_KEY] \<and>
   distinct (columnOrder ids keys)"
proof -
  have "column_keys keys (column_ids ids []) =
      dedup (map int_text ids @ filter (\<lambda>k. k \<noteq> UNSET_KEY) keys)" (is "?l = ?r")
    by (simp add: column_ids_spec column_keys_spec dedup_def dedup_acc_append)
  moreover have "UNSET_KEY \<notin> set ?r" by (auto simp: int_text_not_unset [symmetric])
  ultimately show ?thesis by (auto simp: columnOrder_def)
qed

section \<open>A drop, written and sorted\<close>

interpretation by_order: js_comparator compareByOrder
proof
  fix x y z
  show "compareByOrder x y < 0 \<longleftrightarrow> 0 < compareByOrder y x"
    by (auto simp: compareByOrder_def then_cmp_def split: option.split)
  show "compareByOrder x y \<le> 0 \<Longrightarrow> compareByOrder y z \<le> 0 \<Longrightarrow> compareByOrder x z \<le> 0"
    by (auto simp: compareByOrder_def then_cmp_def cmp_of_def split: option.splits if_splits)
qed

text \<open>The server's side of a write: the attribute of the card with that id takes the value.\<close>

definition write_order :: "sort_update list \<Rightarrow> card \<Rightarrow> card" where
  "write_order us c = (case map_of (map (\<lambda>u. (upd_card u, upd_order u)) us) (card_id c) of
     None \<Rightarrow> c
   | Some n \<Rightarrow> c\<lparr>attributes := obj_put ''sort_order'' (jint (int n)) (attributes c)\<rparr>)"

lemma sort_updates_cards: "upd_card ` set (sort_updates i cs) \<subseteq> card_id ` set cs"
  by (induction cs arbitrary: i) (auto simp: Let_def)

lemma sort_updates_changed:
  "u \<in> set (sort_updates i cs) \<Longrightarrow> \<exists>c \<in> set cs. card_id c = upd_card u \<and> sortOrderOf c \<noteq> Some (of_nat (upd_order u))"
  by (induction cs arbitrary: i) (auto simp: Let_def split: if_splits)

lemma sortOrderOf_written:
  "sortOrderOf (c\<lparr>attributes := obj_put ''sort_order'' (jint (int n)) a\<rparr>) = Some (of_nat n)"
  by (simp add: sortOrderOf_def jint_def)

lemma write_order_Cons:
  "write_order (u # us) c = (if upd_card u = card_id c
     then c\<lparr>attributes := obj_put ''sort_order'' (jint (int (upd_order u))) (attributes c)\<rparr>
     else write_order us c)"
  by (simp add: write_order_def)

lemma write_order_other: "card_id c \<notin> upd_card ` set us \<Longrightarrow> write_order us c = c"
  by (induction us) (simp add: write_order_def, simp add: write_order_Cons)

lemma card_id_write_order [simp]: "card_id (write_order us c) = card_id c"
  by (simp add: write_order_def split: option.split)

lemma written_orders:
  "distinct (map card_id cs) \<Longrightarrow> n < length cs \<Longrightarrow>
   sortOrderOf (write_order (sort_updates i cs) (cs ! n)) = Some (of_nat ((i + n + 1) * SORT_ORDER_STEP))"
proof (induction cs arbitrary: i n)
  case (Cons c cs)
  have other: "card_id c \<notin> upd_card ` set (sort_updates (Suc i) cs)"
    using Cons.prems(1) sort_updates_cards by fastforce
  show ?case
  proof (cases n)
    case 0
    show ?thesis
      using sortOrderOf_written [where c = c and a = "attributes c" and n = "Suc i * SORT_ORDER_STEP"]
      by (simp add: 0 Let_def write_order_Cons write_order_other [OF other])
  next
    case (Suc m)
    then have m: "m < length cs" "card_id c \<noteq> card_id (cs ! m)" using Cons.prems by auto
    show ?thesis
      using Cons.IH [of m "Suc i"] Cons.prems(1) m by (simp add: Suc Let_def write_order_Cons)
  qed
qed simp

lemma by_order_less:
  "sortOrderOf a = Some x \<Longrightarrow> sortOrderOf b = Some y \<Longrightarrow> x < y \<Longrightarrow> compareByOrder a b < 0"
  by (simp add: compareByOrder_def then_cmp_def cmp_of_def)

lemma final_order_ids:
  "map card_id (final_order ds m slot) =
     (let k = nat (max 0 (min slot (int (length ds)))) in take k (map card_id ds) @ [card_id m] @ drop k (map card_id ds))"
proof -
  have "drop_slot slot (length ds) = nat (max 0 (min slot (int (length ds))))"
    by (auto simp: drop_slot_def Let_def min_def max_def)
  then show ?thesis by (simp add: final_order_def Let_def take_map drop_map)
qed

lemma mset_final_order: "mset (final_order xs x k) = add_mset x (mset xs)"
proof -
  have "mset (take n xs) + mset (drop n xs) = mset xs" for n by (metis append_take_drop_id mset_append)
  then show ?thesis by (simp add: final_order_def Let_def)
qed

lemma sort_updates_once: "distinct (map card_id cs) \<Longrightarrow> distinct (map upd_card (sort_updates i cs))"
proof (induction cs arbitrary: i)
  case (Cons c cs)
  then show ?case using sort_updates_cards [of "Suc i" cs] by (auto simp: Let_def)
qed simp

text \<open>C4: A drop lands where it was dropped. The cards of a cell have different ids; whatever sort orders they had,
  missing ones included: after the writes of the plan for a drop at a slot, sorting the moved card and the cards of
  the stack, in whatever order they come, gives the stack with the moved card before the card that was at the slot;
  a slot below zero is the top and one beyond the stack the bottom. The sort orders then count 100, 200 and so
  on. No card is written twice, and every card written had another order before.\<close>

theorem drop_sorts_as_planned:
  assumes "distinct (map card_id (movedCard # destStack))"
    and "mset cell = mset (map (write_order (planSortRewrite destStack movedCard slot)) (movedCard # destStack))"
  shows "map card_id (sortByOrder cell) =
      (let k = nat (max 0 (min slot (int (length destStack))));
           ids = map card_id destStack
       in take k ids @ [card_id movedCard] @ drop k ids) \<and>
    map sortOrderOf (sortByOrder cell) = map (\<lambda>i. Some (of_nat ((i + 1) * 100))) [0 ..< Suc (length destStack)] \<and>
    distinct (map upd_card (planSortRewrite destStack movedCard slot)) \<and>
    (\<forall>u \<in> set (planSortRewrite destStack movedCard slot).
       \<exists>c \<in> set (movedCard # destStack). card_id c = upd_card u \<and>
         sortOrderOf c \<noteq> Some (of_nat (upd_order u)))"
proof -
  let ?f = "final_order destStack movedCard slot"
  let ?w = "write_order (planSortRewrite destStack movedCard slot)"
  have m: "mset ?f = mset (movedCard # destStack)" by (simp add: mset_final_order)
  have d: "distinct (map card_id ?f)"
    using assms(1) mset_eq_imp_distinct_iff [of "map card_id ?f" "map card_id (movedCard # destStack)"] m by (metis mset_map)
  have l: "length ?f = Suc (length destStack)" using m by (metis length_Cons size_mset)
  have ord: "i < length ?f \<Longrightarrow> sortOrderOf (?w (?f ! i)) = Some (of_nat ((i + 1) * SORT_ORDER_STEP))" for i
    using written_orders [OF d, of i 0] by (simp add: planSortRewrite_def)
  have "sorted_wrt (\<lambda>x y. compareByOrder x y < 0) (map ?w ?f)"
    unfolding sorted_wrt_iff_nth_less
    using ord by (auto intro!: by_order_less simp: SORT_ORDER_STEP_def)
  moreover have "mset cell = mset (map ?w ?f)" using assms(2) m by (simp only: mset_map)
  ultimately have s: "sortByOrder cell = map ?w ?f" by (simp add: sortByOrder_def by_order.sort_strict)
  have "map sortOrderOf (map ?w ?f) = map (\<lambda>i. Some (of_nat ((i + 1) * 100))) [0 ..< Suc (length destStack)]"
    using ord by (intro nth_equalityI) (simp_all add: l SORT_ORDER_STEP_def del: upt_Suc)
  moreover have "map card_id (sortByOrder cell) = map card_id ?f" by (simp add: s comp_def)
  moreover have "set ?f = set (movedCard # destStack)" using m by (metis set_mset_mset)
  ultimately show ?thesis
    using sort_updates_changed [of _ 0 ?f] sort_updates_once [OF d, of 0]
    unfolding s planSortRewrite_def final_order_ids Let_def by (intro conjI ballI) blast+
qed

text \<open>The server's side of \<open>attribute.update\<close>; null removes, which reads as null here.\<close>

definition apply_op :: "update_op \<Rightarrow> card \<Rightarrow> card" where
  "apply_op p c = (if op_card p = card_id c
     then c\<lparr>attributes := obj_put (op_attribute p) (op_value p) (attributes c)\<rparr> else c)"

lemma apply_orders_attr:
  "a \<noteq> ''sort_order'' \<Longrightarrow>
   prop_get (attributes (fold apply_op (map (\<lambda>u. \<lparr>op_card = upd_card u, op_attribute = ''sort_order'', op_value = f u\<rparr>) us) c)) a =
   prop_get (attributes c) a"
  by (induction us arbitrary: c) (simp_all add: apply_op_def)

lemma card_id_apply [simp]: "card_id (fold apply_op ps c) = card_id c"
  by (induction ps arbitrary: c) (simp_all add: apply_op_def)

text \<open>The three wire forms of one id key to the same bucket.\<close>

lemma bucketKeyOf_forms:
  "bucketKeyOf (JBig i) = int_text i" "bucketKeyOf (jint i) = int_text i"
  "bucketKeyOf (JStr (int_text i)) = int_text i"
proof -
  have "int_text i \<noteq> ''''" by (simp add: int_text_def)
  then show "bucketKeyOf (JStr (int_text i)) = int_text i" by (simp add: bucketKeyOf_def)
qed (simp_all add: bucketKeyOf_def, simp add: jint_def num_text_def)

lemma bucketKeyOf_unset: "bucketKeyOf JNull = UNSET_KEY" "bucketKeyOf JUndef = UNSET_KEY"
  by (simp_all add: bucketKeyOf_def)

lemma apply_op_own:
  "card_id c' = i \<Longrightarrow> prop_get (attributes (apply_op \<lparr>op_card = i, op_attribute = a, op_value = v\<rparr> c')) a = v"
  by (simp add: apply_op_def)

text \<open>The batch of one drop moves the card to the target column and only when it is not there already:
  after its writes the card is in the bucket of the target, and the batch is empty exactly when no
  sort order changed and the card was in that bucket.\<close>

theorem move_batch_reaches_column:
  assumes "columnAttr \<noteq> ''sort_order''"
  shows "(let ops = computeMoveBatch c target us columnAttr;
              key = (case target of None \<Rightarrow> UNSET_KEY | Some i \<Rightarrow> int_text i)
    in bucketKeyOf (prop_get (attributes (fold apply_op ops c)) columnAttr) = key \<and>
       (ops = [] \<longleftrightarrow> us = [] \<and> bucketKeyOf (prop_get (attributes c) columnAttr) = key))"
  using assms
  by (auto simp: computeMoveBatch_def Let_def apply_orders_attr apply_op_own bucketKeyOf_forms bucketKeyOf_unset split: option.split)

text \<open>The cursor stays on the board.\<close>

lemma nextColumnIndex_bounds:
  "0 \<le> nextColumnIndex i n d" "0 < n \<Longrightarrow> nextColumnIndex i n d < n"
  by (auto simp: nextColumnIndex_def Let_def)

lemma nextColumnIndex_inside: "0 \<le> i + d \<Longrightarrow> i + d < n \<Longrightarrow> nextColumnIndex i n d = i + d"
  by (auto simp: nextColumnIndex_def Let_def)

lemma asAttrId_positive: "asAttrId v = Some i \<Longrightarrow> 0 < i"
proof -
  have "is_int_rat x \<Longrightarrow> 0 < x \<Longrightarrow> 0 < \<lfloor>x\<rfloor>" for x
    by (metis is_int_rat_def of_int_0_less_iff)
  then show "asAttrId v = Some i \<Longrightarrow> 0 < i"
    by (auto simp: asAttrId_def Let_def split: js.splits jnum.splits if_splits)
qed

lemma asAttrId_forms:
  assumes "0 < i"
  shows "asAttrId (JBig i) = Some i" "asAttrId (jint i) = Some i" "asAttrId (JStr (int_text i)) = Some i"
  using assms by (simp_all add: asAttrId_def jint_def Let_def)

section \<open>Witnesses\<close>

definition wcard :: "int \<Rightarrow> js props \<Rightarrow> card" where
  "wcard i attrs = \<lparr>card_id = i, card_type_id = 1, card_type_name = ''task'', parent_card_id = None,
     card_phase = None, attributes = attrs, personal_sort_order = None, approvals = JUndef, watch = JUndef,
     is_private = False, created_at = None, last_activity_at = None\<rparr>"

theorem bucketByKey_exact_witness:
  "bucketByKey [wcard 1 [(''m'', JBig 7)], wcard 2 [], wcard 3 [(''m'', JStr ''7'')]] (\<lambda>c. bucketKeyOf (prop_get (attributes c) ''m'')) =
     Return [(''7'', [wcard 1 [(''m'', JBig 7)], wcard 3 [(''m'', JStr ''7'')]]), (UNSET_KEY, [wcard 2 []])] \<and>
   (\<exists>e. bucketByKey [wcard 1 [(''m'', JStr ''constructor'')]] (\<lambda>c. bucketKeyOf (prop_get (attributes c) ''m'')) = Throw e)"
  (is "?a \<and> ?b")
proof
  show ?a by code_simp
  have "bucketKeyOf (prop_get (attributes (wcard 1 [(''m'', JStr ''constructor'')])) ''m'') \<in> set object_prototype_names"
    by code_simp
  then show ?b
    using bucketByKey_exact [of "[wcard 1 [(''m'', JStr ''constructor'')]]" "\<lambda>c. bucketKeyOf (prop_get (attributes c) ''m'')"]
    by auto
qed

theorem drop_sorts_as_planned_witness:
  "map card_id (sortByOrder [wcard 3 [(''sort_order'', jint 300)], wcard 2 [(''sort_order'', jint 100)], wcard 1 [(''sort_order'', jint 200)]]) = [2, 1, 3] \<and>
   planSortRewrite [wcard 2 [], wcard 3 [(''sort_order'', jint 300)]] (wcard 1 [(''sort_order'', jint 200)]) 1 = [\<lparr>upd_card = 2, upd_order = 100\<rparr>]"
proof -
  have p: "planSortRewrite [wcard 2 [], wcard 3 [(''sort_order'', jint 300)]] (wcard 1 [(''sort_order'', jint 200)]) 1 = [\<lparr>upd_card = 2, upd_order = 100\<rparr>]"
    by code_simp
  have w: "map (write_order [\<lparr>upd_card = 2, upd_order = 100\<rparr>]) [wcard 1 [(''sort_order'', jint 200)], wcard 2 [], wcard 3 [(''sort_order'', jint 300)]] =
      [wcard 1 [(''sort_order'', jint 200)], wcard 2 [(''sort_order'', jint 100)], wcard 3 [(''sort_order'', jint 300)]]"
    by code_simp
  have "distinct (map card_id [wcard 1 [(''sort_order'', jint 200)], wcard 2 [], wcard 3 [(''sort_order'', jint 300)]])"
    by code_simp
  note t = drop_sorts_as_planned [OF this, of "[wcard 3 [(''sort_order'', jint 300)], wcard 2 [(''sort_order'', jint 100)], wcard 1 [(''sort_order'', jint 200)]]" 1,
      unfolded p w, THEN conjunct1]
  have "map card_id (sortByOrder [wcard 3 [(''sort_order'', jint 300)], wcard 2 [(''sort_order'', jint 100)], wcard 1 [(''sort_order'', jint 200)]]) = [2, 1, 3]"
    by (subst t) (simp_all add: wcard_def)
  with p show ?thesis by simp
qed

theorem move_batch_reaches_column_witness:
  "bucketKeyOf (prop_get (attributes (fold apply_op (computeMoveBatch (wcard 1 [(''m'', JBig 7)]) None [] ''m'') (wcard 1 [(''m'', JBig 7)]))) ''m'') = UNSET_KEY"
  using move_batch_reaches_column [of "''m''" "wcard 1 [(''m'', JBig 7)]" None "[]"] by (simp add: Let_def)

end
