(* ===== verification/JsNumber.thy ===== *)
theory JsNumber
  imports JsValue
begin

text \<open>
  \<open>Number(s)\<close> on a string: white space around it, an optional sign, decimal literals with
  fraction and exponent, \<open>Infinity\<close>, the radix prefixes, the empty string as zero, and NaN for
  everything else. The value is exact (the double nearest to it is not taken).
\<close>

definition radix_digit :: "nat \<Rightarrow> char \<Rightarrow> nat option" where
  "radix_digit b c =
     (let d = (if is_digit c then digit_val c
               else if is_lower c then of_char c - 87
               else if is_upper c then of_char c - 55 else b)
      in if d < b then Some d else None)"

fun radix_val :: "nat \<Rightarrow> nat \<Rightarrow> string \<Rightarrow> nat option" where
  "radix_val b n [] = Some n"
| "radix_val b n (c # cs) = (case radix_digit b c of None \<Rightarrow> None | Some d \<Rightarrow> radix_val b (b * n + d) cs)"

definition js_exponent :: "string \<Rightarrow> int option" where
  "js_exponent s = (case s of
     [] \<Rightarrow> Some 0
   | c # cs \<Rightarrow>
       if c = CHR ''e'' \<or> c = CHR ''E''
       then (let ds = (case cs of d # ds \<Rightarrow> if d = CHR ''+'' then ds else cs | [] \<Rightarrow> cs)
             in if is_int_text ds \<and> (cs = ds \<or> hd ds \<noteq> CHR ''-'') then Some (int_of_text ds) else None)
       else None)"

definition js_unsigned :: "string \<Rightarrow> jnum" where
  "js_unsigned s =
     (if s = ''Infinity'' then PosInf
      else let ip = takeWhile is_digit s; r = dropWhile is_digit s;
        (fp, r') = (case r of
           c # cs \<Rightarrow> if c = CHR ''.'' then (takeWhile is_digit cs, dropWhile is_digit cs) else ('''', r)
         | [] \<Rightarrow> ('''', r))
      in if ip = '''' \<and> fp = '''' then NaN
         else (case js_exponent r' of
           None \<Rightarrow> NaN
         | Some e \<Rightarrow> Fin (of_nat (digits_val (ip @ fp)) * 10 powi (e - int (length fp)))))"

definition neg_num :: "jnum \<Rightarrow> jnum" where
  "neg_num n = (case n of Fin r \<Rightarrow> Fin (- r) | PosInf \<Rightarrow> NegInf | NegInf \<Rightarrow> PosInf | NaN \<Rightarrow> NaN)"

definition radix_number :: "nat \<Rightarrow> string \<Rightarrow> jnum" where
  "radix_number b s = (if s = '''' then NaN else case radix_val b 0 s of None \<Rightarrow> NaN | Some n \<Rightarrow> Fin (of_nat n))"

definition js_number :: "string \<Rightarrow> jnum" where
  "js_number s = (let t = js_trim s in
     if t = '''' then Fin 0
     else if take 2 t = ''0x'' \<or> take 2 t = ''0X'' then radix_number 16 (drop 2 t)
     else if take 2 t = ''0o'' \<or> take 2 t = ''0O'' then radix_number 8 (drop 2 t)
     else if take 2 t = ''0b'' \<or> take 2 t = ''0B'' then radix_number 2 (drop 2 t)
     else if hd t = CHR ''-'' then neg_num (js_unsigned (tl t))
     else if hd t = CHR ''+'' then js_unsigned (tl t)
     else js_unsigned t)"

lemma js_number_samples:
  "js_number '' 12.50 '' = Fin (25 / 2)" "js_number ''-3e2'' = Fin (- 300)" "js_number ''1e-1'' = Fin (1 / 10)"
  "js_number ''0x1F'' = Fin 31" "js_number ''.5'' = Fin (1 / 2)" "js_number ''7.'' = Fin 7"
  "js_number ''1x'' = NaN" "js_number ''.'' = NaN" "js_number '''' = Fin 0" "js_number ''1e'' = NaN"
  by code_simp+

lemma dropWhile_hd: "xs \<noteq> [] \<Longrightarrow> \<not> P (hd xs) \<Longrightarrow> dropWhile P xs = xs"
  by (cases xs) auto

lemma digit_not_space: "is_digit c \<Longrightarrow> \<not> is_space c"
  by (auto simp: is_digit_iff is_space_def)

lemma digits_trim: "list_all is_digit s \<Longrightarrow> js_trim s = s"
proof (cases "s = []")
  case False
  moreover assume "list_all is_digit s"
  ultimately have "\<not> is_space (hd s)" "\<not> is_space (hd (rev s))"
    by (auto simp: list_all_iff hd_rev intro!: digit_not_space)
  with False show ?thesis by (simp add: js_trim_def dropWhile_hd)
qed simp

text \<open>On the decimal text of a number it is that number.\<close>

lemma js_number_digits:
  assumes d: "list_all is_digit s" and ne: "s \<noteq> []"
  shows "js_number s = Fin (of_nat (digits_val s))"
proof -
  have t: "takeWhile is_digit s = s" "dropWhile is_digit s = []"
    using d by (auto simp: list_all_iff takeWhile_eq_all_conv dropWhile_eq_Nil_conv)
  have n: "s ! 1 \<in> set s" if "1 < length s" using that by simp
  have "\<not> is_digit CHR ''x''" "\<not> is_digit CHR ''X''" "\<not> is_digit CHR ''o''" "\<not> is_digit CHR ''O''"
    "\<not> is_digit CHR ''b''" "\<not> is_digit CHR ''B''" "\<not> is_digit CHR ''+''" "\<not> is_digit CHR ''-''" "\<not> is_digit CHR ''I''"
    by code_simp+
  then have "\<forall>c. take 2 s \<noteq> [CHR ''0'', c] \<or> is_digit c" "hd s \<noteq> CHR ''-''" "hd s \<noteq> CHR ''+''" "s \<noteq> ''Infinity''"
    using d ne by (cases s; cases "tl s"; auto)+
  moreover from this have "take 2 s \<noteq> ''0x''" "take 2 s \<noteq> ''0X''" "take 2 s \<noteq> ''0o''" "take 2 s \<noteq> ''0O''"
    "take 2 s \<noteq> ''0b''" "take 2 s \<noteq> ''0B''"
    by (metis \<open>\<not> is_digit CHR ''x''\<close> \<open>\<not> is_digit CHR ''X''\<close> \<open>\<not> is_digit CHR ''o''\<close> \<open>\<not> is_digit CHR ''O''\<close>
        \<open>\<not> is_digit CHR ''b''\<close> \<open>\<not> is_digit CHR ''B''\<close>)+
  ultimately show ?thesis
    using ne by (simp add: js_number_def digits_trim [OF d] Let_def js_unsigned_def t js_exponent_def)
qed

end
