(* ===== verification/DefaultStatus.thy ===== *)
theory DefaultStatus
  imports Kanban JsNumber
begin

text \<open>
  The status a new task starts in, \<^verbatim>\<open>quick-entry/default-status.ts\<close>: the chain of the sub-task
  rule, the screen's and the flow's defaults, and the first status of a phase by sort order. A
  missing sort order is infinity in the source, \<open>None\<close> here.

  Main results: the first status of a phase is the least one by sort order and id among those
  with a finite sort order; the chain fails exactly when no link of it yields a status.
\<close>

section \<open>Inputs and results\<close>

record flow_row =
  flow_id :: int
  default_create_status_id :: "int option"

record create_opts =
  screenCard :: "card option"
  flow :: "flow_row option"
  candidateStatuses :: "card list"
  basePhase :: "phase option"
  subtask :: bool

datatype create_status = StatusCardId int | FlowNoDefault string

section \<open>The first status of a phase\<close>

definition readSortOrder :: "card \<Rightarrow> rat option" where
  "readSortOrder c = (case prop_get (attributes c) ''sort_order'' of
     JNum (Fin x) \<Rightarrow> Some x
   | JStr s \<Rightarrow> (case js_number s of Fin x \<Rightarrow> Some x | _ \<Rightarrow> None)
   | _ \<Rightarrow> None)"

text \<open>\<open><\<close> on numbers of which \<open>None\<close> is positive infinity.\<close>

definition below :: "rat option \<Rightarrow> rat option \<Rightarrow> bool" where
  "below a b = (case (a, b) of (None, _) \<Rightarrow> False | (Some x, None) \<Rightarrow> True | (Some x, Some y) \<Rightarrow> x < y)"

fun first_loop :: "phase \<Rightarrow> card list \<Rightarrow> card option \<Rightarrow> rat option \<Rightarrow> card option" where
  "first_loop p [] best bestSort = best"
| "first_loop p (c # cs) best bestSort =
     (if card_phase c \<noteq> Some p then first_loop p cs best bestSort
      else let s = readSortOrder c in
        if below s bestSort then first_loop p cs (Some c) s
        else (case best of
          Some b \<Rightarrow> if s = bestSort \<and> card_id c < card_id b then first_loop p cs (Some c) bestSort
                   else first_loop p cs best bestSort
        | None \<Rightarrow> first_loop p cs best bestSort))"

definition firstByPhase :: "card list \<Rightarrow> phase \<Rightarrow> card option" where
  "firstByPhase candidates p = first_loop p candidates None None"

section \<open>The chain\<close>

text \<open>\<open>BigInt(v)\<close> throws on a number that is not an integer.\<close>

definition toId :: "js \<Rightarrow> int option outcome" where
  "toId v = (case v of
     JBig i \<Rightarrow> Return (if i = 0 then None else Some i)
   | JNum (Fin x) \<Rightarrow>
       if x = 0 then Return None
       else if is_int_rat x then Return (Some \<lfloor>x\<rfloor>)
       else Throw ''The number cannot be converted to a BigInt because it is not an integer''
   | JStr s \<Rightarrow>
       Return (if is_int_text s then (let n = int_of_text s in if n = 0 then None else Some n) else None)
   | _ \<Rightarrow> Return None)"

definition readScreenDefaultStatus :: "card option \<Rightarrow> int option outcome" where
  "readScreenDefaultStatus screen = (case screen of
     None \<Rightarrow> Return None
   | Some c \<Rightarrow> toId (prop_get (attributes c) ''default_create_status''))"

definition no_default_message :: string where
  "no_default_message = ''This project has no valid starting status. Add one in Admin -> Statuses.''"

definition flow_default :: "flow_row option \<Rightarrow> int option" where
  "flow_default f = (case f of
     None \<Rightarrow> None
   | Some r \<Rightarrow> (case default_create_status_id r of None \<Rightarrow> None | Some i \<Rightarrow> if i \<noteq> 0 then Some i else None))"

definition phase_chain :: "create_opts \<Rightarrow> create_status" where
  "phase_chain opts =
     (case (case basePhase opts of None \<Rightarrow> None | Some p \<Rightarrow> firstByPhase (candidateStatuses opts) p) of
        Some c \<Rightarrow> StatusCardId (card_id c)
      | None \<Rightarrow> (case firstByPhase (candidateStatuses opts) Triage of
          Some c \<Rightarrow> StatusCardId (card_id c)
        | None \<Rightarrow> (case firstByPhase (candidateStatuses opts) Active of
            Some c \<Rightarrow> StatusCardId (card_id c)
          | None \<Rightarrow> FlowNoDefault no_default_message)))"

definition resolveDefaultCreateStatus :: "create_opts \<Rightarrow> create_status outcome" where
  "resolveDefaultCreateStatus opts =
     (case (if subtask opts then firstByPhase (candidateStatuses opts) Active else None) of
        Some c \<Rightarrow> Return (StatusCardId (card_id c))
      | None \<Rightarrow> obind (readScreenDefaultStatus (screenCard opts)) (\<lambda>screenDefault.
          case screenDefault of
            Some i \<Rightarrow> Return (StatusCardId i)
          | None \<Rightarrow> (case flow_default (flow opts) of
              Some i \<Rightarrow> Return (StatusCardId i)
            | None \<Rightarrow> Return (phase_chain opts))))"

section \<open>The least status\<close>

definition eligible :: "phase \<Rightarrow> card list \<Rightarrow> card list" where
  "eligible p cs = filter (\<lambda>c. card_phase c = Some p \<and> readSortOrder c \<noteq> None) cs"

definition status_le :: "card \<Rightarrow> card \<Rightarrow> bool" where
  "status_le b c \<longleftrightarrow> (\<exists>x y. readSortOrder b = Some x \<and> readSortOrder c = Some y \<and>
     (x < y \<or> x = y \<and> card_id b \<le> card_id c))"

lemma status_le_trans: "status_le a b \<Longrightarrow> status_le b c \<Longrightarrow> status_le a c"
  by (fastforce simp: status_le_def)

lemma first_loop_some:
  "readSortOrder b = Some x \<Longrightarrow>
   \<exists>c. first_loop p cs (Some b) (Some x) = Some c \<and> (c = b \<or> c \<in> set (eligible p cs)) \<and> status_le c b \<and>
     (\<forall>d \<in> set (eligible p cs). status_le c d)"
proof (induction cs arbitrary: b x)
  case Nil
  then show ?case by (simp add: eligible_def status_le_def)
next
  case (Cons a cs)
  have elig: "eligible p (a # cs) = (if card_phase a = Some p \<and> readSortOrder a \<noteq> None then a # eligible p cs else eligible p cs)"
    by (simp add: eligible_def)
  show ?case
  proof (cases "card_phase a = Some p \<and> readSortOrder a \<noteq> None")
    case False
    then have "first_loop p (a # cs) (Some b) (Some x) = first_loop p cs (Some b) (Some x)"
      by (auto simp: below_def Let_def)
    moreover have "eligible p (a # cs) = eligible p cs" using False by (auto simp: elig)
    ultimately show ?thesis using Cons.IH [OF Cons.prems] by (simp only:)
  next
    case True
    then obtain y where y: "readSortOrder a = Some y" by auto
    show ?thesis
    proof (cases "y < x \<or> y = x \<and> card_id a < card_id b")
      case better: True
      then have "first_loop p (a # cs) (Some b) (Some x) = first_loop p cs (Some a) (Some y)"
        using True y by (auto simp: below_def Let_def)
      moreover have "status_le a b" using better y Cons.prems by (auto simp: status_le_def)
      ultimately show ?thesis using Cons.IH [OF y] True by (auto simp: elig intro: status_le_trans)
    next
      case worse: False
      then have "first_loop p (a # cs) (Some b) (Some x) = first_loop p cs (Some b) (Some x)"
        using True y by (auto simp: below_def Let_def)
      moreover have "status_le b a" using worse y Cons.prems by (auto simp: status_le_def)
      ultimately show ?thesis using Cons.IH [OF Cons.prems] True by (auto simp: elig intro: status_le_trans)
    qed
  qed
qed

lemma firstByPhase_cases:
  "(case firstByPhase cs p of None \<Rightarrow> eligible p cs = []
    | Some c \<Rightarrow> c \<in> set (eligible p cs) \<and> (\<forall>d \<in> set (eligible p cs). status_le c d))"
  unfolding firstByPhase_def
proof (induction cs)
  case (Cons a cs)
  show ?case
  proof (cases "card_phase a = Some p \<and> readSortOrder a \<noteq> None")
    case False
    then have "first_loop p (a # cs) None None = first_loop p cs None None" "eligible p (a # cs) = eligible p cs"
      by (auto simp: eligible_def below_def Let_def)
    then show ?thesis using Cons by (simp only:)
  next
    case True
    then obtain y where y: "readSortOrder a = Some y" by auto
    then have "first_loop p (a # cs) None None = first_loop p cs (Some a) (Some y)"
      and "eligible p (a # cs) = a # eligible p cs"
      using True by (auto simp: eligible_def below_def Let_def)
    moreover obtain c where "first_loop p cs (Some a) (Some y) = Some c" "c = a \<or> c \<in> set (eligible p cs)"
      "status_le c a" "\<forall>d \<in> set (eligible p cs). status_le c d"
      using first_loop_some [OF y, of p cs] by auto
    ultimately show ?thesis by auto
  qed
qed (simp add: eligible_def)

lemma firstByPhase_None: "firstByPhase cs p = None \<longleftrightarrow> eligible p cs = []"
  using firstByPhase_cases [of p cs] by (auto split: option.splits)

text \<open>The first status of a phase is a status of that phase with a finite sort order that no other one
  precedes by sort order and then id, and there is one whenever some status of the phase has a
  finite sort order; statuses without one are never chosen.\<close>

theorem firstByPhase_least:
  "(firstByPhase cs p = None \<longleftrightarrow> (\<forall>c \<in> set cs. card_phase c \<noteq> Some p \<or> readSortOrder c = None)) \<and>
   (\<forall>b. firstByPhase cs p = Some b \<longrightarrow> b \<in> set cs \<and> card_phase b = Some p \<and>
     (\<forall>c \<in> set cs. card_phase c = Some p \<longrightarrow> readSortOrder c \<noteq> None \<longrightarrow> status_le b c))"
  using firstByPhase_cases [of p cs]
  by (auto simp: firstByPhase_None eligible_def filter_empty_conv)

section \<open>The chain\<close>

text \<open>Creating a task fails for want of a status exactly when neither the screen nor the flow names one
  and no status of the triage phase, the active phase or the screen's base phase has a finite sort
  order; a sub-task starts in an active status whenever there is one, whatever the screen says.\<close>

theorem no_default_iff:
  "(resolveDefaultCreateStatus opts = Return (FlowNoDefault no_default_message) \<longleftrightarrow>
    readScreenDefaultStatus (screenCard opts) = Return None \<and> flow_default (flow opts) = None \<and>
    (\<forall>p \<in> insert Triage (insert Active (set_option (basePhase opts))). eligible p (candidateStatuses opts) = [])) \<and>
   (subtask opts \<and> eligible Active (candidateStatuses opts) \<noteq> [] \<longrightarrow>
    (\<exists>c \<in> set (eligible Active (candidateStatuses opts)).
       resolveDefaultCreateStatus opts = Return (StatusCardId (card_id c))))"
proof -
  have chain: "phase_chain opts = FlowNoDefault no_default_message \<longleftrightarrow>
      (\<forall>p \<in> insert Triage (insert Active (set_option (basePhase opts))). eligible p (candidateStatuses opts) = [])"
    by (auto simp: phase_chain_def split: option.splits simp flip: firstByPhase_None)
  have some: "firstByPhase (candidateStatuses opts) Active = Some c \<Longrightarrow> c \<in> set (eligible Active (candidateStatuses opts))" for c
    using firstByPhase_cases [of Active "candidateStatuses opts"] by simp
  have "resolveDefaultCreateStatus opts = Return (FlowNoDefault no_default_message) \<longleftrightarrow>
      (subtask opts \<longrightarrow> eligible Active (candidateStatuses opts) = []) \<and>
      readScreenDefaultStatus (screenCard opts) = Return None \<and> flow_default (flow opts) = None \<and>
      phase_chain opts = FlowNoDefault no_default_message"
    by (cases "readScreenDefaultStatus (screenCard opts)")
      (auto simp: resolveDefaultCreateStatus_def split: option.split simp flip: firstByPhase_None)
  moreover have "subtask opts \<and> eligible Active (candidateStatuses opts) \<noteq> [] \<longrightarrow>
    (\<exists>c \<in> set (eligible Active (candidateStatuses opts)).
       resolveDefaultCreateStatus opts = Return (StatusCardId (card_id c)))"
    using some by (auto simp: resolveDefaultCreateStatus_def split: option.split simp flip: firstByPhase_None)
  ultimately show ?thesis unfolding chain by auto
qed

text \<open>A fractional id in the screen card is not refused but throws.\<close>

lemma fractional_default_throws: "\<exists>e. toId (JNum (Fin (1 / 2))) = Throw e"
proof -
  have "\<not> is_int_rat (1 / 2)" by code_simp
  then show ?thesis by (simp add: toId_def)
qed

section \<open>Witnesses\<close>

definition wstatus :: "int \<Rightarrow> phase \<Rightarrow> js props \<Rightarrow> card" where
  "wstatus i p attrs = (wcard i attrs)\<lparr>card_phase := Some p\<rparr>"

theorem firstByPhase_least_witness:
  "firstByPhase [wstatus 4 Active [(''sort_order'', JStr ''20'')], wstatus 3 Active [(''sort_order'', jint 20)], wstatus 1 Active []] Active =
     Some (wstatus 3 Active [(''sort_order'', jint 20)]) \<and>
   firstByPhase [wstatus 1 Active []] Active = None"
proof
  show "firstByPhase [wstatus 4 Active [(''sort_order'', JStr ''20'')], wstatus 3 Active [(''sort_order'', jint 20)], wstatus 1 Active []] Active =
     Some (wstatus 3 Active [(''sort_order'', jint 20)])" by code_simp
  have "readSortOrder (wstatus 1 Active []) = None" by code_simp
  then show "firstByPhase [wstatus 1 Active []] Active = None"
    using firstByPhase_least [of "[wstatus 1 Active []]" Active] by simp
qed

theorem no_default_iff_witness:
  "resolveDefaultCreateStatus \<lparr>screenCard = None, flow = None,
     candidateStatuses = [wstatus 1 Active []], basePhase = Some Terminal, subtask = True\<rparr> =
   Return (FlowNoDefault no_default_message)"
proof -
  have "eligible p [wstatus 1 Active []] = []" for p
    by (simp add: eligible_def readSortOrder_def wstatus_def wcard_def)
  then show ?thesis
    using no_default_iff [of "\<lparr>screenCard = None, flow = None,
     candidateStatuses = [wstatus 1 Active []], basePhase = Some Terminal, subtask = True\<rparr>"]
    by (simp add: readScreenDefaultStatus_def flow_default_def)
qed

end
