(* ===== verification/Auth.thy ===== *)
theory Auth
  imports JsValue
begin

text \<open>
  The signed-in identity, from \<^verbatim>\<open>auth/auth-state.ts\<close>: decoding the body of the identity probe and what
  the boot service does with each answer. The tree leaf the identity lands in is the state
  here, \<open>None\<close> before anything is written to it. The fetch itself is the event \<open>Me_result\<close> or
  \<open>Me_error\<close>.
\<close>

record auth_user =
  userId :: "int option"
  displayName :: string
  roles :: "string list"
  isAdmin :: bool
  isAgent :: bool
  parentUserId :: "int option"
  personCardId :: "int option"

definition parseId :: "js \<Rightarrow> int option" where
  "parseId v = (case v of
     JBig i \<Rightarrow> if 0 < i then Some i else None
   | JNum (Fin x) \<Rightarrow> if is_int_rat x then (if 0 < x then Some \<lfloor>x\<rfloor> else None) else None
   | JStr s \<Rightarrow>
       if is_int_text s then (let n = int_of_text s in if 0 < n then Some n else None) else None
   | _ \<Rightarrow> None)"

text \<open>The body read as an object: the members of one that is not an object are undefined.\<close>

definition me_wire :: "js \<Rightarrow> js props" where
  "me_wire body = (case body of JObj ps \<Rightarrow> ps | _ \<Rightarrow> [])"

definition js_string_or :: "js \<Rightarrow> string" where
  "js_string_or v = (case v of JStr s \<Rightarrow> s | _ \<Rightarrow> '''')"

definition authUserFromWire :: "js \<Rightarrow> auth_user" where
  "authUserFromWire body = (let j = me_wire body in
     \<lparr>userId = parseId (prop_get j ''user_id''),
      displayName = js_string_or (prop_get j ''display_name''),
      roles = (case prop_get j ''roles'' of
        JArr rs \<Rightarrow> List.map_filter (\<lambda>r. case r of JStr s \<Rightarrow> Some s | _ \<Rightarrow> None) rs
      | _ \<Rightarrow> []),
      isAdmin = (prop_get j ''is_admin'' = JBool True),
      isAgent = (prop_get j ''is_agent'' = JBool True),
      parentUserId = parseId (prop_get j ''parent_user_id''),
      personCardId = parseId (prop_get j ''person_card_id'')\<rparr>)"

definition unresolvedUser :: auth_user where
  "unresolvedUser = \<lparr>userId = None, displayName = '''', roles = [], isAdmin = False, isAgent = False,
     parentUserId = None, personCardId = None\<rparr>"

section \<open>The boot service\<close>

datatype me_event = Me_result int js | Me_error string

datatype me_callback = OnUnauthorized | OnAuthed

definition seed_user :: "auth_user option \<Rightarrow> auth_user option" where
  "seed_user leaf = (case leaf of None \<Rightarrow> Some unresolvedUser | Some u \<Rightarrow> Some u)"

definition on_me :: "me_event \<Rightarrow> auth_user option \<Rightarrow> auth_user option \<times> me_callback option" where
  "on_me ev leaf = (case ev of
     Me_error e \<Rightarrow> (leaf, None)
   | Me_result status body \<Rightarrow>
       if status = 401 \<or> status = 403 then (leaf, Some OnUnauthorized)
       else if 200 \<le> status \<and> status < 300 \<and> prop_get (me_wire body) ''authenticated'' = JBool True
         then (Some (authUserFromWire (JObj (me_wire body))), Some OnAuthed)
       else if prop_get (me_wire body) ''authenticated'' = JBool False then (leaf, Some OnUnauthorized)
       else (leaf, None))"

definition loadAuthUser :: "me_event \<Rightarrow> auth_user option \<Rightarrow> auth_user option \<times> me_callback option" where
  "loadAuthUser ev leaf = on_me ev (seed_user leaf)"

section \<open>Reads\<close>

definition peekAuthUser :: "auth_user option \<Rightarrow> auth_user" where
  "peekAuthUser leaf = (case leaf of None \<Rightarrow> unresolvedUser | Some u \<Rightarrow> u)"

definition peekIsAdmin :: "auth_user option \<Rightarrow> bool" where
  "peekIsAdmin leaf \<longleftrightarrow> isAdmin (peekAuthUser leaf)"

definition peekHasRole :: "auth_user option \<Rightarrow> string \<Rightarrow> bool" where
  "peekHasRole leaf r \<longleftrightarrow> r \<in> set (roles (peekAuthUser leaf))"

definition peekCurrentUserId :: "auth_user option \<Rightarrow> int option" where
  "peekCurrentUserId leaf = userId (peekAuthUser leaf)"

definition peekCurrentPersonId :: "auth_user option \<Rightarrow> int option" where
  "peekCurrentPersonId leaf = personCardId (peekAuthUser leaf)"

section \<open>What the probe can grant\<close>

lemma parseId_positive: "parseId v = Some i \<Longrightarrow> 0 < i"
proof -
  have "is_int_rat x \<Longrightarrow> 0 < x \<Longrightarrow> 0 < \<lfloor>x\<rfloor>" for x by (metis is_int_rat_def of_int_0_less_iff)
  then show "parseId v = Some i \<Longrightarrow> 0 < i"
    by (auto simp: parseId_def Let_def split: js.splits jnum.splits if_splits)
qed

lemma string_members:
  "r \<in> set (List.map_filter (\<lambda>r. case r of JStr s \<Rightarrow> Some s | _ \<Rightarrow> None) rs) \<longleftrightarrow> JStr r \<in> set rs"
proof (induction rs)
  case (Cons v rs)
  then show ?case by (cases v) (simp_all add: map_filter_simps)
qed (simp add: map_filter_simps)

lemma roles_wire:
  "r \<in> set (roles (authUserFromWire (JObj ps))) \<longleftrightarrow> (\<exists>rs. prop_get ps ''roles'' = JArr rs \<and> JStr r \<in> set rs)"
  by (cases "prop_get ps ''roles''") (simp_all add: authUserFromWire_def me_wire_def string_members)

lemma user_wire:
  "isAdmin (authUserFromWire (JObj ps)) = (prop_get ps ''is_admin'' = JBool True)"
  "userId (authUserFromWire (JObj ps)) = parseId (prop_get ps ''user_id'')"
  by (simp_all add: authUserFromWire_def me_wire_def Let_def)

text \<open>Nothing but a successful answer that says it is authenticated grants anything: after the boot
  probe the user is an admin, holds a role or has an id only if it was so before, or the answer
  had a 2xx status, said it was authenticated, and said so itself; every other answer leaves the
  identity as it was, and only an unauthenticated one sends the page to sign in.\<close>

theorem probe_grants_only_what_it_says:
  "(let (leaf', cb) = loadAuthUser ev leaf in
    (leaf' = seed_user leaf \<and> cb \<noteq> Some OnAuthed) \<or>
    (\<exists>status ps. ev = Me_result status (JObj ps) \<and> 200 \<le> status \<and> status < 300 \<and>
       prop_get ps ''authenticated'' = JBool True \<and> cb = Some OnAuthed \<and>
       peekIsAdmin leaf' = (prop_get ps ''is_admin'' = JBool True) \<and>
       (\<forall>r. peekHasRole leaf' r \<longleftrightarrow> (\<exists>rs. prop_get ps ''roles'' = JArr rs \<and> JStr r \<in> set rs)) \<and>
       peekCurrentUserId leaf' = parseId (prop_get ps ''user_id'')))"
proof (cases ev)
  case (Me_result status body)
  show ?thesis
  proof (cases "200 \<le> status \<and> status < 300 \<and> prop_get (me_wire body) ''authenticated'' = JBool True")
    case False
    then show ?thesis by (auto simp: Me_result loadAuthUser_def on_me_def)
  next
    case True
    then obtain ps where ps: "body = JObj ps" by (cases body) (auto simp: me_wire_def)
    then show ?thesis
      using True by (simp add: Me_result loadAuthUser_def on_me_def me_wire_def user_wire roles_wire
          peekIsAdmin_def peekHasRole_def peekAuthUser_def peekCurrentUserId_def)
  qed
qed (simp add: loadAuthUser_def on_me_def)

end
