(* ===== verification/RouterSpec.thy ===== *)
theory RouterSpec
  imports Router
begin

text \<open>
  What the router guarantees: the round trip of the URL builders through the matcher, and two
  invariants of every run of the router in the browser, given as the inductive set
  \<open>running\<close> of the states that installing, navigating, going back or forward and the answer of
  the identity probe can reach.
\<close>

section \<open>Splitting paths\<close>

lemma js_split_hd_plain: "d \<notin> set s \<Longrightarrow> hd (js_split d s) = s"
  by (simp add: js_split_plain)

definition plain_segment :: "string \<Rightarrow> bool" where
  "plain_segment s \<longleftrightarrow> s \<noteq> '''' \<and> (\<forall>c \<in> set s. c \<notin> set ''/?#%'')"

lemma plain_segmentD:
  "plain_segment s \<Longrightarrow> s \<noteq> []" "plain_segment s \<Longrightarrow> CHR ''/'' \<notin> set s" "plain_segment s \<Longrightarrow> CHR ''?'' \<notin> set s"
  "plain_segment s \<Longrightarrow> CHR ''#'' \<notin> set s" "plain_segment s \<Longrightarrow> CHR ''%'' \<notin> set s"
  by (auto simp: plain_segment_def)

lemma plain_int_text: "plain_segment (int_text i)"
proof -
  have "c = CHR ''-'' \<or> is_digit c" if "c \<in> set (int_text i)" for c
    using that nat_text_digits by (auto simp: int_text_def list_all_iff split: if_splits)
  moreover have "CHR ''-'' \<notin> set ''/?#%''" by simp
  moreover have "\<forall>c \<in> set ''/?#%''. \<not> is_digit c" by code_simp
  ultimately have "\<forall>c \<in> set (int_text i). c \<notin> set ''/?#%''" by blast
  then show ?thesis by (simp add: plain_segment_def int_text_def)
qed

lemma segments_slash: "segments (CHR ''/'' # s) = segments s"
  by (simp add: segments_def)

lemma segments_step: "w \<noteq> [] \<Longrightarrow> CHR ''/'' \<notin> set w \<Longrightarrow> segments (w @ CHR ''/'' # s) = w # segments s"
  by (simp add: segments_def js_split_append)

lemma segments_last: "w \<noteq> [] \<Longrightarrow> CHR ''/'' \<notin> set w \<Longrightarrow> segments w = [w]"
  by (simp add: segments_def js_split_plain)

lemma normal_path_plain:
  "CHR ''?'' \<notin> set p \<Longrightarrow> CHR ''#'' \<notin> set p \<Longrightarrow> p \<noteq> [] \<Longrightarrow> length p = 1 \<or> last p \<noteq> CHR ''/'' \<Longrightarrow> normal_path p = p"
  by (auto simp: normal_path_def js_split_hd_plain Let_def)

lemma route_segments [simp]:
  "segments ''/'' = []" "segments ''/projects'' = [''projects'']" "segments ''/project/:id'' = [''project'', '':id'']"
  "segments ''/project/:id/screen/:slug'' = [''project'', '':id'', ''screen'', '':slug'']"
  "segments ''/task/:id'' = [''task'', '':id'']" "segments ''/page/:id'' = [''page'', '':id'']"
  "segments ''/thread/:id'' = [''thread'', '':id'']" "segments ''/site/:id'' = [''site'', '':id'']"
  "segments ''/activity'' = [''activity'']" "segments ''/account'' = [''account'']"
  "segments ''/watch-lists'' = [''watch-lists'']" "segments ''/my/:id'' = [''my'', '':id'']"
  "segments ''/my-screens'' = [''my-screens'']" "segments ''/agents'' = [''agents'']"
  "segments ''/admin/:key'' = [''admin'', '':key'']"
  by code_simp+

lemma rp_simps [simp]: "pattern (rp p n g) = p" "pat_name (rp p n g) = n" "pat_guard (rp p n g) = g"
  by (simp_all add: rp_def)

lemma param_keys [simp]:
  "obj_put ''id'' v [] = [(''id'', v)]" "obj_put ''key'' v [] = [(''key'', v)]"
  "obj_put ''slug'' w [(''id'', v)] = [(''id'', v), (''slug'', w)]"
proof -
  have "\<not> is_index_key ''slug''" by code_simp
  then show "obj_put ''slug'' w [(''id'', v)] = [(''id'', v), (''slug'', w)]"
    by (simp add: obj_put_def index_before_def)
qed (simp_all add: obj_put_def)

section \<open>Round trip\<close>

text \<open>Every URL the client builds is matched back to the route it was built for, with the very
  parameters it was built from, as long as these have no slash, question mark, hash or percent
  sign (the decimal text of an id never does).\<close>

theorem urls_match_back:
  assumes "plain_segment i" and "plain_segment slug"
  shows "matchRoute (projectUrl i) = Return \<lparr>rname = RProject, params = [(''id'', i)], path = projectUrl i\<rparr> \<and>
    matchRoute (screenUrl i slug) = Return \<lparr>rname = RScreen, params = [(''id'', i), (''slug'', slug)], path = screenUrl i slug\<rparr> \<and>
    matchRoute (cardUrl i r) = Return \<lparr>rname = (case r of CTask \<Rightarrow> RTask | CPage \<Rightarrow> RPage | CThread \<Rightarrow> RThread),
      params = [(''id'', i)], path = cardUrl i r\<rparr> \<and>
    matchRoute (siteRouteUrl i) = Return \<lparr>rname = RSite, params = [(''id'', i)], path = siteRouteUrl i\<rparr> \<and>
    matchRoute (adminUrl slug) = Return \<lparr>rname = RAdmin, params = [(''key'', slug)], path = adminUrl slug\<rparr> \<and>
    matchRoute activityUrl = Return \<lparr>rname = RActivity, params = [], path = activityUrl\<rparr>"
proof -
  note i = plain_segmentD [OF assms(1)] and s = plain_segmentD [OF assms(2)]
  have n: "normal_path (projectUrl i) = projectUrl i" "normal_path (screenUrl i slug) = screenUrl i slug"
    "normal_path (cardUrl i r) = cardUrl i r" "normal_path (siteRouteUrl i) = siteRouteUrl i"
    "normal_path (adminUrl slug) = adminUrl slug" "normal_path activityUrl = activityUrl"
    by (rule normal_path_plain; use i s in \<open>auto simp: projectUrl_def screenUrl_def cardUrl_def taskUrl_def
      pageUrl_def threadUrl_def siteRouteUrl_def adminUrl_def activityUrl_def split: card_route.splits dest: last_in_set\<close>)+
  have g: "segments (projectUrl i) = [''project'', i]" "segments (screenUrl i slug) = [''project'', i, ''screen'', slug]"
    "segments (cardUrl i r) = [case r of CTask \<Rightarrow> ''task'' | CPage \<Rightarrow> ''page'' | CThread \<Rightarrow> ''thread'', i]"
    "segments (siteRouteUrl i) = [''site'', i]" "segments (adminUrl slug) = [''admin'', slug]"
    "segments activityUrl = [''activity'']"
    using segments_step [of "''project''" i] segments_step [of "''project''" "i @ ''/screen/'' @ slug"]
      segments_step [of i "''screen/'' @ slug"] segments_step [of "''screen''" slug]
      segments_step [of "''task''" i] segments_step [of "''page''" i] segments_step [of "''thread''" i]
      segments_step [of "''site''" i] segments_step [of "''admin''" slug] i s
    by (auto simp: projectUrl_def screenUrl_def cardUrl_def taskUrl_def pageUrl_def threadUrl_def siteRouteUrl_def
        adminUrl_def activityUrl_def segments_slash segments_last split: card_route.split)
  show ?thesis
    by (simp add: matchRoute_def n ROUTES_def matchPattern_def g i s Let_def split: card_route.split)
qed

theorem urls_match_back_witness:
  "matchRoute (screenUrl (int_text 42) ''grid'') =
     Return \<lparr>rname = RScreen, params = [(''id'', int_text 42), (''slug'', ''grid'')], path = screenUrl (int_text 42) ''grid''\<rparr>"
proof -
  have "plain_segment ''grid''" by code_simp
  with plain_int_text urls_match_back show ?thesis by blast
qed

text \<open>A slug with a slash is another path, and a malformed escape throws.\<close>

lemma slug_needs_encoding:
  "matchRoute (screenUrl ''1'' ''a/b'') = Return \<lparr>rname = RNotfound, params = [], path = ''/project/1/screen/a/b''\<rparr>"
  "matchRoute ''/task/%zz'' = Throw malformed"
  "matchRoute ''/task/a%20b?x'' = Return \<lparr>rname = RTask, params = [(''id'', ''a b'')], path = ''/task/a%20b''\<rparr>"
  by code_simp+

section \<open>Matching and guards\<close>

lemma match_routes_path: "match_routes rs p = Return m \<Longrightarrow> path m = p"
  by (induction rs) (auto simp: obind_Return split: option.splits)

lemma match_routes_pattern:
  "match_routes rs p = Return m \<Longrightarrow> rname m \<noteq> RNotfound \<Longrightarrow>
   \<exists>r \<in> set rs. pat_name r = rname m \<and> matchPattern (pattern r) p = Return (Some (params m))"
  by (induction rs) (auto simp: obind_Return split: option.splits)

lemma match_find:
  "match_routes rs p = Return m \<Longrightarrow> \<exists>r. find_pattern rs m = Return r"
proof (induction rs)
  case (Cons r rs)
  have "path m = p" using Cons.prems by (rule match_routes_path)
  from Cons.prems obtain ps where ps: "matchPattern (pattern r) p = Return ps"
    by (auto simp: obind_Return)
  show ?case
  proof (cases ps)
    case None
    then have "match_routes rs p = Return m" using Cons.prems ps by simp
    then show ?thesis using Cons.IH ps None \<open>path m = p\<close> by simp
  next
    case (Some qs)
    then have "rname m = pat_name r" using Cons.prems ps by (auto simp: obind_Return)
    then show ?thesis using ps Some \<open>path m = p\<close> by simp
  qed
qed simp

lemma matchRoute_same: "normal_path p = normal_path q \<Longrightarrow> matchRoute p = matchRoute q"
  by (simp add: matchRoute_def)

text \<open>The guard of a route the matcher produced never fails.\<close>

lemma guard_total: "matchRoute p = Return m \<Longrightarrow> \<exists>g. routeGuard s m = Return g"
proof -
  assume "matchRoute p = Return m"
  then obtain r where "routePatternFor m = Return r"
    using match_find [of ROUTES "normal_path p" m]
    by (cases "rname m = RNotfound") (auto simp: matchRoute_def routePatternFor_def)
  then show ?thesis by (auto simp: routeGuard_def split: option.split guard.split)
qed

lemma find_pattern_name: "find_pattern rs m = Return (Some r) \<Longrightarrow> r \<in> set rs \<and> pat_name r = rname m"
  by (induction rs) (auto simp: obind_Return split: if_splits)

lemma admin_patterns: "r \<in> set ROUTES \<Longrightarrow> pat_guard r = RequireAdmin \<longleftrightarrow> pat_name r = RAdmin"
  by (auto simp: ROUTES_def)

lemma find_pattern_some:
  "find_pattern rs m = Return None \<Longrightarrow> r \<in> set rs \<Longrightarrow> pat_name r = rname m \<Longrightarrow>
   matchPattern (pattern r) (path m) = Return None"
  by (induction rs) (auto simp: obind_Return split: if_splits)

lemma admin_route_pattern:
  assumes "matchRoute p = Return m" and "rname m = RAdmin" and "routePatternFor m = Return r"
  shows "\<exists>q. r = Some q \<and> pat_guard q = RequireAdmin"
proof -
  obtain q where q: "q \<in> set ROUTES" "pat_name q = rname m" "matchPattern (pattern q) (path m) = Return (Some (params m))"
    using match_routes_pattern [of ROUTES "normal_path p" m] match_routes_path [of ROUTES "normal_path p" m] assms
    by (auto simp: matchRoute_def)
  show ?thesis
  proof (cases r)
    case None
    then show ?thesis
      using find_pattern_some [of ROUTES m q] q assms(2,3) by (simp add: routePatternFor_def)
  next
    case (Some r')
    then show ?thesis
      using find_pattern_name [of ROUTES m r'] admin_patterns assms(2,3) by (simp add: routePatternFor_def)
  qed
qed

text \<open>Who may see an admin route.\<close>

definition permitted :: "router \<Rightarrow> route_match \<Rightarrow> bool" where
  "permitted s m \<longleftrightarrow> (case user s of
     None \<Rightarrow> True
   | Some u \<Rightarrow> userId u = None \<or> isAdmin u \<or>
       (\<exists>k. map_of (params m) ''key'' = Some k \<and> k \<in> set (managerAdminKeys s) \<and> ''manager'' \<in> set (roles u)))"

lemma permitted_route [simp]: "permitted (s\<lparr>route := r\<rparr>) m = permitted s m"
  by (cases "user s") (simp_all add: permitted_def)

lemma permitted_pos [simp]: "permitted (s\<lparr>pos := i\<rparr>) m = permitted s m"
  by (cases "user s") (simp_all add: permitted_def)

lemma guard_admits:
  assumes "matchRoute p = Return m" and "rname m = RAdmin" and "routeGuard s m = Return None" and "bound s"
  shows "permitted s m"
proof -
  obtain r where r: "routePatternFor m = Return r" using assms(3) by (auto simp: routeGuard_def obind_Return)
  then obtain q where "r = Some q" "pat_guard q = RequireAdmin" using admin_route_pattern assms(1,2) by blast
  then show ?thesis
    using r assms(3,4)
    by (auto simp: routeGuard_def admin_guard_def permitted_def peekIsAdmin_def peekHasRole_def peekAuthUser_def
        split: option.splits if_splits)
qed

lemma guard_redirects: "routeGuard s m = Return (Some to) \<Longrightarrow> to = ''/projects''"
proof -
  assume "routeGuard s m = Return (Some to)"
  then obtain q :: "route_pattern option" where "(case q of None \<Rightarrow> Return None
      | Some q \<Rightarrow> (case pat_guard q of RequireAuth \<Rightarrow> Return None | RequireAdmin \<Rightarrow> Return (admin_guard s m))) = Return (Some to)"
    unfolding routeGuard_def obind_Return by blast
  then have "admin_guard s m = Some to"
    by (cases q; cases "pat_guard (the q)") auto
  then show "to = ''/projects''" by (auto simp: admin_guard_def split: option.splits if_splits)
qed

lemma match_projects: "matchRoute ''/projects'' = Return \<lparr>rname = RProjects, params = [], path = ''/projects''\<rparr>"
  by code_simp

section \<open>Landing\<close>

definition on_url :: "router \<Rightarrow> bool" where
  "on_url s \<longleftrightarrow> bound s \<and> pos s < length (entries s) \<and>
     (\<exists>m. route s = Some m \<and> matchRoute (currentPathname s) = Return m)"

definition guarded :: "router \<Rightarrow> bool" where
  "guarded s \<longleftrightarrow> (\<forall>m. route s = Some m \<and> rname m = RAdmin \<longrightarrow> permitted s m)"

text \<open>What the browser does with a rooted path: it stays the same path.\<close>

definition rooted :: "(string \<Rightarrow> string \<Rightarrow> string) \<Rightarrow> string \<Rightarrow> bool" where
  "rooted resolve p \<longleftrightarrow> (\<forall>cur. normal_path (resolve cur p) = normal_path p)"

lemma landRoute_result:
  assumes r: "rooted resolve ''/projects''" and b: "bound s" and p: "pos s < length (entries s)"
    and m: "matchRoute (currentPathname s) = Return m"
  shows "\<exists>s'. landRoute resolve m s = Return s' \<and> on_url s' \<and> guarded s' \<and> user s' = user s \<and>
    managerAdminKeys s' = managerAdminKeys s"
proof -
  obtain g where g: "routeGuard s m = Return g" using guard_total m by blast
  show ?thesis
  proof (cases g)
    case None
    have "permitted (s\<lparr>route := Some m\<rparr>) m" if "rname m = RAdmin"
      using guard_admits [OF m that _ b] g None by simp
    then have "guarded (s\<lparr>route := Some m\<rparr>)" by (simp add: guarded_def)
    then show ?thesis using b p m g None by (simp add: landRoute_def on_url_def currentPathname_def)
  next
    case (Some to)
    then have to: "to = ''/projects''" using guard_redirects g by blast
    let ?t = "\<lparr>rname = RProjects, params = [], path = ''/projects''\<rparr>"
    let ?s = "(replaceState (resolve (currentPathname s) to) s)\<lparr>route := Some ?t\<rparr>"
    have "landRoute resolve m s = Return ?s"
      using b g Some match_projects to by (simp add: landRoute_def Let_def)
    moreover have "matchRoute (currentPathname ?s) = Return ?t"
      using r p match_projects matchRoute_same [of "resolve (currentPathname s) to" "''/projects''"] to
      by (simp add: rooted_def replaceState_def currentPathname_def)
    ultimately show ?thesis
      using b p by (simp add: on_url_def guarded_def replaceState_def)
  qed
qed

section \<open>Running\<close>

definition fresh_router :: "string list \<Rightarrow> nat \<Rightarrow> auth_user option \<Rightarrow> router" where
  "fresh_router es i u = \<lparr>bound = False, managerAdminKeys = [], route = None, user = u, entries = es, pos = i\<rparr>"

text \<open>
  A run: the client boots on an address it can decode, and then navigates, moves through the history and
  learns who the user is. A move to an entry whose address has a malformed escape throws in the
  \<open>popstate\<close> listener: the browser is on the entry, the router is as it was. A navigation that throws changes nothing.
\<close>

inductive running :: "(string \<Rightarrow> string \<Rightarrow> string) \<Rightarrow> bool \<Rightarrow> router \<Rightarrow> bool" for resolve probe where
  boot: "i < length es \<Longrightarrow> installRouter resolve keys (fresh_router es i u) = Return s \<Longrightarrow> running resolve probe s"
| nav: "running resolve probe s \<Longrightarrow> rooted resolve p \<Longrightarrow> navigate resolve p replace s = Return s' \<Longrightarrow>
    running resolve probe s'"
| back_forward: "running resolve probe s \<Longrightarrow> i < length (entries s) \<Longrightarrow> popstate resolve i s = Return s' \<Longrightarrow>
    running resolve probe s'"
| back_forward_throws: "running resolve probe s \<Longrightarrow> i < length (entries s) \<Longrightarrow> popstate resolve i s = Throw e \<Longrightarrow>
    running resolve probe (s\<lparr>pos := i\<rparr>)"
| identity: "running resolve probe s \<Longrightarrow> probe \<Longrightarrow> running resolve probe (s\<lparr>user := fst (on_me ev (user s))\<rparr>)"

text \<open>The route is the one the address names, when the address can be decoded.\<close>

definition follows_url :: "router \<Rightarrow> bool" where
  "follows_url s \<longleftrightarrow> bound s \<and> pos s < length (entries s) \<and>
     (\<forall>m. matchRoute (currentPathname s) = Return m \<longrightarrow> route s = Some m)"

lemma on_url_follows: "on_url s \<Longrightarrow> follows_url s"
  by (auto simp: on_url_def follows_url_def)

lemma install_lands:
  assumes r: "rooted resolve ''/projects''" and i: "i < length es"
    and s: "installRouter resolve keys (fresh_router es i u) = Return s"
  shows "on_url s \<and> guarded s"
proof -
  let ?s = "replaceState (es ! i) ((fresh_router es i u)\<lparr>bound := True, managerAdminKeys := keys\<rparr>)"
  from s obtain m where m: "matchRoute (es ! i) = Return m" "landRoute resolve m ?s = Return s"
    by (auto simp: installRouter_def obind_Return Let_def fresh_router_def currentPathname_def)
  then show ?thesis
    using landRoute_result [OF r, of ?s m] i
    by (simp add: fresh_router_def replaceState_def currentPathname_def)
qed

text \<open>Where a navigation that is not a repetition goes.\<close>

lemma navigate_moves:
  assumes r: "rooted resolve ''/projects''" and q: "rooted resolve p" and u: "follows_url s" and m: "matchRoute p = Return m"
  shows "\<exists>s'. landRoute resolve m (if replace then replaceState (resolve (currentPathname s) p) s
        else pushState (resolve (currentPathname s) p) s) = Return s' \<and>
    on_url s' \<and> guarded s' \<and> user s' = user s \<and> managerAdminKeys s' = managerAdminKeys s"
proof -
  let ?url = "resolve (currentPathname s) p"
  let ?s = "if replace then replaceState ?url s else pushState ?url s"
  have "normal_path ?url = normal_path p" using q by (simp add: rooted_def)
  then have "matchRoute ?url = Return m" using m matchRoute_same by metis
  then have "matchRoute (currentPathname ?s) = Return m" "bound ?s" "pos ?s < length (entries ?s)"
    "user ?s = user s" "managerAdminKeys ?s = managerAdminKeys s"
    using u by (auto simp: replaceState_def pushState_def currentPathname_def nth_append follows_url_def)
  then show ?thesis using landRoute_result [OF r, of ?s m] by auto
qed

lemma navigate_lands:
  assumes "rooted resolve ''/projects''" "rooted resolve p" "follows_url s" "navigate resolve p replace s = Return s'"
  shows "s' = s \<or> on_url s' \<and> guarded s' \<and> user s' = user s \<and> managerAdminKeys s' = managerAdminKeys s"
proof -
  obtain m where m: "matchRoute p = Return m" using assms(4) by (auto simp: navigate_def obind_Return)
  show ?thesis
    using navigate_moves [OF assms(1,2,3) m, of replace] assms(4) m
    by (auto simp: navigate_def obind_Return Let_def split: if_splits)
qed

text \<open>A navigation returns unless it has to compare an address that cannot be decoded.\<close>

lemma navigate_returns:
  assumes "rooted resolve ''/projects''" "rooted resolve p" "follows_url s" "matchRoute p = Return m"
    and "(\<exists>c. matchRoute (currentPathname s) = Return c) \<or> (\<forall>c. route s = Some c \<longrightarrow> \<not> sameRoute c m)"
  shows "\<exists>s'. navigate resolve p replace s = Return s'"
proof -
  obtain s' where "landRoute resolve m (if replace then replaceState (resolve (currentPathname s) p) s
      else pushState (resolve (currentPathname s) p) s) = Return s'"
    using navigate_moves [OF assms(1-4), of replace] by blast
  then show ?thesis
    using assms(4,5) by (auto simp: navigate_def samePath_def Let_def split: option.split)
qed

lemma popstate_lands:
  assumes r: "rooted resolve ''/projects''" and i: "i < length (entries s)" and u: "follows_url s"
    and s': "popstate resolve i s = Return s'"
  shows "on_url s' \<and> guarded s'"
proof -
  from s' obtain m where m: "matchRoute (currentPathname (s\<lparr>pos := i\<rparr>)) = Return m" "landRoute resolve m (s\<lparr>pos := i\<rparr>) = Return s'"
    by (auto simp: popstate_def obind_Return Let_def)
  then show ?thesis using landRoute_result [OF r, of "s\<lparr>pos := i\<rparr>" m] i u by (simp add: follows_url_def)
qed

lemma popstate_throws:
  assumes "rooted resolve ''/projects''" "i < length (entries s)" "follows_url s" "popstate resolve i s = Throw e"
  shows "follows_url (s\<lparr>pos := i\<rparr>)"
proof -
  have "matchRoute (currentPathname (s\<lparr>pos := i\<rparr>)) \<noteq> Return m" for m
  proof
    assume m: "matchRoute (currentPathname (s\<lparr>pos := i\<rparr>)) = Return m"
    then obtain s' where "landRoute resolve m (s\<lparr>pos := i\<rparr>) = Return s'"
      using landRoute_result [OF assms(1), of "s\<lparr>pos := i\<rparr>" m] assms(2,3) by (auto simp: follows_url_def)
    with m assms(4) show False by (simp add: popstate_def Let_def)
  qed
  then show ?thesis using assms(2,3) by (simp add: follows_url_def)
qed

lemma running_follows_url:
  "running resolve probe s \<Longrightarrow> rooted resolve ''/projects'' \<Longrightarrow> follows_url s"
proof (induction rule: running.induct)
  case (boot i es keys u s)
  then show ?case using install_lands on_url_follows by blast
next
  case (nav s p replace s')
  then show ?case using navigate_lands on_url_follows by blast
next
  case (back_forward s i s')
  then show ?case using popstate_lands on_url_follows by blast
next
  case (back_forward_throws s i e)
  then show ?case using popstate_throws by blast
next
  case (identity s ev)
  then show ?case by (simp add: follows_url_def currentPathname_def)
qed

text \<open>C2: In every state a run of the router can reach, by opening the client on an address it can decode and
  then navigating to rooted paths, going back or forward, also to an address with a malformed escape (which throws), and
  learning who the user is, in any order: whenever the address bar's path can be decoded, the route on screen is the
  route it names. A navigation to a rooted path that decodes returns, unless the address bar's cannot be decoded and
  the path has the name and parameters of the route still on screen.\<close>

theorem route_follows_url:
  assumes "running resolve probe s" and "rooted resolve ''/projects''"
  shows "(\<forall>m. matchRoute (currentPathname s) = Return m \<longrightarrow> route s = Some m) \<and>
    (\<forall>p m. rooted resolve p \<longrightarrow> matchRoute p = Return m \<longrightarrow>
       (\<exists>c. matchRoute (currentPathname s) = Return c) \<or> (\<forall>c. route s = Some c \<longrightarrow> \<not> sameRoute c m) \<longrightarrow>
       (\<exists>s'. navigate resolve p replace s = Return s'))"
proof -
  have u: "follows_url s" using running_follows_url assms .
  then show ?thesis using navigate_returns [OF assms(2) _ u] unfolding follows_url_def by blast
qed

text \<open>C3: While the identity does not change, no sequence of operations shows an admin page to a user the
  guard refuses: the user is not known yet, or is an admin, or is a manager and the page is one a
  manager may see.\<close>

theorem admin_pages_are_guarded:
  assumes "running resolve False s" and "rooted resolve ''/projects''"
    and "route s = Some m" and "rname m = RAdmin" and "user s = Some u" and "userId u \<noteq> None"
  shows "isAdmin u \<or> ''manager'' \<in> set (roles u) \<and>
    (\<exists>k. map_of (params m) ''key'' = Some k \<and> k \<in> set (managerAdminKeys s))"
proof -
  from assms(1) have "guarded s"
  proof (induction rule: running.induct)
    case (nav s p replace s')
    then show ?case using running_follows_url navigate_lands assms(2) by blast
  next
    case (back_forward s i s')
    then show ?case using popstate_lands running_follows_url assms(2) by blast
  next
    case (back_forward_throws s i e)
    then show ?case by (simp add: guarded_def)
  next
    case (boot i es keys u s)
    then show ?case using install_lands assms(2) by blast
  next
    case (identity s ev)
    then show ?case by simp
  qed
  then show ?thesis using assms(3-6) by (auto simp: guarded_def permitted_def)
qed

text \<open>
  The identity that arrives after an admin page is on screen does not take the page away; the
  next landing does.
\<close>

lemma late_identity_keeps_page:
  "guarded s \<Longrightarrow> route s = Some m \<Longrightarrow> route (s\<lparr>user := fst (on_me ev (user s))\<rparr>) = Some m"
  by simp

section \<open>Witnesses\<close>

definition keep_path :: "string \<Rightarrow> string \<Rightarrow> string" where
  "keep_path cur p = hd (js_split CHR ''#'' p)"

definition wuser :: auth_user where
  "wuser = unresolvedUser\<lparr>userId := Some 7, roles := [''manager'']\<rparr>"

definition wrouter :: router where
  "wrouter = \<lparr>bound = True, managerAdminKeys = [''enums''],
     route = Some \<lparr>rname = RAdmin, params = [(''key'', ''enums'')], path = ''/admin/enums''\<rparr>,
     user = Some wuser, entries = [''/admin/enums''], pos = 0\<rparr>"

lemma wrouter_running: "running keep_path b wrouter"
  by (rule running.boot [of 0 "[''/admin/enums'']" _ "[''enums'']" "Some wuser"]) (simp, code_simp)

lemma keep_projects: "rooted keep_path ''/projects''"
proof -
  have "keep_path cur ''/projects'' = ''/projects''" for cur by (simp add: keep_path_def)
  then show ?thesis by (simp add: rooted_def)
qed

text \<open>Back to an address that cannot be decoded, and on from there.\<close>

definition wbad :: router where
  "wbad = wrouter\<lparr>entries := [''/task/%zz'', ''/admin/enums''], pos := 1\<rparr>"

lemma wbad_running: "running keep_path b (wbad\<lparr>pos := 0\<rparr>)"
proof (rule running.back_forward_throws)
  show "running keep_path b wbad"
    by (rule running.boot [of 1 "[''/task/%zz'', ''/admin/enums'']" _ "[''enums'']" "Some wuser"]) (simp, code_simp)
  show "popstate keep_path 0 wbad = Throw ''URI malformed''" by code_simp
qed (simp add: wbad_def)

lemma keep_task: "rooted keep_path ''/task/5''"
  by (simp add: rooted_def keep_path_def)

theorem route_follows_url_witness:
  "route wrouter = Some \<lparr>rname = RAdmin, params = [(''key'', ''enums'')], path = ''/admin/enums''\<rparr> \<and>
   (\<exists>s'. navigate keep_path ''/task/5'' False (wbad\<lparr>pos := 0\<rparr>) = Return s')"
proof -
  have "matchRoute (currentPathname wrouter) = Return \<lparr>rname = RAdmin, params = [(''key'', ''enums'')], path = ''/admin/enums''\<rparr>"
    "matchRoute ''/task/5'' = Return \<lparr>rname = RTask, params = [(''id'', ''5'')], path = ''/task/5''\<rparr>"
    by code_simp+
  moreover have "route (wbad\<lparr>pos := 0\<rparr>) = Some c \<Longrightarrow> rname c = RAdmin" for c by (auto simp: wbad_def wrouter_def)
  ultimately show ?thesis
    using route_follows_url [OF wrouter_running [of True] keep_projects]
      route_follows_url [OF wbad_running [of True] keep_projects, of False] keep_task
    by (fastforce simp: sameRoute_def)
qed

theorem admin_pages_are_guarded_witness:
  "\<exists>k. map_of [(''key'', ''enums'')] ''key'' = Some k \<and> k \<in> set (managerAdminKeys wrouter)"
proof -
  have "route wrouter = Some \<lparr>rname = RAdmin, params = [(''key'', ''enums'')], path = ''/admin/enums''\<rparr>"
    "user wrouter = Some wuser" "userId wuser \<noteq> None" "\<not> isAdmin wuser"
    by (simp_all add: wrouter_def wuser_def unresolvedUser_def)
  then show ?thesis
    using admin_pages_are_guarded [OF wrouter_running keep_projects] by fastforce
qed

text \<open>A user who is neither is sent to the project list, and so is the address bar.\<close>

lemma refused_page:
  "map_option rname (case installRouter keep_path [''enums''] (fresh_router [''/admin/users''] 0 (Some wuser)) of
     Return s \<Rightarrow> route s | _ \<Rightarrow> None) = Some RProjects"
  by code_simp

end
