(* ===== verification/DataTree.thy ===== *)
theory DataTree
  imports Kanban
begin

text \<open>
  The data tree of \<^verbatim>\<open>core/tree.ts\<close> and the loading states of \<^verbatim>\<open>core/load-state.ts\<close>. A node is
  addressed by the string forms of the path segments, and the tree is the function from
  addresses to leaf values: a node that was never created and one that was never written both
  read as undefined. The signal behind each leaf is the subject of the theory Signals.

  Main results: a merge writes exactly the leaves of the value it lands; an optimistic
  transaction undoes its own write.
\<close>

section \<open>Nodes\<close>

datatype path_seg = PStr string | PNum jnum

definition seg_key :: "path_seg \<Rightarrow> string" where
  "seg_key s = (case s of PStr k \<Rightarrow> k | PNum n \<Rightarrow> num_text n)"

type_synonym node = "string list"
type_synonym tree = "node \<Rightarrow> js"

definition child :: "node \<Rightarrow> path_seg \<Rightarrow> node" where
  "child n s = n @ [seg_key s]"

definition at_path :: "node \<Rightarrow> path_seg list \<Rightarrow> node" where
  "at_path n path = fold (\<lambda>s n. child n s) path n"

definition empty_tree :: tree where
  "empty_tree = (\<lambda>n. if n = [] then JObj [] else JUndef)"

definition peek_node :: "tree \<Rightarrow> node \<Rightarrow> js" where
  "peek_node t n = t n"

definition set_node :: "node \<Rightarrow> js \<Rightarrow> tree \<Rightarrow> tree" where
  "set_node n v t = t(n := v)"

fun merge :: "node \<Rightarrow> js \<Rightarrow> tree \<Rightarrow> tree"
  and merge_entries :: "node \<Rightarrow> (string \<times> js) list \<Rightarrow> tree \<Rightarrow> tree"
where
  "merge n (JObj ps) t = merge_entries n ps t"
| "merge n v t = set_node n v t"
| "merge_entries n [] t = t"
| "merge_entries n ((k, v) # ps) t = merge_entries n ps (merge (child n (PStr k)) v t)"

section \<open>Optimistic transactions\<close>

record txn =
  txn_node :: node
  snapshot :: js
  settled :: bool

definition optimistic :: "node \<Rightarrow> (js \<Rightarrow> js) \<Rightarrow> tree \<Rightarrow> txn \<times> tree" where
  "optimistic n patch t =
     (let s = peek_node t n in (\<lparr>txn_node = n, snapshot = s, settled = False\<rparr>, set_node n (patch s) t))"

definition commit :: "txn \<Rightarrow> txn" where
  "commit x = x\<lparr>settled := True\<rparr>"

definition rollback :: "txn \<Rightarrow> tree \<Rightarrow> txn \<times> tree" where
  "rollback x t = (if settled x then (x, t) else (x\<lparr>settled := True\<rparr>, set_node (txn_node x) (snapshot x) t))"

section \<open>Loading states\<close>

datatype 'a load_state =
    Unset
  | Pending 'a
  | Value 'a
  | Mixed
  | Errored "'a option" string

definition confirmValue :: "'a load_state \<Rightarrow> 'a load_state" where
  "confirmValue s = (case s of Pending v \<Rightarrow> Value v | _ \<Rightarrow> s)"

definition isUnset :: "'a load_state \<Rightarrow> bool" where "isUnset s = (case s of Unset \<Rightarrow> True | _ \<Rightarrow> False)"
definition isPending :: "'a load_state \<Rightarrow> bool" where "isPending s = (case s of Pending v \<Rightarrow> True | _ \<Rightarrow> False)"
definition isResolved :: "'a load_state \<Rightarrow> bool" where "isResolved s = (case s of Value v \<Rightarrow> True | _ \<Rightarrow> False)"
definition isMixed :: "'a load_state \<Rightarrow> bool" where "isMixed s = (case s of Mixed \<Rightarrow> True | _ \<Rightarrow> False)"
definition isError :: "'a load_state \<Rightarrow> bool" where "isError s = (case s of Errored v m \<Rightarrow> True | _ \<Rightarrow> False)"

definition hasValue :: "'a load_state \<Rightarrow> bool" where
  "hasValue s = (case s of Pending v \<Rightarrow> True | Value v \<Rightarrow> True | Errored v m \<Rightarrow> v \<noteq> None | _ \<Rightarrow> False)"

definition valueOf :: "'a load_state \<Rightarrow> 'a option" where
  "valueOf s = (case s of Unset \<Rightarrow> None | Pending v \<Rightarrow> Some v | Value v \<Rightarrow> Some v | Mixed \<Rightarrow> None | Errored v m \<Rightarrow> v)"

definition errorOf :: "'a load_state \<Rightarrow> string option" where
  "errorOf s = (case s of Errored v m \<Rightarrow> Some m | _ \<Rightarrow> None)"

text \<open>The five states exclude each other, and a value is displayable exactly when there is one.\<close>

lemma load_state_exclusive:
  "length (filter id [isUnset s, isPending s, isResolved s, isMixed s, isError s]) = 1"
  by (cases s) (simp_all add: isUnset_def isPending_def isResolved_def isMixed_def isError_def)

lemma hasValue_valueOf: "hasValue s \<longleftrightarrow> valueOf s \<noteq> None"
  by (cases s) (simp_all add: hasValue_def valueOf_def)

lemma confirm_keeps_value: "valueOf (confirmValue s) = valueOf s" "\<not> isPending (confirmValue s)"
  by (cases s; simp add: confirmValue_def valueOf_def isPending_def)+

section \<open>What a merge writes\<close>

text \<open>The leaf of a landed value at a relative path.\<close>

fun leaf_at :: "js \<Rightarrow> string list \<Rightarrow> js option" where
  "leaf_at (JObj ps) [] = None"
| "leaf_at (JObj ps) (k # q) = (case map_of ps k of None \<Rightarrow> None | Some v \<Rightarrow> leaf_at v q)"
| "leaf_at v [] = Some v"
| "leaf_at v (k # q) = None"

fun distinct_props :: "js \<Rightarrow> bool" where
  "distinct_props (JObj ps) \<longleftrightarrow> distinct (map fst ps) \<and> list_all (\<lambda>(k, v). distinct_props v) ps"
| "distinct_props v \<longleftrightarrow> True"

lemma leaf_scalar: "(\<And>ps. v \<noteq> JObj ps) \<Longrightarrow> leaf_at v q = (if q = [] then Some v else None)"
  by (cases v; cases q) auto

lemma leaf_empty [simp]: "leaf_at (JObj []) q = None"
  by (cases q) simp_all

lemma merge_outside:
  "(\<forall>q. m \<noteq> n @ q) \<Longrightarrow> merge n v t m = t m"
  "(\<forall>q. m \<noteq> n @ q) \<Longrightarrow> merge_entries n ps t m = t m"
proof (induction n v t and n ps t rule: merge_merge_entries.induct)
  case (4 n k v ps t)
  have "\<forall>q. m \<noteq> child n (PStr k) @ q" using "4.prems" by (simp add: child_def)
  then show ?case using 4 by simp
qed (auto simp: set_node_def dest: spec [of _ "[]"])

lemma merge_inside:
  "distinct_props v \<Longrightarrow> merge n v t (n @ q) = (case leaf_at v q of Some x \<Rightarrow> x | None \<Rightarrow> t (n @ q))"
  "distinct_props (JObj ps) \<Longrightarrow>
   merge_entries n ps t (n @ q) = (case leaf_at (JObj ps) q of Some x \<Rightarrow> x | None \<Rightarrow> t (n @ q))"
proof (induction n v t and n ps t arbitrary: q and q rule: merge_merge_entries.induct)
  case (4 n k v ps t)
  show ?case
  proof (cases q)
    case Nil
    then show ?thesis
      using "4.prems" "4.IH"(2) [of "[]"] merge_outside(1) [of n "child n (PStr k)" v t]
      by (simp add: child_def)
  next
    case (Cons j r)
    show ?thesis
    proof (cases "j = k")
      case True
      have "map_of ps k = None" using "4.prems" by (simp add: map_of_eq_None_iff)
      then show ?thesis
        using 4 "4.IH"(1) [of r] Cons True
        by (simp add: child_def seg_key_def split: option.split)
    next
      case False
      then have "merge (child n (PStr k)) v t (n @ j # r) = t (n @ j # r)"
        by (intro merge_outside(1)) (simp add: child_def seg_key_def)
      then show ?thesis using 4 Cons False by (simp split: option.split)
    qed
  qed
qed (auto simp: set_node_def leaf_scalar)

text \<open>Landing a server value in a subtree writes exactly the leaves of the value: below the node a
  leaf the value has reads as that leaf, every other node, under it or elsewhere, keeps its value,
  so that a field the value leaves out is not cleared.\<close>

theorem merge_writes_leaves:
  assumes "distinct_props v"
  shows "peek_node (merge n v t) m =
    (if \<exists>q. m = n @ q \<and> leaf_at v q \<noteq> None then the (leaf_at v (drop (length n) m)) else peek_node t m)"
proof (cases "\<exists>q. m = n @ q")
  case True
  then show ?thesis using merge_inside(1) [OF assms] by (auto simp: peek_node_def split: option.split)
next
  case False
  then show ?thesis using merge_outside(1) [of m n v t] by (auto simp: peek_node_def)
qed

theorem merge_writes_leaves_witness:
  "peek_node (merge [''a''] (JObj [(''b'', JObj [(''c'', JBool True)])]) (set_node [''a'', ''d''] JNull empty_tree)) [''a'', ''b'', ''c''] = JBool True \<and>
   peek_node (merge [''a''] (JObj [(''b'', JObj [(''c'', JBool True)])]) (set_node [''a'', ''d''] JNull empty_tree)) [''a'', ''d''] = JNull"
  using merge_writes_leaves [of "JObj [(''b'', JObj [(''c'', JBool True)])]" "[''a'']" "set_node [''a'', ''d''] JNull empty_tree"]
  by (auto simp: peek_node_def set_node_def)

section \<open>What a rollback restores\<close>

lemma rollback_undoes: "optimistic n f t = (x, t') \<Longrightarrow> rollback x t' = (x\<lparr>settled := True\<rparr>, t)"
  by (auto simp: optimistic_def rollback_def set_node_def peek_node_def Let_def)

lemma rollback_after_commit: "rollback (commit x) t = (commit x, t)"
  by (simp add: commit_def rollback_def)

lemma rollback_twice: "rollback x t = (y, t') \<Longrightarrow> rollback y t'' = (y, t'')"
  by (auto simp: rollback_def split: if_splits)

text \<open>Of two overlapping transactions on one node, the older one's rollback erases the newer's patch.\<close>

lemma overlapping_rollback:
  "optimistic n f t = (x, t1) \<Longrightarrow> optimistic n g t1 = (y, t2) \<Longrightarrow> snd (rollback x t2) = t"
  by (auto simp: optimistic_def rollback_def set_node_def peek_node_def Let_def)

end
