(* ===== verification/DataController.thy ===== *)
theory DataController
  imports DataTree Dispatch JsNumber
begin

text \<open>
  The declarative data layer of \<^verbatim>\<open>core/data.ts\<close>: a control's binding tables, the resolution of a
  call's input, and the controller that fires the bindings and routes their results and faults.
  A call in flight carries what its two callbacks close over: the binding, and for an action
  the transaction of its optimistic patch. That a watched path wakes its query is the signal
  core's work (theory Signals); here it is the event \<open>Woke\<close>. The client's handlers are outside;
  a call of one is recorded.

  Main results: no query is sent while an input it needs is missing; what an action patched is
  restored by its fault and kept by its success; once its control is destroyed nothing is sent
  and nothing written, which is also why a fault then leaves the patch in place.
\<close>

section \<open>Bindings\<close>

datatype trigger = Mount | On_signal string | On_intent string

datatype input_value = Lit js | From string | Config string | Payload string

type_synonym input_spec = "(string \<times> input_value) list"

datatype result_sink = ToPath string | MergePath string | Method string

datatype error_route = Self | Top | Error_method string

record query_binding =
  q_name :: string
  q_spec :: string
  q_when :: "trigger option"
  q_input :: "input_spec option"
  q_result :: result_sink
  q_onError :: "error_route option"
  skipWhenNull :: "string list option"

record action_binding =
  intent :: string
  a_spec :: string
  a_input :: "input_spec option"
  a_result :: "result_sink option"
  a_optimistic :: "(string \<times> (js \<Rightarrow> js \<Rightarrow> js)) option"
  a_onError :: "error_route option"

section \<open>Paths and inputs\<close>

definition splitPath :: "string \<Rightarrow> path_seg list" where
  "splitPath dotted =
     (if dotted = '''' then []
      else map (\<lambda>seg. if seg \<noteq> [] \<and> list_all is_digit seg then PNum (js_number seg) else PStr seg)
        (js_split CHR ''.'' dotted))"

text \<open>\<open>cur[seg]\<close> for a name that no prototype defines.\<close>

definition member :: "js \<Rightarrow> string \<Rightarrow> js" where
  "member v k = (case v of
     JObj ps \<Rightarrow> prop_get ps k
   | JArr xs \<Rightarrow>
       if k = ''length'' then jint (int (length xs))
       else if is_index_key k \<and> digits_val k < length xs then xs ! digits_val k else JUndef
   | JStr s \<Rightarrow>
       if k = ''length'' then jint (int (length s))
       else if is_index_key k \<and> digits_val k < length s then JStr [s ! digits_val k] else JUndef
   | _ \<Rightarrow> JUndef)"

fun read_segs :: "string list \<Rightarrow> js \<Rightarrow> js" where
  "read_segs [] cur = cur"
| "read_segs (seg # segs) cur =
     (if cur = JNull \<or> cur = JUndef then JUndef else read_segs segs (member cur seg))"

definition readObjPath :: "js \<Rightarrow> string \<Rightarrow> js" where
  "readObjPath obj dotted = (if dotted = '''' then obj else read_segs (js_split CHR ''.'' dotted) obj)"

record sources =
  src_tree :: tree
  src_config :: "js props"
  src_scope :: "js props option"
  src_payload :: js

definition resolveValue :: "input_value \<Rightarrow> sources \<Rightarrow> js" where
  "resolveValue src s = (case src of
     Lit v \<Rightarrow> v
   | Config p \<Rightarrow> readObjPath (JObj (src_config s)) p
   | Payload p \<Rightarrow> readObjPath (src_payload s) p
   | From p \<Rightarrow>
       if take 6 p = ''scope.'' then readObjPath (JObj (case src_scope s of None \<Rightarrow> [] | Some ps \<Rightarrow> ps)) (drop 6 p)
       else if p = ''scope'' then (case src_scope s of None \<Rightarrow> JUndef | Some ps \<Rightarrow> JObj ps)
       else peek_node (src_tree s) (at_path [] (splitPath p)))"

definition resolveInput :: "input_spec option \<Rightarrow> sources \<Rightarrow> js props" where
  "resolveInput spec s = (case spec of
     None \<Rightarrow> []
   | Some fs \<Rightarrow> fold (\<lambda>(field, src) out. obj_put field (resolveValue src s) out) fs [])"

section \<open>The controller\<close>

datatype continuation = Query_call query_binding | Action_call action_binding "txn option"

record api_call =
  c_spec :: string
  c_input :: "js props"
  c_dedup :: bool
  c_cont :: continuation

record controller =
  data_tree :: tree
  cfg :: "js props"
  scope :: "js props option"
  queries :: "query_binding list"
  actions :: "action_binding list"
  handlers :: "string list"
  wired :: bool
  ctl_alive :: bool
  watches :: "(node \<times> query_binding) list"
  intents :: "(string \<times> continuation) list"
  in_flight :: "api_call list"
  faults :: "api_fault list"
  handled :: "(string \<times> (js + api_fault)) list"

definition call_sources :: "js \<Rightarrow> controller \<Rightarrow> sources" where
  "call_sources payload s =
     \<lparr>src_tree = data_tree s, src_config = cfg s, src_scope = scope s, src_payload = payload\<rparr>"

definition missing :: "js props \<Rightarrow> string \<Rightarrow> bool" where
  "missing input field \<longleftrightarrow> prop_get input field = JNull \<or> prop_get input field = JUndef"

text \<open>An entry \<open>a|b\<close> holds the call back only when every field it names is missing.\<close>

definition held_back :: "query_binding \<Rightarrow> js props \<Rightarrow> bool" where
  "held_back q input \<longleftrightarrow> (case skipWhenNull q of
     None \<Rightarrow> False
   | Some es \<Rightarrow> list_ex (\<lambda>entry. list_all (missing input) (js_split CHR ''|'' entry)) es)"

definition fireQuery :: "query_binding \<Rightarrow> js \<Rightarrow> controller \<Rightarrow> controller" where
  "fireQuery q payload s =
     (if \<not> ctl_alive s then s
      else let input = resolveInput (q_input q) (call_sources payload s) in
        if held_back q input then s
        else s\<lparr>in_flight := in_flight s @
          [\<lparr>c_spec = q_spec q, c_input = input, c_dedup = True, c_cont = Query_call q\<rparr>]\<rparr>)"

definition fireAction :: "action_binding \<Rightarrow> js \<Rightarrow> controller \<Rightarrow> controller" where
  "fireAction a payload s =
     (if \<not> ctl_alive s then s
      else let (x, t) = (case a_optimistic a of
          None \<Rightarrow> (None, data_tree s)
        | Some (p, patch) \<Rightarrow>
            let (x, t) = optimistic (at_path [] (splitPath p)) (\<lambda>cur. patch cur payload) (data_tree s)
            in (Some x, t));
          s1 = s\<lparr>data_tree := t\<rparr>;
          input = resolveInput (a_input a) (call_sources payload s1)
      in s1\<lparr>in_flight := in_flight s1 @
        [\<lparr>c_spec = a_spec a, c_input = input, c_dedup = False, c_cont = Action_call a x\<rparr>]\<rparr>)"

definition wireQuery :: "query_binding \<Rightarrow> controller \<Rightarrow> controller" where
  "wireQuery q s = (case (case q_when q of None \<Rightarrow> Mount | Some w \<Rightarrow> w) of
     Mount \<Rightarrow> fireQuery q JUndef s
   | On_signal p \<Rightarrow> fireQuery q JUndef (s\<lparr>watches := watches s @ [(at_path [] (splitPath p), q)]\<rparr>)
   | On_intent n \<Rightarrow> s\<lparr>intents := intents s @ [(n, Query_call q)]\<rparr>)"

definition wireAction :: "action_binding \<Rightarrow> controller \<Rightarrow> controller" where
  "wireAction a s = s\<lparr>intents := intents s @ [(intent a, Action_call a None)]\<rparr>"

definition wire_bindings :: "controller \<Rightarrow> controller" where
  "wire_bindings s =
     (if wired s then s
      else fold wireAction (actions s) (fold wireQuery (queries s) (s\<lparr>wired := True\<rparr>)))"

definition call_handler :: "string \<Rightarrow> js + api_fault \<Rightarrow> controller \<Rightarrow> controller" where
  "call_handler n v s = (if n \<in> set (handlers s) then s\<lparr>handled := handled s @ [(n, v)]\<rparr> else s)"

definition deliverResult :: "result_sink \<Rightarrow> js \<Rightarrow> controller \<Rightarrow> controller" where
  "deliverResult sink out s = (case sink of
     ToPath p \<Rightarrow> s\<lparr>data_tree := set_node (at_path [] (splitPath p)) out (data_tree s)\<rparr>
   | MergePath p \<Rightarrow> s\<lparr>data_tree := merge (at_path [] (splitPath p)) out (data_tree s)\<rparr>
   | Method n \<Rightarrow> call_handler n (Inl out) s)"

definition routeError :: "error_route \<Rightarrow> api_fault \<Rightarrow> controller \<Rightarrow> controller" where
  "routeError r f s = (case r of
     Self \<Rightarrow> s\<lparr>faults := faults s @ [f]\<rparr>
   | Top \<Rightarrow> s
   | Error_method n \<Rightarrow> call_handler n (Inr f) s)"

section \<open>Answers\<close>

definition on_ok :: "continuation \<Rightarrow> js \<Rightarrow> controller \<Rightarrow> controller" where
  "on_ok c out s = (case c of
     Query_call q \<Rightarrow> deliverResult (q_result q) out s
   | Action_call a x \<Rightarrow> (case a_result a of None \<Rightarrow> s | Some r \<Rightarrow> deliverResult r out s))"

definition on_err :: "continuation \<Rightarrow> api_fault \<Rightarrow> controller \<Rightarrow> controller" where
  "on_err c f s = (case c of
     Query_call q \<Rightarrow> routeError (case q_onError q of None \<Rightarrow> Self | Some r \<Rightarrow> r) f s
   | Action_call a x \<Rightarrow>
       routeError (case a_onError a of None \<Rightarrow> Top | Some r \<Rightarrow> r) f
         (case x of None \<Rightarrow> s | Some y \<Rightarrow> s\<lparr>data_tree := snd (rollback y (data_tree s))\<rparr>))"

text \<open>The dispatcher answers a call once, and only while its control is alive.\<close>

definition answer :: "nat \<Rightarrow> js + api_fault \<Rightarrow> controller \<Rightarrow> controller" where
  "answer i r s =
     (if i < length (in_flight s) then
        let c = c_cont (in_flight s ! i);
            s1 = s\<lparr>in_flight := take i (in_flight s) @ drop (Suc i) (in_flight s)\<rparr>
        in if \<not> ctl_alive s1 then s1
           else (case r of Inl out \<Rightarrow> on_ok c out s1 | Inr f \<Rightarrow> on_err c f s1)
      else s)"

definition fire_intent :: "js \<Rightarrow> continuation \<Rightarrow> controller \<Rightarrow> controller" where
  "fire_intent payload c s = (case c of
     Query_call q \<Rightarrow> fireQuery q payload s
   | Action_call a x \<Rightarrow> fireAction a payload s)"

datatype dc_event = Wire | Intent string js | Woke nat | Answer nat "js + api_fault" | Destroy

definition dc_step :: "dc_event \<Rightarrow> controller \<Rightarrow> controller" where
  "dc_step ev s = (case ev of
     Wire \<Rightarrow> wire_bindings s
   | Intent n payload \<Rightarrow> fold (fire_intent payload) (map snd (filter (\<lambda>(m, c). m = n) (intents s))) s
   | Woke i \<Rightarrow> if i < length (watches s) then fireQuery (snd (watches s ! i)) JUndef s else s
   | Answer i r \<Rightarrow> answer i r s
   | Destroy \<Rightarrow> s\<lparr>ctl_alive := False, watches := [], intents := []\<rparr>)"

section \<open>Queries wait for what they need\<close>

definition calls_ready :: "controller \<Rightarrow> bool" where
  "calls_ready s \<longleftrightarrow> (\<forall>c \<in> set (in_flight s). case c_cont c of
     Query_call q \<Rightarrow> c_spec c = q_spec q \<and> c_dedup c \<and> \<not> held_back q (c_input c)
   | Action_call a x \<Rightarrow> c_spec c = a_spec a \<and> \<not> c_dedup c)"

lemma ready_fireQuery [wf_intros]: "calls_ready s \<Longrightarrow> calls_ready (fireQuery q p s)"
  by (auto simp: fireQuery_def calls_ready_def Let_def)

lemma ready_fireAction [wf_intros]: "calls_ready s \<Longrightarrow> calls_ready (fireAction a p s)"
  by (auto simp: fireAction_def calls_ready_def Let_def split: option.split prod.split)

lemma ready_wireQuery [wf_intros]: "calls_ready s \<Longrightarrow> calls_ready (wireQuery q s)"
proof -
  assume r: "calls_ready s"
  then have "calls_ready (s\<lparr>watches := w\<rparr>)" "calls_ready (s\<lparr>intents := i\<rparr>)" for w i by (simp_all add: calls_ready_def)
  with r show ?thesis
    by (auto simp: wireQuery_def split: trigger.split intro: ready_fireQuery)
qed

lemma ready_wireAction [wf_intros]: "calls_ready s \<Longrightarrow> calls_ready (wireAction a s)"
  by (simp add: calls_ready_def wireAction_def)

lemma ready_wire [wf_intros]: "calls_ready s \<Longrightarrow> calls_ready (wire_bindings s)"
proof -
  have q: "calls_ready s \<Longrightarrow> calls_ready (fold wireQuery qs s)" for qs s
    by (induction qs arbitrary: s) (auto intro: wf_intros)
  have a: "calls_ready s \<Longrightarrow> calls_ready (fold wireAction as s)" for as s
    by (induction as arbitrary: s) (auto intro: wf_intros)
  assume "calls_ready s"
  moreover from this have "calls_ready (s\<lparr>wired := True\<rparr>)" by (simp add: calls_ready_def)
  ultimately show ?thesis by (simp add: wire_bindings_def q a)
qed

lemma in_flight_handler [simp]: "in_flight (call_handler n v s) = in_flight s"
  by (simp add: call_handler_def)

lemma in_flight_deliver [simp]: "in_flight (deliverResult r v s) = in_flight s" "in_flight (routeError e f s) = in_flight s"
  by (simp_all add: deliverResult_def routeError_def split: result_sink.split error_route.split)

lemma in_flight_answered:
  "in_flight (on_ok c out s) = in_flight s" "in_flight (on_err c f s) = in_flight s"
  by (simp_all add: on_ok_def on_err_def split: continuation.split option.split)

lemma in_flight_answer: "set (in_flight (answer i r s)) \<subseteq> set (in_flight s)"
  by (auto simp: answer_def Let_def in_flight_answered split: sum.split dest: in_set_takeD in_set_dropD)

lemma ready_step: "calls_ready s \<Longrightarrow> calls_ready (dc_step ev s)"
proof (cases ev)
  case (Intent n payload)
  have "calls_ready s \<Longrightarrow> calls_ready (fold (fire_intent payload) cs s)" for cs s
    by (induction cs arbitrary: s) (auto simp: fire_intent_def split: continuation.split intro: wf_intros)
  then show "calls_ready s \<Longrightarrow> ?thesis" by (simp add: Intent dc_step_def)
next
  case (Answer i r)
  then show "calls_ready s \<Longrightarrow> ?thesis"
    using in_flight_answer [of i r s] by (auto simp: dc_step_def calls_ready_def)
qed (auto simp: dc_step_def intro: wf_intros, simp add: calls_ready_def)

text \<open>C9: Whatever happens to a control, its wiring, intents, changes of watched paths, answers and its
  destruction in any order: a query is in flight only with its own spec, coalescable, and with an
  input in which every group of fields it waits for has one that is set; an action is never
  coalesced.\<close>

theorem queries_wait_for_inputs:
  assumes "in_flight s = []" and "c \<in> set (in_flight (fold dc_step evs s))"
  shows "case c_cont c of
     Query_call q \<Rightarrow> c_spec c = q_spec q \<and> c_dedup c \<and>
       (\<forall>entry \<in> set (case skipWhenNull q of None \<Rightarrow> [] | Some es \<Rightarrow> es).
          \<exists>field \<in> set (js_split CHR ''|'' entry). prop_get (c_input c) field \<noteq> JNull \<and> prop_get (c_input c) field \<noteq> JUndef)
   | Action_call a x \<Rightarrow> c_spec c = a_spec a \<and> \<not> c_dedup c"
proof -
  have "calls_ready s" using assms(1) by (simp add: calls_ready_def)
  then have "calls_ready (fold dc_step evs s)"
    by (induction evs arbitrary: s) (auto intro: ready_step)
  with assms(2) have c: "case c_cont c of
     Query_call q \<Rightarrow> c_spec c = q_spec q \<and> c_dedup c \<and> \<not> held_back q (c_input c)
   | Action_call a x \<Rightarrow> c_spec c = a_spec a \<and> \<not> c_dedup c"
    by (simp add: calls_ready_def)
  show ?thesis
  proof (cases "c_cont c")
    case (Query_call q)
    with c show ?thesis
      by (cases "skipWhenNull q") (auto simp: held_back_def list_ex_iff list_all_iff missing_def)
  next
    case (Action_call a x)
    with c show ?thesis by simp
  qed
qed

section \<open>Optimistic actions\<close>

lemma fault_of_action:
  assumes "ctl_alive s" and "a_optimistic a = Some (p, patch)"
  shows "(let n = at_path [] (splitPath p); s1 = fireAction a payload s; call = last (in_flight s1) in
    data_tree s1 = (data_tree s)(n := patch (data_tree s n) payload) \<and>
    (\<forall>s2 i f. i < length (in_flight s2) \<and> in_flight s2 ! i = call \<longrightarrow>
       data_tree (answer i (Inr f) s2) =
         (if ctl_alive s2 then (data_tree s2)(n := data_tree s n) else data_tree s2)))"
proof -
  have route: "data_tree (routeError r f s') = data_tree s'" for r f s'
    by (simp add: routeError_def call_handler_def split: error_route.split)
  show ?thesis
    using assms
    by (simp add: fireAction_def Let_def optimistic_def answer_def on_err_def route rollback_def
        set_node_def peek_node_def)
qed

text \<open>C10: An action's patch is on screen as soon as it is fired, and the fault of its call puts back exactly
  the value the patch replaced and changes nothing else in the tree, whatever else the control did in between.
  The control is alive when the fault arrives.\<close>

theorem fault_restores_patch:
  assumes "ctl_alive s" and "a_optimistic a = Some (p, patch)" and n: "n = at_path [] (splitPath p)"
    and "s2 = fold dc_step evs (fireAction a payload s)" and "ctl_alive s2"
    and "i < length (in_flight s2)" and "in_flight s2 ! i = last (in_flight (fireAction a payload s))"
  shows "data_tree (fireAction a payload s) = (data_tree s)(n := patch (data_tree s n) payload) \<and>
    data_tree (answer i (Inr f) s2) = (data_tree s2)(n := data_tree s n)"
  using fault_of_action [OF assms(1,2), of payload] assms(5-7) by (simp add: n Let_def)

text \<open>The dispatcher drops the fault of a destroyed control, and with it the rollback.\<close>

lemma destroyed_fault_keeps_patch:
  assumes "ctl_alive s" "a_optimistic a = Some (p, patch)" "\<not> ctl_alive s2"
    "i < length (in_flight s2)" "in_flight s2 ! i = last (in_flight (fireAction a payload s))"
  shows "data_tree (answer i (Inr f) s2) = data_tree s2"
  using fault_of_action [OF assms(1,2), of payload] assms(3-5) by (simp add: Let_def)

section \<open>Destroyed controls\<close>

lemma dead_fire: "\<not> ctl_alive s \<Longrightarrow> fireQuery q p s = s" "\<not> ctl_alive s \<Longrightarrow> fireAction a p s = s"
  by (simp_all add: fireQuery_def fireAction_def)

text \<open>C11: A destroyed control is silent: nothing it is told afterwards sends a call, writes the tree, shows
  a fault or runs a handler, and answers still in flight are dropped.\<close>

theorem destroyed_control_is_silent:
  assumes "\<not> ctl_alive s"
  shows "(let s' = dc_step ev s in
    \<not> ctl_alive s' \<and> data_tree s' = data_tree s \<and> faults s' = faults s \<and> handled s' = handled s \<and>
    set (in_flight s') \<subseteq> set (in_flight s))"
proof -
  define same where "same s' \<longleftrightarrow> \<not> ctl_alive s' \<and> data_tree s' = data_tree s \<and> faults s' = faults s \<and>
    handled s' = handled s \<and> set (in_flight s') \<subseteq> set (in_flight s)" for s' :: controller
  have q: "same s' \<Longrightarrow> same (wireQuery b s')" for s' b
    by (auto simp: same_def wireQuery_def dead_fire split: trigger.split)
  have qs: "same s' \<Longrightarrow> same (fold wireQuery bs s')" for s' bs
    by (induction bs arbitrary: s') (simp_all add: q)
  have act: "same s' \<Longrightarrow> same (fold wireAction bs s')" for s' bs
    by (induction bs arbitrary: s') (simp, simp add: same_def wireAction_def)
  have int: "same s' \<Longrightarrow> same (fold (fire_intent payload) cs s')" for s' cs payload
    by (induction cs arbitrary: s') (auto simp: same_def fire_intent_def dead_fire split: continuation.split)
  have s: "same s" "same (s\<lparr>wired := True\<rparr>)" using assms by (simp_all add: same_def)
  have "same (answer i r s)" for i r
    using assms in_flight_answer [of i r s] by (simp add: same_def answer_def Let_def)
  moreover have "same (wire_bindings s)" using s by (simp add: wire_bindings_def qs act)
  ultimately have "same (dc_step ev s)"
    using s int assms by (cases ev) (simp_all add: dc_step_def dead_fire, simp add: same_def)
  then show ?thesis by (simp add: same_def Let_def)
qed

section \<open>Witnesses\<close>

definition wctl :: controller where
  "wctl = \<lparr>data_tree = empty_tree, cfg = [(''page'', JObj [(''size'', jint 50)])], scope = None,
     queries = [\<lparr>q_name = ''rows'', q_spec = ''card.select'', q_when = Some (On_signal ''screen.id''),
       q_input = Some [(''limit'', Config ''page.size''), (''parent'', From ''screen.id'')],
       q_result = ToPath ''rows'', q_onError = None, skipWhenNull = Some [''parent'']\<rparr>],
     actions = [\<lparr>intent = ''move'', a_spec = ''attribute.update'', a_input = Some [(''id'', Payload ''card.id'')],
       a_result = None, a_optimistic = Some (''rows'', \<lambda>cur p. p), a_onError = None\<rparr>],
     handlers = [], wired = False, ctl_alive = True, watches = [], intents = [], in_flight = [], faults = [], handled = []\<rparr>"

lemma wctl_run:
  "in_flight (dc_step Wire wctl) = []"
  "map c_input (in_flight (dc_step (Woke 0)
     ((dc_step Wire wctl)\<lparr>data_tree := set_node [''screen'', ''id''] (JBig 3) empty_tree\<rparr>))) =
   [[(''limit'', jint 50), (''parent'', JBig 3)]]"
  by code_simp+

theorem queries_wait_for_inputs_witness:
  "case c_cont (hd (in_flight (fold dc_step [Wire, Intent ''move'' (JObj [(''card'', JObj [(''id'', JBig 9)])])] wctl))) of
     Query_call q \<Rightarrow> False | Action_call a x \<Rightarrow> a_spec a = ''attribute.update''"
proof -
  let ?s = "fold dc_step [Wire, Intent ''move'' (JObj [(''card'', JObj [(''id'', JBig 9)])])] wctl"
  have l: "length (in_flight ?s) = 1" "c_spec (hd (in_flight ?s)) = ''attribute.update''" "\<not> c_dedup (hd (in_flight ?s))"
    by code_simp+
  then have "hd (in_flight ?s) \<in> set (in_flight ?s)" by (metis hd_in_set length_0_conv zero_neq_one)
  then show ?thesis
    using queries_wait_for_inputs [of wctl "hd (in_flight ?s)" "[Wire, Intent ''move'' (JObj [(''card'', JObj [(''id'', JBig 9)])])]"] l(2,3)
    by (auto simp: wctl_def split: continuation.splits)
qed

text \<open>The patch, another action's patch, and the fault of the first.\<close>

theorem fault_restores_patch_witness:
  "data_tree (answer 0 (Inr (Http 500))
     (fold dc_step [Intent ''other'' JNull] (fireAction (hd (actions wctl)) (JBool True) wctl))) [''rows''] = JUndef"
proof -
  let ?a = "hd (actions wctl)"
  let ?s1 = "fireAction ?a (JBool True) wctl"
  let ?s2 = "fold dc_step [Intent ''other'' JNull] ?s1"
  have a: "ctl_alive wctl" "a_optimistic ?a = Some (''rows'', \<lambda>cur p. p)" by (simp_all add: wctl_def)
  have l: "length (in_flight ?s1) = 1" "length (in_flight ?s2) = 1" "ctl_alive ?s2"
    "at_path [] (splitPath ''rows'') = [''rows'']" "data_tree wctl [''rows''] = JUndef"
    by code_simp+
  have "intents ?s1 = intents wctl" by (simp add: fireAction_def Let_def split: option.split prod.split)
  then have k: "in_flight ?s2 = in_flight ?s1" by (simp add: dc_step_def wctl_def)
  have "in_flight ?s2 ! 0 = last (in_flight ?s1)"
    unfolding k using l(1) by (metis One_nat_def diff_Suc_1 last_conv_nth length_0_conv zero_neq_one)
  then have "data_tree (answer 0 (Inr (Http 500)) ?s2) = (data_tree ?s2)([''rows''] := data_tree wctl [''rows''])"
    using fault_restores_patch [OF a l(4) [symmetric] refl l(3), of 0 "Http 500"] l(2) by (metis zero_less_one)
  then show ?thesis by (simp only: l(5) fun_upd_same)
qed

theorem destroyed_control_is_silent_witness:
  "data_tree (dc_step Wire (dc_step Destroy wctl)) = data_tree (dc_step Destroy wctl)"
  using destroyed_control_is_silent [of "dc_step Destroy wctl" Wire] by (simp add: Let_def dc_step_def)

end
