(* ===== verification/WireDecode.thy ===== *)
theory WireDecode
  imports JsValue
begin

text \<open>
  The defensive readers every spec file of the client defines for the wire values it decodes:
  an object, an array, an id or a text, with a default for anything else. They are the same text
  in each file (\<^verbatim>\<open>task-detail/approval-specs.ts\<close> and its siblings) and modelled once.
\<close>

definition asObj :: "js \<Rightarrow> js props" where
  "asObj v = (case v of JObj ps \<Rightarrow> ps | _ \<Rightarrow> [])"

definition asArray :: "js \<Rightarrow> js list" where
  "asArray v = (case v of JArr xs \<Rightarrow> xs | _ \<Rightarrow> [])"

definition asId :: "js \<Rightarrow> int" where
  "asId v = (case v of
     JBig i \<Rightarrow> i
   | JNum (Fin x) \<Rightarrow> if is_int_rat x then \<lfloor>x\<rfloor> else 0
   | JStr s \<Rightarrow> if is_int_text s then int_of_text s else 0
   | _ \<Rightarrow> 0)"

definition asStr :: "js \<Rightarrow> string" where
  "asStr v = (case v of
     JStr s \<Rightarrow> s
   | JBig i \<Rightarrow> int_text i
   | JNull \<Rightarrow> ''''
   | JUndef \<Rightarrow> ''''
   | _ \<Rightarrow> js_text v)"

definition asFlag :: "js \<Rightarrow> bool" where
  "asFlag v \<longleftrightarrow> v = JBool True"

text \<open>\<open>v && typeof v === 'object'\<close>.\<close>

definition is_object :: "js \<Rightarrow> bool" where
  "is_object v \<longleftrightarrow> (case v of JObj ps \<Rightarrow> True | JArr xs \<Rightarrow> True | _ \<Rightarrow> False)"

lemma asId_forms [simp]: "asId (JBig i) = i" "asId (jint i) = i" "asId (JStr (int_text i)) = i"
  by (simp_all add: asId_def jint_def)

lemma asStr_JStr [simp]: "asStr (JStr s) = s"
  by (simp add: asStr_def)

lemma asObj_JObj [simp]: "asObj (JObj ps) = ps"
  by (simp add: asObj_def)

lemma asArray_JArr [simp]: "asArray (JArr xs) = xs"
  by (simp add: asArray_def)

lemma asFlag_JBool [simp]: "asFlag (JBool b) = b"
  by (simp add: asFlag_def)

end
