(* ===== verification/JsDate.thy ===== *)
theory JsDate
  imports JsValue
begin

text \<open>
  What the client uses of \<open>Date\<close>: \<open>Date.parse\<close> on the ISO-8601 forms the language defines (date,
  or date and time with an optional fraction and an offset), in milliseconds since the epoch and
  \<open>None\<close> for NaN, and the calendar date of an instant. The local time zone is the environment:
  a function from instants to the offset in force, the parameter \<open>tz\<close>. Fractions are cut to
  milliseconds.
\<close>

section \<open>Calendar\<close>

definition leap_year :: "int \<Rightarrow> bool" where
  "leap_year y \<longleftrightarrow> y mod 4 = 0 \<and> (y mod 100 \<noteq> 0 \<or> y mod 400 = 0)"

definition month_lengths :: "int \<Rightarrow> int list" where
  "month_lengths y = [31, if leap_year y then 29 else 28, 31, 30, 31, 30, 31, 31, 30, 31, 30, 31]"

definition days_before_year :: "int \<Rightarrow> int" where
  "days_before_year y = 365 * (y - 1970) + ((y - 1) div 4 - 492) - ((y - 1) div 100 - 19) + ((y - 1) div 400 - 4)"

definition days_of_date :: "int \<Rightarrow> nat \<Rightarrow> nat \<Rightarrow> int" where
  "days_of_date y m d = days_before_year y + sum_list (take (m - 1) (month_lengths y)) + int d - 1"

text \<open>The month and day of a day of the year.\<close>

fun month_day :: "int list \<Rightarrow> nat \<Rightarrow> int \<Rightarrow> nat \<times> nat" where
  "month_day [] m d = (m, nat d + 1)"
| "month_day (l # ls) m d = (if d < l then (m, nat d + 1) else month_day ls (Suc m) (d - l))"

definition year_length :: "int \<Rightarrow> int" where
  "year_length y = (if leap_year y then 366 else 365)"

text \<open>The year is estimated and then corrected by one where the estimate is late.\<close>

definition year_of_days :: "int \<Rightarrow> int" where
  "year_of_days n = (let y = 1970 + (n * 400) div 146097
     in if n < days_before_year y then y - 1 else if days_before_year (y + 1) \<le> n then y + 1 else y)"

definition date_of_days :: "int \<Rightarrow> int \<times> nat \<times> nat" where
  "date_of_days n = (let y = year_of_days n; (m, d) = month_day (month_lengths y) 1 (n - days_before_year y)
     in (y, m, d))"

section \<open>Parsing\<close>

text \<open>Exactly \<open>n\<close> digits.\<close>

definition int_of_digits :: "string \<Rightarrow> int" where
  "int_of_digits s = fold (\<lambda>c n. 10 * n + int (digit_val c)) s 0"

definition digits_n :: "nat \<Rightarrow> string \<Rightarrow> (int \<times> string) option" where
  "digits_n n s =
     (if n \<le> length s \<and> list_all is_digit (take n s) then Some (int_of_digits (take n s), drop n s) else None)"

definition expect :: "char \<Rightarrow> string \<Rightarrow> string option" where
  "expect c s = (case s of [] \<Rightarrow> None | d # ds \<Rightarrow> if d = c then Some ds else None)"

definition p_date :: "string \<Rightarrow> (int \<times> string) option" where
  "p_date s =
     Option.bind (digits_n 4 s) (\<lambda>(y, s). Option.bind (expect CHR ''-'' s) (\<lambda>s.
     Option.bind (digits_n 2 s) (\<lambda>(m, s). Option.bind (expect CHR ''-'' s) (\<lambda>s.
     Option.bind (digits_n 2 s) (\<lambda>(d, s).
       if 1 \<le> m \<and> m \<le> 12 \<and> 1 \<le> d \<and> d \<le> month_lengths y ! nat (m - 1)
       then Some (days_of_date y (nat m) (nat d), s) else None)))))"

definition p_millis :: "string \<Rightarrow> int \<times> string" where
  "p_millis s = (case expect CHR ''.'' s of
     None \<Rightarrow> (0, s)
   | Some r \<Rightarrow>
       let ds = takeWhile is_digit r
       in if ds = [] then (0, s) else (int_of_digits (take 3 (ds @ ''00'')), dropWhile is_digit r))"

definition p_seconds :: "string \<Rightarrow> (int \<times> string) option" where
  "p_seconds s = (case expect CHR '':'' s of
     None \<Rightarrow> Some (0, s)
   | Some r \<Rightarrow> Option.bind (digits_n 2 r) (\<lambda>(sec, r).
       if sec < 60 then (let (ms, r) = p_millis r in Some (1000 * sec + ms, r)) else None))"

definition p_time :: "string \<Rightarrow> (int \<times> string) option" where
  "p_time s =
     Option.bind (digits_n 2 s) (\<lambda>(h, s). Option.bind (expect CHR '':'' s) (\<lambda>s.
     Option.bind (digits_n 2 s) (\<lambda>(m, s). Option.bind (p_seconds s) (\<lambda>(ms, s).
       if h < 24 \<and> m < 60 then Some ((h * 60 + m) * 60000 + ms, s) else None))))"

text \<open>The offset in milliseconds, \<open>None\<close> inside for local time.\<close>

definition p_offset :: "string \<Rightarrow> int option option" where
  "p_offset s =
     (if s = '''' then Some None
      else if s = ''Z'' then Some (Some 0)
      else if hd s = CHR ''+'' \<or> hd s = CHR ''-'' then
        Option.bind (digits_n 2 (tl s)) (\<lambda>(h, r). Option.bind (expect CHR '':'' r) (\<lambda>r.
        Option.bind (digits_n 2 r) (\<lambda>(m, r).
          if r = '''' \<and> h < 24 \<and> m < 60
          then Some (Some ((if hd s = CHR ''-'' then - 1 else 1) * ((h * 60 + m) * 60000))) else None)))
      else None)"

definition date_parse :: "(int \<Rightarrow> int) \<Rightarrow> string \<Rightarrow> int option" where
  "date_parse tz s = Option.bind (p_date s) (\<lambda>(days, r).
     if r = '''' then Some (86400000 * days)
     else Option.bind (expect CHR ''T'' r) (\<lambda>r. Option.bind (p_time r) (\<lambda>(ms, r).
       let local = 86400000 * days + ms in
       map_option (\<lambda>off. case off of Some o' \<Rightarrow> local - o' | None \<Rightarrow> local - tz local) (p_offset r))))"

text \<open>The local calendar date of an instant.\<close>

definition local_date :: "(int \<Rightarrow> int) \<Rightarrow> int \<Rightarrow> int \<times> nat \<times> nat" where
  "local_date tz t = date_of_days ((t + tz t) div 86400000)"

lemma date_samples:
  "date_parse (\<lambda>t. 0) ''1970-01-01T00:00:00Z'' = Some 0"
  "date_parse (\<lambda>t. 0) ''2024-02-29T12:30:15.250+01:00'' = Some 1709206215250"
  "date_parse (\<lambda>t. 0) ''2023-02-29'' = None"
  "date_parse (\<lambda>t. 0) ''2000-03-01'' = Some 951868800000"
  "date_parse (\<lambda>t. 0) ''yesterday'' = None"
  "local_date (\<lambda>t. 0) 1709206215250 = (2024, 2, 29)"
  "local_date (\<lambda>t. - 86400000) 0 = (1969, 12, 31)"
  by code_simp+

section \<open>The calendar is exact\<close>

lemma days_before_Suc: "days_before_year (y + 1) = days_before_year y + year_length y"
proof -
  have q: "y div k = (y - 1) div k + (if y mod k = 0 then 1 else 0)" if k: "0 < k" for k :: int
  proof (cases "y mod k = 0")
    case True
    have "y - 1 = k * (y div k - 1) + (k - 1)" using True mult_div_mod_eq [of k y] by (simp add: algebra_simps)
    then have "(y - 1) div k = y div k - 1" by (rule int_div_pos_eq) (use k in auto)
    with True show ?thesis by simp
  next
    case False
    have "y - 1 = k * (y div k) + (y mod k - 1)" by simp
    moreover have "0 \<le> y mod k - 1" "y mod k - 1 < k"
      using False k pos_mod_sign [OF k, of y] pos_mod_bound [OF k, of y] by linarith+
    ultimately have "(y - 1) div k = y div k" by (rule int_div_pos_eq)
    with False show ?thesis by simp
  qed
  have m: "y mod 400 = 0 \<longrightarrow> y mod 100 = 0" "y mod 100 = 0 \<longrightarrow> y mod 4 = 0"
    by presburger+
  note q4 = q [of 4, simplified] and q100 = q [of 100, simplified] and q400 = q [of 400, simplified]
  have "days_before_year (y + 1) = 365 * (y + 1 - 1970) + (y div 4 - 492) - (y div 100 - 19) + (y div 400 - 4)"
    by (simp add: days_before_year_def)
  also have "\<dots> = days_before_year y + 365 + (if y mod 4 = 0 then 1 else 0) - (if y mod 100 = 0 then 1 else 0) +
      (if y mod 400 = 0 then 1 else 0)"
    unfolding q4 q100 q400 days_before_year_def by (simp add: algebra_simps)
  also have "\<dots> = days_before_year y + year_length y"
    using m unfolding year_length_def leap_year_def by (cases "y mod 4 = 0"; cases "y mod 100 = 0"; cases "y mod 400 = 0") simp_all
  finally show ?thesis .
qed

end
