(* ===== verification/Approvals.thy ===== *)
theory Approvals
  imports WireDecode JsSort JsDate
begin

text \<open>
  Approval requests and votes: the wire specs of \<^verbatim>\<open>task-detail/approval-specs.ts\<close> and the grouping
  by edge of \<^verbatim>\<open>task-detail/approval-model.ts\<close>. Times are compared through \<open>date_parse\<close> with the
  environment's time zone \<open>tz\<close>; the maps are insertion-ordered lists of entries, and the edge
  records the source mutates are replaced in their map.

  Main results (theory ApprovalsSpec): no request or vote is lost or put on another edge; an
  open request shows each asked person's newest vote of the current round; the viewer is waited
  for exactly when an open request asks them and they have not voted.
\<close>

section \<open>The web model\<close>

record status_ref =
  sr_id :: int
  sr_label :: string
  sr_phase :: string

record approval_action =
  act_from :: status_ref
  act_to :: status_ref
  act_label :: string

record request_comm =
  rc_id :: int
  rc_subject :: string
  rc_messages :: jnum

record approver =
  ap_person :: int
  ap_name :: string

record approval_request =
  ar_id :: int
  ar_from :: status_ref
  ar_to :: status_ref
  ar_action :: string
  ar_note :: string
  requestedById :: int
  requestedBy :: string
  requestedAt :: string
  reachedAt :: string
  approvers :: "approver list"
  ar_comm :: "request_comm option"

datatype verdict = Approve | Decline

record approval_vote =
  av_id :: int
  byId :: int
  by_name :: string
  personId :: int
  decision :: verdict
  fromId :: int
  toId :: int
  av_action :: string
  av_status :: "status_ref option"
  reason :: string
  voted_at :: string
  settled :: bool
  stale :: bool

record list_output =
  cur_status :: "status_ref option"
  flow_actions :: "approval_action list"
  requests :: "approval_request list"
  decisions :: "approval_vote list"

section \<open>Decoding\<close>

definition decodeStatusRef :: "js \<Rightarrow> status_ref" where
  "decodeStatusRef v = (let j = asObj v in
     \<lparr>sr_id = asId (prop_get j ''id''), sr_label = asStr (prop_get j ''label''), sr_phase = asStr (prop_get j ''phase'')\<rparr>)"

definition decodeStatusOrNull :: "js \<Rightarrow> status_ref option" where
  "decodeStatusOrNull v = (if is_object v then Some (decodeStatusRef v) else None)"

definition decodeRequestComm :: "js \<Rightarrow> request_comm option" where
  "decodeRequestComm v =
     (if \<not> is_object v then None
      else let j = asObj v in
        Some \<lparr>rc_id = asId (prop_get j ''id''), rc_subject = asStr (prop_get j ''subject''),
          rc_messages = (case prop_get j ''messages'' of JNum n \<Rightarrow> n | _ \<Rightarrow> Fin 0)\<rparr>)"

definition decode_action :: "js \<Rightarrow> approval_action" where
  "decode_action a = (let j = asObj a in
     \<lparr>act_from = decodeStatusRef (prop_get j ''from''), act_to = decodeStatusRef (prop_get j ''to''),
      act_label = asStr (prop_get j ''label'')\<rparr>)"

definition decode_request :: "js \<Rightarrow> approval_request" where
  "decode_request r = (let j = asObj r in
     \<lparr>ar_id = asId (prop_get j ''id''),
      ar_from = decodeStatusRef (prop_get j ''from''),
      ar_to = decodeStatusRef (prop_get j ''to''),
      ar_action = asStr (prop_get j ''action''),
      ar_note = asStr (prop_get j ''note''),
      requestedById = asId (prop_get j ''requested_by_id''),
      requestedBy = asStr (prop_get j ''requested_by''),
      requestedAt = asStr (prop_get j ''requested_at''),
      reachedAt = asStr (prop_get j ''reached_at''),
      approvers = map (\<lambda>a. let p = asObj a in
        \<lparr>ap_person = asId (prop_get p ''person_id''), ap_name = asStr (prop_get p ''name'')\<rparr>)
        (asArray (prop_get j ''approvers'')),
      ar_comm = decodeRequestComm (prop_get j ''comm'')\<rparr>)"

definition decode_vote :: "js \<Rightarrow> approval_vote" where
  "decode_vote d = (let j = asObj d in
     \<lparr>av_id = asId (prop_get j ''id''),
      byId = asId (prop_get j ''by_id''),
      by_name = asStr (prop_get j ''by''),
      personId = asId (prop_get j ''person_id''),
      decision = (if prop_get j ''decision'' = JStr ''approve'' then Approve else Decline),
      fromId = asId (prop_get j ''from_id''),
      toId = asId (prop_get j ''to_id''),
      av_action = asStr (prop_get j ''action''),
      av_status = decodeStatusOrNull (prop_get j ''status''),
      reason = asStr (prop_get j ''reason''),
      voted_at = asStr (prop_get j ''at''),
      settled = asFlag (prop_get j ''settled''),
      stale = asFlag (prop_get j ''stale'')\<rparr>)"

definition decodeApprovalList :: "js \<Rightarrow> list_output" where
  "decodeApprovalList raw = (let o' = asObj raw in
     \<lparr>cur_status = decodeStatusOrNull (prop_get o' ''status''),
      flow_actions = map decode_action (asArray (prop_get o' ''actions'')),
      requests = map decode_request (asArray (prop_get o' ''requests'')),
      decisions = map decode_vote (asArray (prop_get o' ''decisions''))\<rparr>)"

section \<open>Encoding of the writes\<close>

record set_input =
  si_id :: "int option"
  si_task :: int
  si_from :: "int option"
  si_to :: "int option"
  si_approvers :: "int list option"
  si_note :: "string option"
  si_email :: "(int \<times> string option) option"

definition put_some :: "string \<Rightarrow> ('a \<Rightarrow> js) \<Rightarrow> 'a option \<Rightarrow> js props \<Rightarrow> js props" where
  "put_some k f x m = (case x of None \<Rightarrow> m | Some v \<Rightarrow> obj_put k (f v) m)"

definition encode_set :: "set_input \<Rightarrow> js props" where
  "encode_set i =
     put_some ''email'' (\<lambda>(ch, subj). JObj ((''channel_id'', JBig ch) #
         (case subj of None \<Rightarrow> [] | Some t \<Rightarrow> if t = '''' then [] else [(''subject'', JStr t)]))) (si_email i)
      (put_some ''note'' JStr (si_note i)
      (put_some ''approver_ids'' (\<lambda>ids. JArr (map (\<lambda>p. JStr (int_text p)) ids)) (si_approvers i)
      (put_some ''to_status_id'' JBig (si_to i)
      (put_some ''from_status_id'' JBig (si_from i)
      (put_some ''id'' JBig (si_id i) [(''task_id'', JBig (si_task i))])))))"

record decide_input =
  di_task :: int
  di_approval :: "int option"
  di_from :: "int option"
  di_to :: "int option"
  di_decision :: verdict
  di_reason :: "string option"

definition verdict_text :: "verdict \<Rightarrow> string" where
  "verdict_text v = (case v of Approve \<Rightarrow> ''approve'' | Decline \<Rightarrow> ''reject'')"

definition encode_decide :: "decide_input \<Rightarrow> js props" where
  "encode_decide i =
     put_some ''reason'' JStr
       (case di_reason i of None \<Rightarrow> None | Some r \<Rightarrow> if js_trim r = '''' then None else Some (js_trim r))
      (put_some ''to_status_id'' JBig (di_to i)
      (put_some ''from_status_id'' JBig (di_from i)
      (put_some ''approval_id'' JBig (di_approval i)
        [(''task_id'', JBig (di_task i)), (''decision'', JStr (verdict_text (di_decision i)))])))"

record set_output =
  so_approval :: int
  so_created :: bool
  so_changed :: bool
  so_comm :: int

definition decode_set :: "js \<Rightarrow> set_output" where
  "decode_set raw = (let j = asObj raw in
     \<lparr>so_approval = asId (prop_get j ''approval_id''), so_created = asFlag (prop_get j ''created''),
      so_changed = asFlag (prop_get j ''changed''), so_comm = asId (prop_get j ''comm_id'')\<rparr>)"

definition decode_remove :: "js \<Rightarrow> bool" where
  "decode_remove raw = asFlag (prop_get (asObj raw) ''removed'')"

definition decode_decide :: "js \<Rightarrow> int \<times> bool" where
  "decode_decide raw = (let j = asObj raw in (asId (prop_get j ''decision_id''), asFlag (prop_get j ''changed'')))"

section \<open>Edges\<close>

record asked_view =
  av_person :: int
  av_name :: string
  av_vote :: "approval_vote option"

record request_view =
  rv_request :: approval_request
  rv_open :: bool
  rv_asked :: "asked_view list"
  rv_approved :: nat
  rv_rejected :: nat

record edge_view =
  e_key :: string
  e_from :: status_ref
  e_to :: status_ref
  e_action :: string
  e_requests :: "request_view list"
  e_others :: "approval_vote list"
  e_mine :: "approval_vote option"
  e_waitingOnMe :: bool
  e_history :: "approval_vote list"

record viewer =
  v_user :: "int option"
  v_person :: "int option"

definition edgeKey :: "int \<Rightarrow> int \<Rightarrow> string" where
  "edgeKey f t = int_text f @ ''>'' @ int_text t"

definition time_of :: "(int \<Rightarrow> int) \<Rightarrow> string \<Rightarrow> int" where
  "time_of tz s = (case date_parse tz s of None \<Rightarrow> 0 | Some t \<Rightarrow> t)"

definition voter_key :: "approval_vote \<Rightarrow> string" where
  "voter_key v = (if personId v \<noteq> 0 then ''p'' @ int_text (personId v) else ''u'' @ int_text (byId v))"

fun latest_loop :: "string list \<Rightarrow> approval_vote list \<Rightarrow> approval_vote list" where
  "latest_loop seen [] = []"
| "latest_loop seen (v # vs) =
     (if voter_key v \<in> set seen then latest_loop seen vs else v # latest_loop (voter_key v # seen) vs)"

definition latestPerVoter :: "approval_vote list \<Rightarrow> approval_vote list" where
  "latestPerVoter vs = latest_loop [] vs"

definition statuses :: "list_output \<Rightarrow> (string \<times> status_ref) list" where
  "statuses l = fold (\<lambda>r m. map_put (int_text (sr_id (ar_to r))) (ar_to r)
                        (map_put (int_text (sr_id (ar_from r))) (ar_from r) m)) (requests l)
     (fold (\<lambda>a m. map_put (int_text (sr_id (act_to a))) (act_to a)
                     (map_put (int_text (sr_id (act_from a))) (act_from a) m)) (flow_actions l) [])"

definition edge_labels :: "list_output \<Rightarrow> (string \<times> string) list" where
  "edge_labels l = fold (\<lambda>a m. map_put (edgeKey (sr_id (act_from a)) (sr_id (act_to a))) (act_label a) m)
     (flow_actions l) []"

definition status_ref_of :: "list_output \<Rightarrow> int \<Rightarrow> status_ref" where
  "status_ref_of l i = (case map_of (statuses l) (int_text i) of
     Some s \<Rightarrow> s
   | None \<Rightarrow> \<lparr>sr_id = i, sr_label = ''#'' @ int_text i, sr_phase = ''''\<rparr>)"

type_synonym edge_map = "(string \<times> edge_view) list"

definition edgeFor :: "list_output \<Rightarrow> status_ref \<Rightarrow> status_ref \<Rightarrow> string \<Rightarrow> edge_map \<Rightarrow> edge_view" where
  "edgeFor l f t action es = (let key = edgeKey (sr_id f) (sr_id t) in
     case map_of es key of
       Some e \<Rightarrow> e
     | None \<Rightarrow> \<lparr>e_key = key, e_from = f, e_to = t,
         e_action = (case map_of (edge_labels l) key of Some n \<Rightarrow> n | None \<Rightarrow> action),
         e_requests = [], e_others = [], e_mine = None, e_waitingOnMe = False, e_history = []\<rparr>)"

definition touch_request :: "list_output \<Rightarrow> approval_request \<Rightarrow> edge_map \<Rightarrow> edge_map" where
  "touch_request l r es = (let e = edgeFor l (ar_from r) (ar_to r) (ar_action r) es in map_put (e_key e) e es)"

definition push_vote :: "list_output \<Rightarrow> approval_vote \<Rightarrow> edge_map \<Rightarrow> edge_map" where
  "push_vote l v es =
     (let e = edgeFor l (status_ref_of l (fromId v)) (status_ref_of l (toId v)) (av_action v) es
      in map_put (e_key e) (e\<lparr>e_history := e_history e @ [v]\<rparr>) es)"

definition request_edge :: "approval_request \<Rightarrow> string" where
  "request_edge r = edgeKey (sr_id (ar_from r)) (sr_id (ar_to r))"

definition is_open :: "approval_request \<Rightarrow> bool" where
  "is_open r \<longleftrightarrow> reachedAt r = ''''"

definition view_request :: "(int \<Rightarrow> int) \<Rightarrow> approval_vote list \<Rightarrow> approval_request \<Rightarrow> request_view" where
  "view_request tz history r =
     (let open = is_open r;
          answers = latestPerVoter (if open then filter (\<lambda>v. \<not> settled v) history
            else filter (\<lambda>v. time_of tz (voted_at v) \<le> time_of tz (reachedAt r)) history);
          asked = map (\<lambda>p. \<lparr>av_person = ap_person p, av_name = ap_name p,
            av_vote = List.find (\<lambda>v. personId v = ap_person p) answers\<rparr>) (approvers r)
      in \<lparr>rv_request = r, rv_open = open, rv_asked = asked,
          rv_approved = length (filter (\<lambda>a. map_option decision (av_vote a) = Some Approve) asked),
          rv_rejected = length (filter (\<lambda>a. map_option decision (av_vote a) = Some Decline) asked)\<rparr>)"

definition compare_requests :: "(int \<Rightarrow> int) \<Rightarrow> request_view \<Rightarrow> request_view \<Rightarrow> int" where
  "compare_requests tz a b =
     (if rv_open a \<noteq> rv_open b then (if rv_open a then - 1 else 1)
      else cmp_of (time_of tz (requestedAt (rv_request b))) (time_of tz (requestedAt (rv_request a))))"

definition fill_edge :: "(int \<Rightarrow> int) \<Rightarrow> list_output \<Rightarrow> viewer \<Rightarrow> edge_view \<Rightarrow> edge_view" where
  "fill_edge tz l vw e =
     (let current = filter (\<lambda>v. \<not> settled v) (e_history e);
          mine_requests = filter (\<lambda>r. request_edge r = e_key e) (requests l);
          asked = concat (map (\<lambda>r. map ap_person (approvers r)) (filter is_open mine_requests));
          views = js_sort (compare_requests tz) (map (view_request tz (e_history e)) mine_requests);
          mine = (case v_user vw of None \<Rightarrow> None | Some u \<Rightarrow> List.find (\<lambda>v. byId v = u) current)
      in e\<lparr>e_requests := views,
           e_others := filter (\<lambda>v. personId v = 0 \<or> personId v \<notin> set asked) (latestPerVoter current),
           e_mine := mine,
           e_waitingOnMe := (case v_person vw of None \<Rightarrow> False | Some p \<Rightarrow>
             mine = None \<and> list_ex (\<lambda>rv. rv_open rv \<and> list_ex (\<lambda>a. ap_person a = p) (approvers (rv_request rv))) views)\<rparr>)"

definition lastTouch :: "(int \<Rightarrow> int) \<Rightarrow> edge_view \<Rightarrow> int" where
  "lastTouch tz e = fold max (map (\<lambda>v. time_of tz (voted_at v)) (e_history e) @
     map (\<lambda>r. time_of tz (requestedAt (rv_request r))) (e_requests e)) 0"

text \<open>\<open>None\<close> is positive infinity.\<close>

definition firstOpen :: "(int \<Rightarrow> int) \<Rightarrow> edge_view \<Rightarrow> int option" where
  "firstOpen tz e = (case map (\<lambda>r. time_of tz (requestedAt (rv_request r))) (filter rv_open (e_requests e)) of
     [] \<Rightarrow> None
   | t # ts \<Rightarrow> Some (fold min ts t))"

definition cmp_inf :: "int option \<Rightarrow> int option \<Rightarrow> int" where
  "cmp_inf a b = (case (a, b) of
     (None, None) \<Rightarrow> 0 | (None, Some y) \<Rightarrow> 1 | (Some x, None) \<Rightarrow> - 1 | (Some x, Some y) \<Rightarrow> cmp_of x y)"

definition compare_edges :: "(int \<Rightarrow> int) \<Rightarrow> edge_view \<Rightarrow> edge_view \<Rightarrow> int" where
  "compare_edges tz a b =
     then_cmp (cmp_inf (firstOpen tz a) (firstOpen tz b)) (cmp_of (lastTouch tz b) (lastTouch tz a))"

definition edge_map_of :: "list_output \<Rightarrow> edge_map" where
  "edge_map_of l = fold (push_vote l) (decisions l) (fold (touch_request l) (requests l) [])"

definition buildApprovalEdges :: "(int \<Rightarrow> int) \<Rightarrow> list_output \<Rightarrow> viewer \<Rightarrow> edge_view list" where
  "buildApprovalEdges tz l vw =
     js_sort (compare_edges tz) (map (\<lambda>(k, e). fill_edge tz l vw e) (edge_map_of l))"

section \<open>Choices and texts\<close>

definition actionChoices :: "list_output \<Rightarrow> approval_action list" where
  "actionChoices l = (let cur = map_option sr_id (cur_status l) in
     filter (\<lambda>a. Some (sr_id (act_from a)) = cur) (flow_actions l) @
     filter (\<lambda>a. Some (sr_id (act_from a)) \<noteq> cur) (flow_actions l))"

definition arrow :: string where
  "arrow = [CHR '' '', CHR 0xE2, CHR 0x86, CHR 0x92, CHR '' '']"

definition stepText :: "string \<Rightarrow> string \<Rightarrow> string \<Rightarrow> string" where
  "stepText action f t = (if action = '''' then f @ arrow @ t else f @ arrow @ t @ '' ('' @ action @ '')'')"

definition edgeLabel :: "string \<Rightarrow> status_ref \<Rightarrow> status_ref \<Rightarrow> string" where
  "edgeLabel action f t = stepText action (sr_label f) (sr_label t)"

definition voteWords :: "verdict \<Rightarrow> string" where
  "voteWords d = (case d of Approve \<Rightarrow> ''Voted approve'' | Decline \<Rightarrow> ''Voted reject'')"

end
