(* ===== verification/ApprovalsSpec.thy ===== *)
theory ApprovalsSpec
  imports Approvals
begin

text \<open>
  What the approvals section shows, stated over the lists the server sent: the partition of
  requests and votes into edges, the answers of an open request, and when the viewer is waited
  for. The comparators of the two sorts meet the contract of \<open>js_comparator\<close>.
\<close>

section \<open>Keys\<close>

definition vote_edge :: "approval_vote \<Rightarrow> string" where
  "vote_edge v = edgeKey (fromId v) (toId v)"

lemma edgeKey_inject [simp]: "edgeKey f t = edgeKey f' t' \<longleftrightarrow> f = f' \<and> t = t'"
proof
  have no: "CHR ''>'' \<notin> set (int_text i)" for i
  proof -
    have "\<not> is_digit CHR ''>''" by code_simp
    then show ?thesis using nat_text_digits by (auto simp: int_text_def list_all_iff)
  qed
  assume "edgeKey f t = edgeKey f' t'"
  then have "int_text f @ CHR ''>'' # int_text t = int_text f' @ CHR ''>'' # int_text t'"
    by (simp add: edgeKey_def)
  then have "int_text f = int_text f' \<and> int_text t = int_text t'"
    using no append_Cons_eq_iff [of "CHR ''>''" "int_text f" "int_text t" "int_text f'" "int_text t'"] by blast
  then show "f = f' \<and> t = t'" by simp
qed simp

definition keyed_statuses :: "(string \<times> status_ref) list \<Rightarrow> bool" where
  "keyed_statuses m \<longleftrightarrow> (\<forall>k s. map_of m k = Some s \<longrightarrow> k = int_text (sr_id s))"

lemma keyed_put: "keyed_statuses m \<Longrightarrow> keyed_statuses (map_put (int_text (sr_id s)) s m)"
  by (auto simp: keyed_statuses_def)

lemma keyed_statuses_of: "keyed_statuses (statuses l)"
proof -
  have a: "keyed_statuses m \<Longrightarrow> keyed_statuses (fold (\<lambda>a m. map_put (int_text (sr_id (act_to a))) (act_to a)
      (map_put (int_text (sr_id (act_from a))) (act_from a) m)) as m)" for as m
    by (induction as arbitrary: m) (auto intro: keyed_put)
  have r: "keyed_statuses m \<Longrightarrow> keyed_statuses (fold (\<lambda>r m. map_put (int_text (sr_id (ar_to r))) (ar_to r)
      (map_put (int_text (sr_id (ar_from r))) (ar_from r) m)) rs m)" for rs m
    by (induction rs arbitrary: m) (auto intro: keyed_put)
  have "keyed_statuses []" by (simp add: keyed_statuses_def)
  then show ?thesis unfolding statuses_def by (intro r a)
qed

lemma sr_id_status_ref_of [simp]: "sr_id (status_ref_of l i) = i"
proof (cases "map_of (statuses l) (int_text i)")
  case (Some s)
  then have "int_text i = int_text (sr_id s)" using keyed_statuses_of [of l] by (simp add: keyed_statuses_def)
  with Some show ?thesis by (simp add: status_ref_of_def)
qed (simp add: status_ref_of_def)

section \<open>The edge map\<close>

definition edges_ok :: "string set \<Rightarrow> approval_vote list \<Rightarrow> edge_map \<Rightarrow> bool" where
  "edges_ok ks vs es \<longleftrightarrow> distinct_keys es \<and> dom (map_of es) = ks \<union> vote_edge ` set vs \<and>
     (\<forall>k e. map_of es k = Some e \<longrightarrow> e_key e = k \<and> e_history e = filter (\<lambda>v. vote_edge v = k) vs)"

lemma edges_ok_fresh:
  "edges_ok ks vs es \<Longrightarrow> map_of es k = None \<Longrightarrow> filter (\<lambda>v. vote_edge v = k) vs = []"
  by (auto simp: edges_ok_def filter_empty_conv)

lemma edgeFor_ok:
  assumes "edges_ok ks vs es"
  shows "e_key (edgeFor l f t a es) = edgeKey (sr_id f) (sr_id t)"
    "e_history (edgeFor l f t a es) = filter (\<lambda>v. vote_edge v = edgeKey (sr_id f) (sr_id t)) vs"
  using assms edges_ok_fresh [OF assms]
  by (auto simp: edgeFor_def edges_ok_def Let_def split: option.split)

lemma edges_ok_put:
  assumes es: "edges_ok ks vs es" and e: "e_key e = k" "e_history e = filter (\<lambda>v. vote_edge v = k) vs'"
    and other: "\<And>k'. k' \<noteq> k \<Longrightarrow> filter (\<lambda>v. vote_edge v = k') vs' = filter (\<lambda>v. vote_edge v = k') vs"
    and ks: "insert k (ks \<union> vote_edge ` set vs) = ks' \<union> vote_edge ` set vs'"
  shows "edges_ok ks' vs' (map_put k e es)"
  unfolding edges_ok_def
proof (intro conjI allI impI)
  show "distinct_keys (map_put k e es)" using es by (auto simp: edges_ok_def intro: wf_intros)
  show "dom (map_of (map_put k e es)) = ks' \<union> vote_edge ` set vs'"
    using es ks by (simp add: edges_ok_def)
  fix k' e'
  assume "map_of (map_put k e es) k' = Some e'"
  then show "e_key e' = k'" "e_history e' = filter (\<lambda>v. vote_edge v = k') vs'"
    using es e other [of k'] by (auto simp: edges_ok_def split: if_splits)
qed

lemma touch_request_ok:
  assumes "edges_ok ks vs es"
  shows "edges_ok (insert (request_edge r) ks) vs (touch_request l r es)"
  unfolding touch_request_def Let_def edgeFor_ok(1) [OF assms]
  by (rule edges_ok_put [OF assms])
    (auto simp: edgeFor_ok [OF assms] request_edge_def)

lemma push_vote_ok:
  assumes "edges_ok ks vs es"
  shows "edges_ok ks (vs @ [v]) (push_vote l v es)"
  unfolding push_vote_def Let_def edgeFor_ok(1) [OF assms]
  by (rule edges_ok_put [OF assms])
    (auto simp: edgeFor_ok [OF assms] vote_edge_def)

lemma edge_map_ok: "edges_ok (request_edge ` set (requests l)) (decisions l) (edge_map_of l)"
proof -
  have "edges_ok ks [] es \<Longrightarrow> edges_ok (request_edge ` set rs \<union> ks) [] (fold (touch_request l) rs es)" for rs ks es
  proof (induction rs arbitrary: ks es)
    case (Cons r rs)
    show ?case using Cons.IH [OF touch_request_ok [OF Cons.prems, of r l]] by simp
  qed simp
  moreover have "edges_ok {} [] []" by (simp add: edges_ok_def distinct_keys_def)
  ultimately have "edges_ok (request_edge ` set (requests l)) [] (fold (touch_request l) (requests l) [])"
    by fastforce
  moreover have "edges_ok ks vs es \<Longrightarrow> edges_ok ks (vs @ ws) (fold (push_vote l) ws es)" for ks vs es ws
  proof (induction ws arbitrary: vs es)
    case (Cons w ws)
    show ?case using Cons.IH [OF push_vote_ok [OF Cons.prems, of w l]] by simp
  qed simp
  ultimately show ?thesis unfolding edge_map_of_def by fastforce
qed

section \<open>The partition\<close>

lemma fill_edge_fields [simp]:
  "e_key (fill_edge tz l vw e) = e_key e" "e_history (fill_edge tz l vw e) = e_history e"
  by (simp_all add: fill_edge_def Let_def)

lemma fill_edge_requests:
  "e_requests (fill_edge tz l vw e) =
     js_sort (compare_requests tz) (map (view_request tz (e_history e)) (filter (\<lambda>r. request_edge r = e_key e) (requests l)))"
  by (simp add: fill_edge_def Let_def)

lemma edge_in_map:
  assumes "e \<in> set (buildApprovalEdges tz l vw)"
  obtains e0 where "e = fill_edge tz l vw e0" "map_of (edge_map_of l) (e_key e0) = Some e0"
    "e_history e0 = filter (\<lambda>v. vote_edge v = e_key e0) (decisions l)"
proof -
  from assms obtain k e0 where e0: "e = fill_edge tz l vw e0" "(k, e0) \<in> set (edge_map_of l)"
    by (auto simp: buildApprovalEdges_def)
  have "distinct (map fst (edge_map_of l))" using edge_map_ok [of l] by (simp add: edges_ok_def distinct_keys_def)
  then have "map_of (edge_map_of l) k = Some e0" using e0(2) by simp
  then show thesis using that [of e0] e0(1) edge_map_ok [of l] by (auto simp: edges_ok_def)
qed

lemma rv_request_view [simp]: "rv_request (view_request tz h r) = r"
  by (simp add: view_request_def Let_def)

text \<open>C14: Grouping loses nothing and mixes nothing: there is exactly one edge for every pair of statuses a
  request or vote names, its history is the votes on that pair in the order of the list, and its
  requests are the requests on that pair, each once.\<close>

theorem approvals_partition:
  "(let es = buildApprovalEdges tz l vw in
    distinct (map e_key es) \<and> set (map e_key es) = request_edge ` set (requests l) \<union> vote_edge ` set (decisions l) \<and>
    (\<forall>e \<in> set es. e_history e = filter (\<lambda>v. vote_edge v = e_key e) (decisions l) \<and>
      mset (map rv_request (e_requests e)) = mset (filter (\<lambda>r. request_edge r = e_key e) (requests l))))"
proof -
  let ?es = "buildApprovalEdges tz l vw" and ?m = "edge_map_of l"
  have d: "distinct (map fst ?m)" and k: "\<forall>k e. map_of ?m k = Some e \<longrightarrow> e_key e = k"
    and dom: "dom (map_of ?m) = request_edge ` set (requests l) \<union> vote_edge ` set (decisions l)"
    using edge_map_ok [of l] by (simp_all add: edges_ok_def distinct_keys_def)
  have key: "e_key e = k" if "(k, e) \<in> set ?m" for k e
    using that d k by (metis map_of_is_SomeI)
  have "mset (map e_key ?es) = mset (map fst ?m)"
    unfolding buildApprovalEdges_def mset_map mset_js_sort
    by (simp add: image_mset.compositionality comp_def)
      (rule image_mset_cong, use key in \<open>auto simp: case_prod_beta\<close>)
  then have keys: "distinct (map e_key ?es)" "set (map e_key ?es) = set (map fst ?m)"
    using d mset_eq_imp_distinct_iff mset_eq_setD by blast+
  moreover have "set (map fst ?m) = dom (map_of ?m)" by (simp add: dom_map_of_conv_image_fst)
  moreover have "\<forall>e \<in> set ?es. e_history e = filter (\<lambda>v. vote_edge v = e_key e) (decisions l) \<and>
      mset (map rv_request (e_requests e)) = mset (filter (\<lambda>r. request_edge r = e_key e) (requests l))"
    by (auto elim!: edge_in_map simp: fill_edge_requests image_mset.compositionality comp_def)
  ultimately show ?thesis using dom by (simp add: Let_def)
qed

section \<open>Answers\<close>

lemma voter_key_person: "p \<noteq> 0 \<Longrightarrow> voter_key v = ''p'' @ int_text p \<longleftrightarrow> personId v = p"
  by (auto simp: voter_key_def)

lemma find_latest_loop:
  assumes p: "p \<noteq> 0"
  shows "List.find (\<lambda>v. personId v = p) (latest_loop seen vs) =
    (if ''p'' @ int_text p \<in> set seen then None else List.find (\<lambda>v. personId v = p) vs)"
proof (induction vs arbitrary: seen)
  case (Cons v vs)
  show ?case
  proof (cases "personId v = p")
    case True
    then have k: "voter_key v = ''p'' @ int_text p" using voter_key_person [OF p] by blast
    show ?thesis using True k Cons.IH [of seen] Cons.IH [of "voter_key v # seen"] by auto
  next
    case False
    then have k: "voter_key v \<noteq> ''p'' @ int_text p" using voter_key_person [OF p] by blast
    show ?thesis using False k Cons.IH [of seen] Cons.IH [of "voter_key v # seen"] by auto
  qed
qed simp

lemma find_latestPerVoter:
  "p \<noteq> 0 \<Longrightarrow> List.find (\<lambda>v. personId v = p) (latestPerVoter vs) = List.find (\<lambda>v. personId v = p) vs"
  by (simp add: latestPerVoter_def find_latest_loop)

lemma find_filter: "List.find P (filter Q xs) = List.find (\<lambda>x. Q x \<and> P x) xs"
  by (induction xs) auto

lemma find_None: "List.find P xs = None \<longleftrightarrow> (\<forall>x \<in> set xs. \<not> P x)"
  by (induction xs) auto

text \<open>C15: Every request of an edge lists exactly the people its request asks, in that order and with their names; it
  is open exactly when its step was not reached. Each person (an id other than 0) on an open request has the first
  vote in the server's list (newest first) that is theirs, on that pair of statuses and of the current round, or
  none; the counts are of those votes. The viewer is waited for exactly when some open request on the pair asks
  their person and their user has cast no vote on it in the current round.\<close>

theorem open_requests_show_current_votes:
  assumes "e \<in> set (buildApprovalEdges tz l vw)"
  shows "(\<forall>rv \<in> set (e_requests e).
      map (\<lambda>a. (av_person a, av_name a)) (rv_asked rv) = map (\<lambda>p. (ap_person p, ap_name p)) (approvers (rv_request rv)) \<and>
      (rv_open rv \<longleftrightarrow> reachedAt (rv_request rv) = '''') \<and>
      (rv_open rv \<longrightarrow> (\<forall>a \<in> set (rv_asked rv). av_person a \<noteq> 0 \<longrightarrow>
        av_vote a = List.find (\<lambda>v. vote_edge v = e_key e \<and> \<not> settled v \<and> personId v = av_person a) (decisions l))) \<and>
      rv_approved rv = length (filter (\<lambda>a. \<exists>v. av_vote a = Some v \<and> decision v = Approve) (rv_asked rv)) \<and>
      rv_rejected rv = length (filter (\<lambda>a. \<exists>v. av_vote a = Some v \<and> decision v = Decline) (rv_asked rv))) \<and>
    (e_waitingOnMe e \<longleftrightarrow> (\<exists>p. v_person vw = Some p \<and>
       (\<exists>r \<in> set (requests l). request_edge r = e_key e \<and> reachedAt r = '''' \<and> p \<in> ap_person ` set (approvers r)) \<and>
       (\<forall>u. v_user vw = Some u \<longrightarrow> (\<forall>v \<in> set (decisions l). vote_edge v = e_key e \<and> byId v = u \<longrightarrow> settled v))))"
proof -
  from assms obtain e0 where e: "e = fill_edge tz l vw e0"
    and h: "e_history e0 = filter (\<lambda>v. vote_edge v = e_key e0) (decisions l)"
    by (rule edge_in_map)
  have vote: "av_vote a = List.find (\<lambda>v. vote_edge v = e_key e \<and> \<not> settled v \<and> personId v = av_person a) (decisions l)"
    if "rv \<in> set (e_requests e)" "a \<in> set (rv_asked rv)" "rv_open rv" "av_person a \<noteq> 0" for rv a
    using that by (auto simp: e fill_edge_requests view_request_def Let_def find_latestPerVoter h find_filter
        intro!: arg_cong [of _ _ "\<lambda>P. List.find P (decisions l)"])
  have shown: "map (\<lambda>a. (av_person a, av_name a)) (rv_asked rv) = map (\<lambda>p. (ap_person p, ap_name p)) (approvers (rv_request rv)) \<and>
      (rv_open rv \<longleftrightarrow> reachedAt (rv_request rv) = '''') \<and>
      rv_approved rv = length (filter (\<lambda>a. \<exists>v. av_vote a = Some v \<and> decision v = Approve) (rv_asked rv)) \<and>
      rv_rejected rv = length (filter (\<lambda>a. \<exists>v. av_vote a = Some v \<and> decision v = Decline) (rv_asked rv))"
    if rv: "rv \<in> set (e_requests e)" for rv
  proof -
    obtain r where "rv = view_request tz (e_history e0) r" using rv by (auto simp: e fill_edge_requests)
    then show ?thesis by (simp add: view_request_def Let_def is_open_def comp_def)
  qed
  have "e_waitingOnMe e \<longleftrightarrow> (\<exists>p. v_person vw = Some p \<and>
       (\<exists>r \<in> set (requests l). request_edge r = e_key e \<and> reachedAt r = '''' \<and> p \<in> ap_person ` set (approvers r)) \<and>
       (\<forall>u. v_user vw = Some u \<longrightarrow> (\<forall>v \<in> set (decisions l). vote_edge v = e_key e \<and> byId v = u \<longrightarrow> settled v)))"
    by (auto simp: e fill_edge_def Let_def h find_None list_ex_iff view_request_def is_open_def split: option.split)
  with shown vote show ?thesis by blast
qed

section \<open>Order\<close>

lemma compare_requests_key:
  "compare_requests tz a b = then_cmp (cmp_of (\<not> rv_open a) (\<not> rv_open b))
     (cmp_of (time_of tz (requestedAt (rv_request b))) (time_of tz (requestedAt (rv_request a))))"
  by (auto simp: compare_requests_def then_cmp_def cmp_of_def)

interpretation by_request: js_comparator "compare_requests tz" for tz
  unfolding compare_requests_key [abs_def]
  by (intro js_comparator_then js_comparator_cmp_of js_comparator_flip_of)

interpretation by_edge: js_comparator "compare_edges tz" for tz
proof -
  have "js_comparator (\<lambda>a b. cmp_inf (firstOpen tz a) (firstOpen tz b))"
    by unfold_locales (auto simp: cmp_inf_def cmp_of_def split: option.splits if_splits)
  then show "js_comparator (compare_edges tz)"
    unfolding compare_edges_def by (intro js_comparator_then js_comparator_flip_of)
qed

text \<open>An edge with an open request is listed before every edge without one.\<close>

lemma open_edges_first:
  "sorted_wrt (\<lambda>a b. firstOpen tz a = None \<longrightarrow> firstOpen tz b = None) (buildApprovalEdges tz l vw)"
proof -
  have "compare_edges tz a b \<le> 0 \<Longrightarrow> firstOpen tz a = None \<longrightarrow> firstOpen tz b = None" for a b
    by (auto simp: compare_edges_def then_cmp_def cmp_inf_def split: option.splits if_splits)
  moreover have "sorted_wrt (\<lambda>a b. compare_edges tz a b \<le> 0) (buildApprovalEdges tz l vw)"
    using by_edge.ordered_sort [of tz] by (simp add: buildApprovalEdges_def by_edge.ordered_def)
  ultimately show ?thesis
    using sorted_wrt_mono_rel [of "buildApprovalEdges tz l vw" "\<lambda>a b. compare_edges tz a b \<le> 0"
      "\<lambda>a b. firstOpen tz a = None \<longrightarrow> firstOpen tz b = None"] by blast
qed

section \<open>Writes\<close>

text \<open>A vote's optional fields are sent exactly when they are given, the reason trimmed and not empty.\<close>

lemma encode_decide_fields:
  "prop_get (encode_decide i) ''task_id'' = JBig (di_task i)"
  "prop_get (encode_decide i) ''decision'' = JStr (verdict_text (di_decision i))"
  "prop_get (encode_decide i) ''approval_id'' = (case di_approval i of None \<Rightarrow> JUndef | Some v \<Rightarrow> JBig v)"
  "prop_get (encode_decide i) ''reason'' = (case di_reason i of None \<Rightarrow> JUndef
     | Some r \<Rightarrow> if js_trim r = '''' then JUndef else JStr (js_trim r))"
  by (simp_all add: encode_decide_def put_some_def split: option.split)

section \<open>Witness\<close>

definition wvote :: "int \<Rightarrow> int \<Rightarrow> bool \<Rightarrow> approval_vote" where
  "wvote i p s = \<lparr>av_id = i, byId = 100 + p, by_name = ''x'', personId = p, decision = Approve, fromId = 1, toId = 2,
     av_action = '''', av_status = None, reason = '''', voted_at = '''', settled = s, stale = False\<rparr>"

definition wrequest :: approval_request where
  "wrequest = \<lparr>ar_id = 9, ar_from = \<lparr>sr_id = 1, sr_label = ''Review'', sr_phase = ''active''\<rparr>,
     ar_to = \<lparr>sr_id = 2, sr_label = ''Done'', sr_phase = ''terminal''\<rparr>, ar_action = ''Approve'', ar_note = '''',
     requestedById = 1, requestedBy = '''', requestedAt = ''2024-01-01'', reachedAt = '''',
     approvers = [\<lparr>ap_person = 5, ap_name = ''Dana''\<rparr>, \<lparr>ap_person = 6, ap_name = ''Eli''\<rparr>], ar_comm = None\<rparr>"

definition wlist :: list_output where
  "wlist = \<lparr>cur_status = None, flow_actions = [], requests = [wrequest],
     decisions = [wvote 3 5 False, wvote 2 5 False, wvote 1 6 True]\<rparr>"

theorem open_requests_show_current_votes_witness:
  "(let e = hd (buildApprovalEdges (\<lambda>t. 0) wlist \<lparr>v_user = Some 106, v_person = Some 6\<rparr>) in
    e_waitingOnMe e \<and> map av_vote (rv_asked (hd (e_requests e))) = [Some (wvote 3 5 False), None])"
proof -
  let ?vw = "\<lparr>v_user = Some 106, v_person = Some 6\<rparr>"
  let ?e = "hd (buildApprovalEdges (\<lambda>t. 0) wlist ?vw)"
  have c: "length (buildApprovalEdges (\<lambda>t. 0) wlist ?vw) = 1" "e_key ?e = ''1>2''" "request_edge wrequest = ''1>2''"
    "map av_vote (rv_asked (hd (e_requests ?e))) = [Some (wvote 3 5 False), None]"
    by code_simp+
  then have e: "?e \<in> set (buildApprovalEdges (\<lambda>t. 0) wlist ?vw)"
    by (metis hd_in_set length_0_conv zero_neq_one)
  have "\<exists>r \<in> set (requests wlist). request_edge r = e_key ?e \<and> reachedAt r = '''' \<and> 6 \<in> ap_person ` set (approvers r)"
    unfolding c(2) by (rule bexI [of _ wrequest], use c(3) in \<open>simp add: wrequest_def\<close>, simp add: wlist_def)
  moreover have "\<forall>v \<in> set (decisions wlist). byId v = 106 \<longrightarrow> settled v"
    by (simp add: wlist_def wvote_def)
  ultimately have "e_waitingOnMe ?e"
    unfolding conjunct2 [OF open_requests_show_current_votes [OF e]] by auto
  with c(4) show ?thesis by (simp only: Let_def simp_thms)
qed

theorem approvals_partition_witness:
  "set (map e_key (buildApprovalEdges (\<lambda>t. 0) wlist \<lparr>v_user = None, v_person = None\<rparr>)) = {''1>2''}"
proof -
  have "request_edge wrequest = ''1>2''" "map vote_edge (decisions wlist) = [''1>2'', ''1>2'', ''1>2'']" by code_simp+
  moreover from this(2) have "vote_edge ` set (decisions wlist) = {''1>2''}"
    by (metis (no_types) insert_absorb2 list.simps(15) set_empty2 set_map empty_set)
  ultimately have "request_edge ` set (requests wlist) \<union> vote_edge ` set (decisions wlist) = {''1>2''}"
    by (simp add: wlist_def)
  then show ?thesis
    unfolding conjunct1 [OF conjunct2 [OF approvals_partition [of "\<lambda>t. 0" wlist "\<lparr>v_user = None, v_person = None\<rparr>", unfolded Let_def]]] .
qed

end
