(* ===== verification/ActivityText.thy ===== *)
theory ActivityText
  imports Approvals "HOL-Library.List_Lexorder" "HOL-Library.Char_ord"
begin

text \<open>
  The text of activity rows, \<^verbatim>\<open>task-detail/activity-text.ts\<close>: resolution of actors and values, tag
  differences, the one-line summary, the comments derived from the stream, and relative times.
  Resolver maps are objects keyed by the decimal text of ids, which is never the name of an
  inherited member; an absent map is \<open>None\<close>.

  Main results: the comment list has one entry per comment or vote and shows the newest edit of
  each; a row's tag difference is exactly the ids on one side only.
\<close>

section \<open>Rows and resolvers\<close>

type_synonym id_map = "string props"

record activity_row =
  act_id :: int
  act_card :: int
  navCardId :: "int option"
  navTitle :: "string option"
  navCardType :: "string option"
  act_cardType :: "string option"
  act_cardTitle :: "string option"
  act_kind :: string
  attributeName :: "string option"
  act_valueType :: "string option"
  valueOld :: js
  valueNew :: js
  act_refs :: "id_map option"
  commentBody :: "string option"
  actorId :: int
  actorName :: "string option"
  createdAt :: string

definition look :: "id_map option \<Rightarrow> string \<Rightarrow> string option" where
  "look m k = (case m of None \<Rightarrow> None | Some ps \<Rightarrow> map_of ps k)"

definition or_else :: "'a option \<Rightarrow> 'a option \<Rightarrow> 'a option" where
  "or_else a b = (case a of Some x \<Rightarrow> Some x | None \<Rightarrow> b)"

definition opt_or :: "'a option \<Rightarrow> 'a \<Rightarrow> 'a" where
  "opt_or a d = (case a of Some x \<Rightarrow> x | None \<Rightarrow> d)"

definition idKey :: "js \<Rightarrow> string option" where
  "idKey v = (case v of
     JBig i \<Rightarrow> Some (int_text i)
   | JNum (Fin x) \<Rightarrow> if is_int_rat x then Some (num_text (Fin x)) else None
   | JStr s \<Rightarrow> if s \<noteq> '''' \<and> list_all is_digit s then Some s else None
   | _ \<Rightarrow> None)"

definition strip_suffix :: "string \<Rightarrow> string \<Rightarrow> string" where
  "strip_suffix suf n =
     (if length suf \<le> length n \<and> drop (length n - length suf) n = suf then take (length n - length suf) n else n)"

definition underscores_to_spaces :: "string \<Rightarrow> string" where
  "underscores_to_spaces s = map (\<lambda>c. if c = CHR ''_'' then CHR '' '' else c) s"

definition humaniseAttribute :: "string \<Rightarrow> string" where
  "humaniseAttribute name = underscores_to_spaces (strip_suffix ''_ref'' name)"

definition resolveActor :: "activity_row \<Rightarrow> id_map option \<Rightarrow> string" where
  "resolveActor row userNames = (case actorName row of
     Some n \<Rightarrow> if n \<noteq> '''' then n
       else opt_or (look userNames (int_text (actorId row))) (''user#'' @ int_text (actorId row))
   | None \<Rightarrow> opt_or (look userNames (int_text (actorId row))) (''user#'' @ int_text (actorId row)))"

definition isEmptyValue :: "js \<Rightarrow> bool" where
  "isEmptyValue v \<longleftrightarrow> v = JNull \<or> v = JUndef \<or> v = JStr '''' \<or> v = JArr []"

section \<open>Values\<close>

definition em_dash :: string where
  "em_dash = [CHR 0xE2, CHR 0x80, CHR 0x94]"

text \<open>The titles the server resolved for this row, when they cover the whole value.\<close>

definition server_titles :: "id_map option \<Rightarrow> js \<Rightarrow> string option" where
  "server_titles refs v = (case refs of
     None \<Rightarrow> None
   | Some r \<Rightarrow> (case v of
       JArr xs \<Rightarrow>
         if xs = [] then Some em_dash
         else if list_all (\<lambda>x. case idKey x of None \<Rightarrow> False | Some k \<Rightarrow> map_of r k \<noteq> None) xs
         then Some (js_join '', '' (map (\<lambda>x. the (map_of r (the (idKey x)))) xs)) else None
     | _ \<Rightarrow> (case idKey v of None \<Rightarrow> None | Some k \<Rightarrow> map_of r k)))"

definition formatAttrValue ::
  "string option \<Rightarrow> js \<Rightarrow> id_map option \<Rightarrow> id_map option \<Rightarrow> id_map option \<Rightarrow> id_map option \<Rightarrow> string"
where
  "formatAttrValue attrName v userNames cardTitles tagPaths refs =
     (if v = JNull \<or> v = JUndef then em_dash
      else case server_titles refs v of
        Some t \<Rightarrow> t
      | None \<Rightarrow>
          if attrName = Some ''assignee'' \<or> attrName = Some ''originator'' then
            (case idKey v of
               Some k \<Rightarrow> opt_or (or_else (look userNames k) (look cardTitles k)) (''#'' @ k)
             | None \<Rightarrow> js_text v)
          else if attrName = Some ''tags'' then
            (case v of
               JArr xs \<Rightarrow>
                 if xs = [] then em_dash
                 else js_join '', '' (map (\<lambda>x. case idKey x of
                   None \<Rightarrow> js_text x | Some k \<Rightarrow> opt_or (look tagPaths k) (''#'' @ k)) xs)
             | _ \<Rightarrow> js_text v)
          else (case idKey v of
               Some k \<Rightarrow> opt_or (look cardTitles k) (js_text v)
             | None \<Rightarrow> js_text v))"

section \<open>Tag differences\<close>

definition idSet :: "js \<Rightarrow> string list" where
  "idSet v = (case v of JArr xs \<Rightarrow> dedup (List.map_filter idKey xs) | _ \<Rightarrow> [])"

definition tag_name :: "activity_row \<Rightarrow> id_map option \<Rightarrow> string \<Rightarrow> string" where
  "tag_name row tagPaths k = opt_or (or_else (look (act_refs row) k) (look tagPaths k)) (''#'' @ k)"

definition tagDiff :: "activity_row \<Rightarrow> id_map option \<Rightarrow> string list \<times> string list" where
  "tagDiff row tagPaths = (let oldIds = idSet (valueOld row); newIds = idSet (valueNew row) in
     (map (tag_name row tagPaths) (filter (\<lambda>k. k \<notin> set oldIds) newIds),
      map (tag_name row tagPaths) (filter (\<lambda>k. k \<notin> set newIds) oldIds)))"

definition string_field :: "js \<Rightarrow> string \<Rightarrow> string" where
  "string_field v k = (case prop_get (asObj v) k of JStr s \<Rightarrow> s | _ \<Rightarrow> '''')"

definition readFilename :: "js \<Rightarrow> string" where
  "readFilename v = string_field v ''filename''"

section \<open>Votes\<close>

definition vote_name :: "activity_row \<Rightarrow> js \<Rightarrow> string" where
  "vote_name a i = (let k = (if i = JNull \<or> i = JUndef then '''' else js_text i) in opt_or (look (act_refs a) k) (''#'' @ k))"

definition voteOf :: "activity_row \<Rightarrow> verdict \<times> string" where
  "voteOf a = (let vn = asObj (valueNew a) in
     (if prop_get vn ''decision'' = JStr ''approve'' then Approve else Decline,
      stepText (string_field (valueNew a) ''action'') (vote_name a (prop_get vn ''from_id'')) (vote_name a (prop_get vn ''to_id''))))"

section \<open>The one-line summary\<close>

definition attr_text :: "activity_row \<Rightarrow> string \<Rightarrow> id_map option \<Rightarrow> id_map option \<Rightarrow> id_map option \<Rightarrow> string" where
  "attr_text row actor userNames cardTitles tagPaths =
     (let name = opt_or (attributeName row) ''attribute'';
          label = humaniseAttribute name;
          fmt = (\<lambda>v. formatAttrValue (Some name) v userNames cardTitles tagPaths (act_refs row));
          oldEmpty = isEmptyValue (valueOld row); newEmpty = isEmptyValue (valueNew row)
      in if name = ''description'' then actor @ '' edited the description.''
         else if name = ''sort_order'' then actor @ '' reordered the card.''
         else if oldEmpty \<and> newEmpty then actor @ '' changed '' @ label @ ''.''
         else if oldEmpty then actor @ '' set '' @ label @ '' to '' @ fmt (valueNew row)
         else if newEmpty then actor @ '' cleared '' @ label @ '' (was '' @ fmt (valueOld row) @ '')''
         else actor @ '' changed '' @ label @ '' from '' @ fmt (valueOld row) @ '' to '' @ fmt (valueNew row))"

definition tags_text :: "activity_row \<Rightarrow> string \<Rightarrow> id_map option \<Rightarrow> string" where
  "tags_text row actor tagPaths = (let (added, removed) = tagDiff row tagPaths in
     if added = [] \<and> removed = [] then actor @ '' changed tags.''
     else if removed = [] then actor @ '' applied tag '' @ js_join '', '' added
     else if added = [] then actor @ '' removed tag '' @ js_join '', '' removed
     else actor @ '' applied '' @ js_join '', '' added @ '' and removed '' @ js_join '', '' removed)"

definition formatActivityText :: "activity_row \<Rightarrow> id_map option \<Rightarrow> id_map option \<Rightarrow> id_map option \<Rightarrow> string" where
  "formatActivityText row userNames cardTitles tagPaths =
     (let actor = resolveActor row userNames; k = act_kind row in
      if k = ''card_create'' then actor @ '' created the card.''
      else if k = ''card_delete'' then actor @ '' deleted the card.''
      else if k = ''card_undelete'' then actor @ '' restored the card.''
      else if k = ''card_move'' then actor @ '' moved the card.''
      else if k = ''comment'' then actor @ '' commented.''
      else if k = ''comment_edit'' then actor @ '' edited a comment.''
      else if k = ''tag_apply'' \<or> k = ''tag_remove'' then tags_text row actor tagPaths
      else if k = ''attr_update'' then attr_text row actor userNames cardTitles tagPaths
      else if k = ''attachment_create'' then
        (let fn = readFilename (valueNew row) in
         if fn \<noteq> '''' then actor @ '' attached '' @ fn else actor @ '' added an attachment.'')
      else if k = ''attachment_delete'' then
        (let fn = readFilename (valueOld row) in
         if fn \<noteq> '''' then actor @ '' removed '' @ fn else actor @ '' removed an attachment.'')
      else if k = ''approval_decision'' then
        (let (d, l) = voteOf row in actor @ '' voted to '' @ verdict_text d @ '' '' @ l)
      else actor @ '': '' @ k)"

section \<open>Comments\<close>

record comment_entry =
  ce_id :: int
  ce_body :: string
  ce_actor :: int
  ce_actorName :: "string option"
  ce_createdAt :: string
  ce_edited :: bool
  ce_vote :: "(verdict \<times> string) option"
  ce_thread :: "string option"

definition edit_of :: "activity_row \<Rightarrow> (string \<times> string) option" where
  "edit_of a =
     (if act_kind a \<noteq> ''comment_edit'' then None
      else if \<not> is_object (valueNew a) then None
      else let vn = asObj (valueNew a) in
        (case prop_get vn ''new_body'' of
           JStr body \<Rightarrow> Some (js_text (prop_get vn ''activity_id''), body)
         | _ \<Rightarrow> None))"

fun edited_bodies :: "activity_row list \<Rightarrow> (string \<times> string) list \<Rightarrow> (string \<times> string) list" where
  "edited_bodies [] m = m"
| "edited_bodies (a # as) m = (case edit_of a of
     None \<Rightarrow> edited_bodies as m
   | Some (key, body) \<Rightarrow> edited_bodies as (if map_of m key = None then map_put key body m else m))"

definition comment_entry_of :: "(string \<times> string) list \<Rightarrow> int option \<Rightarrow> activity_row \<Rightarrow> comment_entry" where
  "comment_entry_of edits focal a =
     (let key = int_text (act_id a) in
      \<lparr>ce_id = act_id a,
       ce_body = (case map_of edits key of Some b \<Rightarrow> b | None \<Rightarrow> opt_or (commentBody a) ''''),
       ce_actor = actorId a, ce_actorName = actorName a, ce_createdAt = createdAt a,
       ce_edited = (map_of edits key \<noteq> None),
       ce_vote = (if act_kind a = ''approval_decision'' then Some (voteOf a) else None),
       ce_thread = (case focal of
         None \<Rightarrow> None
       | Some f \<Rightarrow>
           if act_card a \<noteq> f \<and> act_cardType a = Some ''comm''
           then Some (case act_cardTitle a of Some t \<Rightarrow> if t \<noteq> '''' then t else ''an email thread'' | None \<Rightarrow> ''an email thread'')
           else None)\<rparr>)"

definition is_comment :: "activity_row \<Rightarrow> bool" where
  "is_comment a \<longleftrightarrow> act_kind a = ''comment'' \<or> act_kind a = ''approval_decision''"

definition deriveComments :: "activity_row list \<Rightarrow> int option \<Rightarrow> comment_entry list" where
  "deriveComments rows focal = map (comment_entry_of (edited_bodies rows []) focal) (filter is_comment rows)"

section \<open>Order and times\<close>

definition compareActivityDesc :: "activity_row \<Rightarrow> activity_row \<Rightarrow> int" where
  "compareActivityDesc a b = then_cmp (cmp_of (createdAt b) (createdAt a)) (cmp_of (act_id b) (act_id a))"

definition sortActivityDesc :: "activity_row list \<Rightarrow> activity_row list" where
  "sortActivityDesc rows = js_sort compareActivityDesc rows"

text \<open>\<open>Math.round(a / b)\<close> for a positive divisor.\<close>

definition round_div :: "int \<Rightarrow> int \<Rightarrow> int" where
  "round_div a b = (2 * a + b) div (2 * b)"

definition formatRelativeTime :: "(int \<Rightarrow> int) \<Rightarrow> string \<Rightarrow> int \<Rightarrow> string" where
  "formatRelativeTime tz stamp now = (case date_parse tz stamp of
     None \<Rightarrow> stamp
   | Some t \<Rightarrow>
       let sec = round_div (now - t) 1000; mn = round_div sec 60; hr = round_div mn 60;
           day = round_div hr 24; mon = round_div day 30; yr = round_div mon 12
       in if sec < 45 then ''just now''
          else if mn < 60 then int_text mn @ ''m ago''
          else if hr < 24 then int_text hr @ ''h ago''
          else if day < 30 then int_text day @ ''d ago''
          else if mon < 12 then int_text mon @ ''mo ago''
          else int_text yr @ ''y ago'')"

section \<open>What the comment list shows\<close>

lemma edited_bodies_first:
  "map_of (edited_bodies rows m) k = (case map_of m k of
     Some b \<Rightarrow> Some b
   | None \<Rightarrow> map_option snd (List.find (\<lambda>e. fst e = k) (List.map_filter edit_of rows)))"
proof (induction rows arbitrary: m)
  case (Cons a rows)
  show ?case
  proof (cases "edit_of a")
    case (Some e)
    then show ?thesis by (cases e) (auto simp: Cons.IH map_filter_simps split: option.split)
  qed (simp add: Cons.IH map_filter_simps split: option.split)
qed (simp add: map_filter_simps split: option.split)

text \<open>C17: From a stream that is newest first, the comment list has exactly one entry per comment or vote, in
  the order of the stream, with the body of the newest edit of that very comment when there is
  one, marked as edited, and otherwise its own body.\<close>

theorem comments_show_newest_edit:
  "map ce_id (deriveComments rows focal) = map act_id (filter is_comment rows) \<and>
   (\<forall>i < length (filter is_comment rows).
      let a = filter is_comment rows ! i; e = deriveComments rows focal ! i;
          edits = filter (\<lambda>(k, b). k = int_text (act_id a)) (List.map_filter edit_of rows)
      in ce_body e = (case edits of [] \<Rightarrow> opt_or (commentBody a) '''' | (k, b) # _ \<Rightarrow> b) \<and>
         (ce_edited e \<longleftrightarrow> edits \<noteq> []))"
proof -
  have ids: "ce_id \<circ> comment_entry_of m focal = act_id" for m
    by (simp add: fun_eq_iff comment_entry_of_def Let_def)
  have find: "map_option snd (List.find (\<lambda>e. fst e = k) es) = None \<longleftrightarrow> filter (\<lambda>(j, b). j = k) es = []"
    "map_option snd (List.find (\<lambda>e. fst e = k) es) =
       (case filter (\<lambda>(j, b). j = k) es of [] \<Rightarrow> None | (j, b) # _ \<Rightarrow> Some b)" for k es
    by (induction es) auto
  show ?thesis
    by (auto simp: deriveComments_def ids nth_map comment_entry_of_def Let_def edited_bodies_first find
        split: list.split)
qed

lemma tagDiff_unchanged: "set (idSet (valueOld row)) = set (idSet (valueNew row)) \<Longrightarrow> tagDiff row tp = ([], [])"
  by (auto simp: tagDiff_def Let_def filter_empty_conv)

interpretation by_activity: js_comparator compareActivityDesc
proof -
  have flip: "js_comparator (\<lambda>x y. cmp_of (f y) (f x))" for f :: "activity_row \<Rightarrow> 'b :: linorder"
    by unfold_locales (auto simp: cmp_of_le cmp_of_antisym)
  show "js_comparator compareActivityDesc"
    unfolding compareActivityDesc_def by (intro js_comparator_then flip)
qed

text \<open>Rows with distinct ids have one order, whatever order the server listed them in.\<close>

lemma sortActivityDesc_order_free:
  assumes "mset rows = mset rows'" and "inj_on act_id (set rows)"
  shows "sortActivityDesc rows = sortActivityDesc rows'"
  unfolding sortActivityDesc_def
proof (rule by_activity.sort_perm [OF assms(1)])
  fix x y
  assume "x \<in> set rows" "y \<in> set rows" "compareActivityDesc x y = 0"
  then show "x = y" using assms(2) by (auto simp: compareActivityDesc_def then_cmp_def inj_on_def split: if_splits)
qed

section \<open>Witnesses\<close>

definition wact :: "int \<Rightarrow> string \<Rightarrow> js \<Rightarrow> activity_row" where
  "wact i k v = \<lparr>act_id = i, act_card = 4, navCardId = None, navTitle = None, navCardType = None, act_cardType = Some ''task'',
     act_cardTitle = None, act_kind = k, attributeName = None, act_valueType = None, valueOld = JUndef, valueNew = v,
     act_refs = None, commentBody = Some ''first'', actorId = 2, actorName = Some ''Dana'', createdAt = ''2024-05-01T10:00:00Z''\<rparr>"

theorem comments_show_newest_edit_witness:
  "(let rows = [wact 8 ''comment_edit'' (JObj [(''activity_id'', JBig 7), (''new_body'', JStr ''second'')]), wact 7 ''comment'' JUndef]
    in map ce_id (deriveComments rows None) = [7] \<and> ce_body (deriveComments rows None ! 0) = ''second'')"
proof -
  let ?rows = "[wact 8 ''comment_edit'' (JObj [(''activity_id'', JBig 7), (''new_body'', JStr ''second'')]), wact 7 ''comment'' JUndef]"
  have c: "filter is_comment ?rows = [wact 7 ''comment'' JUndef]"
    "filter (\<lambda>(k, b). k = int_text 7) (List.map_filter edit_of ?rows) = [(int_text 7, ''second'')]"
    by code_simp+
  have i: "act_id (wact 7 ''comment'' JUndef) = 7" by (simp add: wact_def)
  have "map ce_id (deriveComments ?rows None) = [7]"
    using conjunct1 [OF comments_show_newest_edit [of ?rows None]] by (simp only: c list.map i)
  moreover have "ce_body (deriveComments ?rows None ! 0) = ''second''"
    using spec [OF conjunct2 [OF comments_show_newest_edit [of ?rows None]], of 0]
    by (simp only: c i Let_def nth_Cons_0) (simp add: i)
  ultimately show ?thesis by (simp only: Let_def simp_thms)
qed

end
