(* ===== verification/JsText.thy ===== *)
theory JsText
  imports Prelude
begin

text \<open>
  String methods the helper files share, and regular expressions: \<open>re.test(s)\<close> by derivatives,
  with \<open>rx_search_iff\<close> and \<open>rx_prefix_iff\<close> tying the executable tests to the language of the
  expression. Case mapping is of the ASCII letters.
\<close>

section \<open>Methods of strings\<close>

definition js_starts :: "string \<Rightarrow> string \<Rightarrow> bool" where
  "js_starts p s \<longleftrightarrow> take (length p) s = p"

definition js_ends :: "string \<Rightarrow> string \<Rightarrow> bool" where
  "js_ends p s \<longleftrightarrow> js_starts (rev p) (rev s)"

definition js_lower :: "string \<Rightarrow> string" where
  "js_lower s = map ascii_lower s"

text \<open>\<open>s.charAt(0).toUpperCase() + s.slice(1)\<close>.\<close>

definition js_capital :: "string \<Rightarrow> string" where
  "js_capital s = (case s of [] \<Rightarrow> [] | c # cs \<Rightarrow> ascii_upper c # cs)"

fun js_includes :: "string \<Rightarrow> string \<Rightarrow> bool" where
  "js_includes p [] = (p = [])"
| "js_includes p (c # cs) = (js_starts p (c # cs) \<or> js_includes p cs)"

text \<open>The text without the characters at its end for which \<open>f\<close> holds.\<close>

definition trim_right :: "(char \<Rightarrow> bool) \<Rightarrow> string \<Rightarrow> string" where
  "trim_right f s = rev (dropWhile f (rev s))"

text \<open>\<open>s.replace(/[f]+/g, r)\<close>: every maximal run of such characters becomes \<open>r\<close>.\<close>

function replace_runs :: "(char \<Rightarrow> bool) \<Rightarrow> string \<Rightarrow> string \<Rightarrow> string" where
  "replace_runs f r [] = []"
| "replace_runs f r (c # cs) =
     (if f c then r @ replace_runs f r (dropWhile f cs) else c # replace_runs f r cs)"
  by pat_completeness auto
termination
  by (relation "measure (\<lambda>(f, r, s). length s)") (auto simp: less_Suc_eq_le intro: length_dropWhile_le)

lemma js_starts_iff: "js_starts p s \<longleftrightarrow> (\<exists>r. s = p @ r)"
  by (metis append_eq_conv_conj append_take_drop_id js_starts_def)

lemma js_starts_append [simp]: "js_starts p (p @ s)"
  by (simp add: js_starts_def)

lemma js_ends_iff: "js_ends p s \<longleftrightarrow> (\<exists>r. s = r @ p)"
  unfolding js_ends_def js_starts_iff by (metis rev_append rev_rev_ident)

lemma js_includes_iff: "js_includes p s \<longleftrightarrow> (\<exists>a b. s = a @ p @ b)"
proof (induction s)
  case (Cons c s)
  have "(\<exists>a b. c # s = a @ p @ b) \<longleftrightarrow> (\<exists>b. c # s = p @ b) \<or> (\<exists>a b. s = a @ p @ b)"
    by (metis append_Cons append_Nil neq_Nil_conv list.inject)
  with Cons show ?case by (simp add: js_starts_iff)
qed auto

lemma trim_right_append:
  "list_all f t \<Longrightarrow> (s = [] \<or> \<not> f (last s)) \<Longrightarrow> trim_right f (s @ t) = s"
proof -
  assume t: "list_all f t" and s: "s = [] \<or> \<not> f (last s)"
  have "dropWhile f (rev t @ rev s) = rev s"
    using t s by (subst dropWhile_append2) (auto simp: list_all_iff, cases s rule: rev_cases, auto)
  then show ?thesis by (simp add: trim_right_def)
qed

lemma replace_runs_id: "list_all (\<lambda>c. \<not> f c) s \<Longrightarrow> replace_runs f r s = s"
  by (induction s) auto

section \<open>Regular expressions\<close>

text \<open>\<open>RChr\<close> is a character class; \<open>a+\<close> is written \<open>RSeq a (RStar a)\<close>.\<close>

datatype rx = REps | RFail | RChr "char \<Rightarrow> bool" | RSeq rx rx | RAlt rx rx | RStar rx

inductive rx_in :: "rx \<Rightarrow> string \<Rightarrow> bool" where
  "rx_in REps []"
| "f c \<Longrightarrow> rx_in (RChr f) [c]"
| "rx_in a s \<Longrightarrow> rx_in b t \<Longrightarrow> rx_in (RSeq a b) (s @ t)"
| "rx_in a s \<Longrightarrow> rx_in (RAlt a b) s"
| "rx_in b s \<Longrightarrow> rx_in (RAlt a b) s"
| "rx_in (RStar a) []"
| "rx_in a s \<Longrightarrow> rx_in (RStar a) t \<Longrightarrow> rx_in (RStar a) (s @ t)"

inductive_cases rx_in_FailE: "rx_in RFail s"
inductive_cases rx_in_SeqE: "rx_in (RSeq a b) s"

inductive_simps rx_in_simps: "rx_in REps s" "rx_in RFail s" "rx_in (RChr f) s" "rx_in (RSeq a b) s" "rx_in (RAlt a b) s"

fun rx_null :: "rx \<Rightarrow> bool" where
  "rx_null REps = True"
| "rx_null RFail = False"
| "rx_null (RChr f) = False"
| "rx_null (RSeq a b) = (rx_null a \<and> rx_null b)"
| "rx_null (RAlt a b) = (rx_null a \<or> rx_null b)"
| "rx_null (RStar a) = True"

fun rx_deriv :: "char \<Rightarrow> rx \<Rightarrow> rx" where
  "rx_deriv c (RChr f) = (if f c then REps else RFail)"
| "rx_deriv c (RSeq a b) =
     (if rx_null a then RAlt (RSeq (rx_deriv c a) b) (rx_deriv c b) else RSeq (rx_deriv c a) b)"
| "rx_deriv c (RAlt a b) = RAlt (rx_deriv c a) (rx_deriv c b)"
| "rx_deriv c (RStar a) = RSeq (rx_deriv c a) (RStar a)"
| "rx_deriv c _ = RFail"

text \<open>\<open>/^(r)$/\<close>, \<open>/^(r)/\<close> and \<open>/(r)/\<close>.\<close>

fun rx_whole :: "rx \<Rightarrow> string \<Rightarrow> bool" where
  "rx_whole r [] = rx_null r"
| "rx_whole r (c # cs) = rx_whole (rx_deriv c r) cs"

fun rx_prefix :: "rx \<Rightarrow> string \<Rightarrow> bool" where
  "rx_prefix r [] = rx_null r"
| "rx_prefix r (c # cs) = (rx_null r \<or> rx_prefix (rx_deriv c r) cs)"

fun rx_search :: "rx \<Rightarrow> string \<Rightarrow> bool" where
  "rx_search r [] = rx_null r"
| "rx_search r (c # cs) = (rx_prefix r (c # cs) \<or> rx_search r cs)"

fun rx_lit :: "string \<Rightarrow> rx" where
  "rx_lit [] = REps"
| "rx_lit [c] = RChr ((=) c)"
| "rx_lit (c # cs) = RSeq (RChr ((=) c)) (rx_lit cs)"

text \<open>A literal under the flag \<open>i\<close>; it is given in lower case.\<close>

fun rx_liti :: "string \<Rightarrow> rx" where
  "rx_liti [] = REps"
| "rx_liti (c # cs) = RSeq (RChr (\<lambda>d. ascii_lower d = c)) (rx_liti cs)"

fun rx_seq :: "rx list \<Rightarrow> rx" where
  "rx_seq [] = REps"
| "rx_seq [r] = r"
| "rx_seq (r # rs) = RSeq r (rx_seq rs)"

definition rx_plus :: "rx \<Rightarrow> rx" where
  "rx_plus r = RSeq r (RStar r)"

definition rx_opt :: "rx \<Rightarrow> rx" where
  "rx_opt r = RAlt REps r"

definition rx_none :: "string \<Rightarrow> rx" where
  "rx_none cs = RChr (\<lambda>c. c \<notin> set cs)"

lemma rx_null_iff: "rx_null r \<longleftrightarrow> rx_in r []"
proof (induction r)
  case (RStar r)
  then show ?case by (simp add: rx_in.intros)
qed (auto simp: rx_in_simps)

lemma rx_star_Cons:
  "rx_in (RStar a) (c # t) \<longleftrightarrow> (\<exists>u v. t = u @ v \<and> rx_in a (c # u) \<and> rx_in (RStar a) v)"
proof
  have "r = RStar a \<Longrightarrow> s = c # t \<Longrightarrow> \<exists>u v. t = u @ v \<and> rx_in a (c # u) \<and> rx_in (RStar a) v"
    if "rx_in r s" for r s
    using that
  proof (induction arbitrary: t rule: rx_in.induct)
    case (7 b s u)
    then show ?case by (cases s) auto
  qed auto
  then show "rx_in (RStar a) (c # t) \<Longrightarrow> \<exists>u v. t = u @ v \<and> rx_in a (c # u) \<and> rx_in (RStar a) v"
    by blast
qed (metis append_Cons rx_in.intros(7))

lemma rx_in_deriv: "rx_in (rx_deriv c r) s \<longleftrightarrow> rx_in r (c # s)"
proof (induction r arbitrary: s)
  case (RSeq a b)
  have "rx_in (RSeq a b) (c # s) \<longleftrightarrow>
      rx_in a [] \<and> rx_in b (c # s) \<or> (\<exists>u v. s = u @ v \<and> rx_in a (c # u) \<and> rx_in b v)"
    by (auto simp: rx_in_simps Cons_eq_append_conv)
  then show ?case
    by (auto simp: rx_in_simps RSeq.IH rx_null_iff)
next
  case (RStar a)
  then show ?case by (simp add: rx_star_Cons rx_in_simps)
qed (auto simp: rx_in_simps)

lemma rx_whole_iff: "rx_whole r s \<longleftrightarrow> rx_in r s"
  by (induction r s rule: rx_whole.induct) (simp_all add: rx_null_iff rx_in_deriv)

lemma rx_prefix_iff: "rx_prefix r s \<longleftrightarrow> (\<exists>u v. s = u @ v \<and> rx_in r u)"
proof (induction r s rule: rx_prefix.induct)
  case (2 r c cs)
  have "(\<exists>u v. c # cs = u @ v \<and> rx_in r u) \<longleftrightarrow> rx_in r [] \<or> (\<exists>u v. cs = u @ v \<and> rx_in r (c # u))"
    by (auto simp: Cons_eq_append_conv)
  with 2 show ?case by (simp add: rx_null_iff rx_in_deriv)
qed (simp add: rx_null_iff)

lemma rx_search_iff: "rx_search r s \<longleftrightarrow> (\<exists>a u b. s = a @ u @ b \<and> rx_in r u)"
proof (induction r s rule: rx_search.induct)
  case (2 r c cs)
  have "(\<exists>a u b. c # cs = a @ u @ b \<and> rx_in r u) \<longleftrightarrow>
      (\<exists>u v. c # cs = u @ v \<and> rx_in r u) \<or> (\<exists>a u b. cs = a @ u @ b \<and> rx_in r u)"
    by (metis append_Cons append_Nil neq_Nil_conv list.inject)
  with 2 show ?case unfolding rx_search.simps rx_prefix_iff by simp
qed (simp add: rx_null_iff)

end
