(* ===== verification/LinkSpecs.thy ===== *)
theory LinkSpecs
  imports JsText WireDecode
begin

text \<open>
  Links of a task, \<^verbatim>\<open>task-detail/link-specs.ts\<close>: the presentation of their kinds and states, the
  kind a URL suggests, and the wire shapes of the three calls. The two catalogs are object
  literals, so that a slug that names an inherited member reads that member (\<open>OffType\<close>).
\<close>

section \<open>Presentation\<close>

datatype link_tone = Neutral | Progress | Success | Muted

record link_kind_info =
  k_label :: string
  k_icon :: string
  codeChange :: bool

record link_state_info =
  s_label :: string
  s_tone :: link_tone
  s_icon :: "string option"

definition LINK_KINDS :: "link_kind_info props" where
  "LINK_KINDS =
     [(''gerrit'', \<lparr>k_label = ''Gerrit'', k_icon = ''git-pull-request'', codeChange = True\<rparr>),
      (''github'', \<lparr>k_label = ''GitHub'', k_icon = ''git-pull-request'', codeChange = True\<rparr>),
      (''gitlab'', \<lparr>k_label = ''GitLab'', k_icon = ''git-pull-request'', codeChange = True\<rparr>),
      (''issue'', \<lparr>k_label = ''Issue'', k_icon = ''link'', codeChange = False\<rparr>)]"

definition LINK_STATES :: "link_state_info props" where
  "LINK_STATES =
     [(''open'', \<lparr>s_label = ''Open'', s_tone = Progress, s_icon = None\<rparr>),
      (''reviewed'', \<lparr>s_label = ''Reviewed'', s_tone = Progress, s_icon = None\<rparr>),
      (''approved'', \<lparr>s_label = ''Approved'', s_tone = Success, s_icon = None\<rparr>),
      (''merged'', \<lparr>s_label = ''Merged'', s_tone = Success, s_icon = Some ''git-merge''\<rparr>),
      (''abandoned'', \<lparr>s_label = ''Abandoned'', s_tone = Muted, s_icon = Some ''git-pull-request-closed''\<rparr>)]"

definition PLAIN_KIND :: link_kind_info where
  "PLAIN_KIND = \<lparr>k_label = '''', k_icon = ''link'', codeChange = False\<rparr>"

definition humanise :: "string \<Rightarrow> string" where
  "humanise slug =
     (let words = js_trim (replace_runs (\<lambda>c. c = CHR ''-'' \<or> c = CHR ''_'') '' '' slug)
      in if words = [] then '''' else js_capital words)"

definition linkKindInfo :: "string \<Rightarrow> link_kind_info outcome" where
  "linkKindInfo kind = (case map_of LINK_KINDS kind of
     Some i \<Rightarrow> Return i
   | None \<Rightarrow>
       if kind \<in> set object_prototype_names then OffType kind
       else Return (if kind = '''' then PLAIN_KIND else PLAIN_KIND\<lparr>k_label := humanise kind\<rparr>))"

definition linkStateInfo :: "string \<Rightarrow> link_state_info option outcome" where
  "linkStateInfo state =
     (if state = '''' then Return None
      else case map_of LINK_STATES state of
        Some i \<Rightarrow> Return (Some i)
      | None \<Rightarrow>
          if state \<in> set object_prototype_names then OffType state
          else Return (Some \<lparr>s_label = humanise state, s_tone = Neutral, s_icon = None\<rparr>))"

definition linkIcon :: "string \<Rightarrow> string \<Rightarrow> string outcome" where
  "linkIcon kind state =
     obind (linkKindInfo kind) (\<lambda>k. obind (linkStateInfo state) (\<lambda>s.
       Return (case (if codeChange k then Option.bind s s_icon else None) of
         Some i \<Rightarrow> i | None \<Rightarrow> k_icon k)))"

section \<open>URLs\<close>

definition rx_digits :: rx where "rx_digits = rx_plus (RChr is_digit)"

definition gerrit_url :: "string \<Rightarrow> bool" where
  "gerrit_url = rx_search (rx_seq [rx_lit ''/c/'', rx_plus (rx_none ''?#''), rx_lit ''/+/'', rx_digits])"

definition github_url :: "string \<Rightarrow> bool" where
  "github_url = rx_prefix (rx_seq [rx_liti ''http'', rx_opt (rx_liti ''s''), rx_liti ''://github.com/'',
     rx_plus (rx_none ''/''), rx_lit ''/'', rx_plus (rx_none ''/''), rx_liti ''/pull/'', rx_digits])"

definition gitlab_url :: "string \<Rightarrow> bool" where
  "gitlab_url = rx_search (rx_seq [rx_lit ''/-/merge_requests/'', rx_digits])"

definition LINK_KIND_PATTERNS :: "(string \<times> (string \<Rightarrow> bool)) list" where
  "LINK_KIND_PATTERNS = [(''gerrit'', gerrit_url), (''github'', github_url), (''gitlab'', gitlab_url)]"

definition guessLinkKind :: "string \<Rightarrow> string" where
  "guessLinkKind url = (case find (\<lambda>(kind, test). test url) LINK_KIND_PATTERNS of
     Some (kind, test) \<Rightarrow> kind | None \<Rightarrow> '''')"

definition scheme_char :: "char \<Rightarrow> bool" where
  "scheme_char c \<longleftrightarrow> is_lower (ascii_lower c) \<or> is_digit c \<or> c \<in> set ''+.-''"

definition strip_scheme :: "string \<Rightarrow> string" where
  "strip_scheme url = (let rest = dropWhile scheme_char url in
     if url \<noteq> [] \<and> is_lower (ascii_lower (hd url)) \<and> js_starts ''://'' rest then drop 3 rest else url)"

definition displayUrl :: "string \<Rightarrow> string" where
  "displayUrl url = trim_right ((=) CHR ''/'') (strip_scheme url)"

definition isLinkableUrl :: "string \<Rightarrow> bool" where
  "isLinkableUrl raw \<longleftrightarrow>
     rx_whole (rx_seq [rx_liti ''http'', rx_opt (rx_liti ''s''), rx_liti ''://'', rx_plus (RChr (\<lambda>c. \<not> is_space c))])
       (js_trim raw)"

section \<open>The calls\<close>

record link_row =
  lk_id :: int
  lk_task :: int
  lk_url :: string
  lk_title :: string
  lk_kind :: string
  lk_state :: string
  lk_createdAt :: string
  lk_updatedAt :: string
  lk_createdById :: int
  lk_createdBy :: string

definition decodeLinkRow :: "js props \<Rightarrow> link_row" where
  "decodeLinkRow j =
     \<lparr>lk_id = asId (prop_get j ''id''), lk_task = asId (prop_get j ''task_id''), lk_url = asStr (prop_get j ''url''),
      lk_title = asStr (prop_get j ''title''), lk_kind = asStr (prop_get j ''kind''),
      lk_state = asStr (prop_get j ''state''), lk_createdAt = asStr (prop_get j ''created_at''),
      lk_updatedAt = asStr (prop_get j ''updated_at''), lk_createdById = asId (prop_get j ''created_by_id''),
      lk_createdBy = asStr (prop_get j ''created_by'')\<rparr>"

definition encode_link_list :: "int \<Rightarrow> js" where
  "encode_link_list taskId = JObj [(''task_id'', JBig taskId)]"

definition decode_link_list :: "js \<Rightarrow> link_row list" where
  "decode_link_list raw = map (\<lambda>r. decodeLinkRow (asObj r)) (asArray (prop_get (asObj raw) ''rows''))"

record link_set_input =
  ls_task :: int
  ls_url :: string
  ls_title :: "string option"
  ls_kind :: "string option"
  ls_state :: "string option"

definition put_text :: "string \<Rightarrow> string option \<Rightarrow> js props \<Rightarrow> js props" where
  "put_text k v m = (case v of None \<Rightarrow> m | Some s \<Rightarrow> obj_put k (JStr s) m)"

definition encode_link_set :: "link_set_input \<Rightarrow> js" where
  "encode_link_set i =
     JObj (put_text ''state'' (ls_state i) (put_text ''kind'' (ls_kind i) (put_text ''title'' (ls_title i)
       [(''task_id'', JBig (ls_task i)), (''url'', JStr (ls_url i))])))"

record link_set_output =
  lo_link :: int
  lo_created :: bool
  lo_changed :: bool

definition decode_link_set :: "js \<Rightarrow> link_set_output" where
  "decode_link_set raw = (let j = asObj raw in
     \<lparr>lo_link = asId (prop_get j ''link_id''), lo_created = asFlag (prop_get j ''created''),
      lo_changed = asFlag (prop_get j ''changed'')\<rparr>)"

definition encode_link_delete :: "int \<Rightarrow> js" where
  "encode_link_delete i = JObj [(''id'', JBig i)]"

definition decode_link_delete :: "js \<Rightarrow> bool" where
  "decode_link_delete raw = asFlag (prop_get (asObj raw) ''deleted'')"

section \<open>What a URL suggests\<close>

lemma rx_prefix_mono: "rx_prefix r s \<Longrightarrow> rx_prefix r (s @ t)"
  unfolding rx_prefix_iff by (metis append.assoc)

lemma rx_search_mono: "rx_search r s \<Longrightarrow> rx_search r (s @ t)"
  unfolding rx_search_iff by (metis append.assoc)

text \<open>The kinds are tried from the most to the least specific; a longer URL can only move up.\<close>

fun kind_rank :: "string \<Rightarrow> nat" where
  "kind_rank k = (if k = ''gerrit'' then 3 else if k = ''github'' then 2 else if k = ''gitlab'' then 1 else 0)"

lemma guess_known:
  "guessLinkKind u = '''' \<or> (\<exists>i. map_of LINK_KINDS (guessLinkKind u) = Some i \<and> codeChange i)"
  by (auto simp: guessLinkKind_def LINK_KIND_PATTERNS_def LINK_KINDS_def)

lemma url_mono:
  "gerrit_url u \<Longrightarrow> gerrit_url (u @ t)" "github_url u \<Longrightarrow> github_url (u @ t)" "gitlab_url u \<Longrightarrow> gitlab_url (u @ t)"
  unfolding gerrit_url_def github_url_def gitlab_url_def by (rule rx_search_mono rx_prefix_mono, assumption)+

lemma guess_mono: "kind_rank (guessLinkKind u) \<le> kind_rank (guessLinkKind (u @ t))"
  by (auto simp: guessLinkKind_def LINK_KIND_PATTERNS_def dest: url_mono)

text \<open>The kind guessed for a URL is empty or a known code-change source, so that its states swap the
  icon; a query or fragment behind a recognised URL never loses the kind.\<close>

theorem guessed_kind_stays:
  "(guessLinkKind u = '''' \<or> (\<exists>i. linkKindInfo (guessLinkKind u) = Return i \<and> codeChange i)) \<and>
   kind_rank (guessLinkKind u) \<le> kind_rank (guessLinkKind (u @ t))"
  using guess_known [of u] guess_mono [of u t] by (auto simp: linkKindInfo_def)

lemma guess_samples:
  "guessLinkKind ''https://gerrit.example.com/c/kitp/+/42'' = ''gerrit''"
  "guessLinkKind ''HTTPS://GitHub.com/a/b/pull/7/files'' = ''github''"
  "guessLinkKind ''https://gl.example/g/p/-/merge_requests/3'' = ''gitlab''"
  "guessLinkKind ''https://example.com/pull/7'' = ''''"
  by code_simp+

lemma url_samples:
  "displayUrl ''https://gerrit.example.com/c/kitp/+/42/'' = ''gerrit.example.com/c/kitp/+/42''"
  "displayUrl ''mailto:a'' = ''mailto:a''" "isLinkableUrl '' https://a.b/c ''" "\<not> isLinkableUrl ''https://a b''"
  "humanise ''in-review_now'' = ''In review now''"
  by code_simp+

end
