(* ===== verification/AttrSchema.thy ===== *)
theory AttrSchema
  imports LinkSpecs FilterPredicate JsSort
begin

text \<open>
  The filterable attributes of a card type, \<^verbatim>\<open>filter/attribute-schema.ts\<close>, the group and chip axes
  derived from them, \<^verbatim>\<open>filter/vocabulary.ts\<close>, and grouping by an exclusive tag root,
  \<^verbatim>\<open>filter/tag-prefix.ts\<close>. \<open>localeCompare\<close> depends on the locale of the browser and is the
  parameter \<open>collate\<close>; the results about order use only that it is a consistent comparison
  function, which the language requires. Tables keyed by a name are object literals: a name that
  \<open>Object.prototype\<close> defines reads the inherited member (\<open>OffType\<close>).
\<close>

section \<open>One attribute\<close>

type_synonym choice = "string \<times> string"

record attr_schema =
  a_name :: string
  a_label :: string
  a_type :: string
  a_target :: "string option"
  a_choices :: "choice list option"
  a_ops :: "op list option"
  a_sortable :: "bool option"
  a_meLabel :: "string option"

definition plain_attr :: "string \<Rightarrow> string \<Rightarrow> string \<Rightarrow> attr_schema" where
  "plain_attr name label valueType =
     \<lparr>a_name = name, a_label = label, a_type = valueType, a_target = None, a_choices = None, a_ops = None,
      a_sortable = None, a_meLabel = None\<rparr>"

record bound_card_type =
  b_typeId :: string
  b_typeName :: string
  b_required :: "bool option"
  b_builtIn :: "bool option"
  b_ordering :: "rat option"

record attribute_def =
  d_id :: string
  d_name :: string
  d_valueType :: string
  d_target :: "string option"
  d_builtIn :: bool
  d_enumManaged :: "bool option"
  d_boundTo :: "bound_card_type list"

definition friendlyLabel :: "string \<Rightarrow> string" where
  "friendlyLabel name =
     (let n = (if js_ends ''_ref'' name then take (length name - 4) name else name) in
      if n = '''' then name
      else js_join '' '' (map js_capital (filter (\<lambda>p. p \<noteq> []) (js_split CHR ''_'' n))))"

definition normalizeValueType :: "string \<Rightarrow> string" where
  "normalizeValueType rawType =
     (if rawType = ''card_ref'' \<or> rawType = ''card_ref[]'' then rawType
      else if rawType = ''user_ref'' then ''card_ref'' else rawType)"

definition ATTR_CHOICES :: "choice list props" where
  "ATTR_CHOICES =
     [(''link_state'', map (\<lambda>(value, info). (value, s_label info)) LINK_STATES),
      (''link_kind'', map (\<lambda>(value, info). (value, k_label info)) LINK_KINDS)]"

text \<open>A read of an object literal by a name it may inherit.\<close>

definition lit_get :: "'a props \<Rightarrow> string \<Rightarrow> 'a option outcome" where
  "lit_get m k = (case map_of m k of
     Some v \<Rightarrow> Return (Some v)
   | None \<Rightarrow> if k \<in> set object_prototype_names then OffType k else Return None)"

definition is_ref_type :: "string \<Rightarrow> bool" where
  "is_ref_type t \<longleftrightarrow> t = ''card_ref'' \<or> t = ''card_ref[]''"

definition attrSchemaFromDef :: "attribute_def \<Rightarrow> attr_schema outcome" where
  "attrSchemaFromDef d =
     (let valueType = normalizeValueType (d_valueType d);
          out = plain_attr (d_name d) (friendlyLabel (d_name d)) valueType;
          target = (if is_ref_type valueType \<and> d_target d \<noteq> Some '''' then d_target d else None)
      in if valueType = ''text''
         then obind (lit_get ATTR_CHOICES (d_name d)) (\<lambda>c. Return (out\<lparr>a_choices := c, a_target := target\<rparr>))
         else Return (out\<lparr>a_target := target\<rparr>))"

section \<open>The schema of a card type\<close>

definition MAX_SAFE_INTEGER :: rat where
  "MAX_SAFE_INTEGER = 9007199254740991"

definition bound_edge :: "string \<Rightarrow> attribute_def \<Rightarrow> bound_card_type option" where
  "bound_edge t d = find (\<lambda>b. b_typeName b = t) (d_boundTo d)"

definition edge_order :: "bound_card_type \<Rightarrow> rat" where
  "edge_order b = (case b_ordering b of Some n \<Rightarrow> n | None \<Rightarrow> MAX_SAFE_INTEGER)"

text \<open>A row of \<open>bound\<close>: the schema of a definition and the ordering of its edge.\<close>

fun bound_rows :: "string \<Rightarrow> attribute_def list \<Rightarrow> (attr_schema \<times> rat) list outcome" where
  "bound_rows t [] = Return []"
| "bound_rows t (d # ds) = (case bound_edge t d of
     None \<Rightarrow> bound_rows t ds
   | Some e \<Rightarrow> obind (attrSchemaFromDef d) (\<lambda>s. obind (bound_rows t ds) (\<lambda>rs. Return ((s, edge_order e) # rs))))"

definition compare_bound :: "(string \<Rightarrow> string \<Rightarrow> int) \<Rightarrow> attr_schema \<times> rat \<Rightarrow> attr_schema \<times> rat \<Rightarrow> int" where
  "compare_bound collate a b =
     then_cmp (cmp_of (snd a) (snd b)) (collate (a_label (fst a)) (a_label (fst b)))"

definition schemaForCardType ::
  "(string \<Rightarrow> string \<Rightarrow> int) \<Rightarrow> attribute_def list \<Rightarrow> string \<Rightarrow> attr_schema list outcome" where
  "schemaForCardType collate defs t =
     obind (bound_rows t defs) (\<lambda>bound. Return (map fst (js_sort (compare_bound collate) bound)))"

definition TOP_LEVEL_TIMESTAMP_FIELDS :: "attr_schema list" where
  "TOP_LEVEL_TIMESTAMP_FIELDS =
     [plain_attr ''last_activity_at'' ''Last activity'' ''timestamp'',
      plain_attr ''created_at'' ''Created'' ''timestamp'']"

definition WATCH_LIST_FIELD :: attr_schema where
  "WATCH_LIST_FIELD = (plain_attr ''watch_list'' ''On my watch list'' ''card_ref[]'')
     \<lparr>a_target := Some ''watch_list'', a_ops := Some [Op_in, Op_notIn], a_sortable := Some False,
      a_meLabel := Some ''Any of my lists''\<rparr>"

definition PROJECT_FIELD :: attr_schema where
  "PROJECT_FIELD = (plain_attr ''project'' ''Project'' ''card_ref[]'')
     \<lparr>a_target := Some ''project'', a_ops := Some [Op_in, Op_notIn], a_sortable := Some False\<rparr>"

definition approval_state_field :: attr_schema where
  "approval_state_field = (plain_attr ''approval_state'' ''Approval votes'' ''text'')
     \<lparr>a_choices := Some [(''open'', ''Votes missing''), (''rejected'', ''Has a reject vote''),
        (''approved'', ''All approved''), (''none'', ''No open request'')],
      a_ops := Some [Op_eq, Op_ne, Op_in, Op_notIn]\<rparr>"

definition approval_waiting_field :: attr_schema where
  "approval_waiting_field = (plain_attr ''approval_waiting_on'' ''Vote needed from'' ''card_ref[]'')
     \<lparr>a_target := Some ''person'', a_ops := Some [Op_in, Op_notIn], a_sortable := Some False\<rparr>"

definition DERIVED_FILTER_FIELDS :: "attr_schema list props" where
  "DERIVED_FILTER_FIELDS =
     [(''comm'', [WATCH_LIST_FIELD, PROJECT_FIELD]),
      (''task'', [approval_state_field, approval_waiting_field,
         plain_attr ''approval_asked_at'' ''Approval asked'' ''timestamp'', WATCH_LIST_FIELD, PROJECT_FIELD])]"

text \<open>\<open>table[name] ?? []\<close>.\<close>

definition list_of_type :: "'a list props \<Rightarrow> string \<Rightarrow> 'a list outcome" where
  "list_of_type table name =
     obind (lit_get table name) (\<lambda>v. Return (case v of None \<Rightarrow> [] | Some xs \<Rightarrow> xs))"

text \<open>The rows of an answer: those of no object, or absent rows, are none.\<close>

definition rows_of :: "js \<Rightarrow> js list outcome" where
  "rows_of out = (case prop_get (asObj out) ''rows'' of
     JUndef \<Rightarrow> Return [] | JNull \<Rightarrow> Return [] | JArr xs \<Rightarrow> Return xs | _ \<Rightarrow> OffType ''rows'')"

definition project_option :: "js \<Rightarrow> choice" where
  "project_option r =
     (let t = prop_get (asObj (prop_get (asObj r) ''attributes'')) ''title'';
          i = js_text (prop_get (asObj r) ''id'')
      in (i, case t of JStr s \<Rightarrow> if s \<noteq> '''' then s else CHR ''#'' # i | _ \<Rightarrow> CHR ''#'' # i))"

definition projectOptions :: "js \<Rightarrow> choice list outcome" where
  "projectOptions out =
     obind (rows_of out) (\<lambda>rows. Return (map project_option
       (filter (\<lambda>r. prop_get (asObj (prop_get (asObj r) ''attributes'')) ''is_template'' \<noteq> JBool True) rows)))"

definition derived_sources :: "string list" where
  "derived_sources = [''watch_list'', ''project'']"

definition derivedOptionTargets :: "string \<Rightarrow> string list outcome" where
  "derivedOptionTargets t =
     obind (list_of_type DERIVED_FILTER_FIELDS t) (\<lambda>fs. Return (fold (\<lambda>f out. case a_target f of
       None \<Rightarrow> out
     | Some x \<Rightarrow> if x \<in> set derived_sources \<and> x \<notin> set out then out @ [x] else out) fs []))"

definition isTopLevelField :: "string \<Rightarrow> bool" where
  "isTopLevelField name \<longleftrightarrow>
     list_ex (\<lambda>a. a_name a = name) TOP_LEVEL_TIMESTAMP_FIELDS \<or>
     list_ex (\<lambda>fields. list_ex (\<lambda>a. a_name a = name) fields) (map snd DERIVED_FILTER_FIELDS)"

definition CHILD_FILTER_TYPES :: "string list props" where
  "CHILD_FILTER_TYPES = [(''task'', [''link''])]"

definition child_field :: "string \<Rightarrow> attr_schema \<Rightarrow> attr_schema" where
  "child_field child a =
     (let prefix = child @ ''_'';
          own = (if js_starts prefix (a_name a) then drop (length prefix) (a_name a) else a_name a)
      in a\<lparr>a_name := child @ ''.'' @ a_name a, a_label := friendlyLabel child @ '' '' @ js_lower (friendlyLabel own)\<rparr>)"

definition childFieldsForCardType ::
  "(string \<Rightarrow> string \<Rightarrow> int) \<Rightarrow> attribute_def list \<Rightarrow> string \<Rightarrow> attr_schema list outcome" where
  "childFieldsForCardType collate defs t =
     obind (list_of_type CHILD_FILTER_TYPES t) (\<lambda>children.
       obind (otraverse (\<lambda>child. obind (schemaForCardType collate defs child)
           (\<lambda>as'. Return (map (child_field child) as'))) children) (\<lambda>xss. Return (concat xss)))"

datatype schema_source = SchemaRows "attr_schema list" | SchemaOf string

definition resolveSchema ::
  "(string \<Rightarrow> string \<Rightarrow> int) \<Rightarrow> schema_source \<Rightarrow> attribute_def list \<Rightarrow> attr_schema list outcome" where
  "resolveSchema collate source defs = (case source of
     SchemaRows rows \<Rightarrow> Return rows
   | SchemaOf t \<Rightarrow>
       obind (schemaForCardType collate defs t) (\<lambda>own.
       obind (childFieldsForCardType collate defs t) (\<lambda>children.
       obind (list_of_type DERIVED_FILTER_FIELDS t) (\<lambda>derived.
         Return (own @ children @ derived @ TOP_LEVEL_TIMESTAMP_FIELDS)))))"

definition CHOICE_OPS :: "op list" where
  "CHOICE_OPS = [Op_eq, Op_ne, Op_in, Op_notIn, Op_exists, Op_notExists]"

definition opsForAttr :: "attr_schema \<Rightarrow> op list outcome" where
  "opsForAttr a = (case a_ops a of
     Some ops \<Rightarrow> Return ops
   | None \<Rightarrow> if a_choices a \<noteq> None then Return CHOICE_OPS else opsForValueType (a_type a))"

definition findAttr :: "attr_schema list \<Rightarrow> string \<Rightarrow> attr_schema option" where
  "findAttr schema name = find (\<lambda>a. a_name a = name) schema"

section \<open>Group and chip axes\<close>

record ref_axis =
  ax_attr :: string
  ax_label :: string
  ax_target :: string
  ax_multi :: bool

record card_type_row =
  ct_id :: string
  ct_name :: string
  ct_parent :: "string option"

text \<open>The content check: the target's type has the card type itself as its parent.\<close>

definition child_content :: "card_type_row list \<Rightarrow> string \<Rightarrow> string \<Rightarrow> bool" where
  "child_content cardTypes t target =
     (case (find (\<lambda>c. ct_name c = t) cardTypes, map_of (fold (\<lambda>c. map_put (ct_name c) c) cardTypes []) target) of
        (Some self, Some row) \<Rightarrow> ct_parent row = Some (ct_id self)
      | _ \<Rightarrow> False)"

definition axis_of :: "card_type_row list \<Rightarrow> string \<Rightarrow> attr_schema \<Rightarrow> ref_axis option" where
  "axis_of cardTypes t a =
     (if \<not> is_ref_type (a_type a) then None
      else case a_target a of
        None \<Rightarrow> None
      | Some target \<Rightarrow>
          if target = '''' \<or> target = t \<or> child_content cardTypes t target then None
          else Some \<lparr>ax_attr = a_name a, ax_label = a_label a, ax_target = target,
                 ax_multi = (a_type a = ''card_ref[]'')\<rparr>)"

definition refAxesForCardType ::
  "(string \<Rightarrow> string \<Rightarrow> int) \<Rightarrow> attribute_def list \<Rightarrow> card_type_row list \<Rightarrow> string \<Rightarrow> ref_axis list outcome" where
  "refAxesForCardType collate defs cardTypes t =
     obind (schemaForCardType collate defs t) (\<lambda>as'. Return (List.map_filter (axis_of cardTypes t) as'))"

section \<open>Tag roots\<close>

definition TAG_PREFIX_OPTION :: string where
  "TAG_PREFIX_OPTION = ''tagpfx:''"

definition tagPrefixOptionValue :: "string \<Rightarrow> string" where
  "tagPrefixOptionValue r = TAG_PREFIX_OPTION @ r"

definition tagPrefixFromOptionValue :: "string option \<Rightarrow> string option" where
  "tagPrefixFromOptionValue value = (case value of
     None \<Rightarrow> None
   | Some v \<Rightarrow>
       if \<not> js_starts TAG_PREFIX_OPTION v then None
       else let r = drop (length TAG_PREFIX_OPTION) v in if r = '''' then None else Some r)"

definition tagLeaf :: "string \<Rightarrow> string" where
  "tagLeaf path = (let parts = filter (\<lambda>p. p \<noteq> []) (js_split CHR ''/'' path) in
     if parts = [] then path else last parts)"

definition tagRootLabel :: "string \<Rightarrow> string" where
  "tagRootLabel r = (if r = '''' then r else js_capital r)"

fun roots_loop :: "string option list \<Rightarrow> string list \<Rightarrow> string list" where
  "roots_loop [] out = out"
| "roots_loop (r # rs) out =
     (let rt = (case r of None \<Rightarrow> '''' | Some x \<Rightarrow> x) in
      if rt = '''' \<or> rt \<in> set out then roots_loop rs out else roots_loop rs (out @ [rt]))"

text \<open>The rows are given by their \<open>rootExclusiveAt\<close>; the set \<open>seen\<close> holds what \<open>out\<close> lists.\<close>

definition exclusiveRoots :: "string option list \<Rightarrow> string list" where
  "exclusiveRoots rows = roots_loop rows []"

definition tagIdUnderRoot :: "js \<Rightarrow> (string \<times> string) list \<Rightarrow> string \<Rightarrow> string option" where
  "tagIdUnderRoot cardTags rootById prefix = (case cardTags of
     JArr xs \<Rightarrow> find (\<lambda>key. map_of rootById key = Some prefix) (map js_text xs)
   | _ \<Rightarrow> None)"

section \<open>The schema of a card type is determined by its definitions\<close>

definition is_bound :: "string \<Rightarrow> attribute_def \<Rightarrow> bool" where
  "is_bound t d \<longleftrightarrow> bound_edge t d \<noteq> None"

definition bound_row :: "string \<Rightarrow> attribute_def \<Rightarrow> (attr_schema \<times> rat) outcome" where
  "bound_row t d = obind (attrSchemaFromDef d) (\<lambda>s. Return (s, edge_order (the (bound_edge t d))))"

lemma bound_rows_eq: "bound_rows t ds = otraverse (bound_row t) (filter (is_bound t) ds)"
proof (induction ds)
  case (Cons d ds)
  then show ?case
    by (cases "attrSchemaFromDef d") (auto simp: is_bound_def bound_row_def split: option.split)
qed simp

lemma attrSchemaFromDef_fields:
  assumes "attrSchemaFromDef d = Return s"
  shows "a_name s = d_name d" "a_label s = friendlyLabel (d_name d)"
    "a_type s = normalizeValueType (d_valueType d)"
    "a_target s = (if is_ref_type (normalizeValueType (d_valueType d)) \<and> d_target d \<noteq> Some '''' then d_target d else None)"
  using assms by (auto simp: attrSchemaFromDef_def plain_attr_def outcome_simps Let_def split: if_splits)

lemma bound_row_fields:
  assumes "bound_row t d = Return r"
  shows "attrSchemaFromDef d = Return (fst r)" "snd r = edge_order (the (bound_edge t d))"
  using assms by (auto simp: bound_row_def outcome_simps)

fun returned :: "'a outcome \<Rightarrow> 'a" where
  "returned (Return x) = x"
| "returned _ = undefined"

lemma otraverse_choice:
  "otraverse f xs = Return ys \<longleftrightarrow> (\<forall>x \<in> set xs. \<exists>y. f x = Return y) \<and> ys = map (\<lambda>x. returned (f x)) xs"
  unfolding otraverse_Return_iff by (induction xs arbitrary: ys) (auto simp: list_all2_Cons1)

lemma otraverse_perm:
  assumes "otraverse f xs = Return ys" and "mset xs = mset xs'"
  obtains ys' where "otraverse f xs' = Return ys'" "mset ys' = mset ys"
proof
  have s: "set xs' = set xs" using assms(2) by (metis set_mset_mset)
  show "otraverse f xs' = Return (map (\<lambda>x. returned (f x)) xs')"
    using assms(1) s by (simp add: otraverse_choice)
  show "mset (map (\<lambda>x. returned (f x)) xs') = mset ys"
    using assms by (simp add: otraverse_choice)
qed

lemma js_comparator_bound: "js_comparator collate \<Longrightarrow> js_comparator (compare_bound collate)"
  unfolding compare_bound_def
  by (rule js_comparator_then [OF js_comparator_cmp_of]) (rule js_comparator_on)

definition edge_of :: "string \<Rightarrow> attribute_def \<Rightarrow> rat" where
  "edge_of t d = edge_order (the (bound_edge t d))"

text \<open>The fields of a card type do not depend on the order in which the server lists the attribute
  definitions, as long as no two definitions bound to the type agree on ordering and label.\<close>

theorem schema_order_free:
  assumes col: "js_comparator collate" and m: "mset defs = mset defs'"
    and ties: "\<forall>a \<in> set defs. \<forall>b \<in> set defs. is_bound t a \<and> is_bound t b \<and> edge_of t a = edge_of t b \<and>
      collate (friendlyLabel (d_name a)) (friendlyLabel (d_name b)) = 0 \<longrightarrow> a = b"
    and ss: "schemaForCardType collate defs t = Return ss"
  shows "schemaForCardType collate defs' t = Return ss"
proof -
  from ss obtain rs where rs: "otraverse (bound_row t) (filter (is_bound t) defs) = Return rs"
    and ss': "ss = map fst (js_sort (compare_bound collate) rs)"
    by (auto simp: schemaForCardType_def bound_rows_eq outcome_simps simp flip: otraverse_Return_iff)
  have "mset (filter (is_bound t) defs) = mset (filter (is_bound t) defs')" using m by simp
  then obtain rs' where rs': "otraverse (bound_row t) (filter (is_bound t) defs') = Return rs'" "mset rs' = mset rs"
    using otraverse_perm [OF rs] by metis
  have "x = y" if "x \<in> set rs" "y \<in> set rs" "compare_bound collate x y = 0" for x y
  proof -
    from that(1,2) obtain a b where ab: "a \<in> set (filter (is_bound t) defs)" "bound_row t a = Return x"
        "b \<in> set (filter (is_bound t) defs)" "bound_row t b = Return y"
      using otraverse_Return_set [OF rs] by metis
    have "edge_of t a = edge_of t b" "collate (friendlyLabel (d_name a)) (friendlyLabel (d_name b)) = 0"
      using that(3) bound_row_fields [OF ab(2)] bound_row_fields [OF ab(4)]
      by (auto simp: compare_bound_def then_cmp_def edge_of_def attrSchemaFromDef_fields split: if_splits)
    then have "a = b" using ties ab(1,3) by auto
    with ab(2,4) show ?thesis by simp
  qed
  then have "js_sort (compare_bound collate) rs = js_sort (compare_bound collate) rs'"
    using rs'(2) js_comparator.sort_perm [OF js_comparator_bound [OF col], of rs rs'] by metis
  with rs'(1) ss' show ?thesis by (simp add: schemaForCardType_def bound_rows_eq)
qed

lemma schema_members:
  assumes "schemaForCardType collate defs t = Return ss"
  shows "a \<in> set ss \<longleftrightarrow> (\<exists>d \<in> set defs. is_bound t d \<and> attrSchemaFromDef d = Return a)"
proof -
  from assms obtain rs where rs: "otraverse (bound_row t) (filter (is_bound t) defs) = Return rs"
    and ss: "ss = map fst (js_sort (compare_bound collate) rs)"
    by (auto simp: schemaForCardType_def bound_rows_eq outcome_simps simp flip: otraverse_Return_iff)
  from rs have "list_all2 (\<lambda>d r. bound_row t d = Return r) (filter (is_bound t) defs) rs"
    by (simp add: otraverse_Return_iff)
  then have "set rs = {r. \<exists>d \<in> set (filter (is_bound t) defs). bound_row t d = Return r}"
    by (induction rule: list_all2_induct) auto
  then have "a \<in> set ss \<longleftrightarrow> (\<exists>d \<in> set (filter (is_bound t) defs). \<exists>r. bound_row t d = Return r \<and> fst r = a)"
    unfolding ss by force
  also have "\<dots> \<longleftrightarrow> (\<exists>d \<in> set defs. is_bound t d \<and> attrSchemaFromDef d = Return a)"
    by (auto simp: bound_row_def outcome_simps)
  finally show ?thesis .
qed

lemma schema_names:
  assumes "schemaForCardType collate defs t = Return ss"
  shows "mset (map a_name ss) = mset (map d_name (filter (is_bound t) defs))"
proof -
  from assms obtain rs where rs: "otraverse (bound_row t) (filter (is_bound t) defs) = Return rs"
    and ss: "ss = map fst (js_sort (compare_bound collate) rs)"
    by (auto simp: schemaForCardType_def bound_rows_eq outcome_simps simp flip: otraverse_Return_iff)
  from rs have "list_all2 (\<lambda>d r. bound_row t d = Return r) (filter (is_bound t) defs) rs"
    by (simp add: otraverse_Return_iff)
  then have "map (\<lambda>r. a_name (fst r)) rs = map d_name (filter (is_bound t) defs)"
    by (induction rule: list_all2_induct) (auto dest!: bound_row_fields(1) attrSchemaFromDef_fields(1))
  moreover have "mset (map a_name ss) = mset (map (\<lambda>r. a_name (fst r)) rs)"
    by (simp add: ss multiset.map_comp comp_def)
  ultimately show ?thesis by simp
qed

definition sample_defs :: "attribute_def list" where
  "sample_defs =
     [\<lparr>d_id = ''1'', d_name = ''milestone_ref'', d_valueType = ''card_ref'', d_target = Some ''milestone'', d_builtIn = True,
       d_enumManaged = None, d_boundTo = [\<lparr>b_typeId = ''9'', b_typeName = ''task'', b_required = None, b_builtIn = None, b_ordering = Some 20\<rparr>]\<rparr>,
      \<lparr>d_id = ''2'', d_name = ''parent_task'', d_valueType = ''card_ref'', d_target = Some ''task'', d_builtIn = True,
       d_enumManaged = None, d_boundTo = [\<lparr>b_typeId = ''9'', b_typeName = ''task'', b_required = None, b_builtIn = None, b_ordering = Some 10\<rparr>]\<rparr>,
      \<lparr>d_id = ''3'', d_name = ''link_state'', d_valueType = ''text'', d_target = None, d_builtIn = True,
       d_enumManaged = None, d_boundTo = [\<lparr>b_typeId = ''8'', b_typeName = ''link'', b_required = None, b_builtIn = None, b_ordering = None\<rparr>]\<rparr>]"

text \<open>Comparing texts by their length stands for a collation in the examples.\<close>

definition by_length :: "string \<Rightarrow> string \<Rightarrow> int" where
  "by_length a b = cmp_of (length a) (length b)"

lemma js_comparator_by_length: "js_comparator by_length"
  unfolding by_length_def by (rule js_comparator_cmp_of)

lemma sample_schema:
  "map_outcome (map a_label) (schemaForCardType by_length sample_defs ''task'') = Return [''Parent Task'', ''Milestone'']"
  "map_outcome (map a_label) (schemaForCardType by_length (rev sample_defs) ''task'') = Return [''Parent Task'', ''Milestone'']"
  "map_outcome (map (\<lambda>a. (a_name a, a_label a))) (resolveSchema by_length (SchemaOf ''task'') sample_defs) =
     Return [(''parent_task'', ''Parent Task''), (''milestone_ref'', ''Milestone''), (''link.link_state'', ''Link state''),
       (''approval_state'', ''Approval votes''), (''approval_waiting_on'', ''Vote needed from''),
       (''approval_asked_at'', ''Approval asked''), (''watch_list'', ''On my watch list''), (''project'', ''Project''),
       (''last_activity_at'', ''Last activity''), (''created_at'', ''Created'')]"
  by code_simp+

theorem schema_order_free_witness:
  "\<exists>ss. schemaForCardType by_length sample_defs ''task'' = Return ss \<and>
     schemaForCardType by_length (rev sample_defs) ''task'' = Return ss"
proof -
  obtain ss where ss: "schemaForCardType by_length sample_defs ''task'' = Return ss"
    using sample_schema(1) by (cases "schemaForCardType by_length sample_defs ''task''") auto
  have t: "\<forall>a \<in> set sample_defs. \<forall>b \<in> set sample_defs. is_bound ''task'' a \<and> is_bound ''task'' b \<and>
      edge_of ''task'' a = edge_of ''task'' b \<and>
      by_length (friendlyLabel (d_name a)) (friendlyLabel (d_name b)) = 0 \<longrightarrow> a = b"
    by (simp add: sample_defs_def is_bound_def bound_edge_def edge_of_def edge_order_def)
  show ?thesis using schema_order_free [OF js_comparator_by_length _ t ss, of "rev sample_defs"] ss by auto
qed

section \<open>Axes\<close>

text \<open>An attribute is offered as a group and chip axis exactly when a definition bound to the card type
  refers to cards, its target is neither the card type itself nor a content type whose parent is the
  card type, and the axis carries the name and target of that definition.\<close>

theorem axes_are_value_refs:
  assumes "refAxesForCardType collate defs cardTypes t = Return axes"
  shows "ax \<in> set axes \<longleftrightarrow> (\<exists>d \<in> set defs. \<exists>target. is_bound t d \<and>
    is_ref_type (normalizeValueType (d_valueType d)) \<and> d_target d = Some target \<and> target \<noteq> '''' \<and> target \<noteq> t \<and>
    \<not> child_content cardTypes t target \<and>
    ax = \<lparr>ax_attr = d_name d, ax_label = friendlyLabel (d_name d), ax_target = target,
          ax_multi = (d_valueType d = ''card_ref[]'')\<rparr>)"
proof -
  from assms obtain ss where ss: "schemaForCardType collate defs t = Return ss"
    and axes: "axes = List.map_filter (axis_of cardTypes t) ss"
    by (auto simp: refAxesForCardType_def outcome_simps)
  have multi: "normalizeValueType v = ''card_ref[]'' \<longleftrightarrow> v = ''card_ref[]''" for v
    by (simp add: normalizeValueType_def)
  have total: "\<exists>s. attrSchemaFromDef d = Return s" if "is_ref_type (normalizeValueType (d_valueType d))" for d
    using that by (auto simp: attrSchemaFromDef_def is_ref_type_def Let_def)
  have step: "attrSchemaFromDef d = Return s \<Longrightarrow> axis_of cardTypes t s = Some ax \<longleftrightarrow>
      (\<exists>target. is_ref_type (normalizeValueType (d_valueType d)) \<and> d_target d = Some target \<and> target \<noteq> '''' \<and>
         target \<noteq> t \<and> \<not> child_content cardTypes t target \<and>
         ax = \<lparr>ax_attr = d_name d, ax_label = friendlyLabel (d_name d), ax_target = target,
           ax_multi = (d_valueType d = ''card_ref[]'')\<rparr>)" for d s
    by (auto simp: axis_of_def attrSchemaFromDef_fields multi split: option.splits if_splits)
  have "ax \<in> set axes \<longleftrightarrow> (\<exists>s \<in> set ss. axis_of cardTypes t s = Some ax)"
    by (force simp: axes map_filter_def)
  also have "\<dots> \<longleftrightarrow> (\<exists>d \<in> set defs. is_bound t d \<and> (\<exists>s. attrSchemaFromDef d = Return s \<and> axis_of cardTypes t s = Some ax))"
    using schema_members [OF ss] by blast
  finally show ?thesis using step total by meson
qed

theorem axes_are_value_refs_witness:
  "\<exists>axes. refAxesForCardType by_length sample_defs [] ''task'' = Return axes \<and>
     \<lparr>ax_attr = ''milestone_ref'', ax_label = ''Milestone'', ax_target = ''milestone'', ax_multi = False\<rparr> \<in> set axes"
proof -
  have "map_outcome (\<lambda>_. ()) (refAxesForCardType by_length sample_defs [] ''task'') = Return ()"
    by code_simp
  then obtain axes where axes: "refAxesForCardType by_length sample_defs [] ''task'' = Return axes"
    by (cases "refAxesForCardType by_length sample_defs [] ''task''") auto
  have l: "friendlyLabel ''milestone_ref'' = ''Milestone''" by code_simp
  show ?thesis
    using axes axes_are_value_refs [OF axes,
        of "\<lparr>ax_attr = ''milestone_ref'', ax_label = ''Milestone'', ax_target = ''milestone'', ax_multi = False\<rparr>"] l
    by (simp add: sample_defs_def is_bound_def bound_edge_def normalizeValueType_def is_ref_type_def child_content_def)
qed

section \<open>Every filter field is found by its name\<close>

definition plain_name :: "string \<Rightarrow> bool" where
  "plain_name n \<longleftrightarrow> CHR ''.'' \<notin> set n \<and> \<not> isTopLevelField n"

lemma findAttr_distinct: "distinct (map a_name ss) \<Longrightarrow> a \<in> set ss \<Longrightarrow> findAttr ss (a_name a) = Some a"
  by (induction ss) (auto simp: findAttr_def image_iff)

lemma type_table:
  "list_of_type CHILD_FILTER_TYPES t = Return cs \<Longrightarrow> cs = [] \<or> cs = [''link'']"
  "list_of_type DERIVED_FILTER_FIELDS t = Return fs \<Longrightarrow> fs = [] \<or> fs \<in> set (map snd DERIVED_FILTER_FIELDS)"
  by (auto simp: list_of_type_def lit_get_def CHILD_FILTER_TYPES_def DERIVED_FILTER_FIELDS_def outcome_simps
      split: if_splits option.splits)

lemma top_names:
  "\<forall>fs \<in> set ([] # map snd DERIVED_FILTER_FIELDS).
     distinct (map a_name (fs @ TOP_LEVEL_TIMESTAMP_FIELDS)) \<and>
     (\<forall>a \<in> set (fs @ TOP_LEVEL_TIMESTAMP_FIELDS). isTopLevelField (a_name a) \<and> CHR ''.'' \<notin> set (a_name a))"
  by code_simp

lemma names_apart:
  "\<forall>x \<in> set xs. P (a_name x) \<Longrightarrow> \<forall>y \<in> set ys. \<not> P (a_name y) \<Longrightarrow>
   set (map a_name xs) \<inter> set (map a_name ys) = {}"
  by auto

lemma schema_plain:
  assumes "schemaForCardType collate defs t = Return ss" and "distinct (map d_name defs)"
    and "\<forall>d \<in> set defs. plain_name (d_name d)"
  shows "distinct (map a_name ss) \<and> (\<forall>a \<in> set ss. plain_name (a_name a))"
proof
  have "distinct (map d_name (filter (is_bound t) defs))"
    using assms(2) by (rule distinct_map_filter)
  then show "distinct (map a_name ss)"
    using schema_names [OF assms(1)] mset_eq_imp_distinct_iff by metis
  show "\<forall>a \<in> set ss. plain_name (a_name a)"
    using schema_members [OF assms(1)] assms(3) attrSchemaFromDef_fields(1) by metis
qed

text \<open>In the filter schema of a card type every field is found by its name and the own, child, derived
  and top-level fields do not hide each other, when the attribute definitions have distinct names,
  without a dot and none of a top-level field.\<close>

theorem filter_fields_are_found:
  assumes "resolveSchema collate (SchemaOf t) defs = Return ss" and "distinct (map d_name defs)"
    and "\<forall>d \<in> set defs. plain_name (d_name d)" and "a \<in> set ss"
  shows "findAttr ss (a_name a) = Some a"
proof (rule findAttr_distinct [OF _ assms(4)])
  from assms(1) obtain own cs ch fs where own: "schemaForCardType collate defs t = Return own"
    and ch: "childFieldsForCardType collate defs t = Return ch" and fs: "list_of_type DERIVED_FILTER_FIELDS t = Return fs"
    and ss: "ss = own @ ch @ fs @ TOP_LEVEL_TIMESTAMP_FIELDS"
    by (auto simp: resolveSchema_def outcome_simps)
  have top: "distinct (map a_name (fs @ TOP_LEVEL_TIMESTAMP_FIELDS))"
      "\<forall>a \<in> set (fs @ TOP_LEVEL_TIMESTAMP_FIELDS). isTopLevelField (a_name a) \<and> CHR ''.'' \<notin> set (a_name a)"
    using type_table(2) [OF fs] top_names by auto
  note o = schema_plain [OF own assms(2,3)]
  have c: "distinct (map a_name ch) \<and> (\<forall>a \<in> set ch. CHR ''.'' \<in> set (a_name a))"
  proof -
    from ch obtain kids xss where kids: "list_of_type CHILD_FILTER_TYPES t = Return kids"
      and xss: "otraverse (\<lambda>child. obind (schemaForCardType collate defs child)
           (\<lambda>as'. Return (map (child_field child) as'))) kids = Return xss" and ch': "ch = concat xss"
      unfolding childFieldsForCardType_def obind_Return by auto
    have n: "a_name (child_field c a) = c @ ''.'' @ a_name a" for c a
      by (simp add: child_field_def Let_def)
    from type_table(1) [OF kids] show ?thesis
    proof
      assume "kids = [''link'']"
      with xss obtain as' where as': "schemaForCardType collate defs ''link'' = Return as'"
        and xs: "xss = [map (child_field ''link'') as']"
        by (auto simp: outcome_simps list_all2_Cons1)
      show ?thesis using schema_plain [OF as' assms(2,3)]
        by (auto simp: ch' xs n distinct_map inj_on_def)
    qed (use xss ch' in \<open>auto simp: outcome_simps\<close>)
  qed
  have "set (map a_name own) \<inter> set (map a_name ch) = {}"
    by (rule names_apart [where P = "\<lambda>n. CHR ''.'' \<notin> set n"]) (use o c in \<open>auto simp: plain_name_def\<close>)
  moreover have "set (map a_name own) \<inter> set (map a_name (fs @ TOP_LEVEL_TIMESTAMP_FIELDS)) = {}"
    by (rule names_apart [where P = "\<lambda>n. \<not> isTopLevelField n"]) (use o top(2) in \<open>auto simp: plain_name_def\<close>)
  moreover have "set (map a_name ch) \<inter> set (map a_name (fs @ TOP_LEVEL_TIMESTAMP_FIELDS)) = {}"
    by (rule names_apart [where P = "\<lambda>n. CHR ''.'' \<in> set n"]) (use c top(2) in auto)
  moreover have "map a_name ss = map a_name own @ map a_name ch @ map a_name (fs @ TOP_LEVEL_TIMESTAMP_FIELDS)"
    by (simp only: ss map_append)
  moreover have "distinct (map a_name own)" "distinct (map a_name ch)" using o c by simp_all
  ultimately show "distinct (map a_name ss)"
    using top(1) by (simp only: distinct_append set_append Int_Un_distrib Un_empty simp_thms)
qed

theorem filter_fields_are_found_witness:
  "\<exists>ss a. resolveSchema by_length (SchemaOf ''task'') sample_defs = Return ss \<and> a \<in> set ss \<and>
     a_label a = ''Link state'' \<and> findAttr ss (a_name a) = Some a"
proof -
  obtain ss where ss: "resolveSchema by_length (SchemaOf ''task'') sample_defs = Return ss"
    and m: "(''link.link_state'', ''Link state'') \<in> set (map (\<lambda>a. (a_name a, a_label a)) ss)"
    using sample_schema(3) by (cases "resolveSchema by_length (SchemaOf ''task'') sample_defs") auto
  from m obtain a where a: "a \<in> set ss" "a_label a = ''Link state''" by auto
  have d: "distinct (map d_name sample_defs)" "\<forall>d \<in> set sample_defs. plain_name (d_name d)" by code_simp+
  show ?thesis using filter_fields_are_found [OF ss d a(1)] ss a by metis
qed

section \<open>Grouping by a tag root\<close>

lemma tag_option_roundtrip: "tagPrefixFromOptionValue (Some (tagPrefixOptionValue r)) = (if r = '''' then None else Some r)"
  by (simp add: tagPrefixFromOptionValue_def tagPrefixOptionValue_def)

lemma roots_loop_eq: "roots_loop rs out = out @ dedup_acc out (filter (\<lambda>r. r \<noteq> '''') (map (\<lambda>r. case r of None \<Rightarrow> '''' | Some x \<Rightarrow> x) rs))"
  by (induction rs arbitrary: out) (auto simp: Let_def)

lemma exclusiveRoots_eq:
  "exclusiveRoots rows = dedup (filter (\<lambda>r. r \<noteq> '''') (map (\<lambda>r. case r of None \<Rightarrow> '''' | Some x \<Rightarrow> x) rows))"
  by (simp add: exclusiveRoots_def roots_loop_eq dedup_def)

lemma find_perm:
  assumes "set xs = set ys" and "\<And>x y. x \<in> set xs \<Longrightarrow> y \<in> set xs \<Longrightarrow> P x \<Longrightarrow> P y \<Longrightarrow> x = y"
  shows "find P xs = find P ys"
proof (cases "find P xs")
  case None
  then show ?thesis using assms(1) by (metis find_None_iff)
next
  case (Some x)
  then have x: "x \<in> set xs" "P x" by (auto simp: find_Some_iff)
  then obtain y where y: "find P ys = Some y" using assms(1) by (cases "find P ys") (auto simp: find_None_iff)
  then have "y \<in> set xs" "P y" using assms(1) by (auto simp: find_Some_iff)
  with x y Some assms(2) show ?thesis by metis
qed

text \<open>When a card carries at most one tag under an exclusive root, the column it is put in is that tag's,
  whatever the order of its tags; it is put in none exactly when it carries no tag under the root. The
  roots offered are the non-empty ones of the tags, each once.\<close>

theorem one_tag_per_root:
  assumes "set xs = set ys"
    and "\<forall>a \<in> set xs. \<forall>b \<in> set xs. map_of rootById (js_text a) = Some r \<and> map_of rootById (js_text b) = Some r \<longrightarrow>
      js_text a = js_text b"
  shows "tagIdUnderRoot (JArr xs) rootById r = tagIdUnderRoot (JArr ys) rootById r \<and>
    (tagIdUnderRoot (JArr xs) rootById r = Some k \<longleftrightarrow> k \<in> js_text ` set xs \<and> map_of rootById k = Some r) \<and>
    (r \<in> set (exclusiveRoots rows) \<longleftrightarrow> r \<noteq> '''' \<and> Some r \<in> set rows)"
proof (intro conjI)
  show "tagIdUnderRoot (JArr xs) rootById r = tagIdUnderRoot (JArr ys) rootById r"
    using assms unfolding tagIdUnderRoot_def js.case by (intro find_perm) auto
  let ?P = "\<lambda>key. map_of rootById key = Some r"
  have u: "a = b" if "a \<in> js_text ` set xs" "b \<in> js_text ` set xs" "?P a" "?P b" for a b
    using that assms(2) by blast
  show "tagIdUnderRoot (JArr xs) rootById r = Some k \<longleftrightarrow> k \<in> js_text ` set xs \<and> map_of rootById k = Some r"
  proof (cases "find ?P (map js_text xs)")
    case None
    then have "\<forall>x \<in> set xs. \<not> ?P (js_text x)" by (simp add: find_None_iff)
    with None show ?thesis by (auto simp: tagIdUnderRoot_def)
  next
    case (Some a)
    then have "a \<in> js_text ` set xs" "?P a"
      by (auto simp: find_Some_iff)
    with Some u show ?thesis by (auto simp: tagIdUnderRoot_def)
  qed
  show "r \<in> set (exclusiveRoots rows) \<longleftrightarrow> r \<noteq> '''' \<and> Some r \<in> set rows"
    by (force simp: exclusiveRoots_eq split: option.splits)
qed

theorem one_tag_per_root_witness:
  "tagIdUnderRoot (JArr [JBig 4, JStr ''7'']) [(''7'', ''priority''), (''4'', ''area'')] ''priority'' =
   tagIdUnderRoot (JArr [JStr ''7'', JBig 4]) [(''7'', ''priority''), (''4'', ''area'')] ''priority''"
proof -
  have "int_text 4 \<noteq> ''7''" "int_text 4 = ''4''" by code_simp+
  then show ?thesis
    using one_tag_per_root [of "[JBig 4, JStr ''7'']" "[JStr ''7'', JBig 4]" "[(''7'', ''priority''), (''4'', ''area'')]" "''priority''"]
    by auto
qed

lemma tag_samples:
  "tagLeaf ''priority/high'' = ''high''" "tagLeaf ''high/'' = ''high''" "tagLeaf ''/'' = ''/''"
  "tagRootLabel ''priority'' = ''Priority''"
  by code_simp+

end
