(* ===== verification/ActivityFeed.thy ===== *)
theory ActivityFeed
  imports ActivityText JsNumber Json AttrSchema
begin

text \<open>
  The activity page's model, \<^verbatim>\<open>activity/activity-model.ts\<close>: rows to days, to groups of changes of one
  card, to one line per rolled-up change. The lines the source mutates through several maps are
  indices into the list of lines; its sets are insertion-ordered lists. Names of card types and
  attributes are ASCII identifiers, never the name of an inherited object member. The calendar of
  the local time zone is \<open>JsDate\<close>; the words of the locale are the parameter \<open>date_words\<close>.

  Main results: the feed holds exactly the rows, in order, each group of one card and each day of
  one date; tag changes net out.
\<close>

section \<open>Vocabulary\<close>

definition CARD_TYPE_LABELS :: "string props" where
  "CARD_TYPE_LABELS =
     [(''task'', ''Task''), (''link'', ''Link''), (''comm'', ''Email thread''), (''reply_body'', ''Email''),
      (''person'', ''Person''), (''filter'', ''Saved view''), (''screen'', ''Screen''),
      (''predicate_snippet'', ''Saved filter''), (''activity_subscription'', ''Notification''),
      (''activity_sink'', ''Activity sink''), (''comm_channel'', ''Email channel'')]"

definition capitalise :: "string \<Rightarrow> string" where
  "capitalise s = (case s of [] \<Rightarrow> [] | c # cs \<Rightarrow> ascii_upper c # cs)"

definition cardTypeLabel :: "string \<Rightarrow> string" where
  "cardTypeLabel cardType = (case map_of CARD_TYPE_LABELS cardType of
     Some known \<Rightarrow> known
   | None \<Rightarrow> let h = js_trim (underscores_to_spaces cardType) in if h = '''' then ''Card'' else capitalise h)"

definition HIDDEN_ATTRS :: "string list" where
  "HIDDEN_ATTRS = [''replies'', ''comms'', ''thread_id'', ''acked'', ''reply_author'', ''sort_order'',
     ''approval_from'', ''approval_to'', ''approval_action'', ''approval_comm'']"

definition NAME_ATTRS :: "string list" where
  "NAME_ATTRS = [''title'', ''reply_subject'']"

definition KIND_GROUPS :: "(string \<times> string \<times> string list) list" where
  "KIND_GROUPS =
     [(''created'', ''Created'', [''card_create'']),
      (''changed'', ''Field changes'', [''attr_update'', ''card_set_phase'']),
      (''tags'', ''Tags'', [''tag_apply'', ''tag_remove'']),
      (''comments'', ''Comments'', [''comment'', ''comment_edit'']),
      (''approvals'', ''Approval votes'', [''approval_decision'']),
      (''attachments'', ''Attachments'', [''attachment_create'', ''attachment_delete'']),
      (''moved'', ''Moves & merges'', [''card_move'', ''task_move'', ''card_merge'']),
      (''deleted'', ''Deleted & restored'', [''card_delete'', ''card_undelete''])]"

definition kindsForGroups :: "string list \<Rightarrow> string list" where
  "kindsForGroups keys = concat (map (\<lambda>(k, l, kinds). kinds) (filter (\<lambda>(k, l, kinds). k \<in> set keys) KIND_GROUPS))"

definition GROUP_GAP_MS :: int where "GROUP_GAP_MS = 3 * 60 * 60 * 1000"
definition LONG_TEXT :: nat where "LONG_TEXT = 80"
definition EXCERPT :: nat where "EXCERPT = 280"

section \<open>Texts\<close>

function collapse_ws :: "string \<Rightarrow> string" where
  "collapse_ws [] = []"
| "collapse_ws (c # cs) =
     (if is_space c then CHR '' '' # collapse_ws (dropWhile is_space cs) else c # collapse_ws cs)"
  by pat_completeness auto
termination
  by (relation "measure length") (auto simp: less_Suc_eq_le intro: length_dropWhile_le)

definition ellipsis :: string where "ellipsis = [CHR 0xE2, CHR 0x80, CHR 0xA6]"
definition curly :: "string \<Rightarrow> string" where
  "curly s = [CHR 0xE2, CHR 0x80, CHR 0x9C] @ s @ [CHR 0xE2, CHR 0x80, CHR 0x9D]"

definition trim_end :: "string \<Rightarrow> string" where
  "trim_end s = rev (dropWhile is_space (rev s))"

definition clip :: "string \<Rightarrow> nat \<Rightarrow> string" where
  "clip s n = (let one = js_trim (collapse_ws s) in
     if length one \<le> n then one else trim_end (take (n - 1) one) @ ellipsis)"

definition isLongText :: "js \<Rightarrow> bool" where
  "isLongText v \<longleftrightarrow> (case v of JStr s \<Rightarrow> LONG_TEXT < length s \<or> CHR 0x0A \<in> set s | _ \<Rightarrow> False)"

definition isJsonText :: "js \<Rightarrow> bool" where
  "isJsonText v \<longleftrightarrow> (case v of
     JStr s \<Rightarrow> (let t = js_trim s in
       (take 1 t = ''{'' \<or> take 1 t = ''['') \<and> (case json_parse t of Return x \<Rightarrow> True | _ \<Rightarrow> False))
   | _ \<Rightarrow> False)"

definition displayValue :: "activity_row \<Rightarrow> js \<Rightarrow> id_map \<Rightarrow> string" where
  "displayValue row v userNames =
     (if isEmptyValue v then em_dash
      else let a = opt_or (attributeName row) '''' in
        (case (case v of JStr s \<Rightarrow> map_of (opt_or (map_of ATTR_CHOICES a) []) s | _ \<Rightarrow> None) of
           Some label \<Rightarrow> label
         | None \<Rightarrow> (case v of
             JBool b \<Rightarrow> if b then ''yes'' else ''no''
           | _ \<Rightarrow> clip (formatAttrValue (Some a) v (Some userNames) None None (act_refs row)) LONG_TEXT)))"

definition starts_with :: "string \<Rightarrow> string \<Rightarrow> bool" where
  "starts_with p s \<longleftrightarrow> take (length p) s = p"

definition attrLabel :: "activity_row \<Rightarrow> string" where
  "attrLabel row =
     (let name = opt_or (attributeName row) ''''; prefix = opt_or (act_cardType row) '''' @ ''_'';
          own = (if prefix \<noteq> ''_'' \<and> starts_with prefix name then drop (length prefix) name else name)
      in capitalise (humaniseAttribute own))"

definition subjectOf :: "activity_row \<Rightarrow> int \<Rightarrow> string" where
  "subjectOf row navId =
     (if act_card row = navId then ''''
      else let type = cardTypeLabel (opt_or (act_cardType row) ''''); title = opt_or (act_cardTitle row) ''''
        in if title = '''' then type else type @ '' '' @ curly (clip title 60))"

definition readId :: "js \<Rightarrow> string" where
  "readId v = opt_or (idKey v) ''''"

definition refTitle :: "activity_row \<Rightarrow> string \<Rightarrow> string" where
  "refTitle row i = (case (if i = '''' then None else look (act_refs row) i) of
     None \<Rightarrow> '''' | Some t \<Rightarrow> if t = '''' then '''' else curly (clip t 60))"

definition or_dash :: "js \<Rightarrow> string" where
  "or_dash v = (if v = JNull \<or> v = JUndef then em_dash else js_text v)"

definition eventLabel :: "activity_row \<Rightarrow> string" where
  "eventLabel row = (let k = act_kind row in
     if k = ''card_delete'' then ''Deleted''
     else if k = ''card_undelete'' then ''Restored''
     else if k = ''card_move'' then
       (let to = refTitle row (readId (valueNew row)) in if to = '''' then ''Moved'' else ''Moved under '' @ to)
     else if k = ''task_move'' then
       (let to = refTitle row (readId (prop_get (asObj (valueNew row)) ''new_project_id'')) in
        if to = '''' then ''Moved to another project'' else ''Moved to project '' @ to)
     else if k = ''card_merge'' then ''Merged duplicates''
     else if k = ''card_set_phase'' then ''Phase '' @ or_dash (valueOld row) @ arrow @ or_dash (valueNew row)
     else if k = ''attachment_create'' then
       (let fn = string_field (valueNew row) ''filename'' in
        if fn = '''' then ''Added an attachment'' else ''Attached '' @ curly fn)
     else if k = ''attachment_delete'' then
       (let fn = string_field (valueOld row) ''filename'' in
        if fn = '''' then ''Removed an attachment'' else ''Removed attachment '' @ curly fn)
     else capitalise (underscores_to_spaces k))"

section \<open>Lines\<close>

datatype verb = V_created | V_attr | V_tags | V_comment | V_event

record feed_line =
  l_verb :: verb
  l_card :: int
  l_subject :: string
  l_label :: string
  l_old :: "string option"
  l_new :: "string option"
  l_edited :: "bool option"
  l_added :: "string list option"
  l_removed :: "string list option"
  l_body :: "string option"
  l_details :: "(string \<times> string) list"
  l_count :: nat
  l_actors :: "string list"
  l_at :: string

record creation =
  cr_line :: nat
  cr_at :: string
  cr_actor :: int

record tag_line =
  tl_line :: nat
  tl_added :: "string list"
  tl_removed :: "string list"

record lines_state =
  lines :: "feed_line list"
  attrLines :: "(string \<times> nat) list"
  tagLines :: "(string \<times> tag_line) list"
  creations :: "(string \<times> creation) list"
  comments :: "(string \<times> nat) list"

definition newLine :: "int \<Rightarrow> activity_row \<Rightarrow> verb \<Rightarrow> string \<Rightarrow> string \<Rightarrow> lines_state \<Rightarrow> nat \<times> lines_state" where
  "newLine navId row v label actor st =
     (length (lines st),
      st\<lparr>lines := lines st @ [\<lparr>l_verb = v, l_card = act_card row, l_subject = subjectOf row navId, l_label = label,
        l_old = None, l_new = None, l_edited = None, l_added = None, l_removed = None, l_body = None,
        l_details = [], l_count = 1, l_actors = [actor], l_at = createdAt row\<rparr>]\<rparr>)"

definition upd_line :: "nat \<Rightarrow> (feed_line \<Rightarrow> feed_line) \<Rightarrow> lines_state \<Rightarrow> lines_state" where
  "upd_line i f st = st\<lparr>lines := (lines st)[i := f (lines st ! i)]\<rparr>"

definition addActor :: "string \<Rightarrow> feed_line \<Rightarrow> feed_line" where
  "addActor actor l = (if actor \<in> set (l_actors l) then l else l\<lparr>l_actors := l_actors l @ [actor]\<rparr>)"

text \<open>Another row rolled into a line.\<close>

definition roll_in :: "activity_row \<Rightarrow> string \<Rightarrow> feed_line \<Rightarrow> feed_line" where
  "roll_in row actor l = addActor actor (l\<lparr>l_count := l_count l + 1, l_at := createdAt row\<rparr>)"

definition set_add :: "'a \<Rightarrow> 'a list \<Rightarrow> 'a list" where
  "set_add x xs = (if x \<in> set xs then xs else xs @ [x])"

definition net_add :: "string \<Rightarrow> string list \<times> string list \<Rightarrow> string list \<times> string list" where
  "net_add a ar = (if a \<in> set (snd ar) then (fst ar, remove1 a (snd ar)) else (set_add a (fst ar), snd ar))"

definition net_remove :: "string \<Rightarrow> string list \<times> string list \<Rightarrow> string list \<times> string list" where
  "net_remove r ar = (if r \<in> set (fst ar) then (remove1 r (fst ar), snd ar) else (fst ar, set_add r (snd ar)))"

definition net_tags :: "string list \<times> string list \<Rightarrow> string list \<times> string list \<Rightarrow> string list \<times> string list" where
  "net_tags d ar = fold net_remove (snd d) (fold net_add (fst d) ar)"

definition creation_detail :: "activity_row \<Rightarrow> string \<Rightarrow> id_map \<Rightarrow> feed_line \<Rightarrow> feed_line" where
  "creation_detail row a userNames l =
     (if a \<in> set NAME_ATTRS \<or> isEmptyValue (valueNew row) \<or> isJsonText (valueNew row) then l
      else if isLongText (valueNew row) then
        (case l_body l of None \<Rightarrow> l\<lparr>l_body := Some (clip (js_text (valueNew row)) EXCERPT)\<rparr> | Some b \<Rightarrow> l)
      else l\<lparr>l_details := l_details l @ [(attrLabel row, displayValue row (valueNew row) userNames)]\<rparr>)"

definition add_tags :: "int \<Rightarrow> activity_row \<Rightarrow> string \<Rightarrow> string \<Rightarrow> lines_state \<Rightarrow> lines_state" where
  "add_tags navId row owner actor st =
     (let (t, st1) = (case map_of (tagLines st) owner of
         None \<Rightarrow> let (i, s) = newLine navId row V_tags ''Tags'' actor st
                 in (\<lparr>tl_line = i, tl_added = [], tl_removed = []\<rparr>, s)
       | Some t \<Rightarrow> (t, upd_line (tl_line t) (roll_in row actor) st));
       (added, removed) = net_tags (tagDiff row None) (tl_added t, tl_removed t)
      in upd_line (tl_line t) (\<lambda>l. l\<lparr>l_added := Some added, l_removed := Some removed\<rparr>)
           (st1\<lparr>tagLines := map_put owner (t\<lparr>tl_added := added, tl_removed := removed\<rparr>) (tagLines st1)\<rparr>))"

definition add_attr :: "int \<Rightarrow> activity_row \<Rightarrow> string \<Rightarrow> string \<Rightarrow> string \<Rightarrow> id_map \<Rightarrow> lines_state \<Rightarrow> lines_state" where
  "add_attr navId row owner a actor userNames st =
     (let key = owner @ ''|'' @ a;
          edited = list_ex (\<lambda>v. isLongText v \<or> isJsonText v) [valueOld row, valueNew row];
          new = displayValue row (valueNew row) userNames
      in case map_of (attrLines st) key of
           Some i \<Rightarrow> upd_line i (\<lambda>l. roll_in row actor
             (l\<lparr>l_new := Some new, l_edited := Some (opt_or (l_edited l) False \<or> edited)\<rparr>)) st
         | None \<Rightarrow>
             let (i, s) = newLine navId row V_attr (attrLabel row) actor st
             in upd_line i (\<lambda>l. l\<lparr>l_old := Some (displayValue row (valueOld row) userNames), l_new := Some new,
                  l_edited := (if edited then Some True else None)\<rparr>)
                (s\<lparr>attrLines := map_put key i (attrLines s)\<rparr>))"

definition set_body :: "string \<Rightarrow> feed_line \<Rightarrow> feed_line" where
  "set_body b l = (if b \<noteq> '''' then l\<lparr>l_body := Some (clip b EXCERPT)\<rparr> else l)"

definition add_comment :: "int \<Rightarrow> activity_row \<Rightarrow> string \<Rightarrow> string \<Rightarrow> lines_state \<Rightarrow> lines_state" where
  "add_comment navId row label actor st =
     (let (i, s) = newLine navId row V_comment label actor st
      in (upd_line i (set_body (opt_or (commentBody row) '''')) s)\<lparr>comments := map_put (int_text (act_id row)) i (comments s)\<rparr>)"

definition edit_comment :: "int \<Rightarrow> activity_row \<Rightarrow> string \<Rightarrow> lines_state \<Rightarrow> lines_state" where
  "edit_comment navId row actor st =
     (let body = string_field (valueNew row) ''new_body'' in
      case map_of (comments st) (readId (prop_get (asObj (valueNew row)) ''activity_id'')) of
        Some i \<Rightarrow> upd_line i (\<lambda>l. addActor actor (set_body body
          (l\<lparr>l_label := (if l_label l = ''Commented'' then ''Commented (edited)'' else l_label l @ '' (edited)'')\<rparr>)\<lparr>l_at := createdAt row\<rparr>)) st
      | None \<Rightarrow>
          let (i, s) = newLine navId row V_comment ''Edited a comment'' actor st in upd_line i (set_body body) s)"

definition middle_dot :: string where "middle_dot = [CHR '' '', CHR 0xC2, CHR 0xB7, CHR '' '']"

definition line_step :: "int \<Rightarrow> id_map \<Rightarrow> activity_row \<Rightarrow> lines_state \<Rightarrow> lines_state" where
  "line_step navId userNames row st =
     (let actor = resolveActor row (Some userNames); owner = int_text (act_card row);
          a = opt_or (attributeName row) ''''; k = act_kind row
      in if k = ''card_create'' then
           (let (i, s) = newLine navId row V_created (if act_card row = navId then ''Created'' else ''Added'') actor st
            in s\<lparr>creations := map_put owner \<lparr>cr_line = i, cr_at = createdAt row, cr_actor = actorId row\<rparr> (creations s)\<rparr>)
         else if k = ''attr_update'' \<or> k = ''tag_apply'' \<or> k = ''tag_remove'' then
           (if a \<in> set HIDDEN_ATTRS then st
            else case map_of (creations st) owner of
              Some made \<Rightarrow>
                if cr_at made = createdAt row \<and> cr_actor made = actorId row
                then upd_line (cr_line made) (creation_detail row a userNames) st
                else if k \<noteq> ''attr_update'' \<or> a = ''tags'' then add_tags navId row owner actor st
                else add_attr navId row owner a actor userNames st
            | None \<Rightarrow>
                if k \<noteq> ''attr_update'' \<or> a = ''tags'' then add_tags navId row owner actor st
                else add_attr navId row owner a actor userNames st)
         else if k = ''comment'' then add_comment navId row ''Commented'' actor st
         else if k = ''approval_decision'' then
           (let (d, l) = voteOf row in add_comment navId row (voteWords d @ middle_dot @ l) actor st)
         else if k = ''comment_edit'' then edit_comment navId row actor st
         else snd (newLine navId row V_event (eventLabel row) actor st))"

definition says_something :: "feed_line \<Rightarrow> bool" where
  "says_something l \<longleftrightarrow> l_verb l \<noteq> V_tags \<or> 0 < length (opt_or (l_added l) []) + length (opt_or (l_removed l) [])"

definition no_lines :: lines_state where
  "no_lines = \<lparr>lines = [], attrLines = [], tagLines = [], creations = [], comments = []\<rparr>"

definition buildLines :: "int \<Rightarrow> activity_row list \<Rightarrow> id_map \<Rightarrow> feed_line list" where
  "buildLines navId rowsNewestFirst userNames =
     filter says_something (lines (fold (line_step navId userNames) (rev rowsNewestFirst) no_lines))"

section \<open>Days and groups\<close>

record feed_group =
  g_nav :: int
  g_type :: string
  g_title :: string
  g_rows :: "activity_row list"
  g_lines :: "feed_line list"
  g_actors :: "string list"
  g_first :: string
  g_last :: string

record feed_day =
  d_key :: string
  d_label :: string
  d_groups :: "feed_group list"
  d_count :: nat

definition pad2 :: "nat \<Rightarrow> string" where
  "pad2 n = (let s = nat_text n in if length s < 2 then ''0'' @ s else s)"

definition ymd_key :: "int \<times> nat \<times> nat \<Rightarrow> string" where
  "ymd_key d = (case d of (y, m, dd) \<Rightarrow> int_text y @ ''-'' @ pad2 m @ ''-'' @ pad2 dd)"

definition localDayKey :: "(int \<Rightarrow> int) \<Rightarrow> string \<Rightarrow> string" where
  "localDayKey tz stamp = (case date_parse tz stamp of None \<Rightarrow> '''' | Some t \<Rightarrow> ymd_key (local_date tz t))"

definition dayLabel ::
  "(int \<Rightarrow> int) \<Rightarrow> (jnum \<Rightarrow> jnum \<Rightarrow> jnum \<Rightarrow> bool \<Rightarrow> string) \<Rightarrow> string \<Rightarrow> int \<Rightarrow> string"
where
  "dayLabel tz date_words key now =
     (let day = (now + tz now) div 86400000 in
      if key = ymd_key (date_of_days day) then ''Today''
      else if key = ymd_key (date_of_days (day - 1)) then ''Yesterday''
      else (case map js_number (js_split CHR ''-'' key) of
          yy # mm # dd # _ \<Rightarrow> date_words yy mm dd (yy \<noteq> Fin (of_int (fst (date_of_days day))))
        | _ \<Rightarrow> key))"

definition navOf :: "activity_row \<Rightarrow> int" where
  "navOf row = opt_or (navCardId row) (act_card row)"

definition new_group :: "activity_row \<Rightarrow> feed_group" where
  "new_group row =
     \<lparr>g_nav = navOf row,
      g_type = opt_or (or_else (navCardType row) (act_cardType row)) '''',
      g_title = opt_or (navTitle row) '''',
      g_rows = [], g_lines = [], g_actors = [], g_first = createdAt row, g_last = createdAt row\<rparr>"

definition upd_last :: "('a \<Rightarrow> 'a) \<Rightarrow> 'a list \<Rightarrow> 'a list" where
  "upd_last f xs = butlast xs @ [f (last xs)]"

record feed_state =
  days :: "feed_day list"
  in_group :: bool
  tailTime :: int

definition add_to_group :: "activity_row \<Rightarrow> feed_group \<Rightarrow> feed_group" where
  "add_to_group row g = g\<lparr>g_rows := g_rows g @ [row], g_first := createdAt row\<rparr>"

definition feed_step ::
  "(int \<Rightarrow> int) \<Rightarrow> (string \<Rightarrow> string) \<Rightarrow> feed_state \<Rightarrow> activity_row \<Rightarrow> feed_state"
where
  "feed_step tz labelOf st row =
     (let key = localDayKey tz (createdAt row);
          fresh_day = (days st = [] \<or> d_key (last (days st)) \<noteq> key);
          ds = (if fresh_day then days st @ [\<lparr>d_key = key, d_label = labelOf key, d_groups = [], d_count = 0\<rparr>] else days st);
          grouped = (in_group st \<and> \<not> fresh_day);
          t = date_parse tz (createdAt row);
          fresh_group = (\<not> grouped \<or> g_nav (last (d_groups (last ds))) \<noteq> navOf row \<or>
            (case t of None \<Rightarrow> False | Some u \<Rightarrow> GROUP_GAP_MS < \<bar>tailTime st - u\<bar>))
      in \<lparr>days = upd_last (\<lambda>d. d\<lparr>d_count := d_count d + 1,
             d_groups := upd_last (add_to_group row) (if fresh_group then d_groups d @ [new_group row] else d_groups d)\<rparr>) ds,
          in_group = True,
          tailTime = (case t of None \<Rightarrow> tailTime st | Some u \<Rightarrow> u)\<rparr>)"

definition finish_group :: "id_map \<Rightarrow> feed_group \<Rightarrow> feed_group" where
  "finish_group userNames g =
     g\<lparr>g_lines := buildLines (g_nav g) (g_rows g) userNames,
       g_actors := dedup (map (\<lambda>r. resolveActor r (Some userNames)) (rev (g_rows g)))\<rparr>"

definition buildFeed ::
  "(int \<Rightarrow> int) \<Rightarrow> (jnum \<Rightarrow> jnum \<Rightarrow> jnum \<Rightarrow> bool \<Rightarrow> string) \<Rightarrow> activity_row list \<Rightarrow> id_map \<Rightarrow> int \<Rightarrow> feed_day list"
where
  "buildFeed tz date_words rows userNames now =
     map (\<lambda>d. d\<lparr>d_groups := map (finish_group userNames) (d_groups d)\<rparr>)
       (days (foldl (feed_step tz (\<lambda>k. dayLabel tz date_words k now)) \<lparr>days = [], in_group = False, tailTime = 0\<rparr> rows))"

section \<open>The feed is its rows\<close>

definition group_rows :: "feed_day \<Rightarrow> activity_row list" where
  "group_rows d = concat (map g_rows (d_groups d))"

definition group_ok :: "(int \<Rightarrow> int) \<Rightarrow> string \<Rightarrow> feed_group \<Rightarrow> bool" where
  "group_ok tz key g \<longleftrightarrow> g_rows g \<noteq> [] \<and>
     (\<forall>r \<in> set (g_rows g). navOf r = g_nav g \<and> localDayKey tz (createdAt r) = key)"

definition day_ok :: "(int \<Rightarrow> int) \<Rightarrow> feed_day \<Rightarrow> bool" where
  "day_ok tz d \<longleftrightarrow> d_groups d \<noteq> [] \<and> d_count d = length (group_rows d) \<and> (\<forall>g \<in> set (d_groups d). group_ok tz (d_key d) g)"

definition feed_ok :: "(int \<Rightarrow> int) \<Rightarrow> feed_state \<Rightarrow> activity_row list \<Rightarrow> bool" where
  "feed_ok tz st rows \<longleftrightarrow> concat (map group_rows (days st)) = rows \<and> (\<forall>d \<in> set (days st). day_ok tz d) \<and>
     (in_group st \<longleftrightarrow> days st \<noteq> [])"

lemma upd_last_append [simp]: "upd_last f (xs @ [x]) = xs @ [f x]"
  by (simp add: upd_last_def)

lemma add_new_group_ok:
  "localDayKey tz (createdAt row) = key \<Longrightarrow> group_ok tz key (add_to_group row (new_group row))"
  by (simp add: group_ok_def add_to_group_def new_group_def)

lemma add_to_group_ok:
  "group_ok tz key g \<Longrightarrow> g_nav g = navOf row \<Longrightarrow> localDayKey tz (createdAt row) = key \<Longrightarrow>
   group_ok tz key (add_to_group row g)"
  by (auto simp: group_ok_def add_to_group_def)

lemma add_to_group_rows [simp]: "g_rows (add_to_group row g) = g_rows g @ [row]"
  by (simp add: add_to_group_def)

lemma new_group_rows [simp]: "g_rows (new_group row) = []"
  by (simp add: new_group_def)

lemma in_group_step: "in_group (feed_step tz lab st row)"
  by (simp add: feed_step_def Let_def)

lemma feed_step_ok:
  assumes ok: "feed_ok tz st rows"
  shows "feed_ok tz (feed_step tz lab st row) (rows @ [row])"
proof -
  let ?key = "localDayKey tz (createdAt row)"
  let ?add = "\<lambda>fresh d. d\<lparr>d_count := d_count d + 1,
    d_groups := upd_last (add_to_group row) (if fresh then d_groups d @ [new_group row] else d_groups d)\<rparr>"
  show ?thesis
  proof (cases "days st = [] \<or> d_key (last (days st)) \<noteq> ?key")
    case True
    let ?d = "\<lparr>d_key = ?key, d_label = lab ?key, d_groups = [], d_count = 0\<rparr>"
    have fresh: "(days st = [] \<or> d_key (last (days st)) \<noteq> ?key) = True" using True by simp
    have "days (feed_step tz lab st row) = days st @ [?add True ?d]"
      unfolding feed_step_def Let_def fresh by (simp add: upd_last_def)
    moreover have "upd_last (add_to_group row) [new_group row] = [add_to_group row (new_group row)]"
      by (simp add: upd_last_def)
    then have "day_ok tz (?add True ?d)" "group_rows (?add True ?d) = [row]"
      by (simp_all add: day_ok_def group_rows_def add_new_group_ok)
    ultimately show ?thesis using ok by (simp add: feed_ok_def in_group_step)
  next
    case False
    then obtain pre d where d: "days st = pre @ [d]" by (metis rev_exhaust)
    with False have k: "d_key d = ?key" by simp
    from ok d have dok: "day_ok tz d" and pre: "\<forall>x \<in> set pre. day_ok tz x" and ing: "in_group st"
      and rows: "concat (map group_rows pre) @ group_rows d = rows"
      by (auto simp: feed_ok_def)
    from dok obtain gs g where g: "d_groups d = gs @ [g]" by (metis day_ok_def rev_exhaust)
    have gok: "group_ok tz ?key g" "\<forall>x \<in> set gs. group_ok tz ?key x" using dok g k by (auto simp: day_ok_def)
    define fresh where "fresh = (g_nav g \<noteq> navOf row \<or>
      (case date_parse tz (createdAt row) of None \<Rightarrow> False | Some u \<Rightarrow> GROUP_GAP_MS < \<bar>tailTime st - u\<bar>))"
    have days': "days (feed_step tz lab st row) = pre @ [?add fresh d]"
      using False ing by (simp add: feed_step_def Let_def d g fresh_def)
    have "d_groups (?add fresh d) =
        (if fresh then gs @ [g, add_to_group row (new_group row)] else gs @ [add_to_group row g])"
      using upd_last_append [of "add_to_group row" "gs @ [g]" "new_group row"] by (simp add: g)
    moreover have "\<not> fresh \<Longrightarrow> group_ok tz ?key (add_to_group row g)"
      using gok(1) by (simp add: fresh_def add_to_group_ok)
    ultimately have "day_ok tz (?add fresh d)" "group_rows (?add fresh d) = group_rows d @ [row]"
      using dok gok k g add_new_group_ok [OF refl, of tz row]
      by (auto simp: day_ok_def group_rows_def)
    then show ?thesis using pre rows by (simp add: feed_ok_def days' in_group_step)
  qed
qed

lemma feed_ok_fold: "feed_ok tz st done' \<Longrightarrow> feed_ok tz (foldl (feed_step tz lab) st rows) (done' @ rows)"
proof (induction rows arbitrary: st done')
  case (Cons row rows)
  show ?case using Cons.IH [OF feed_step_ok [OF Cons.prems, of lab row]] by simp
qed simp

lemma finish_group_fields [simp]: "g_rows (finish_group u g) = g_rows g" "g_nav (finish_group u g) = g_nav g"
  by (simp_all add: finish_group_def)

text \<open>C16: The feed shows exactly the rows it was given, in their order: the groups of its days, put end to
  end, are the rows; every day counts the rows under it and has a group, every group has a row, and
  all rows of a group open the same card and fall on the date of their day.\<close>

theorem feed_is_its_rows:
  "(let feed = buildFeed tz date_words rows userNames now in
    concat (map group_rows feed) = rows \<and>
    (\<forall>d \<in> set feed. d_groups d \<noteq> [] \<and> d_count d = length (group_rows d) \<and>
      (\<forall>g \<in> set (d_groups d). g_rows g \<noteq> [] \<and>
        (\<forall>r \<in> set (g_rows g). navOf r = g_nav g \<and> localDayKey tz (createdAt r) = d_key d))))"
proof -
  let ?st = "foldl (feed_step tz (\<lambda>k. dayLabel tz date_words k now)) \<lparr>days = [], in_group = False, tailTime = 0\<rparr> rows"
  have ok: "feed_ok tz ?st rows"
    using feed_ok_fold [of tz "\<lparr>days = [], in_group = False, tailTime = 0\<rparr>" "[]"] by (simp add: feed_ok_def)
  have fin: "group_rows (d\<lparr>d_groups := map (finish_group userNames) (d_groups d)\<rparr>) = group_rows d" for d
    by (simp add: group_rows_def comp_def)
  then have "map group_rows (buildFeed tz date_words rows userNames now) = map group_rows (days ?st)"
    by (simp add: buildFeed_def)
  moreover have "concat (map group_rows (days ?st)) = rows" using ok by (simp add: feed_ok_def)
  moreover have "d_groups d \<noteq> [] \<and> d_count d = length (group_rows d) \<and>
      (\<forall>g \<in> set (d_groups d). g_rows g \<noteq> [] \<and>
        (\<forall>r \<in> set (g_rows g). navOf r = g_nav g \<and> localDayKey tz (createdAt r) = d_key d))"
    if "d \<in> set (buildFeed tz date_words rows userNames now)" for d
    using that ok fin by (auto simp: buildFeed_def feed_ok_def day_ok_def group_ok_def)
  ultimately show ?thesis by (auto simp: Let_def)
qed

section \<open>Tags net out\<close>

definition net_ok :: "string list \<times> string list \<Rightarrow> bool" where
  "net_ok ar \<longleftrightarrow> distinct (fst ar) \<and> distinct (snd ar) \<and> set (fst ar) \<inter> set (snd ar) = {}"

lemma net_add_ok: "net_ok ar \<Longrightarrow> net_ok (net_add a ar)"
  by (auto simp: net_ok_def net_add_def set_add_def dest: in_set_remove1 [THEN iffD1, rotated] notin_set_remove1)

lemma net_remove_ok: "net_ok ar \<Longrightarrow> net_ok (net_remove a ar)"
  by (auto simp: net_ok_def net_remove_def set_add_def dest: notin_set_remove1)

lemma net_tags_ok: "net_ok ar \<Longrightarrow> net_ok (net_tags d ar)"
proof -
  have a: "net_ok ar \<Longrightarrow> net_ok (fold net_add xs ar)" for xs ar
    by (induction xs arbitrary: ar) (simp_all add: net_add_ok)
  have r: "net_ok ar \<Longrightarrow> net_ok (fold net_remove xs ar)" for xs ar
    by (induction xs arbitrary: ar) (simp_all add: net_remove_ok)
  show "net_ok ar \<Longrightarrow> net_ok (net_tags d ar)" by (simp add: net_tags_def a r)
qed

text \<open>Applying a tag and taking it away again leaves nothing, in either order.\<close>

lemma net_cancels:
  "net_remove a (net_add a ([], [])) = ([], [])" "net_add a (net_remove a ([], [])) = ([], [])"
  by (simp_all add: net_add_def net_remove_def set_add_def)

section \<open>Witness\<close>

theorem feed_is_its_rows_witness:
  "concat (map group_rows (buildFeed (\<lambda>t. 0) (\<lambda>y m d w. ''day'') [wact 8 ''comment'' JNull, wact 7 ''comment'' JNull] [] 0)) =
     [wact 8 ''comment'' JNull, wact 7 ''comment'' JNull]"
  using feed_is_its_rows [of "\<lambda>t. 0" "\<lambda>y m d w. ''day''" "[wact 8 ''comment'' JNull, wact 7 ''comment'' JNull]" "[]" 0]
  by (simp add: Let_def)


end
