(* ===== verification/Snippets.thy ===== *)
theory Snippets
  imports FilterPredicateSpec
begin

text \<open>
  Saved filters on the predicate tree, \<^verbatim>\<open>filter/snippet-predicate.ts\<close>: the top-level leaves that
  refer to a snippet by its card id. Writing the selection is a third instance of the interface
  \<open>predicate_slot\<close>; together with the phase toggle it is a \<open>slot_pair\<close> in both directions.
\<close>

definition SNIPPET_ATTR :: string where
  "SNIPPET_ATTR = ''_snippet''"

definition snippetLeaf :: "int \<Rightarrow> pleaf" where
  "snippetLeaf snippetId = \<lparr>attr = SNIPPET_ATTR, oper = Op_snippet, vals = Some [JStr (int_text snippetId)]\<rparr>"

definition isSnippetLeaf :: "predicate \<Rightarrow> bool" where
  "isSnippetLeaf p = (case p of Leaf l \<Rightarrow> oper l = Op_snippet | Group _ _ \<Rightarrow> False)"

definition snippetIdOf :: "pleaf \<Rightarrow> string option" where
  "snippetIdOf l = (case vals l of
     Some (v # _) \<Rightarrow> (case v of
         JStr s \<Rightarrow> if s \<noteq> '''' then Some s else None
       | JBig i \<Rightarrow> Some (int_text i)
       | JNum (Fin r) \<Rightarrow> Some (num_text (Fin r))
       | _ \<Rightarrow> None)
   | _ \<Rightarrow> None)"

definition snippet_id_at :: "predicate \<Rightarrow> string option" where
  "snippet_id_at c = (case c of Leaf l \<Rightarrow> if isSnippetLeaf c then snippetIdOf l else None | Group _ _ \<Rightarrow> None)"

definition selectedSnippetIds :: "predicate option \<Rightarrow> string list" where
  "selectedSnippetIds p = (case p of
     None \<Rightarrow> []
   | Some (Leaf l) \<Rightarrow>
       if \<not> isSnippetLeaf (Leaf l) then []
       else (case snippetIdOf l of None \<Rightarrow> [] | Some i \<Rightarrow> [i])
   | Some (Group c children) \<Rightarrow>
       if c \<noteq> And then [] else List.map_filter snippet_id_at children)"

definition rootChildren :: "predicate option \<Rightarrow> predicate list" where
  "rootChildren p = (case p of
     None \<Rightarrow> []
   | Some (Leaf l) \<Rightarrow> [Leaf l]
   | Some (Group c children) \<Rightarrow> if c = And then children else [Group c children])"

definition from_root_children :: "predicate list \<Rightarrow> predicate option" where
  "from_root_children children = (case children of
     [] \<Rightarrow> None | [c] \<Rightarrow> Some c | _ \<Rightarrow> Some (Group And children))"

definition setSelectedSnippets :: "predicate option \<Rightarrow> int list \<Rightarrow> predicate option" where
  "setSelectedSnippets p ids =
     from_root_children (filter (\<lambda>c. \<not> isSnippetLeaf c) (rootChildren p) @ map (\<lambda>i. Leaf (snippetLeaf i)) ids)"

section \<open>The snippet slot\<close>

definition snippet_content :: "int list \<Rightarrow> predicate list" where
  "snippet_content ids = map (\<lambda>i. Leaf (snippetLeaf i)) ids"

lemma rootChildren_members: "rootChildren p = members p"
  by (auto simp: rootChildren_def members_def rootView_def split: option.split predicate.split)

lemma from_root_children_eq: "from_root_children = fromRootChildren"
  by (rule ext) (simp add: from_root_children_def fromRootChildren_def split: list.split)

interpretation snippet_slot:
  predicate_slot isSnippetLeaf "\<lambda>ids p. setSelectedSnippets p ids" snippet_content "\<lambda>_. True"
  by unfold_locales
    (auto simp: setSelectedSnippets_def from_root_children_eq rootChildren_members snippet_content_def
      isSnippetLeaf_def snippetLeaf_def is_leaf_def list_all_iff split: predicate.splits)

interpretation snippet_phase:
  slot_pair isSnippetLeaf "\<lambda>ids p. setSelectedSnippets p ids" snippet_content "\<lambda>_. True"
    "phase_leaf_of b" "\<lambda>ph p. withTopLevelPhases p ph b" "phase_content b" "\<lambda>_. True" for b
  by unfold_locales (auto simp: isSnippetLeaf_def phase_leaf_of_def split: predicate.splits)

interpretation phase_snippet:
  slot_pair "phase_leaf_of a" "\<lambda>ph p. withTopLevelPhases p ph a" "phase_content a" "\<lambda>_. True"
    isSnippetLeaf "\<lambda>ids p. setSelectedSnippets p ids" snippet_content "\<lambda>_. True" for a
  by unfold_locales (auto simp: isSnippetLeaf_def phase_leaf_of_def split: predicate.splits)

lemma snippet_id_at_None: "\<not> isSnippetLeaf c \<Longrightarrow> snippet_id_at c = None"
  by (auto simp: snippet_id_at_def split: predicate.split)

lemma selected_members: "selectedSnippetIds p = List.map_filter snippet_id_at (filter isSnippetLeaf (members p))"
proof -
  have f: "List.map_filter snippet_id_at cs = List.map_filter snippet_id_at (filter isSnippetLeaf cs)" for cs
    by (induction cs) (auto simp: map_filter_simps snippet_id_at_None split: option.split)
  have "selectedSnippetIds p = List.map_filter snippet_id_at (members p)"
    by (auto simp: selectedSnippetIds_def members_def rootView_def map_filter_simps snippet_id_at_def
        isSnippetLeaf_def split: option.splits predicate.splits)
  with f show ?thesis by simp
qed

lemma snippet_id_leaf [simp]: "snippet_id_at (Leaf (snippetLeaf i)) = Some (int_text i)"
  using is_int_text_int_text [of i]
  by (auto simp: snippet_id_at_def isSnippetLeaf_def snippetIdOf_def snippetLeaf_def is_int_text_def)

lemma snippet_content_ids: "List.map_filter snippet_id_at (snippet_content ids) = map int_text ids"
  by (induction ids) (simp_all add: snippet_content_def map_filter_simps)

text \<open>After the saved filters are chosen, exactly the chosen ids are selected, the phase toggles read as
  before, choosing again replaces the choice, and the predicate means the members the saved
  filters do not own together with every chosen filter.\<close>

theorem chosen_snippets:
  assumes "flat_root p"
  shows "selectedSnippetIds (setSelectedSnippets p ids) = map int_text ids \<and>
    topLevelPhases (setSelectedSnippets p ids) a = topLevelPhases p a \<and>
    setSelectedSnippets (setSelectedSnippets p js) ids = setSelectedSnippets p ids \<and>
    (sat_opt ev (setSelectedSnippets p ids) \<longleftrightarrow>
       list_all (\<lambda>m. isSnippetLeaf m \<or> sat ev m) (members p) \<and>
       list_all (\<lambda>i. ev SNIPPET_ATTR Op_snippet [JStr (int_text i)]) ids)"
proof (intro conjI)
  show "selectedSnippetIds (setSelectedSnippets p ids) = map int_text ids"
    unfolding selected_members snippet_slot.owned_store [OF TrueI assms] by (rule snippet_content_ids)
  show "topLevelPhases (setSelectedSnippets p ids) a = topLevelPhases p a"
    unfolding topLevelPhases_members phase_snippet.other_slot_kept [OF TrueI assms] by (rule refl)
  show "setSelectedSnippets (setSelectedSnippets p js) ids = setSelectedSnippets p ids"
    by (rule snippet_slot.store_store [OF TrueI TrueI assms])
  show "sat_opt ev (setSelectedSnippets p ids) \<longleftrightarrow>
       list_all (\<lambda>m. isSnippetLeaf m \<or> sat ev m) (members p) \<and>
       list_all (\<lambda>i. ev SNIPPET_ATTR Op_snippet [JStr (int_text i)]) ids"
    unfolding snippet_slot.sat_store [OF TrueI]
    by (simp add: snippet_content_def list_all_iff snippetLeaf_def leaf_vals_def)
qed

theorem chosen_snippets_witness:
  "selectedSnippetIds (setSelectedSnippets (Some (Leaf (mk_leaf ''status'' Op_hasPhase (Some [JStr ''active''])))) [12, 7]) =
     [''12'', ''7''] \<and>
   topLevelPhases (setSelectedSnippets (Some (Leaf (mk_leaf ''status'' Op_hasPhase (Some [JStr ''active''])))) [12, 7]) ''status'' =
     topLevelPhases (Some (Leaf (mk_leaf ''status'' Op_hasPhase (Some [JStr ''active''])))) ''status''"
proof -
  have f: "flat_root (Some (Leaf (mk_leaf ''status'' Op_hasPhase (Some [JStr ''active'']))))" by code_simp
  have t: "map int_text [12, 7] = [''12'', ''7'']" by code_simp
  show ?thesis using chosen_snippets [OF f, of "[12, 7]" "''status''"] unfolding t by blast
qed

end
