(* ===== verification/ViewState.thy ===== *)
theory ViewState
  imports Json
begin

text \<open>
  The customized view of a screen across reloads, \<^verbatim>\<open>filter/view-persistence.ts\<close>. The browser's
  \<open>localStorage\<close> is absent, denied (its access throws), or a map of texts that takes a write only when its
  quota (\<open>fits\<close>) allows; every failure leaves the storage as it was.
\<close>

record local_storage =
  items :: "(string \<times> string) list"
  fits :: "(string \<times> string) list \<Rightarrow> bool"

datatype storage = NoStorage | DeniedStorage | Storage local_storage

definition PREFIX :: string where
  "PREFIX = ''kitp.view.''"

definition keyFor :: "string list \<Rightarrow> string option" where
  "keyFor screenStatePath =
     (if length screenStatePath < 3 then None else Some (PREFIX @ js_join ''.'' (tl screenStatePath)))"

definition bigintSafe :: "js \<Rightarrow> js" where
  "bigintSafe v = (case v of JBig i \<Rightarrow> JStr (int_text i) | _ \<Rightarrow> v)"

text \<open>What \<open>JSON.stringify\<close> writes under the replacer: it visits every value.\<close>

fun safe_values :: "js \<Rightarrow> js" where
  "safe_values (JArr xs) = JArr (map safe_values xs)"
| "safe_values (JObj ps) = JObj (map (\<lambda>(k, v). (k, safe_values v)) ps)"
| "safe_values v = bigintSafe v"

type_synonym persisted_view = "js props"

definition is_object_value :: "js \<Rightarrow> bool" where
  "is_object_value v \<longleftrightarrow> (case v of JObj _ \<Rightarrow> True | JArr _ \<Rightarrow> True | _ \<Rightarrow> False)"

definition getItem :: "storage \<Rightarrow> string \<Rightarrow> string option outcome" where
  "getItem st key = (case st of
     NoStorage \<Rightarrow> Return None
   | DeniedStorage \<Rightarrow> Throw ''SecurityError''
   | Storage s \<Rightarrow> Return (map_of (items s) key))"

definition setItem :: "string \<Rightarrow> string \<Rightarrow> storage \<Rightarrow> storage outcome" where
  "setItem key text st = (case st of
     NoStorage \<Rightarrow> Return NoStorage
   | DeniedStorage \<Rightarrow> Throw ''SecurityError''
   | Storage s \<Rightarrow>
       if fits s (map_put key text (items s)) then Return (Storage (s\<lparr>items := map_put key text (items s)\<rparr>))
       else Throw ''QuotaExceededError'')"

text \<open>\<open>try { ... } catch { other }\<close>.\<close>

definition or_caught :: "'a \<Rightarrow> 'a outcome \<Rightarrow> 'a outcome" where
  "or_caught other m = (case m of Throw e \<Rightarrow> Return other | _ \<Rightarrow> m)"

definition loadView :: "storage \<Rightarrow> string list \<Rightarrow> js option outcome" where
  "loadView st screenStatePath = (case keyFor screenStatePath of
     None \<Rightarrow> Return None
   | Some key \<Rightarrow> or_caught None
       (obind (getItem st key) (\<lambda>raw. case raw of
          None \<Rightarrow> Return None
        | Some t \<Rightarrow>
            if t = '''' then Return None
            else obind (json_parse t) (\<lambda>v. Return (if is_object_value v then Some v else None)))))"

definition saveView :: "string list \<Rightarrow> persisted_view \<Rightarrow> storage \<Rightarrow> storage outcome" where
  "saveView screenStatePath view st = (case keyFor screenStatePath of
     None \<Rightarrow> Return st
   | Some key \<Rightarrow> or_caught st
       (obind (json_stringify (safe_values (JObj view))) (\<lambda>t. case t of
          None \<Rightarrow> OffType ''undefined''
        | Some t \<Rightarrow> setItem key t st)))"

section \<open>What is restored\<close>

text \<open>The view as the storage holds it: ids as their decimal text.\<close>

definition stored :: "persisted_view \<Rightarrow> js" where
  "stored view = safe_values (JObj view)"

lemma js_join_inject:
  "CHR ''.'' \<notin> set p \<Longrightarrow> CHR ''.'' \<notin> set q \<Longrightarrow> p @ ''.'' @ s = q @ ''.'' @ t \<Longrightarrow> p = q \<and> s = t"
proof (induction p arbitrary: q)
  case Nil
  then show ?case by (cases q) auto
next
  case (Cons c p)
  then show ?case by (cases q) auto
qed

text \<open>Two screens share a storage key only when they are the same screen of the same project, for project ids
  without a dot (the decimal text of an id).\<close>

lemma keyFor_separates:
  assumes "CHR ''.'' \<notin> set p" and "CHR ''.'' \<notin> set q"
    and "keyFor [a, p, s] = keyFor [b, q, t]"
  shows "p = q \<and> s = t"
proof (rule js_join_inject [OF assms(1,2)])
  have key: "keyFor [a, p, s] = Some (PREFIX @ p @ ''.'' @ s)" for a p s by (simp add: keyFor_def)
  from assms(3) show "p @ ''.'' @ s = q @ ''.'' @ t"
    unfolding key by (rule same_append_eq [THEN iffD1, OF option.inject [THEN iffD1]])
qed

text \<open>A saved view is restored as it was, its ids as text, on the screen it was saved for, and the views of
  all other screens stay; where the storage is missing, denied or full, saving changes nothing and
  loading finds nothing new.\<close>

theorem view_is_restored:
  assumes v: "json_ok (stored view)" and p: "CHR ''.'' \<notin> set p" and q: "CHR ''.'' \<notin> set q"
  shows "\<exists>st'. saveView [a, p, s] view st = Return st' \<and>
    (st' = st \<or> loadView st' [a, p, s] = Return (Some (stored view))) \<and>
    ((p, s) \<noteq> (q, t) \<longrightarrow> loadView st' [b, q, t] = loadView st [b, q, t]) \<and>
    (\<forall>sto. st = Storage sto \<and> (\<forall>m. fits sto m) \<longrightarrow> loadView st' [a, p, s] = Return (Some (stored view)))"
proof -
  define kp where "kp = PREFIX @ js_join ''.'' [p, s]"
  define kq where "kq = PREFIX @ js_join ''.'' [q, t]"
  have keys: "keyFor [a, p, s] = Some kp" "keyFor [b, q, t] = Some kq"
    by (simp_all add: keyFor_def kp_def kq_def)
  have apart: "(p, s) \<noteq> (q, t) \<Longrightarrow> kp \<noteq> kq"
    using keyFor_separates [OF p q, of a s b t] keys by auto
  obtain t' where t': "json_stringify (stored view) = Return (Some t')" "json_parse t' = Return (stored view)" "t' \<noteq> []"
    using json_roundtrip [OF v] by blast
  have save: "saveView [a, p, s] view st = or_caught st (setItem kp t' st)"
    using t'(1) by (simp add: saveView_def keys stored_def)
  have load: "loadView st' [a, p, s] = Return (Some (stored view))" if "getItem st' kp = Return (Some t')" for st'
    using that t' by (simp add: loadView_def keys or_caught_def stored_def is_object_value_def)
  have same: "loadView st' [b, q, t] = loadView st [b, q, t]" if "getItem st' kq = getItem st kq" for st'
    using that by (simp add: loadView_def keys)
  show ?thesis
  proof (cases "\<exists>sto. st = Storage sto \<and> fits sto (map_put kp t' (items sto))")
    case True
    then obtain sto where sto: "st = Storage sto" "fits sto (map_put kp t' (items sto))" by blast
    let ?st = "Storage (sto\<lparr>items := map_put kp t' (items sto)\<rparr>)"
    have "saveView [a, p, s] view st = Return ?st"
      unfolding save using sto by (simp add: setItem_def or_caught_def)
    moreover have "loadView ?st [a, p, s] = Return (Some (stored view))"
      by (rule load) (simp add: getItem_def)
    moreover have "(p, s) \<noteq> (q, t) \<longrightarrow> loadView ?st [b, q, t] = loadView st [b, q, t]"
      using apart by (intro impI same) (auto simp: getItem_def sto)
    ultimately show ?thesis by blast
  next
    case False
    then have "saveView [a, p, s] view st = Return st"
      unfolding save by (cases st) (auto simp: setItem_def or_caught_def)
    with False show ?thesis by blast
  qed
qed

theorem view_is_restored_witness:
  "\<exists>st'. saveView [''screens'', ''7'', ''board''] [(''group'', JStr ''status''), (''activeFilterId'', JBig 12)]
       (Storage \<lparr>items = [], fits = (\<lambda>_. True)\<rparr>) = Return st' \<and>
     loadView st' [''screens'', ''7'', ''board''] =
       Return (Some (JObj [(''group'', JStr ''status''), (''activeFilterId'', JStr ''12'')]))"
proof -
  have s: "stored [(''group'', JStr ''status''), (''activeFilterId'', JBig 12)] =
      JObj [(''group'', JStr ''status''), (''activeFilterId'', JStr ''12'')]" by code_simp
  have j: "json_ok (stored [(''group'', JStr ''status''), (''activeFilterId'', JBig 12)])"
    unfolding s by code_simp
  have d: "CHR ''.'' \<notin> set ''7''" by simp
  obtain st' where st': "saveView [''screens'', ''7'', ''board''] [(''group'', JStr ''status''), (''activeFilterId'', JBig 12)]
       (Storage \<lparr>items = [], fits = (\<lambda>_. True)\<rparr>) = Return st'"
    and l: "\<forall>sto. Storage \<lparr>items = [], fits = (\<lambda>_. True)\<rparr> = Storage sto \<and> (\<forall>m. fits sto m) \<longrightarrow>
      loadView st' [''screens'', ''7'', ''board''] = Return (Some (stored [(''group'', JStr ''status''), (''activeFilterId'', JBig 12)]))"
    using view_is_restored [OF j d d, of "''screens''" "''board''" "Storage \<lparr>items = [], fits = (\<lambda>_. True)\<rparr>"] by blast
  from l have "loadView st' [''screens'', ''7'', ''board''] =
      Return (Some (stored [(''group'', JStr ''status''), (''activeFilterId'', JBig 12)]))" by auto
  with st' show ?thesis unfolding s by blast
qed

end
