(* ===== verification/ScreenResolve.thy ===== *)
theory ScreenResolve
  imports FilterPredicateSpec Kanban JsText WireDecode
begin

text \<open>
  Screens and their saved views, \<^verbatim>\<open>filter/screen-resolve.ts\<close>: the readers of a screen card's attributes,
  and the two loaders, each a state with one step per answer of the server. The cards an answer
  carries are typed rows (\<open>None\<close>: the answer has no \<open>rows\<close>). \<open>BigInt(s)\<close> is followed on decimal
  texts only; a code unit above 255 in stored JSON is outside the model (\<open>OffType\<close>).
\<close>

section \<open>Layouts\<close>

definition screenStatePath :: "int option \<Rightarrow> string \<Rightarrow> string list" where
  "screenStatePath projectId slug =
     [''screens'', case projectId of None \<Rightarrow> ''none'' | Some i \<Rightarrow> int_text i, slug]"

definition KANBAN_DEFAULT_GROUP_ATTR :: string where
  "KANBAN_DEFAULT_GROUP_ATTR = ''status''"

definition layoutRequiresGroup :: "string \<Rightarrow> bool" where
  "layoutRequiresGroup layout \<longleftrightarrow> layout = ''kanban''"

definition defaultGroupForLayout :: "string \<Rightarrow> string" where
  "defaultGroupForLayout layout = (if layout = ''kanban'' then KANBAN_DEFAULT_GROUP_ATTR else '''')"

definition viewActionsForLayout :: "string \<Rightarrow> string list" where
  "viewActionsForLayout layout =
     (if layout = ''list'' then [''NewTaskButton'', ''InboxViewToggles'']
      else if layout = ''grid'' then [''NewTaskButton'', ''GridColumns'']
      else if layout = ''pages'' then [''NewPageButton'']
      else [])"

definition order_entry :: "string \<Rightarrow> string \<Rightarrow> js" where
  "order_entry field direction = JObj [(''field'', JStr field), (''direction'', JStr direction)]"

definition bodyConfigForLayout :: "string \<Rightarrow> js props" where
  "bodyConfigForLayout layout =
     (if layout = ''list'' then
        [(''presentation'', JStr ''list''), (''showId'', JBool True), (''loadTaskLookups'', JBool True),
         (''group'', JBool True), (''personalSort'', JBool True), (''delegate'', JBool True),
         (''viewToggles'', JBool True),
         (''columns'', JArr
            [JObj [(''attr'', JStr ''assignee''), (''kind'', JStr ''ref''), (''lookup'', JStr ''persons'')],
             JObj [(''attr'', JStr ''priority''), (''kind'', JStr ''text'')]])]
      else if layout = ''comms'' then
        [(''presentation'', JStr ''compact''), (''parentChipCardType'', JStr ''task''), (''flagAttr'', JStr ''acked''),
         (''flagLabel'', JStr ''Needs ACK''), (''openTarget'', JStr ''parent''),
         (''orphan'', JObj [(''label'', JStr ''Not on a task''), (''route'', JStr ''thread'')]),
         (''order'', JArr [order_entry ''created_at'' ''DESC''])]
      else if layout = ''pages'' then
        [(''presentation'', JStr ''compact''), (''parentChipCardType'', JStr ''page''), (''parentChipKnownOnly'', JBool True),
         (''openRoute'', JStr ''page''),
         (''order'', JArr [order_entry ''attributes.sort_order'' ''ASC'', order_entry ''created_at'' ''ASC'']),
         (''columns'', JArr [JObj [(''attr'', JStr ''slug''), (''kind'', JStr ''text'')]])]
      else [])"

section \<open>Attributes of a screen\<close>

text \<open>\<open>typeof v === 'string' && v.length > 0 ? v : null\<close>.\<close>

definition text_or_null :: "js \<Rightarrow> string option" where
  "text_or_null v = (case v of JStr s \<Rightarrow> if s \<noteq> '''' then Some s else None | _ \<Rightarrow> None)"

definition readSlug :: "card \<Rightarrow> string option" where
  "readSlug c = text_or_null (prop_get (attributes c) ''slug'')"

definition readLayout :: "card \<Rightarrow> string option" where
  "readLayout c = text_or_null (prop_get (attributes c) ''layout'')"

definition readTitle :: "card \<Rightarrow> string" where
  "readTitle c = (case text_or_null (prop_get (attributes c) ''title'') of
     Some s \<Rightarrow> s | None \<Rightarrow> CHR ''#'' # int_text (card_id c))"

text \<open>\<open>BigInt(v)\<close> of a finite number that is not an integer throws.\<close>

definition toId :: "js \<Rightarrow> int option outcome" where
  "toId v = (case v of
     JBig i \<Rightarrow> Return (if i = 0 then None else Some i)
   | JNum (Fin r) \<Rightarrow>
       if r = 0 then Return None
       else if is_int_rat r then Return (Some \<lfloor>r\<rfloor>)
       else Throw (''The number '' @ num_text (Fin r) @ '' cannot be converted to a BigInt because it is not an integer'')
   | JStr s \<Rightarrow> Return (if is_int_text s \<and> int_of_text s \<noteq> 0 then Some (int_of_text s) else None)
   | _ \<Rightarrow> Return None)"

definition readDefaultFilterID :: "card \<Rightarrow> int option outcome" where
  "readDefaultFilterID screen = toId (prop_get (attributes screen) ''default_filter'')"

definition readGroupByAttr :: "card \<Rightarrow> string option" where
  "readGroupByAttr c = text_or_null (prop_get (attributes c) ''group_by_attr'')"

definition readColumnAttr :: "card \<Rightarrow> string option" where
  "readColumnAttr c = text_or_null (prop_get (attributes c) ''column_attr'')"

text \<open>\<open>try { return JSON.parse(s) } catch { ... }\<close>: \<open>None\<close> is the catch branch.\<close>

definition parse_or_null :: "string \<Rightarrow> js option outcome" where
  "parse_or_null s = catch_null (json_parse s)"

definition is_blank :: "string \<Rightarrow> bool" where
  "is_blank s \<longleftrightarrow> js_trim s = ''''"

datatype sort_dir = SAsc | SDesc

type_synonym sort_entry = "string \<times> sort_dir"

definition sort_entry_of :: "js \<Rightarrow> sort_entry option" where
  "sort_entry_of e =
     (let a = (case prop_get (asObj e) ''attr'' of JStr s \<Rightarrow> s | _ \<Rightarrow> '''') in
      if is_object e \<and> a \<noteq> '''' then Some (a, if prop_get (asObj e) ''dir'' = JStr ''desc'' then SDesc else SAsc)
      else None)"

definition sort_entries :: "js \<Rightarrow> sort_entry list" where
  "sort_entries arr = (case arr of JArr es \<Rightarrow> List.map_filter sort_entry_of es | _ \<Rightarrow> [])"

definition readSortBy :: "card \<Rightarrow> sort_entry list outcome" where
  "readSortBy f = (case prop_get (attributes f) ''sort'' of
     JStr s \<Rightarrow>
       if is_blank s then Return []
       else obind (parse_or_null s) (\<lambda>p. Return (case p of None \<Rightarrow> [] | Some arr \<Rightarrow> sort_entries arr))
   | v \<Rightarrow> Return (sort_entries v))"

definition trimmed_text :: "js \<Rightarrow> string option" where
  "trimmed_text e = (case e of JStr s \<Rightarrow> if js_trim s = '''' then None else Some (js_trim s) | _ \<Rightarrow> None)"

definition text_items :: "js \<Rightarrow> string list" where
  "text_items parsed =
     List.map_filter trimmed_text (case parsed of JArr xs \<Rightarrow> xs | JStr s \<Rightarrow> [JStr s] | _ \<Rightarrow> [])"

definition parseStringList :: "js \<Rightarrow> string list outcome" where
  "parseStringList raw = (case raw of
     JStr s \<Rightarrow>
       if is_blank s then Return []
       else obind (parse_or_null s) (\<lambda>p. Return (case p of None \<Rightarrow> [] | Some parsed \<Rightarrow> text_items parsed))
   | _ \<Rightarrow> Return [])"

definition readExtraColumns :: "card \<Rightarrow> string list outcome" where
  "readExtraColumns screen = parseStringList (prop_get (attributes screen) ''extra_columns'')"

definition readTagPrefixColumns :: "card \<Rightarrow> string list outcome" where
  "readTagPrefixColumns screen =
     obind (parseStringList (prop_get (attributes screen) ''tag_prefix_columns''))
       (\<lambda>ps. Return (filter (\<lambda>p. p \<noteq> '''') (map (trim_right ((=) CHR ''/'')) ps)))"

section \<open>Phase toggles\<close>

record phase_toggle =
  tg_label :: string
  tg_phase :: phase
  tg_defaultOn :: bool
  tg_attr :: string

fun PHASE_DEFAULT_LABEL :: "phase \<Rightarrow> string" where
  "PHASE_DEFAULT_LABEL Triage = ''Triage''"
| "PHASE_DEFAULT_LABEL Active = ''Active''"
| "PHASE_DEFAULT_LABEL Terminal = ''Closed''"

definition PHASE_ORDER :: "phase list" where
  "PHASE_ORDER = [Triage, Active, Terminal]"

text \<open>What one item of the group declares: its phase, label, default and the attribute it scopes.\<close>

definition declared_phase :: "js \<Rightarrow> (phase \<times> string \<times> bool \<times> string option) option" where
  "declared_phase it =
     (let item = asObj it; pred = prop_get item ''predicate'';
          ph = (case prop_get (asObj pred) ''values'' of
            JArr (v # vs) \<Rightarrow> if v = JNull \<or> v = JUndef then '''' else js_text v | _ \<Rightarrow> '''')
      in if \<not> is_object it \<or> \<not> is_object pred \<or> prop_get (asObj pred) ''op'' \<noteq> JStr ''has_phase'' then None
         else case phase_of (JStr ph) of
           None \<Rightarrow> None
         | Some p \<Rightarrow> Some (p,
             case text_or_null (prop_get item ''label'') of Some l \<Rightarrow> l | None \<Rightarrow> PHASE_DEFAULT_LABEL p,
             prop_get item ''default_on'' = JBool True,
             text_or_null (prop_get (asObj pred) ''attr'')))"

definition declare_item ::
  "js \<Rightarrow> (phase \<times> string \<times> bool) list \<times> string \<Rightarrow> (phase \<times> string \<times> bool) list \<times> string" where
  "declare_item it st = (case declared_phase it of
     None \<Rightarrow> st
   | Some (p, l, on, a) \<Rightarrow> (map_put p (l, on) (fst st), case a of Some x \<Rightarrow> x | None \<Rightarrow> snd st))"

definition toggle_items :: "js list \<Rightarrow> js list" where
  "toggle_items groups =
     (case find (\<lambda>g. is_object g \<and> prop_get (asObj g) ''name'' = JStr ''phase_scope'') groups of
        None \<Rightarrow> []
      | Some g \<Rightarrow> asArray (prop_get (asObj g) ''items''))"

definition phase_toggles :: "js list \<Rightarrow> string option \<Rightarrow> phase_toggle list" where
  "phase_toggles groups attrOverride =
     (let (declared, parsedAttr) = fold declare_item (toggle_items groups) ([], ''status'') in
      if declared = [] then []
      else let a = (case attrOverride of Some x \<Rightarrow> if x \<noteq> '''' then x else parsedAttr | None \<Rightarrow> parsedAttr) in
        map (\<lambda>p. \<lparr>tg_label = (case map_of declared p of Some d \<Rightarrow> fst d | None \<Rightarrow> PHASE_DEFAULT_LABEL p), tg_phase = p,
              tg_defaultOn = (case map_of declared p of Some d \<Rightarrow> snd d | None \<Rightarrow> False), tg_attr = a\<rparr>) PHASE_ORDER)"

definition readPhaseToggles :: "card \<Rightarrow> string option \<Rightarrow> phase_toggle list outcome" where
  "readPhaseToggles screen attrOverride = (case prop_get (attributes screen) ''toggle_groups'' of
     JStr s \<Rightarrow>
       if is_blank s then Return []
       else obind (parse_or_null s) (\<lambda>p. Return (case p of
         Some (JArr groups) \<Rightarrow> phase_toggles groups attrOverride | _ \<Rightarrow> []))
   | _ \<Rightarrow> Return [])"

section \<open>Stored predicates\<close>

definition readPredicate :: "card \<Rightarrow> predicate option outcome" where
  "readPredicate f = (let raw = prop_get (attributes f) ''predicate'' in
     case raw of
       JStr s \<Rightarrow> if is_blank s then Return None else catch_null (obind (json_parse s) fromWire)
     | _ \<Rightarrow> if is_object raw then catch_null (fromWire raw) else Return None)"

definition personalScopeTree :: "card \<Rightarrow> wire option outcome" where
  "personalScopeTree screen = (case prop_get (attributes screen) ''predicate'' of
     JStr s \<Rightarrow>
       if is_blank s then Return None
       else obind (parse_or_null s) (\<lambda>p. Return (case p of
         Some (JObj node) \<Rightarrow> if prop_get node ''children'' = JArr [] then None else Some node
       | _ \<Rightarrow> None))
   | _ \<Rightarrow> Return None)"

definition readFlowRef :: "card \<Rightarrow> string option" where
  "readFlowRef screen = (case prop_get (attributes screen) ''flow_ref'' of
     JBig i \<Rightarrow> Some (int_text i)
   | JNum (Fin r) \<Rightarrow> if is_int_rat r then Some (num_text (Fin r)) else None
   | JStr s \<Rightarrow> if s \<noteq> '''' \<and> list_all is_digit s then Some s else None
   | _ \<Rightarrow> None)"

section \<open>Loading a project screen\<close>

record preset_set =
  ps_screen :: "card option"
  ps_filters :: "card list"
  ps_default :: "card option"
  ps_phaseAttr :: "string option"
  ps_cardType :: "string option"
  ps_scope :: "wire option"

definition no_screen :: preset_set where
  "no_screen = \<lparr>ps_screen = None, ps_filters = [], ps_default = None, ps_phaseAttr = None, ps_cardType = None,
     ps_scope = None\<rparr>"

record flow_row =
  fl_id :: js
  fl_attr :: js
  fl_cardType :: js

record screen_load =
  screenRows :: "card list option"
  filterRows :: "card list option"
  flowRows :: "flow_row list option"
  results :: "preset_set outcome list"

definition start_load :: screen_load where
  "start_load = \<lparr>screenRows = None, filterRows = None, flowRows = None, results = []\<rparr>"

definition resolve_screen :: "string \<Rightarrow> card list \<Rightarrow> card list \<Rightarrow> flow_row list \<Rightarrow> preset_set outcome" where
  "resolve_screen slug screens filters flows =
     (case find (\<lambda>r. readSlug r = Some slug) screens of
        None \<Rightarrow> Return no_screen
      | Some screen \<Rightarrow>
          let own = filter (\<lambda>f. parent_card_id f = Some (card_id screen)) filters in
          obind (readDefaultFilterID screen) (\<lambda>defaultId.
            let flow = (case readFlowRef screen of
                  None \<Rightarrow> None | Some ref \<Rightarrow> find (\<lambda>r. js_text (fl_id r) = ref) flows)
            in Return \<lparr>ps_screen = Some screen, ps_filters = own,
                 ps_default = (case defaultId of None \<Rightarrow> None | Some i \<Rightarrow> find (\<lambda>f. card_id f = i) own),
                 ps_phaseAttr = (case flow of None \<Rightarrow> None
                   | Some r \<Rightarrow> (case fl_attr r of JStr s \<Rightarrow> Some s | _ \<Rightarrow> None)),
                 ps_cardType = (case flow of None \<Rightarrow> None | Some r \<Rightarrow> text_or_null (fl_cardType r)),
                 ps_scope = None\<rparr>))"

definition finish :: "string \<Rightarrow> screen_load \<Rightarrow> screen_load" where
  "finish slug st = (case (screenRows st, filterRows st, flowRows st) of
     (Some screens, Some filters, Some flows) \<Rightarrow> st\<lparr>results := results st @ [resolve_screen slug screens filters flows]\<rparr>
   | _ \<Rightarrow> st)"

text \<open>An answer to one of the three reads; the failure of the screen read has no handler.\<close>

datatype load_event =
    GotScreens "card list option" | ScreensFailed
  | GotFilters "card list option" | FiltersFailed
  | GotFlows "flow_row list option" | FlowsFailed

definition rows_or_none :: "'a list option \<Rightarrow> 'a list" where
  "rows_or_none rows = (case rows of None \<Rightarrow> [] | Some xs \<Rightarrow> xs)"

fun load_step :: "string \<Rightarrow> load_event \<Rightarrow> screen_load \<Rightarrow> screen_load" where
  "load_step slug (GotScreens rows) st = finish slug (st\<lparr>screenRows := Some (rows_or_none rows)\<rparr>)"
| "load_step slug ScreensFailed st = st"
| "load_step slug (GotFilters rows) st = finish slug (st\<lparr>filterRows := Some (rows_or_none rows)\<rparr>)"
| "load_step slug FiltersFailed st = finish slug (st\<lparr>filterRows := Some []\<rparr>)"
| "load_step slug (GotFlows rows) st = finish slug (st\<lparr>flowRows := Some (rows_or_none rows)\<rparr>)"
| "load_step slug FlowsFailed st = finish slug (st\<lparr>flowRows := Some []\<rparr>)"

definition loadScreenAndFilters :: "string \<Rightarrow> load_event list \<Rightarrow> screen_load" where
  "loadScreenAndFilters slug es = fold (load_step slug) es start_load"

text \<open>The three reads it issues in one tick.\<close>

definition screen_requests :: "int \<Rightarrow> (string \<times> js props) list" where
  "screen_requests projectId =
     [(''card.select_with_attributes'', [(''cardTypeName'', JStr ''screen''), (''parentCardId'', JBig projectId)]),
      (''card.select_with_attributes'', [(''cardTypeName'', JStr ''filter''), (''projectId'', JBig projectId)]),
      (''flow.list'', [(''scopeCardId'', JStr (int_text projectId))])]"

section \<open>Loading a personal screen\<close>

record personal_load =
  p_screen :: "card option option"
  p_filters :: "card list option"
  p_results :: "preset_set outcome list"

definition resolve_personal :: "card option \<Rightarrow> card list \<Rightarrow> preset_set outcome" where
  "resolve_personal screen filters = (case screen of
     None \<Rightarrow> Return no_screen
   | Some s \<Rightarrow>
       let comm = (prop_get (attributes s) ''list_card_type'' = JStr ''comm'');
           defaultRaw = prop_get (attributes s) ''default_filter'';
           defaultId = (if defaultRaw = JNull \<or> defaultRaw = JUndef then '''' else js_text defaultRaw)
       in obind (personalScopeTree s) (\<lambda>scope.
            Return \<lparr>ps_screen = Some s, ps_filters = filters,
              ps_default = find (\<lambda>f. int_text (card_id f) = defaultId) filters,
              ps_phaseAttr = Some (if comm then ''comm_status'' else ''status''),
              ps_cardType = Some (if comm then ''comm'' else ''task''), ps_scope = scope\<rparr>))"

definition finish_personal :: "personal_load \<Rightarrow> personal_load" where
  "finish_personal st = (case (p_screen st, p_filters st) of
     (Some screen, Some filters) \<Rightarrow> st\<lparr>p_results := p_results st @ [resolve_personal screen filters]\<rparr>
   | _ \<Rightarrow> st)"

datatype personal_event = GotScreen "card list option" | ScreenFailed | GotViews "card list option" | ViewsFailed

fun personal_step :: "personal_event \<Rightarrow> personal_load \<Rightarrow> personal_load" where
  "personal_step (GotScreen rows) st =
     finish_personal (st\<lparr>p_screen := Some (case rows_or_none rows of [] \<Rightarrow> None | c # _ \<Rightarrow> Some c)\<rparr>)"
| "personal_step ScreenFailed st = finish_personal (st\<lparr>p_screen := Some None\<rparr>)"
| "personal_step (GotViews rows) st = finish_personal (st\<lparr>p_filters := Some (rows_or_none rows)\<rparr>)"
| "personal_step ViewsFailed st = finish_personal (st\<lparr>p_filters := Some []\<rparr>)"

definition loadPersonalScreen :: "personal_event list \<Rightarrow> personal_load" where
  "loadPersonalScreen es = fold personal_step es \<lparr>p_screen = None, p_filters = None, p_results = []\<rparr>"

definition personal_requests :: "string \<Rightarrow> (string \<times> js props) list outcome" where
  "personal_requests screenId =
     (if \<not> is_int_text screenId then OffType ''BigInt''
      else let i = JBig (int_of_text screenId) in Return
        [(''card.select_with_attributes'', [(''cardTypeName'', JStr ''screen''), (''ids'', JArr [i])]),
         (''card.select_with_attributes'', [(''cardTypeName'', JStr ''filter''), (''parentCardId'', i),
            (''order'', JArr [order_entry ''attributes.sort_order'' ''ASC''])])])"

section \<open>The views do not depend on the order of the answers\<close>

fun filters_of :: "load_event \<Rightarrow> card list option" where
  "filters_of (GotFilters rows) = Some (rows_or_none rows)"
| "filters_of FiltersFailed = Some []"
| "filters_of _ = None"

fun flows_of :: "load_event \<Rightarrow> flow_row list option" where
  "flows_of (GotFlows rows) = Some (rows_or_none rows)"
| "flows_of FlowsFailed = Some []"
| "flows_of _ = None"

lemma load_step_filters: "filters_of e = Some fs \<Longrightarrow> load_step slug e st = finish slug (st\<lparr>filterRows := Some fs\<rparr>)"
  by (cases e) auto

lemma load_step_flows: "flows_of e = Some fs \<Longrightarrow> load_step slug e st = finish slug (st\<lparr>flowRows := Some fs\<rparr>)"
  by (cases e) auto

lemma three_orders:
  assumes "mset es = {#x, y, z#}"
  shows "es \<in> {[x, y, z], [x, z, y], [y, x, z], [y, z, x], [z, x, y], [z, y, x]}"
proof -
  have "length es = 3" using arg_cong [OF assms, of size] by simp
  then obtain a b c where es: "es = [a, b, c]" by (auto simp: numeral_3_eq_3 length_Suc_conv)
  with assms show ?thesis by (auto simp: add_eq_conv_ex)
qed

text \<open>C35: In whatever order the three reads of a project screen are answered, the views are resolved exactly once,
  with the last answer, from the rows of the three; filters or flows that failed count as empty.\<close>

theorem screen_resolves_once:
  assumes es: "mset es = {#GotScreens rows, f, w#}" and f: "filters_of f = Some fs" and w: "flows_of w = Some ws"
  shows "results (loadScreenAndFilters slug es) = [resolve_screen slug (rows_or_none rows) fs ws] \<and>
    (n < 3 \<longrightarrow> results (loadScreenAndFilters slug (take n es)) = [])"
proof -
  note defs = loadScreenAndFilters_def start_load_def finish_def load_step_filters [OF f] load_step_flows [OF w]
  have n: "n < 3 \<longleftrightarrow> n = 0 \<or> n = 1 \<or> n = 2" by auto
  from three_orders [OF es] consider "es = [GotScreens rows, f, w]" | "es = [GotScreens rows, w, f]"
    | "es = [f, GotScreens rows, w]" | "es = [f, w, GotScreens rows]" | "es = [w, GotScreens rows, f]"
    | "es = [w, f, GotScreens rows]" by auto
  then show ?thesis by cases (auto simp: defs n numeral_2_eq_2)
qed

definition sample_card :: "int \<Rightarrow> int option \<Rightarrow> js props \<Rightarrow> card" where
  "sample_card i p a = \<lparr>card_id = i, card_type_id = 1, card_type_name = ''screen'', parent_card_id = p,
     card_phase = None, attributes = a, personal_sort_order = None, approvals = JUndef, watch = JUndef,
     is_private = False, created_at = None, last_activity_at = None\<rparr>"

theorem screen_resolves_once_witness:
  "results (loadScreenAndFilters ''inbox''
     [FlowsFailed, GotFilters (Some [sample_card 9 (Some 5) []]), GotScreens (Some [sample_card 5 (Some 2) [(''slug'', JStr ''inbox'')]])]) =
   [resolve_screen ''inbox'' [sample_card 5 (Some 2) [(''slug'', JStr ''inbox'')]] [sample_card 9 (Some 5) []] []]"
  using screen_resolves_once [of "[FlowsFailed, GotFilters (Some [sample_card 9 (Some 5) []]),
      GotScreens (Some [sample_card 5 (Some 2) [(''slug'', JStr ''inbox'')]])]"
      "Some [sample_card 5 (Some 2) [(''slug'', JStr ''inbox'')]]" "GotFilters (Some [sample_card 9 (Some 5) []])"
      FlowsFailed "[sample_card 9 (Some 5) []]" "[]" "''inbox''" 0]
  by (simp add: rows_or_none_def)

text \<open>When the screen read fails, nothing is resolved, whatever else is answered.\<close>

lemma failed_screen_never_resolves:
  "(\<forall>e \<in> set es. \<forall>rows. e \<noteq> GotScreens rows) \<Longrightarrow> results (loadScreenAndFilters slug es) = []"
proof -
  have "screenRows st = None \<Longrightarrow> results st = [] \<Longrightarrow> (\<forall>e \<in> set es. \<forall>rows. e \<noteq> GotScreens rows) \<Longrightarrow>
      screenRows (fold (load_step slug) es st) = None \<and> results (fold (load_step slug) es st) = []" for st
  proof (induction es arbitrary: st)
    case (Cons e es)
    have "screenRows (load_step slug e st) = None \<and> results (load_step slug e st) = []"
      using Cons.prems by (cases e) (auto simp: finish_def)
    with Cons show ?case by simp
  qed simp
  then show "(\<forall>e \<in> set es. \<forall>rows. e \<noteq> GotScreens rows) \<Longrightarrow> ?thesis"
    by (simp add: loadScreenAndFilters_def start_load_def)
qed

text \<open>A personal screen resolves once, with the second of its two answers.\<close>

lemma personal_resolves_once:
  assumes "es = [GotScreen rows, GotViews fs] \<or> es = [GotViews fs, GotScreen rows]"
  shows "p_results (loadPersonalScreen es) =
    [resolve_personal (case rows_or_none rows of [] \<Rightarrow> None | c # _ \<Rightarrow> Some c) (rows_or_none fs)]"
  using assms by (auto simp: loadPersonalScreen_def finish_personal_def)

text \<open>A default view that is chosen is one of the screen's own views.\<close>

lemma default_is_own:
  assumes "resolve_screen slug screens filters flows = Return s" and "ps_default s = Some f"
  shows "f \<in> set (ps_filters s) \<and> (\<exists>c. ps_screen s = Some c \<and> parent_card_id f = Some (card_id c))"
  using assms
  by (auto simp: resolve_screen_def no_screen_def outcome_simps Let_def find_Some_iff split: option.splits)
    (metis (mono_tags, lifting) nth_mem mem_Collect_eq set_filter)+

section \<open>Phase toggles\<close>

lemma declared_nonempty: "fst st \<noteq> [] \<Longrightarrow> fst (declare_item it st) \<noteq> []"
  by (auto simp: declare_item_def map_put_def split: option.split)

definition declares :: "phase \<Rightarrow> js \<Rightarrow> bool" where
  "declares p it \<longleftrightarrow> (\<exists>d. declared_phase it = Some (p, d))"

text \<open>The last item that declares a phase counts.\<close>

lemma map_of_declared:
  "map_of (fst (fold declare_item its st)) p = (case filter (declares p) its of
     [] \<Rightarrow> map_of (fst st) p
   | ds \<Rightarrow> (case declared_phase (last ds) of Some (q, l, on, a) \<Rightarrow> Some (l, on) | None \<Rightarrow> None))"
proof (induction its arbitrary: st)
  case (Cons it its)
  then show ?case
    by (auto simp: declares_def declare_item_def split: option.splits list.splits)
qed simp

lemma declared_Nil: "fst (fold declare_item its ([], a)) = [] \<longleftrightarrow> (\<forall>p. filter (declares p) its = [])"
proof
  have e: "m = [] \<longleftrightarrow> (\<forall>p. map_of m p = None)" for m :: "(phase \<times> string \<times> bool) list"
    by (cases m) auto
  assume l: "fst (fold declare_item its ([], a)) = []"
  show "\<forall>p. filter (declares p) its = []"
  proof
    fix p
    show "filter (declares p) its = []"
    proof (rule ccontr)
      assume ne: "filter (declares p) its \<noteq> []"
      then have "last (filter (declares p) its) \<in> set (filter (declares p) its)" by (rule last_in_set)
      then have "declares p (last (filter (declares p) its))" by simp
      with ne have "map_of (fst (fold declare_item its ([], a))) p \<noteq> None"
        by (auto simp: map_of_declared declares_def split: list.split)
      with l show False by simp
    qed
  qed
next
  assume "\<forall>p. filter (declares p) its = []"
  then have "map_of (fst (fold declare_item its ([], a))) p = None" for p by (simp add: map_of_declared)
  moreover have "map_of ((k, v) # m) k \<noteq> None" for k :: phase and v :: "string \<times> bool" and m by simp
  ultimately show "fst (fold declare_item its ([], a)) = []" by (metis list.exhaust surj_pair)
qed

text \<open>A screen that declares no phase has no toggles; any other has the three phases in their order, all
  scoping one attribute, the one given when it is given; a phase is on by default exactly when the
  last item that declares it says so.\<close>

theorem phase_toggles_uniform:
  shows "(phase_toggles groups a = [] \<longleftrightarrow> (\<forall>p. filter (declares p) (toggle_items groups) = [])) \<and>
    (phase_toggles groups a = [] \<or>
     map tg_phase (phase_toggles groups a) = [Triage, Active, Terminal] \<and>
     (\<exists>x. map tg_attr (phase_toggles groups a) = [x, x, x] \<and> (a = None \<or> a = Some '''' \<or> a = Some x)) \<and>
     map tg_defaultOn (phase_toggles groups a) =
       map (\<lambda>p. \<exists>d l b. filter (declares p) (toggle_items groups) = d @ [l] \<and>
         (\<exists>t. declared_phase l = Some (p, t, True, b))) [Triage, Active, Terminal])"
proof -
  let ?its = "toggle_items groups"
  obtain declared parsedAttr where st: "fold declare_item ?its ([], ''status'') = (declared, parsedAttr)"
    by (cases "fold declare_item ?its ([], ''status'')")
  have nil: "declared = [] \<longleftrightarrow> (\<forall>p. filter (declares p) ?its = [])"
    using declared_Nil [of ?its "''status''"] by (simp add: st)
  have on: "(case map_of declared p of Some d \<Rightarrow> snd d | None \<Rightarrow> False) \<longleftrightarrow>
      (\<exists>d l b. filter (declares p) ?its = d @ [l] \<and> (\<exists>t. declared_phase l = Some (p, t, True, b)))" for p
  proof -
    have m: "map_of declared p = (case filter (declares p) ?its of [] \<Rightarrow> None
        | ds \<Rightarrow> (case declared_phase (last ds) of Some (q, l, on, a) \<Rightarrow> Some (l, on) | None \<Rightarrow> None))"
      using map_of_declared [of ?its "([], ''status'')" p] by (simp only: st fst_conv map_of.simps)
    show ?thesis
    proof (cases "filter (declares p) ?its" rule: rev_cases)
      case Nil
      then show ?thesis by (simp add: m)
    next
      case (snoc ds l)
      then have "l \<in> set (filter (declares p) ?its)" by simp
      then have "declares p l" by simp
      then obtain t v b where l: "declared_phase l = Some (p, t, v, b)" by (auto simp: declares_def)
      have "map_of declared p = Some (t, v)" unfolding m snoc using l by (cases ds) simp_all
      with snoc l show ?thesis by simp
    qed
  qed
  show ?thesis
    unfolding phase_toggles_def st nil [symmetric]
    by (auto simp: Let_def PHASE_ORDER_def on split: option.split)
qed

section \<open>What is stored is read back\<close>

text \<open>The text of a JSON object or array starts and ends with its brackets, so that it is never blank.\<close>

lemma bracket_text:
  assumes "json_stringify v = Return (Some t)" and "is_object v"
  shows "js_trim t = t \<and> t \<noteq> ''''"
proof -
  have "\<exists>ts. t = ''['' @ ts @ '']'' \<or> t = ''{'' @ ts @ ''}''"
    using assms by (cases v) (auto simp: is_object_def outcome_simps)
  then show ?thesis
    using js_trim_keep [of "CHR ''[''" "CHR '']''"] js_trim_keep [of "CHR ''{''" "CHR ''}''"]
    by (auto simp: is_space_def)
qed

lemma stored_text:
  assumes "json_ok v" and "is_object v"
  obtains t where "json_stringify v = Return (Some t)" "parse_or_null t = Return (Some v)" "json_parse t = Return v" "\<not> is_blank t"
proof -
  obtain t where t: "json_stringify v = Return (Some t)" "json_parse t = Return v"
    using json_roundtrip [OF assms(1)] by blast
  with bracket_text [OF t(1) assms(2)] that show ?thesis
    by (simp add: parse_or_null_def catch_null_def is_blank_def)
qed

lemma trimmed_items: "list_all (\<lambda>x. js_trim x = x \<and> x \<noteq> '''') xs \<Longrightarrow> List.map_filter trimmed_text (map JStr xs) = xs"
  by (induction xs) (simp_all add: map_filter_simps trimmed_text_def)

definition sort_js :: "sort_entry \<Rightarrow> js" where
  "sort_js e = JObj [(''attr'', JStr (fst e)), (''dir'', JStr (case snd e of SAsc \<Rightarrow> ''asc'' | SDesc \<Rightarrow> ''desc''))]"

lemma sort_entries_js: "list_all (\<lambda>e. fst e \<noteq> '''') es \<Longrightarrow> List.map_filter sort_entry_of (map sort_js es) = es"
proof (induction es)
  case (Cons e es)
  then show ?case
    by (cases e; cases "snd e") (auto simp: map_filter_simps sort_entry_of_def sort_js_def is_object_def)
qed (simp add: map_filter_simps)

lemma json_ok_sort_js: "json_ok (JArr (map sort_js es))"
  by (auto simp: sort_js_def obj_canon_def obj_put_def has_prop_def index_before_def is_index_key_def is_digit_def)

text \<open>The lists a screen stores as JSON text, of column names and of sort keys, are read back as they were,
  for names that are neither empty nor padded with white space.\<close>

theorem stored_lists_are_read_back:
  assumes "list_all (\<lambda>x. js_trim x = x \<and> x \<noteq> '''') xs" and "list_all (\<lambda>e. fst e \<noteq> '''') es"
  shows "\<exists>t u. json_stringify (JArr (map JStr xs)) = Return (Some t) \<and> parseStringList (JStr t) = Return xs \<and>
    json_stringify (JArr (map sort_js es)) = Return (Some u) \<and>
    readSortBy (c\<lparr>attributes := [(''sort'', JStr u)]\<rparr>) = Return es"
proof -
  obtain t where t: "json_stringify (JArr (map JStr xs)) = Return (Some t)" "parse_or_null t = Return (Some (JArr (map JStr xs)))"
      "\<not> is_blank t"
    by (rule stored_text [of "JArr (map JStr xs)"]) (auto simp: is_object_def)
  obtain u where u: "json_stringify (JArr (map sort_js es)) = Return (Some u)" "parse_or_null u = Return (Some (JArr (map sort_js es)))"
      "\<not> is_blank u"
    by (rule stored_text [OF json_ok_sort_js [of es]]) (auto simp: is_object_def)
  have "parseStringList (JStr t) = Return xs"
    using t trimmed_items [OF assms(1)] by (simp add: parseStringList_def text_items_def)
  moreover have "readSortBy (c\<lparr>attributes := [(''sort'', JStr u)]\<rparr>) = Return es"
    using u sort_entries_js [OF assms(2)] by (simp add: readSortBy_def sort_entries_def)
  ultimately show ?thesis using t(1) u(1) by blast
qed

theorem stored_lists_are_read_back_witness:
  "\<exists>t u. parseStringList (JStr t) = Return [''due_date'', ''approvals''] \<and>
    readSortBy ((sample_card 1 None [])\<lparr>attributes := [(''sort'', JStr u)]\<rparr>) = Return [(''due_date'', SDesc)]"
proof -
  have "list_all (\<lambda>x. js_trim x = x \<and> x \<noteq> '''') [''due_date'', ''approvals'']"
    "list_all (\<lambda>e. fst e \<noteq> '''') [(''due_date'', SDesc)]" by code_simp+
  from stored_lists_are_read_back [OF this] show ?thesis by blast
qed

lemma wire_children: "prop_get (toWire q) ''children'' = JArr [] \<longleftrightarrow> (\<exists>c. q = Group c [])"
  by (cases q) (auto simp: leaf_wire_def split: option.splits)

text \<open>The predicate a view or a personal screen stores as JSON text is the predicate its reader finds; as the
  scope of a personal screen it is sent with its meaning, and an empty group is no scope.\<close>

theorem stored_scope_keeps_meaning:
  assumes "not_arity q" and "values_ok q" and "\<forall>c. q \<noteq> Group c []"
  shows "\<exists>t node. json_stringify (JObj (toWire q)) = Return (Some t) \<and>
    readPredicate (c\<lparr>attributes := [(''predicate'', JStr t)]\<rparr>) = Return (Some (canon q)) \<and>
    personalScopeTree (c\<lparr>attributes := [(''predicate'', JStr t)]\<rparr>) = Return (Some node) \<and>
    (\<forall>ev. wire_sat ev node = sat ev q)"
proof -
  obtain t where t: "json_stringify (JObj (toWire q)) = Return (Some t)" "parse_or_null t = Return (Some (JObj (toWire q)))"
      "json_parse t = Return (JObj (toWire q))" "\<not> is_blank t"
    by (rule stored_text [OF json_ok_toWire [OF assms(2)]]) (auto simp: is_object_def)
  have "readPredicate (c\<lparr>attributes := [(''predicate'', JStr t)]\<rparr>) = Return (Some (canon q))"
    using t decode_roundtrip [OF assms(1)] by (simp add: readPredicate_def catch_null_def)
  moreover have "personalScopeTree (c\<lparr>attributes := [(''predicate'', JStr t)]\<rparr>) = Return (Some (toWire q))"
    using t wire_children [of q] assms(3) by (simp add: personalScopeTree_def)
  ultimately show ?thesis using t(1) wire_sat_toWire [OF assms(1)] by blast
qed

theorem stored_scope_keeps_meaning_witness:
  "\<exists>t node. readPredicate ((sample_card 1 None [])\<lparr>attributes := [(''predicate'', JStr t)]\<rparr>) =
      Return (Some (Leaf (mk_leaf ''status'' Op_in (Some [JStr ''3''])))) \<and>
    personalScopeTree ((sample_card 1 None [])\<lparr>attributes := [(''predicate'', JStr t)]\<rparr>) = Return (Some node)"
  using stored_scope_keeps_meaning [of "Leaf (mk_leaf ''status'' Op_in (Some [JStr ''3'']))" "sample_card 1 None []"]
  by (auto simp: mk_leaf_def leaf_vals_def canon_leaf_def)

text \<open>A fractional number as the default view is not read as none: \<open>BigInt\<close> throws.\<close>

lemma fractional_view_throws: "\<exists>e. readDefaultFilterID (sample_card 1 None [(''default_filter'', JNum (Fin (3/2)))]) = Throw e"
proof -
  have "\<lfloor>3 / 2 :: rat\<rfloor> = 1" by (simp add: floor_eq_iff)
  then show ?thesis by (simp add: readDefaultFilterID_def sample_card_def toId_def is_int_rat_def)
qed

end
