(* ===== verification/Controls.thy ===== *)
theory Controls
  imports Dispatch
begin

text \<open>
  The control framework of \<^verbatim>\<open>core/control.ts\<close>: the registry and its factory, mounting a control with
  its declarative children, handlers, intents and faults, and the teardown of a subtree. Controls
  are numbers into the heap \<open>ctl\<close>, given out in order of creation, so that a control is younger than
  its parent. What a concrete control renders beside its declarative children, and what a disposer
  does, is its own code: a disposer is a number, and running it is logged (it may throw, which the
  source catches).

  Main results: destroying a control destroys exactly the live controls it owns, runs each of their
  disposers once and children before their parent; every run of operations keeps the ownership
  relation of the heap well formed.
\<close>

section \<open>State\<close>

record hotkey_binding =
  aliases :: "string list"
  hk_run :: nat
  hk_label :: "string option"
  hk_fireInInputs :: "bool option"

datatype control_config =
  Cfg (cfg_type: string) (cfg_hotkeys: "hotkey_binding list") (cfg_children: "control_config list")

record control =
  config :: control_config
  placeholder :: bool
  kids :: "nat list"
  parent :: "nat option"
  disposers :: "nat list"
  mounted :: bool
  destroyed :: bool
  handlers :: "(string \<times> nat) list"
  intentListeners :: "(string \<times> nat list) list"
  fault :: "api_fault option"

datatype life_event = Appended nat | Ran nat nat | Removed nat

record world =
  ctl :: "nat \<Rightarrow> control"
  fresh :: nat
  registry :: "string list"
  version :: nat
  log :: "life_event list"

definition upd :: "nat \<Rightarrow> (control \<Rightarrow> control) \<Rightarrow> world \<Rightarrow> world" where
  "upd c f w = w\<lparr>ctl := (ctl w)(c := f (ctl w c))\<rparr>"

section \<open>Registry and factory\<close>

definition register_control :: "string \<Rightarrow> world \<Rightarrow> world outcome" where
  "register_control t w =
     (if t \<in> set (registry w) then Throw (''control '' @ [CHR 0x22] @ t @ [CHR 0x22] @ '' already registered'')
      else Return (w\<lparr>registry := registry w @ [t]\<rparr>))"

definition isRegistered :: "string \<Rightarrow> world \<Rightarrow> bool" where
  "isRegistered t w \<longleftrightarrow> t \<in> set (registry w)"

text \<open>\<open>Control.New\<close>: an unregistered type gives the placeholder, which keeps the config.\<close>

definition New :: "control_config \<Rightarrow> world \<Rightarrow> nat \<times> world" where
  "New cfg w =
     (fresh w,
      w\<lparr>ctl := (ctl w)(fresh w := \<lparr>config = cfg, placeholder = (cfg_type cfg \<notin> set (registry w)), kids = [],
           parent = None, disposers = [], mounted = False, destroyed = False, handlers = [],
           intentListeners = [], fault = None\<rparr>),
        fresh := Suc (fresh w)\<rparr>)"

section \<open>Mounting\<close>

definition bumpControlTree :: "world \<Rightarrow> world" where
  "bumpControlTree w = w\<lparr>version := version w + 1\<rparr>"

text \<open>The end of \<open>mount\<close>: append the root element, mark, and bump the version.\<close>

definition attach :: "nat \<Rightarrow> world \<Rightarrow> world" where
  "attach c w = bumpControlTree (upd c (\<lambda>x. x\<lparr>mounted := True\<rparr>) (w\<lparr>log := log w @ [Appended c]\<rparr>))"

text \<open>The start of \<open>spawn\<close>: a new control owned by \<open>p\<close>.\<close>

definition adopt :: "nat \<Rightarrow> control_config \<Rightarrow> world \<Rightarrow> nat \<times> world" where
  "adopt p cfg w = (case New cfg w of (c, w') \<Rightarrow>
     (c, upd p (\<lambda>x. x\<lparr>kids := kids x @ [c]\<rparr>) (upd c (\<lambda>x. x\<lparr>parent := Some p\<rparr>) w')))"

fun spawn :: "nat \<Rightarrow> control_config \<Rightarrow> world \<Rightarrow> world"
  and mountChildren :: "nat \<Rightarrow> control_config list \<Rightarrow> world \<Rightarrow> world"
where
  "spawn p (Cfg t hk cs) w = (case adopt p (Cfg t hk cs) w of (c, w') \<Rightarrow>
     attach c (if placeholder (ctl w' c) then w' else mountChildren c cs w'))"
| "mountChildren p [] w = w"
| "mountChildren p (cfg # cfgs) w = mountChildren p cfgs (spawn p cfg w)"

definition mount :: "nat \<Rightarrow> world \<Rightarrow> world" where
  "mount c w =
     (if mounted (ctl w c) \<or> destroyed (ctl w c) then w
      else attach c (if placeholder (ctl w c) then w else mountChildren c (cfg_children (config (ctl w c))) w))"

definition isAlive :: "nat \<Rightarrow> world \<Rightarrow> bool" where
  "isAlive c w \<longleftrightarrow> \<not> destroyed (ctl w c)"

section \<open>Handlers, intents, faults\<close>

definition handler :: "nat \<Rightarrow> string \<Rightarrow> nat \<Rightarrow> world \<Rightarrow> world" where
  "handler c name f = upd c (\<lambda>x. x\<lparr>handlers := map_put name f (handlers x)\<rparr>)"

definition registerIntent :: "nat \<Rightarrow> string \<Rightarrow> nat \<Rightarrow> world \<Rightarrow> world" where
  "registerIntent c name f = upd c (\<lambda>x. x\<lparr>intentListeners :=
     map_put name ((case map_of (intentListeners x) name of None \<Rightarrow> [] | Some b \<Rightarrow> b) @ [f]) (intentListeners x)\<rparr>)"

text \<open>\<open>intent(name, payload)\<close> calls these listeners with the payload, in this order.\<close>

definition intent_calls :: "nat \<Rightarrow> string \<Rightarrow> world \<Rightarrow> nat list" where
  "intent_calls c name w = (case map_of (intentListeners (ctl w c)) name of None \<Rightarrow> [] | Some b \<Rightarrow> b)"

definition SIBLING_ABORT_REASON :: string where
  "SIBLING_ABORT_REASON = ''batch aborted by sibling sub-request''"

definition setFault :: "nat \<Rightarrow> api_fault \<Rightarrow> world \<Rightarrow> world" where
  "setFault c f w =
     (case f of Aborted r \<Rightarrow> if r = SIBLING_ABORT_REASON then w else upd c (\<lambda>x. x\<lparr>fault := Some f\<rparr>) w
      | _ \<Rightarrow> upd c (\<lambda>x. x\<lparr>fault := Some f\<rparr>) w)"

definition clearFault :: "nat \<Rightarrow> world \<Rightarrow> world" where
  "clearFault c = upd c (\<lambda>x. x\<lparr>fault := None\<rparr>)"

definition onDestroy :: "nat \<Rightarrow> nat \<Rightarrow> world \<Rightarrow> world" where
  "onDestroy c d = upd c (\<lambda>x. x\<lparr>disposers := disposers x @ [d]\<rparr>)"

section \<open>Bindings of a value to the DOM\<close>

text \<open>What a binding writes for the value of its source.\<close>

definition bound_text :: "js \<Rightarrow> string" where
  "bound_text v = (if v = JNull \<or> v = JUndef then '''' else js_text v)"

datatype attr_write = RemoveAttr | SetAttr string

definition bindAttr :: "js \<Rightarrow> attr_write" where
  "bindAttr v =
     (if v = JNull \<or> v = JUndef \<or> v = JBool False \<or> v = JStr '''' then RemoveAttr
      else if v = JBool True then SetAttr '''' else SetAttr (js_text v))"

definition truthy :: "js \<Rightarrow> bool" where
  "truthy v = (case v of JUndef \<Rightarrow> False | JNull \<Rightarrow> False | JBool b \<Rightarrow> b | JNum n \<Rightarrow> n \<noteq> Fin 0 \<and> n \<noteq> NaN
     | JStr s \<Rightarrow> s \<noteq> '''' | JBig i \<Rightarrow> i \<noteq> 0 | _ \<Rightarrow> True)"

definition bindShow :: "js \<Rightarrow> string" where
  "bindShow v = (if truthy v then '''' else ''none'')"

section \<open>Teardown\<close>

text \<open>The end of \<open>destroy\<close>, once the children are gone.\<close>

definition closed :: "control \<Rightarrow> control" where
  "closed x = x\<lparr>kids := [], parent := None, disposers := [], mounted := False, destroyed := True,
     handlers := [], intentListeners := []\<rparr>"

definition close_control :: "nat \<Rightarrow> world \<Rightarrow> world" where
  "close_control c w =
     bumpControlTree (upd c closed (w\<lparr>log := log w @ map (Ran c) (disposers (ctl w c)) @ [Removed c]\<rparr>))"

text \<open>One unit of fuel per nesting level; \<open>None\<close> means that it ran out.\<close>

fun destroy :: "nat \<Rightarrow> nat \<Rightarrow> world \<Rightarrow> world option"
  and destroy_all :: "nat \<Rightarrow> nat list \<Rightarrow> world \<Rightarrow> world option"
where
  "destroy 0 c w = None"
| "destroy (Suc n) c w =
     (if destroyed (ctl w c) then Some w
      else Option.bind (destroy_all n (kids (ctl w c)) (upd c (\<lambda>x. x\<lparr>destroyed := True\<rparr>) w))
        (\<lambda>w'. Some (close_control c w')))"
| "destroy_all n [] w = Some w"
| "destroy_all n (c # cs) w = Option.bind (destroy n c w) (destroy_all n cs)"

definition destroyChild :: "nat \<Rightarrow> nat \<Rightarrow> nat \<Rightarrow> world \<Rightarrow> world option" where
  "destroyChild n p c w =
     (if c \<in> set (kids (ctl w p))
      then destroy n c (upd p (\<lambda>x. x\<lparr>kids := remove1 c (kids x)\<rparr>) w) else Some w)"

definition childControls :: "nat \<Rightarrow> world \<Rightarrow> nat list" where
  "childControls c w = kids (ctl w c)"

section \<open>What a teardown does\<close>

definition about :: "nat \<Rightarrow> life_event \<Rightarrow> bool" where
  "about d e = (case e of Appended c \<Rightarrow> c = d | Ran c k \<Rightarrow> c = d | Removed c \<Rightarrow> c = d)"

definition last_words :: "world \<Rightarrow> nat \<Rightarrow> life_event list" where
  "last_words w d = map (Ran d) (disposers (ctl w d)) @ [Removed d]"

text \<open>The live controls a control owns, itself included.\<close>

inductive live_below :: "world \<Rightarrow> nat \<Rightarrow> nat \<Rightarrow> bool" for w c where
  live_self: "\<not> destroyed (ctl w c) \<Longrightarrow> live_below w c c"
| live_kid: "live_below w c x \<Longrightarrow> d \<in> set (kids (ctl w x)) \<Longrightarrow> \<not> destroyed (ctl w d) \<Longrightarrow> live_below w c d"

text \<open>From \<open>w\<close> to \<open>w'\<close> exactly the controls \<open>N\<close> were destroyed, with the events \<open>es\<close>.\<close>

definition tears :: "world \<Rightarrow> nat set \<Rightarrow> life_event list \<Rightarrow> world \<Rightarrow> bool" where
  "tears w N es w' \<longleftrightarrow> finite N \<and> (\<forall>d \<in> N. \<not> destroyed (ctl w d)) \<and>
     ctl w' = (\<lambda>d. if d \<in> N then closed (ctl w d) else ctl w d) \<and>
     fresh w' = fresh w \<and> registry w' = registry w \<and> log w' = log w @ es \<and> version w' = version w + card N \<and>
     (\<forall>d. filter (about d) es = (if d \<in> N then last_words w d else [])) \<and>
     (\<forall>d \<in> N. \<forall>k \<in> set (kids (ctl w d)). k \<in> N \<or> destroyed (ctl w k))"

lemma closed_simps [simp]:
  "kids (closed x) = []" "parent (closed x) = None" "disposers (closed x) = []" "\<not> mounted (closed x)"
  "destroyed (closed x)" "config (closed x) = config x"
  by (simp_all add: closed_def)

lemma about_last_words [simp]: "filter (about d) (last_words w c) = (if d = c then last_words w c else [])"
  by (auto simp: last_words_def about_def filter_empty_conv filter_id_conv)

lemma tears_none: "tears w {} [] w"
  by (simp add: tears_def)

lemma tears_join:
  assumes a: "tears w N es w'" and b: "tears w' M fs w''"
  shows "tears w (N \<union> M) (es @ fs) w''"
proof -
  have w': "ctl w' = (\<lambda>d. if d \<in> N then closed (ctl w d) else ctl w d)" using a by (simp add: tears_def)
  have disj: "N \<inter> M = {}" using b by (auto simp: tears_def w')
  have same: "ctl w' d = ctl w d" if "d \<in> M" for d using disj that by (auto simp: w')
  have words: "last_words w' d = last_words w d" if "d \<in> M" for d using same [OF that] by (simp add: last_words_def)
  have "ctl w'' = (\<lambda>d. if d \<in> N \<union> M then closed (ctl w d) else ctl w d)"
    using b disj by (auto simp: tears_def fun_eq_iff w')
  moreover have "filter (about d) (es @ fs) = (if d \<in> N \<union> M then last_words w d else [])" for d
    using a b disj words by (auto simp: tears_def)
  moreover have "k \<in> N \<union> M \<or> destroyed (ctl w k)" if "d \<in> N \<union> M" "k \<in> set (kids (ctl w d))" for d k
  proof (cases "d \<in> N")
    case True
    with a that show ?thesis by (auto simp: tears_def)
  next
    case False
    with that have "d \<in> M" by simp
    with b that(2) have "k \<in> M \<or> destroyed (ctl w' k)" using same [of d] by (auto simp: tears_def)
    then show ?thesis by (auto simp: w' split: if_splits)
  qed
  moreover have "card (N \<union> M) = card N + card M" using a b disj by (intro card_Un_disjoint) (simp_all add: tears_def)
  moreover have "\<not> destroyed (ctl w d)" if "d \<in> N \<union> M" for d
    using that a b same by (auto simp: tears_def)
  ultimately show ?thesis using a b by (simp add: tears_def)
qed

lemma tears_close:
  assumes c: "\<not> destroyed (ctl w c)" and t: "tears (upd c (\<lambda>x. x\<lparr>destroyed := True\<rparr>) w) N es w'"
    and kids: "\<forall>k \<in> set (kids (ctl w c)). k \<in> N \<or> destroyed (ctl (upd c (\<lambda>x. x\<lparr>destroyed := True\<rparr>) w) k)"
  shows "tears w (insert c N) (es @ last_words w c) (close_control c w') \<and> filter (about c) es = []"
proof -
  let ?w = "upd c (\<lambda>x. x\<lparr>destroyed := True\<rparr>) w"
  have cN: "c \<notin> N" using t by (auto simp: tears_def upd_def)
  have at: "ctl ?w d = ctl w d" if "d \<noteq> c" for d using that by (simp add: upd_def)
  have w': "ctl w' = (\<lambda>d. if d \<in> N then closed (ctl ?w d) else ctl ?w d)" using t by (simp add: tears_def)
  have wc: "ctl w' c = (ctl w c)\<lparr>destroyed := True\<rparr>" using cN by (simp add: w' upd_def)
  have none: "filter (about c) es = []" using t cN by (simp add: tears_def)
  have words: "last_words ?w d = last_words w d" if "d \<noteq> c" for d using at [OF that] by (simp add: last_words_def)
  have "ctl (close_control c w') = (\<lambda>d. if d \<in> insert c N then closed (ctl w d) else ctl w d)"
    using cN by (auto simp: close_control_def bumpControlTree_def upd_def w' fun_eq_iff closed_def)
  moreover have "log (close_control c w') = log w @ es @ last_words w c"
    using t wc by (simp add: close_control_def bumpControlTree_def upd_def tears_def last_words_def)
  moreover have "filter (about d) (es @ last_words w c) = (if d \<in> insert c N then last_words w d else [])" for d
    using t none words cN by (cases "d = c") (auto simp: tears_def)
  moreover have "k \<in> insert c N \<or> destroyed (ctl w k)" if "d \<in> insert c N" "k \<in> set (kids (ctl w d))" for d k
  proof (cases "d = c")
    case True
    with kids that(2) have "k \<in> N \<or> destroyed (ctl ?w k)" by blast
    with at [of k] show ?thesis by auto
  next
    case False
    with that t have "k \<in> N \<or> destroyed (ctl ?w k)" using at [OF False] by (auto simp: tears_def)
    with at [of k] show ?thesis by auto
  qed
  moreover have "\<not> destroyed (ctl w d)" if "d \<in> insert c N" for d
  proof (cases "d = c")
    case False
    with that t have "\<not> destroyed (ctl ?w d)" by (simp add: tears_def)
    with at [OF False] show ?thesis by simp
  qed (use c in simp)
  ultimately show ?thesis using t cN none
    by (simp add: tears_def close_control_def bumpControlTree_def upd_def)
qed

lemma destroy_tears:
  "destroy n c w = Some w' \<Longrightarrow> \<exists>N es. tears w N es w' \<and>
     (if destroyed (ctl w c) then N = {} \<and> es = []
      else c \<in> N \<and> (\<exists>fs. es = fs @ last_words w c \<and> filter (about c) fs = []))"
  "destroy_all n cs w = Some w' \<Longrightarrow> \<exists>N es. tears w N es w' \<and>
     (\<forall>c \<in> set cs. c \<in> N \<or> destroyed (ctl w c))"
proof (induction n c w and n cs w arbitrary: w' and w' rule: destroy_destroy_all.induct)
  case (2 n c w)
  show ?case
  proof (cases "destroyed (ctl w c)")
    case True
    with 2 show ?thesis using tears_none by auto
  next
    case False
    let ?w = "upd c (\<lambda>x. x\<lparr>destroyed := True\<rparr>) w"
    from 2(2) False obtain w1 where w1: "destroy_all n (kids (ctl w c)) ?w = Some w1" "w' = close_control c w1"
      by (auto simp: bind_eq_Some_conv)
    from 2(1) [OF False w1(1)] obtain N es where "tears ?w N es w1" "\<forall>k \<in> set (kids (ctl w c)). k \<in> N \<or> destroyed (ctl ?w k)"
      by blast
    from tears_close [OF False this] w1(2) False show ?thesis by auto
  qed
next
  case (3 n w)
  then show ?case using tears_none by auto
next
  case (4 n c cs w)
  from 4(3) obtain w1 where w1: "destroy n c w = Some w1" "destroy_all n cs w1 = Some w'"
    by (auto simp: bind_eq_Some_conv)
  obtain N es where N: "tears w N es w1" "c \<in> N \<or> destroyed (ctl w c)"
    using 4(1) [OF w1(1)] by (metis (full_types))
  obtain M fs where M: "tears w1 M fs w'" "\<forall>k \<in> set cs. k \<in> M \<or> destroyed (ctl w1 k)"
    using 4(2) [OF w1] by blast
  have "k \<in> N \<union> M \<or> destroyed (ctl w k)" if "k \<in> set cs" for k
    using M(2) that N(1) by (auto simp: tears_def split: if_splits)
  with tears_join [OF N(1) M(1)] N(2) show ?case by (intro exI [of _ "N \<union> M"] exI [of _ "es @ fs"]) auto
qed simp

section \<open>Exactly the live controls below\<close>

lemma live_alive: "live_below w c d \<Longrightarrow> \<not> destroyed (ctl w d)"
  by (induction rule: live_below.induct) auto

lemma live_prefix:
  assumes "\<not> destroyed (ctl w c)" and "k \<in> set (kids (ctl w c))" and "live_below w k d"
  shows "live_below w c d"
  using assms(3)
proof (induction rule: live_below.induct)
  case live_self
  then show ?case using assms(1,2) by (blast intro: live_below.intros)
qed (blast intro: live_below.intros)

lemma live_mono:
  assumes "live_below w' c d" and same: "\<And>x. \<not> destroyed (ctl w' x) \<Longrightarrow> ctl w' x = ctl w x"
  shows "live_below w c d"
  using assms(1)
proof (induction rule: live_below.induct)
  case live_self
  then show ?case using same by (metis live_below.live_self)
next
  case (live_kid x d)
  then show ?case using same live_alive by (metis live_below.live_kid)
qed

lemma tears_same: "tears w N es w' \<Longrightarrow> \<not> destroyed (ctl w' x) \<Longrightarrow> ctl w' x = ctl w x"
  by (auto simp: tears_def split: if_splits)

lemma destroy_reaches:
  "destroy n c w = Some w' \<Longrightarrow> destroyed (ctl w' d) \<Longrightarrow> \<not> destroyed (ctl w d) \<Longrightarrow> live_below w c d"
  "destroy_all n cs w = Some w' \<Longrightarrow> destroyed (ctl w' d) \<Longrightarrow> \<not> destroyed (ctl w d) \<Longrightarrow>
   \<exists>c \<in> set cs. live_below w c d"
proof (induction n c w and n cs w arbitrary: w' and w' rule: destroy_destroy_all.induct)
  case (2 n c w)
  let ?w = "upd c (\<lambda>x. x\<lparr>destroyed := True\<rparr>) w"
  show ?case
  proof (cases "destroyed (ctl w c)")
    case True
    with 2 show ?thesis by simp
  next
    case False
    from 2(2) False obtain w1 where w1: "destroy_all n (kids (ctl w c)) ?w = Some w1" "w' = close_control c w1"
      by (auto simp: bind_eq_Some_conv)
    show ?thesis
    proof (cases "d = c")
      case True
      with False show ?thesis by (simp add: live_self)
    next
      case other: False
      then have "destroyed (ctl w1 d)" "\<not> destroyed (ctl ?w d)"
        using 2(3,4) w1(2) by (simp_all add: close_control_def bumpControlTree_def upd_def)
      from 2(1) [OF False w1(1) this] obtain k where k: "k \<in> set (kids (ctl w c))" "live_below ?w k d" by blast
      have "live_below w k d"
        by (rule live_mono [OF k(2)]) (auto simp: upd_def split: if_splits)
      with False k(1) show ?thesis by (rule live_prefix)
    qed
  qed
next
  case (4 n c cs w)
  from 4(3) obtain w1 where w1: "destroy n c w = Some w1" "destroy_all n cs w1 = Some w'"
    by (auto simp: bind_eq_Some_conv)
  obtain N es where N: "tears w N es w1" using destroy_tears(1) [OF w1(1)] by blast
  show ?case
  proof (cases "destroyed (ctl w1 d)")
    case True
    with 4(1) [OF w1(1)] 4(5) show ?thesis by auto
  next
    case False
    with 4(2) [OF w1 4(4)] obtain k where "k \<in> set cs" "live_below w1 k d" by blast
    with live_mono tears_same [OF N] show ?thesis by (metis list.set_intros(2))
  qed
qed auto

lemma live_torn:
  assumes "tears w N es w'" and "c \<in> N" and "live_below w c d"
  shows "d \<in> N"
  using assms(3,1,2) by (induction rule: live_below.induct) (auto simp: tears_def)

lemma torn_live:
  assumes "destroy n c w = Some w'" and "tears w N es w'" and "\<not> destroyed (ctl w c)" and "c \<in> N"
  shows "N = Collect (live_below w c)"
proof -
  have "destroyed (ctl w' d)" "\<not> destroyed (ctl w d)" if "d \<in> N" for d
    using assms(2) that by (simp_all add: tears_def)
  then show ?thesis
    using destroy_reaches(1) [OF assms(1)] live_torn [OF assms(2,4)] by blast
qed

section \<open>The fuel is enough\<close>

definition younger :: "world \<Rightarrow> bool" where
  "younger w \<longleftrightarrow> (\<forall>c. \<forall>k \<in> set (kids (ctl w c)). c < k \<and> k < fresh w)"

lemma younger_tears: "younger w \<Longrightarrow> tears w N es w' \<Longrightarrow> younger w'"
  by (auto simp: younger_def tears_def)

lemma younger_flag [simp]: "younger (upd c (\<lambda>x. x\<lparr>destroyed := b\<rparr>) w) = younger w"
  by (auto simp: younger_def upd_def)

lemma destroy_fuel:
  "younger w \<Longrightarrow> c < fresh w \<Longrightarrow> fresh w - c \<le> n \<Longrightarrow> destroy n c w \<noteq> None"
  "younger w \<Longrightarrow> (\<forall>k \<in> set cs. k < fresh w \<and> fresh w - k \<le> n) \<Longrightarrow> destroy_all n cs w \<noteq> None"
proof (induction n c w and n cs w rule: destroy_destroy_all.induct)
  case (2 n c w)
  let ?w = "upd c (\<lambda>x. x\<lparr>destroyed := True\<rparr>) w"
  have "\<forall>k \<in> set (kids (ctl w c)). k < fresh ?w \<and> fresh ?w - k \<le> n"
    using 2(2,4) by (fastforce simp: younger_def upd_def)
  with 2 show ?case by auto
next
  case (4 n c cs w)
  then obtain w1 where w1: "destroy n c w = Some w1" by auto
  obtain N es where N: "tears w N es w1" using destroy_tears(1) [OF w1] by blast
  then have "fresh w1 = fresh w" by (simp add: tears_def)
  with 4(2) [OF w1 younger_tears [OF 4(3) N]] 4(4) w1 show ?case by simp
qed auto

section \<open>Every run keeps the ownership relation\<close>

definition blank :: control where
  "blank = \<lparr>config = Cfg '''' [] [], placeholder = False, kids = [], parent = None, disposers = [], mounted = False,
     destroyed = False, handlers = [], intentListeners = [], fault = None\<rparr>"

definition start_world :: world where
  "start_world = \<lparr>ctl = (\<lambda>_. blank), fresh = 0, registry = [], version = 0, log = []\<rparr>"

text \<open>
  Every child is younger than its owner and points back to it while it lives; whoever points to an
  owner is its child; a destroyed control is not mounted and has no owner. The child \<open>x\<close> may be
  missing from its owner's set.
\<close>

definition owned_but :: "nat option \<Rightarrow> world \<Rightarrow> bool" where
  "owned_but x w \<longleftrightarrow> younger w \<and>
     (\<forall>c. \<forall>k \<in> set (kids (ctl w c)). \<not> destroyed (ctl w k) \<longrightarrow> parent (ctl w k) = Some c) \<and>
     (\<forall>c p. parent (ctl w c) = Some p \<longrightarrow> Some c = x \<or> c \<in> set (kids (ctl w p))) \<and>
     (\<forall>c. destroyed (ctl w c) \<longrightarrow> \<not> mounted (ctl w c) \<and> parent (ctl w c) = None) \<and>
     (\<forall>c \<ge> fresh w. ctl w c = blank)"

abbreviation well_owned :: "world \<Rightarrow> bool" where
  "well_owned \<equiv> owned_but None"

inductive reachable :: "world \<Rightarrow> bool" where
  reach_start: "reachable start_world"
| reach_register: "reachable w \<Longrightarrow> register_control t w = Return w' \<Longrightarrow> reachable w'"
| reach_New: "reachable w \<Longrightarrow> reachable (snd (New cfg w))"
| reach_mount: "reachable w \<Longrightarrow> c < fresh w \<Longrightarrow> reachable (mount c w)"
| reach_spawn: "reachable w \<Longrightarrow> p < fresh w \<Longrightarrow> reachable (spawn p cfg w)"
| reach_destroy: "reachable w \<Longrightarrow> c < fresh w \<Longrightarrow> destroy n c w = Some w' \<Longrightarrow> reachable w'"
| reach_destroyChild: "reachable w \<Longrightarrow> p < fresh w \<Longrightarrow> destroyChild n p c w = Some w' \<Longrightarrow> reachable w'"
| reach_onDestroy: "reachable w \<Longrightarrow> c < fresh w \<Longrightarrow> reachable (onDestroy c d w)"
| reach_handler: "reachable w \<Longrightarrow> c < fresh w \<Longrightarrow> reachable (handler c name f w)"
| reach_intent: "reachable w \<Longrightarrow> c < fresh w \<Longrightarrow> reachable (registerIntent c name f w)"
| reach_fault: "reachable w \<Longrightarrow> c < fresh w \<Longrightarrow> reachable (setFault c e w)"
| reach_clear: "reachable w \<Longrightarrow> c < fresh w \<Longrightarrow> reachable (clearFault c w)"

lemma owned_butD:
  assumes "owned_but x w"
  shows "younger w" "k \<in> set (kids (ctl w c)) \<Longrightarrow> \<not> destroyed (ctl w k) \<Longrightarrow> parent (ctl w k) = Some c"
    "parent (ctl w c) = Some p \<Longrightarrow> Some c = x \<or> c \<in> set (kids (ctl w p))"
    "destroyed (ctl w c) \<Longrightarrow> \<not> mounted (ctl w c)" "destroyed (ctl w c) \<Longrightarrow> parent (ctl w c) = None"
    "fresh w \<le> c \<Longrightarrow> ctl w c = blank"
  using assms unfolding owned_but_def by blast+

lemma owned_butI:
  assumes "younger w" and "\<And>c k. k \<in> set (kids (ctl w c)) \<Longrightarrow> \<not> destroyed (ctl w k) \<Longrightarrow> parent (ctl w k) = Some c"
    and "\<And>c p. parent (ctl w c) = Some p \<Longrightarrow> Some c = x \<or> c \<in> set (kids (ctl w p))"
    and "\<And>c. destroyed (ctl w c) \<Longrightarrow> \<not> mounted (ctl w c)" and "\<And>c. destroyed (ctl w c) \<Longrightarrow> parent (ctl w c) = None"
    and "\<And>c. fresh w \<le> c \<Longrightarrow> ctl w c = blank"
  shows "owned_but x w"
  unfolding owned_but_def using assms by blast

lemma owned_same:
  assumes w: "well_owned w" and f: "fresh w' = fresh w"
    and k: "\<And>d. kids (ctl w' d) = kids (ctl w d)" and p: "\<And>d. parent (ctl w' d) = parent (ctl w d)"
    and d: "\<And>d. destroyed (ctl w' d) = destroyed (ctl w d)"
    and m: "\<And>d. mounted (ctl w' d) \<Longrightarrow> mounted (ctl w d) \<or> \<not> destroyed (ctl w d)"
    and b: "\<And>d. fresh w \<le> d \<Longrightarrow> ctl w' d = ctl w d"
  shows "well_owned w'"
proof (rule owned_butI)
  note o = owned_butD [OF w]
  show "younger w'" using o(1) by (simp add: younger_def k f)
  show "\<not> mounted (ctl w' c)" if "destroyed (ctl w' c)" for c using that m o(4) d by blast
  show "ctl w' c = blank" if "fresh w' \<le> c" for c using that o(6) b f by simp
  show "parent (ctl w' j) = Some c" if "j \<in> set (kids (ctl w' c))" "\<not> destroyed (ctl w' j)" for c j
    using that o(2) by (simp add: k p d)
  show "Some c = None \<or> c \<in> set (kids (ctl w' q))" if "parent (ctl w' c) = Some q" for c q
    using that o(3) [of c q] by (simp add: k p)
  show "parent (ctl w' c) = None" if "destroyed (ctl w' c)" for c
    using that o(5) by (simp add: p d)
qed

lemma owned_tears:
  assumes w: "owned_but x w" and t: "tears w N es w'" and x: "\<forall>c. x = Some c \<longrightarrow> c \<in> N \<or> destroyed (ctl w c)"
    and N: "\<forall>d \<in> N. d < fresh w"
  shows "well_owned w'"
proof -
  have w': "ctl w' = (\<lambda>d. if d \<in> N then closed (ctl w d) else ctl w d)" "fresh w' = fresh w"
    using t by (simp_all add: tears_def)
  note o = owned_butD [OF w]
  have kids: "k \<in> N \<or> destroyed (ctl w k)" if "d \<in> N" "k \<in> set (kids (ctl w d))" for d k
    using t that by (auto simp: tears_def)
  have up: "c \<in> set (kids (ctl w' p))" if "parent (ctl w' c) = Some p" for c p
  proof -
    from that have c: "c \<notin> N" "parent (ctl w c) = Some p" by (auto simp: w' split: if_splits)
    then have "\<not> destroyed (ctl w c)" using o(5) by fastforce
    then have "c \<in> set (kids (ctl w p))" using o(3) [OF c(2)] x c(1) by auto
    moreover have "p \<notin> N" using kids [of p c] c(1) \<open>\<not> destroyed (ctl w c)\<close> calculation by blast
    ultimately show ?thesis by (simp add: w')
  qed
  show ?thesis
  proof (rule owned_butI)
    show "younger w'" by (rule younger_tears [OF o(1) t])
    show "parent (ctl w' k) = Some c" if "k \<in> set (kids (ctl w' c))" "\<not> destroyed (ctl w' k)" for c k
      using that o(2) by (auto simp: w' split: if_splits)
    show "Some c = None \<or> c \<in> set (kids (ctl w' p))" if "parent (ctl w' c) = Some p" for c p
      using up that by blast
    show "\<not> mounted (ctl w' c)" if "destroyed (ctl w' c)" for c
      using that o(4) by (auto simp: w' split: if_splits)
    show "parent (ctl w' c) = None" if "destroyed (ctl w' c)" for c
      using that o(5) by (auto simp: w' split: if_splits)
    show "ctl w' c = blank" if "fresh w' \<le> c" for c
      using that o(6) N by (auto simp: w')
  qed
qed

lemma live_fresh: "live_below w c d \<Longrightarrow> younger w \<Longrightarrow> c < fresh w \<Longrightarrow> d < fresh w"
  by (induction rule: live_below.induct) (auto simp: younger_def)

lemma owned_destroy:
  assumes "owned_but x w" and "destroy n c w = Some w'" and "c < fresh w" and "x = None \<or> x = Some c"
  shows "well_owned w'"
proof -
  obtain N es where N: "tears w N es w'" "if destroyed (ctl w c) then N = {} \<and> es = [] else c \<in> N"
    using destroy_tears(1) [OF assms(2)] by (metis (full_types))
  have "\<forall>d \<in> N. d < fresh w"
    using N torn_live [OF assms(2) N(1)] live_fresh [OF _ owned_butD(1) [OF assms(1)] assms(3)]
    by (auto split: if_splits)
  then show ?thesis
    using owned_tears [OF assms(1) N(1)] N(2) assms(4) by (auto split: if_splits)
qed

lemma owned_field:
  assumes "well_owned w" and "c < fresh w"
    and "kids (f (ctl w c)) = kids (ctl w c)" "parent (f (ctl w c)) = parent (ctl w c)"
      "destroyed (f (ctl w c)) = destroyed (ctl w c)" "mounted (f (ctl w c)) = mounted (ctl w c)"
  shows "well_owned (upd c f w)"
  by (rule owned_same [OF assms(1)]) (use assms(2-) in \<open>auto simp: upd_def split: if_splits\<close>)

lemma owned_New: "well_owned w \<Longrightarrow> well_owned (snd (New cfg w))"
proof -
  assume w: "well_owned w"
  note o = owned_butD [OF w]
  have b: "kids (ctl w (fresh w)) = []" "parent (ctl w (fresh w)) = None" using o(6) [of "fresh w"] by (simp_all add: blank_def)
  let ?w = "snd (New cfg w)"
  have c: "ctl ?w d = ctl w d" if "d \<noteq> fresh w" for d using that by (simp add: New_def)
  have n: "kids (ctl ?w (fresh w)) = []" "parent (ctl ?w (fresh w)) = None" "\<not> destroyed (ctl ?w (fresh w))"
    by (simp_all add: New_def)
  have young: "younger ?w"
    using o(1) by (auto simp: younger_def New_def less_Suc_eq)
  show ?thesis
  proof (rule owned_butI)
    show "younger ?w" by (rule young)
    show "parent (ctl ?w k) = Some d" if "k \<in> set (kids (ctl ?w d))" "\<not> destroyed (ctl ?w k)" for d k
    proof -
      from that n have "d \<noteq> fresh w" by auto
      with that(1) have k: "k \<in> set (kids (ctl w d))" by (simp add: c)
      then have "k \<noteq> fresh w" using o(1) by (auto simp: younger_def)
      with k that(2) o(2) show ?thesis by (simp add: c)
    qed
    show "Some d = None \<or> d \<in> set (kids (ctl ?w p))" if "parent (ctl ?w d) = Some p" for d p
    proof -
      from that n have "d \<noteq> fresh w" by auto
      with that have "parent (ctl w d) = Some p" by (simp add: c)
      with o(3) have d: "d \<in> set (kids (ctl w p))" by blast
      then have "p \<noteq> fresh w" using b by auto
      with d show ?thesis by (simp add: c)
    qed
    show "\<not> mounted (ctl ?w d)" if "destroyed (ctl ?w d)" for d
      using that n o(4) by (cases "d = fresh w") (auto simp: c)
    show "parent (ctl ?w d) = None" if "destroyed (ctl ?w d)" for d
      using that n o(5) by (cases "d = fresh w") (auto simp: c)
    show "ctl ?w d = blank" if "fresh ?w \<le> d" for d
      using that o(6) by (simp add: New_def)
  qed
qed

lemma owned_adopt:
  assumes w: "well_owned w" and p: "p < fresh w"
  shows "well_owned (snd (adopt p cfg w))"
proof -
  let ?w = "snd (New cfg w)" let ?c = "fresh w" let ?v = "snd (adopt p cfg w)"
  note o = owned_butD [OF owned_New [OF w, of cfg]]
  have v: "ctl ?v d = (if d = ?c then (ctl ?w ?c)\<lparr>parent := Some p\<rparr>
      else if d = p then (ctl ?w p)\<lparr>kids := kids (ctl ?w p) @ [?c]\<rparr> else ctl ?w d)" for d
    using p by (simp add: adopt_def New_def upd_def)
  have fr: "fresh ?v = Suc ?c" "fresh ?w = Suc ?c" by (simp_all add: adopt_def New_def upd_def)
  have n: "kids (ctl ?w ?c) = []" "\<not> destroyed (ctl ?w ?c)" "\<not> mounted (ctl ?w ?c)" by (simp_all add: New_def)
  have notkid: "?c \<notin> set (kids (ctl ?w d))" for d
  proof
    assume "?c \<in> set (kids (ctl ?w d))"
    then have "parent (ctl ?w ?c) = Some d" using o(2) n by blast
    then show False by (simp add: New_def)
  qed
  show ?thesis
  proof (rule owned_butI)
    show "younger ?v" using o(1) p by (auto simp: younger_def v fr split: if_splits)
    show "parent (ctl ?v k) = Some d" if "k \<in> set (kids (ctl ?v d))" "\<not> destroyed (ctl ?v k)" for d k
    proof (cases "k = ?c")
      case True
      with that notkid n show ?thesis by (auto simp: v split: if_splits)
    next
      case False
      with that have "k \<in> set (kids (ctl ?w d))" using n by (auto simp: v split: if_splits)
      moreover have "\<not> destroyed (ctl ?w k)" using that(2) False by (auto simp: v split: if_splits)
      ultimately have "parent (ctl ?w k) = Some d" by (rule o(2))
      with False show ?thesis by (auto simp: v)
    qed
    show "Some d = None \<or> d \<in> set (kids (ctl ?v q))" if "parent (ctl ?v d) = Some q" for d q
    proof (cases "d = ?c")
      case True
      with that have "q = p" by (simp add: v)
      with True p v [of p] show ?thesis by auto
    next
      case False
      with that have "parent (ctl ?w d) = Some q" by (auto simp: v split: if_splits)
      with o(3) have "d \<in> set (kids (ctl ?w q))" by blast
      with n show ?thesis by (auto simp: v)
    qed
    show "\<not> mounted (ctl ?v d)" if "destroyed (ctl ?v d)" for d
      using that o(4) n by (auto simp: v split: if_splits)
    show "parent (ctl ?v d) = None" if "destroyed (ctl ?v d)" for d
      using that o(5) n by (auto simp: v split: if_splits)
    show "ctl ?v d = blank" if "fresh ?v \<le> d" for d
      using that o(6) [of d] p by (auto simp: v fr)
  qed
qed

lemma owned_attach:
  assumes w: "well_owned w" and c: "c < fresh w" "\<not> destroyed (ctl w c)"
  shows "well_owned (attach c w)"
  by (rule owned_same [OF w]) (use c in \<open>auto simp: attach_def bumpControlTree_def upd_def split: if_splits\<close>)

lemma adopt_facts:
  "fst (adopt p cfg w) = fresh w" "fresh (snd (adopt p cfg w)) = Suc (fresh w)"
  "p < fresh w \<Longrightarrow> \<not> destroyed (ctl (snd (adopt p cfg w)) (fresh w))"
  by (simp_all add: adopt_def New_def upd_def)

lemma adopt_keeps: "d < fresh w \<Longrightarrow> destroyed (ctl (snd (adopt p cfg w)) d) = destroyed (ctl w d)"
  by (simp add: adopt_def New_def upd_def)

lemma attach_facts [simp]:
  "fresh (attach c w) = fresh w" "destroyed (ctl (attach c w) d) = destroyed (ctl w d)"
  by (simp_all add: attach_def bumpControlTree_def upd_def)

lemma owned_spawn:
  "well_owned w \<Longrightarrow> p < fresh w \<Longrightarrow> well_owned (spawn p cfg w) \<and> fresh w \<le> fresh (spawn p cfg w) \<and>
     (\<forall>d < fresh w. destroyed (ctl (spawn p cfg w) d) = destroyed (ctl w d))"
  "well_owned w \<Longrightarrow> p < fresh w \<Longrightarrow> well_owned (mountChildren p cfgs w) \<and> fresh w \<le> fresh (mountChildren p cfgs w) \<and>
     (\<forall>d < fresh w. destroyed (ctl (mountChildren p cfgs w) d) = destroyed (ctl w d))"
proof (induction p cfg w and p cfgs w rule: spawn_mountChildren.induct)
  case (1 p t hk cs w)
  obtain c v where v: "adopt p (Cfg t hk cs) w = (c, v)" by (cases "adopt p (Cfg t hk cs) w")
  have c: "c = fresh w" "fresh v = Suc (fresh w)" "\<not> destroyed (ctl v c)"
    and keep: "\<And>d. d < fresh w \<Longrightarrow> destroyed (ctl v d) = destroyed (ctl w d)"
    using adopt_facts [where p = p and cfg = "Cfg t hk cs" and w = w]
      adopt_keeps [where p = p and cfg = "Cfg t hk cs" and w = w] 1(3) by (auto simp: v)
  have o: "well_owned v" using owned_adopt [OF 1(2,3), of "Cfg t hk cs"] by (simp add: v)
  define u where "u = (if placeholder (ctl v c) then v else mountChildren c cs v)"
  have e: "spawn p (Cfg t hk cs) w = attach c u" by (simp add: v u_def)
  have u: "well_owned u \<and> fresh v \<le> fresh u \<and> (\<forall>d < fresh v. destroyed (ctl u d) = destroyed (ctl v d))"
    using 1(1) [OF v [symmetric] _ o] c o by (auto simp: u_def)
  then have "well_owned (attach c u)" using c by (intro owned_attach) auto
  with u c keep show ?case unfolding e by simp
next
  case (3 p cfg cfgs w)
  then show ?case by force
qed simp_all

lemma owned_mount: "well_owned w \<Longrightarrow> c < fresh w \<Longrightarrow> well_owned (mount c w)"
proof -
  assume w: "well_owned w" "c < fresh w"
  note s = owned_spawn(2) [OF w, of "cfg_children (config (ctl w c))"]
  show ?thesis
  proof (cases "mounted (ctl w c) \<or> destroyed (ctl w c)")
    case False
    with s w show ?thesis unfolding mount_def by (auto intro!: owned_attach)
  qed (simp add: mount_def w)
qed

lemma owned_destroyChild:
  assumes w: "well_owned w" and p: "p < fresh w" and d: "destroyChild n p c w = Some w'"
  shows "well_owned w'"
proof (cases "c \<in> set (kids (ctl w p))")
  case True
  let ?w = "upd p (\<lambda>x. x\<lparr>kids := remove1 c (kids x)\<rparr>) w"
  note o = owned_butD [OF w]
  have f: "kids (ctl ?w q) = (if q = p then remove1 c (kids (ctl w p)) else kids (ctl w q))"
    "parent (ctl ?w q) = parent (ctl w q)" "destroyed (ctl ?w q) = destroyed (ctl w q)"
    "mounted (ctl ?w q) = mounted (ctl w q)" "fresh ?w = fresh w" for q
    by (simp_all add: upd_def)
  have "owned_but (Some c) ?w"
  proof (rule owned_butI)
    have sub: "set (kids (ctl ?w q)) \<subseteq> set (kids (ctl w q))" for q
      using set_remove1_subset [of c "kids (ctl w p)"] by (auto simp: f)
    show "younger ?w"
      unfolding younger_def f(5) using o(1) sub unfolding younger_def by blast
    show "parent (ctl ?w k) = Some q" if "k \<in> set (kids (ctl ?w q))" "\<not> destroyed (ctl ?w k)" for q k
      using that o(2) sub by (auto simp: f)
    show "Some d = Some c \<or> d \<in> set (kids (ctl ?w q))" if "parent (ctl ?w d) = Some q" for d q
      using that o(3) [of d q] by (cases "d = c") (auto simp: f in_set_remove1)
    show "\<not> mounted (ctl ?w q)" if "destroyed (ctl ?w q)" for q
      using that o(4) by (simp add: f)
    show "parent (ctl ?w q) = None" if "destroyed (ctl ?w q)" for q
      using that o(5) by (simp add: f)
    show "ctl ?w q = blank" if "fresh ?w \<le> q" for q
      using that o(6) p by (simp add: upd_def)
  qed
  moreover have "c < fresh ?w" using o(1) True by (auto simp: younger_def upd_def)
  ultimately show ?thesis using d True by (intro owned_destroy [of "Some c" ?w]) (auto simp: destroyChild_def)
qed (use assms in \<open>simp add: destroyChild_def\<close>)

lemma reachable_owned: "reachable w \<Longrightarrow> well_owned w"
proof (induction rule: reachable.induct)
  case reach_start
  show ?case by (simp add: owned_but_def younger_def start_world_def blank_def)
next
  case (reach_register w t w')
  then have "w' = w\<lparr>registry := registry w @ [t]\<rparr>" by (simp add: register_control_def split: if_splits)
  then show ?case by (intro owned_same [OF reach_register.IH]) simp_all
next
  case (reach_destroy w c n w')
  then show ?case using owned_destroy by blast
next
  case (reach_destroyChild w p n c w')
  then show ?case using owned_destroyChild by blast
next
  case (reach_fault w c e)
  have set: "well_owned (upd c (\<lambda>x. x\<lparr>fault := Some e'\<rparr>) w)" for e'
    by (rule owned_field [OF reach_fault.IH]) (use reach_fault in simp_all)
  show ?case by (cases e) (simp_all add: setFault_def set reach_fault.IH)
qed (simp_all add: owned_New owned_mount owned_spawn(1) onDestroy_def handler_def registerIntent_def clearFault_def owned_field)

section \<open>Properties\<close>

text \<open>In every reachable heap, destroying a control returns and destroys exactly the live controls it owns,
  directly or not: the records of all others are untouched, and every destroyed one runs each of its
  disposers once, in the order of their registration, before it is removed; the control itself comes last.
\<close>

theorem destroy_exactly:
  assumes "reachable w" and "c < fresh w" and "isAlive c w"
  shows "\<exists>w' es. destroy (fresh w) c w = Some w' \<and> log w' = log w @ es @ last_words w c \<and>
    ctl w' = (\<lambda>d. if live_below w c d then closed (ctl w d) else ctl w d) \<and>
    (\<forall>d. filter (about d) (es @ last_words w c) = (if live_below w c d then last_words w d else [])) \<and>
    filter (about c) es = []"
proof -
  have alive: "\<not> destroyed (ctl w c)" using assms(3) by (simp add: isAlive_def)
  have "younger w" using owned_butD(1) [OF reachable_owned [OF assms(1)]] .
  from destroy_fuel(1) [OF this assms(2), of "fresh w"] obtain w' where w': "destroy (fresh w) c w = Some w'" by auto
  with destroy_tears(1) [OF w'] alive obtain N fs where t: "tears w N (fs @ last_words w c) w'" "c \<in> N" "filter (about c) fs = []"
    by auto
  have "N = Collect (live_below w c)" by (rule torn_live [OF w' t(1) alive t(2)])
  with t w' show ?thesis by (auto simp: tears_def)
qed

definition small_start :: world where
  "small_start = start_world\<lparr>registry := [''Row'']\<rparr>"

definition small_tree :: world where
  "small_tree = onDestroy 1 7 (spawn 0 (Cfg ''Row'' [] [Cfg ''Cell'' [] []])
     (snd (New (Cfg ''List'' [] []) small_start)))"

lemmas small_defs = onDestroy_def New_def adopt_def attach_def bumpControlTree_def upd_def small_start_def start_world_def

lemma small_tree_facts: "reachable small_tree" "0 < fresh small_tree" "isAlive 0 small_tree" "fresh small_tree = 3"
proof -
  have "reachable small_start"
    by (rule reach_register [OF reach_start, of "''Row''"]) (simp add: register_control_def start_world_def small_start_def)
  then have "reachable (snd (New (Cfg ''List'' [] []) small_start))" by (rule reach_New)
  then have "reachable (spawn 0 (Cfg ''Row'' [] [Cfg ''Cell'' [] []]) (snd (New (Cfg ''List'' [] []) small_start)))"
    by (rule reach_spawn) (simp add: New_def)
  then show "reachable small_tree" unfolding small_tree_def
    by (rule reach_onDestroy) (simp add: small_defs)
  show "fresh small_tree = 3" by (simp add: small_tree_def small_defs)
  then show "0 < fresh small_tree" by simp
  show "isAlive 0 small_tree" by (simp add: small_tree_def isAlive_def small_defs)
qed

theorem destroy_exactly_witness:
  "\<exists>w' es. destroy (fresh small_tree) 0 small_tree = Some w' \<and> log w' = log small_tree @ es @ last_words small_tree 0 \<and>
    ctl w' = (\<lambda>d. if live_below small_tree 0 d then closed (ctl small_tree d) else ctl small_tree d) \<and>
    (\<forall>d. filter (about d) (es @ last_words small_tree 0) =
      (if live_below small_tree 0 d then last_words small_tree d else [])) \<and> filter (about 0) es = []"
  by (rule destroy_exactly [OF small_tree_facts(1-3)])

text \<open>Whatever the operations of the framework do, from the empty heap on, every child of a control is
  younger than it and points back to it while it lives, whoever points to an owner is among its children,
  and a destroyed control is not mounted and has no owner.
\<close>

theorem controls_stay_owned: "reachable w \<Longrightarrow> well_owned w"
  by (rule reachable_owned)

theorem controls_stay_owned_witness: "well_owned small_tree"
  by (rule controls_stay_owned [OF small_tree_facts(1)])

text \<open>
  A child destroyed by its own \<open>destroy\<close>, not through \<open>destroyChild\<close>, stays in its owner's set:
  \<open>childControls\<close> still gives it.
\<close>

lemma self_destroyed_child_is_listed:
  assumes "younger w" and "k \<in> set (childControls c w)" and "destroy n k w = Some w'"
  shows "k \<in> set (childControls c w') \<and> \<not> isAlive k w'"
proof -
  obtain N es where N: "tears w N es w'" "if destroyed (ctl w k) then N = {} \<and> es = [] else k \<in> N"
    using destroy_tears(1) [OF assms(3)] by (metis (full_types))
  have up: "k \<le> d" if "live_below w k d" for d
    using that assms(1) by (induction rule: live_below.induct) (force simp: younger_def)+
  have "c < k" using assms(1,2) by (simp add: younger_def childControls_def)
  have "c \<notin> N"
  proof (cases "destroyed (ctl w k)")
    case False
    with N torn_live [OF assms(3) N(1) False] up \<open>c < k\<close> show ?thesis by fastforce
  qed (use N in simp)
  have w': "ctl w' d = (if d \<in> N then closed (ctl w d) else ctl w d)" for d using N(1) by (simp add: tears_def)
  have "ctl w' c = ctl w c" using \<open>c \<notin> N\<close> by (simp add: w')
  moreover have "destroyed (ctl w' k)"
    using N(2) by (cases "destroyed (ctl w k)") (simp_all add: w')
  ultimately show ?thesis using assms(2) by (simp add: childControls_def isAlive_def)
qed

end
