(* ===== verification/Hotkeys.thy ===== *)
theory Hotkeys
  imports Controls JsText
begin

text \<open>
  Hierarchical hotkeys, \<^verbatim>\<open>core/hotkeys.ts\<close>: the token of a key event, the normal form of a declared
  binding, the binding map derived from the live control tree (theory Controls), and the chord
  state machine of the one keydown listener. A handler is a number; a step gives the handler it runs
  and whether it prevents the default. The walks along owners and children spend one unit of fuel per
  level and start with the number of controls; it is enough in every reachable heap, which is proved below.
\<close>

section \<open>Platform and key events\<close>

definition MAC_NAMES :: rx where
  "MAC_NAMES = RAlt (rx_lit ''Mac'') (RAlt (rx_lit ''iPod'') (RAlt (rx_lit ''iPhone'') (rx_lit ''iPad'')))"

text \<open>The platform of the client hints, absent where the browser has none, and the legacy one.\<close>

definition detectMac :: "string option \<Rightarrow> string option \<Rightarrow> bool" where
  "detectMac modern legacy = (case modern of
     Some p \<Rightarrow> if p \<noteq> '''' then rx_search (rx_liti ''mac'') p
              else rx_search MAC_NAMES (case legacy of None \<Rightarrow> '''' | Some q \<Rightarrow> q)
   | None \<Rightarrow> rx_search MAC_NAMES (case legacy of None \<Rightarrow> '''' | Some q \<Rightarrow> q))"

record element =
  tagName :: string
  isContentEditable :: bool

record key_event =
  key :: string
  ctrlKey :: bool
  metaKey :: bool
  altKey :: bool
  shiftKey :: bool
  isComposing :: bool
  target :: "element option"

definition eventToToken :: "key_event \<Rightarrow> string" where
  "eventToToken e = js_join ''+''
     ((if ctrlKey e \<or> metaKey e then [''Mod''] else []) @ (if altKey e then [''Alt''] else []) @
      (if shiftKey e \<and> 1 < length (key e) then [''Shift''] else []) @
      [if key e = '' '' then ''Space'' else if length (key e) = 1 then js_lower (key e) else key e])"

definition isEditable :: "element option \<Rightarrow> bool" where
  "isEditable t = (case t of
     None \<Rightarrow> False
   | Some el \<Rightarrow> if tagName el \<in> {''INPUT'', ''TEXTAREA'', ''SELECT''} then True else isContentEditable el)"

section \<open>Declared bindings\<close>

fun modifier_of :: "string \<Rightarrow> string option" where
  "modifier_of p =
     (if p \<in> {''Mod'', ''Ctrl'', ''Cmd'', ''Meta''} then Some ''Mod''
      else if p \<in> {''Alt'', ''Option''} then Some ''Alt''
      else if p = ''Shift'' then Some ''Shift'' else None)"

text \<open>The last part that is no modifier is the key.\<close>

fun seg_loop :: "string list \<Rightarrow> string list \<times> string \<Rightarrow> string list \<times> string" where
  "seg_loop [] st = st"
| "seg_loop (p # ps) (mods, k) = (case modifier_of p of
     Some m \<Rightarrow> seg_loop ps (mods @ [m], k)
   | None \<Rightarrow> seg_loop ps (mods, if length p = 1 then js_lower p else p))"

definition normalizeSegment :: "string \<Rightarrow> string" where
  "normalizeSegment seg = (case seg_loop (js_split CHR ''+'' seg) ([], '''') of (mods, k) \<Rightarrow>
     js_join ''+'' (filter (\<lambda>m. m \<in> set mods) [''Mod'', ''Alt'', ''Shift''] @ [k]))"

text \<open>\<open>s.split(/\s+/)\<close>.\<close>

function split_ws :: "string \<Rightarrow> string list" where
  "split_ws s = (let w = takeWhile (\<lambda>c. \<not> is_space c) s; r = dropWhile (\<lambda>c. \<not> is_space c) s in
     if r = [] then [w] else w # split_ws (dropWhile is_space r))"
  by pat_completeness auto
termination
proof (relation "measure length", simp)
  fix s w r
  assume r: "r = dropWhile (\<lambda>c. \<not> is_space c) s" "r \<noteq> []"
  then obtain x xs where x: "r = x # xs" using list.exhaust by blast
  with r(1) have "is_space x" using dropWhile_eq_Cons_conv [of "\<lambda>c. \<not> is_space c" s x xs] by simp
  with x have "length (dropWhile is_space r) \<le> length xs" by (simp add: length_dropWhile_le)
  moreover have "length r \<le> length s" using r(1) by (simp add: length_dropWhile_le)
  ultimately show "(dropWhile is_space r, s) \<in> measure length" using x by simp
qed

declare split_ws.simps [simp del]

definition normalizeToken :: "string \<Rightarrow> string" where
  "normalizeToken binding =
     (if CHR '' '' \<in> set binding then js_join '' '' (map normalizeSegment (split_ws binding))
      else normalizeSegment binding)"

definition format_part :: "bool \<Rightarrow> string \<Rightarrow> string" where
  "format_part isMac p =
     (if p = ''Mod'' then (if isMac then [CHR 0xE2, CHR 0x8C, CHR 0x98] else ''Ctrl'')
      else if p = ''Shift'' then (if isMac then [CHR 0xE2, CHR 0x87, CHR 0xA7] else ''Shift'')
      else if p = ''Alt'' then (if isMac then [CHR 0xE2, CHR 0x8C, CHR 0xA5] else ''Alt'')
      else p)"

definition formatBinding :: "bool \<Rightarrow> string \<Rightarrow> string" where
  "formatBinding isMac binding =
     (if CHR '' '' \<in> set binding then js_join '' then '' (split_ws binding)
      else js_join ''+'' (map (format_part isMac) (js_split CHR ''+'' binding)))"

section \<open>The derived map\<close>

record resolved_binding =
  r_run :: nat
  r_fireInInputs :: bool
  r_depth :: nat
  r_label :: "string option"
  r_scope :: string

fun up_chain :: "nat \<Rightarrow> world \<Rightarrow> nat option \<Rightarrow> nat list" where
  "up_chain 0 w c = []"
| "up_chain (Suc n) w c = (case c of None \<Rightarrow> [] | Some x \<Rightarrow> x # up_chain n w (parent (ctl w x)))"

definition chainToRoot :: "world \<Rightarrow> nat option \<Rightarrow> nat list" where
  "chainToRoot w c = rev (up_chain (fresh w) w c)"

definition OVERLAY_DEPTH_BOOST :: nat where
  "OVERLAY_DEPTH_BOOST = 1000000"

definition depthOf :: "world \<Rightarrow> nat \<Rightarrow> nat" where
  "depthOf w c = length (up_chain (fresh w) w (parent (ctl w c)))"

fun walk :: "nat \<Rightarrow> world \<Rightarrow> nat \<Rightarrow> nat list" where
  "walk 0 w c = []"
| "walk (Suc n) w c = c # concat (map (walk n w) (childControls c w))"

definition walkSubtree :: "world \<Rightarrow> nat \<Rightarrow> nat list" where
  "walkSubtree w c = walk (fresh w) w c"

definition resolve_at :: "nat \<Rightarrow> string \<Rightarrow> hotkey_binding \<Rightarrow> resolved_binding" where
  "resolve_at depth scope b = \<lparr>r_run = hk_run b, r_fireInInputs = (hk_fireInInputs b = Some True), r_depth = depth,
     r_label = hk_label b, r_scope = scope\<rparr>"

definition add_binding :: "string \<times> resolved_binding \<Rightarrow> (string \<times> resolved_binding) list \<Rightarrow> (string \<times> resolved_binding) list" where
  "add_binding tb m = (case map_of m (fst tb) of
     Some existing \<Rightarrow> if r_depth existing \<le> r_depth (snd tb) then map_put (fst tb) (snd tb) m else m
   | None \<Rightarrow> map_put (fst tb) (snd tb) m)"

text \<open>The tokens a control declares, in the order of its bindings and their aliases.\<close>

definition declared :: "world \<Rightarrow> nat \<Rightarrow> nat \<Rightarrow> (string \<times> resolved_binding) list" where
  "declared w c depth =
     concat (map (\<lambda>b. map (\<lambda>alias. (normalizeToken alias,
         resolve_at depth (if depth = 0 then ''global'' else cfg_type (config (ctl w c))) b)) (aliases b))
       (cfg_hotkeys (config (ctl w c))))"

definition addControlBindings ::
  "world \<Rightarrow> nat \<times> nat \<Rightarrow> (string \<times> resolved_binding) list \<Rightarrow> (string \<times> resolved_binding) list" where
  "addControlBindings w cd m = fold add_binding (declared w (fst cd) (snd cd)) m"

record scopes =
  sc_root :: "nat option"
  sc_active :: "nat option"
  sc_overlay :: "nat option"
  sc_screen :: "nat option"

text \<open>The controls whose bindings count, with the depth they count at, in the order they are added.\<close>

definition contributions :: "world \<Rightarrow> scopes \<Rightarrow> (nat \<times> nat) list" where
  "contributions w s =
     (case sc_root s of None \<Rightarrow> [] | Some r \<Rightarrow> [(r, 0)]) @
     map (\<lambda>c. (c, depthOf w c)) (chainToRoot w (sc_active s)) @
     (case sc_screen s of None \<Rightarrow> [] | Some c \<Rightarrow> map (\<lambda>c. (c, depthOf w c)) (walkSubtree w c)) @
     map (\<lambda>c. (c, depthOf w c + OVERLAY_DEPTH_BOOST)) (chainToRoot w (sc_overlay s))"

definition deriveBindings :: "world \<Rightarrow> scopes \<Rightarrow> (string \<times> resolved_binding) list" where
  "deriveBindings w s = fold (addControlBindings w) (contributions w s) []"

definition snapshotFor :: "world \<Rightarrow> scopes \<Rightarrow> nat option \<Rightarrow> (string \<times> resolved_binding) list" where
  "snapshotFor w s c = deriveBindings w (s\<lparr>sc_active := c, sc_screen := c\<rparr>)"

section \<open>The listener\<close>

text \<open>An empty \<open>chordPrefix\<close> means that no chord is pending and no timer runs.\<close>

record hotkey_controller =
  chordPrefix :: string
  listening :: bool

record reaction =
  prevented :: bool
  ran :: "nat option"

definition allowed :: "key_event \<Rightarrow> resolved_binding \<Rightarrow> bool" where
  "allowed e b \<longleftrightarrow> (if r_fireInInputs b then True else \<not> isEditable (target e))"

definition single_key ::
  "(string \<times> resolved_binding) list \<Rightarrow> key_event \<Rightarrow> hotkey_controller \<Rightarrow> hotkey_controller \<times> reaction" where
  "single_key m e st =
     (let token = eventToToken e;
          isChordPrefix = list_ex (\<lambda>k. js_starts (token @ '' '') k) (map fst m);
          direct = map_of m token
      in if isChordPrefix \<and> direct = None \<and> \<not> isEditable (target e)
         then (st\<lparr>chordPrefix := token\<rparr>, \<lparr>prevented = True, ran = None\<rparr>)
         else case direct of
           Some b \<Rightarrow> if allowed e b then (st, \<lparr>prevented = True, ran = Some (r_run b)\<rparr>)
                    else (st, \<lparr>prevented = False, ran = None\<rparr>)
         | None \<Rightarrow> (st, \<lparr>prevented = False, ran = None\<rparr>))"

definition onKeydown ::
  "(string \<times> resolved_binding) list \<Rightarrow> key_event \<Rightarrow> hotkey_controller \<Rightarrow> hotkey_controller \<times> reaction" where
  "onKeydown m e st =
     (if isComposing e then (st, \<lparr>prevented = False, ran = None\<rparr>)
      else if chordPrefix st = '''' then single_key m e st
      else let st' = st\<lparr>chordPrefix := ''''\<rparr> in
        case map_of m (chordPrefix st @ '' '' @ eventToToken e) of
          Some chord \<Rightarrow> if allowed e chord then (st', \<lparr>prevented = True, ran = Some (r_run chord)\<rparr>)
                       else single_key m e st'
        | None \<Rightarrow> single_key m e st')"

datatype hotkey_event = Keydown key_event | ChordTimeout | Stop

definition hotkey_step ::
  "(string \<times> resolved_binding) list \<Rightarrow> hotkey_event \<Rightarrow> hotkey_controller \<Rightarrow> hotkey_controller \<times> reaction" where
  "hotkey_step m ev st = (case ev of
     Keydown e \<Rightarrow> if listening st then onKeydown m e st else (st, \<lparr>prevented = False, ran = None\<rparr>)
   | ChordTimeout \<Rightarrow> (st\<lparr>chordPrefix := ''''\<rparr>, \<lparr>prevented = False, ran = None\<rparr>)
   | Stop \<Rightarrow> (st\<lparr>chordPrefix := '''', listening := False\<rparr>, \<lparr>prevented = False, ran = None\<rparr>))"

section \<open>The walks end\<close>

lemma up_chain_done:
  "well_owned w \<Longrightarrow> \<forall>x. c = Some x \<longrightarrow> x < n \<Longrightarrow> up_chain (n + m) w c = up_chain n w c"
proof (induction n w c rule: up_chain.induct)
  case (1 w c)
  then show ?case by (cases c; cases m) auto
next
  case (2 n w c)
  show ?case
  proof (cases c)
    case (Some x)
    have "\<forall>p. parent (ctl w x) = Some p \<longrightarrow> p < n"
      using owned_butD(3) [OF 2(2), of x] owned_butD(1) [OF 2(2)] 2(3) Some by (fastforce simp: younger_def)
    with 2 Some show ?thesis by simp
  qed simp
qed

lemma walk_done:
  "younger w \<Longrightarrow> fresh w - c \<le> n \<Longrightarrow> c < fresh w \<Longrightarrow> walk (n + m) w c = walk n w c"
proof (induction n w c rule: walk.induct)
  case (2 n w c)
  have "walk (n + m) w k = walk n w k" if "k \<in> set (childControls c w)" for k
  proof -
    have "c < k" "k < fresh w" using that 2(2) by (auto simp: younger_def childControls_def)
    with 2 that show ?thesis by simp
  qed
  then show ?case by (simp cong: map_cong)
qed simp

text \<open>In every reachable heap the walks to the root and through a subtree end within as many levels as
  there are controls: more fuel gives no further control.
\<close>

theorem walks_end:
  assumes "reachable w" and "c < fresh w" and "fresh w \<le> n"
  shows "up_chain n w (Some c) = rev (chainToRoot w (Some c)) \<and> walk n w c = walkSubtree w c"
proof -
  obtain m where n: "n = fresh w + m" using assms(3) le_Suc_ex by blast
  note o = reachable_owned [OF assms(1)]
  show ?thesis
    using up_chain_done [OF o, of "Some c" "fresh w" m] walk_done [OF owned_butD(1) [OF o] _ assms(2), of "fresh w" m] assms(2)
    by (simp add: n chainToRoot_def walkSubtree_def)
qed

theorem walks_end_witness: "up_chain 9 small_tree (Some 0) = rev (chainToRoot small_tree (Some 0)) \<and>
    walk 9 small_tree 0 = walkSubtree small_tree 0"
  by (rule walks_end [OF small_tree_facts(1,2)]) (simp add: small_tree_facts(4))

section \<open>Which binding a key has\<close>

text \<open>Every declaration in scope, in the order in which the declarations are added.\<close>

definition offered :: "world \<Rightarrow> scopes \<Rightarrow> (string \<times> resolved_binding) list" where
  "offered w s = concat (map (\<lambda>cd. declared w (fst cd) (snd cd)) (contributions w s))"

lemma derive_offered: "deriveBindings w s = fold add_binding (offered w s) []"
proof -
  have "fold (addControlBindings w) cs m = fold add_binding (concat (map (\<lambda>cd. declared w (fst cd) (snd cd)) cs)) m" for cs m
    by (induction cs arbitrary: m) (simp_all add: addControlBindings_def)
  then show ?thesis by (simp add: deriveBindings_def offered_def)
qed

definition deepest :: "string \<Rightarrow> resolved_binding \<Rightarrow> (string \<times> resolved_binding) list \<Rightarrow> bool" where
  "deepest t b bs \<longleftrightarrow> (\<exists>xs ys. bs = xs @ (t, b) # ys \<and>
     (\<forall>b'. (t, b') \<in> set xs \<longrightarrow> r_depth b' \<le> r_depth b) \<and> (\<forall>b'. (t, b') \<in> set ys \<longrightarrow> r_depth b' < r_depth b))"

lemma deepest_last:
  "deepest t b (bs @ [(u, d)]) \<longleftrightarrow>
     (if u = t \<and> (\<forall>b'. (t, b') \<in> set bs \<longrightarrow> r_depth b' \<le> r_depth d) then b = d
      else deepest t b bs \<and> (u = t \<longrightarrow> r_depth d < r_depth b))"
    (is "_ \<longleftrightarrow> ?r")
proof
  assume "deepest t b (bs @ [(u, d)])"
  then obtain xs ys where x: "bs @ [(u, d)] = xs @ (t, b) # ys" "\<forall>b'. (t, b') \<in> set xs \<longrightarrow> r_depth b' \<le> r_depth b"
    "\<forall>b'. (t, b') \<in> set ys \<longrightarrow> r_depth b' < r_depth b" unfolding deepest_def by blast
  show ?r
  proof (cases ys rule: rev_cases)
    case Nil
    with x show ?thesis by auto
  next
    case (snoc zs z)
    with x(1) have z: "z = (u, d)" "bs = xs @ (t, b) # zs" by simp_all
    have "deepest t b bs" unfolding deepest_def using x(2,3) snoc z(2) by auto
    moreover have "u = t \<longrightarrow> r_depth d < r_depth b" using x(3) snoc z(1) by auto
    moreover have "\<not> (u = t \<and> (\<forall>b'. (t, b') \<in> set bs \<longrightarrow> r_depth b' \<le> r_depth d))"
      using calculation(2) z(2) by (auto simp: not_le)
    ultimately show ?thesis by auto
  qed
next
  assume r: ?r
  show "deepest t b (bs @ [(u, d)])"
  proof (cases "u = t \<and> (\<forall>b'. (t, b') \<in> set bs \<longrightarrow> r_depth b' \<le> r_depth d)")
    case True
    with r show ?thesis unfolding deepest_def by (intro exI [of _ bs] exI [of _ "[]"]) auto
  next
    case False
    then have "deepest t b bs" and u: "u = t \<longrightarrow> r_depth d < r_depth b" using r by (metis (full_types))+
    then obtain xs ys where x: "bs = xs @ (t, b) # ys" "\<forall>b'. (t, b') \<in> set xs \<longrightarrow> r_depth b' \<le> r_depth b"
      "\<forall>b'. (t, b') \<in> set ys \<longrightarrow> r_depth b' < r_depth b" unfolding deepest_def by blast
    have "\<forall>b'. (t, b') \<in> set (ys @ [(u, d)]) \<longrightarrow> r_depth b' < r_depth b" using x(3) u by simp
    moreover have "bs @ [(u, d)] = xs @ (t, b) # (ys @ [(u, d)])" using x(1) by simp
    ultimately show ?thesis unfolding deepest_def using x(2) by blast
  qed
qed

lemma deepest_in: "deepest t b bs \<Longrightarrow> (t, b) \<in> set bs"
  by (auto simp: deepest_def)

lemma deepest_top: "deepest t b bs \<Longrightarrow> (t, b') \<in> set bs \<Longrightarrow> r_depth b' \<le> r_depth b"
  by (auto simp: deepest_def less_imp_le)

lemma deepest_exists: "(t, b) \<in> set bs \<Longrightarrow> \<exists>d. deepest t d bs"
proof (induction bs arbitrary: b rule: rev_induct)
  case (snoc x bs)
  obtain u d where x: "x = (u, d)" by (cases x)
  show ?case
  proof (cases "u = t \<and> (\<forall>b'. (t, b') \<in> set bs \<longrightarrow> r_depth b' \<le> r_depth d)")
    case True
    then show ?thesis unfolding x deepest_last by auto
  next
    case False
    with snoc(2) x obtain b' where b': "(t, b') \<in> set bs" "u = t \<longrightarrow> r_depth d < r_depth b'" by (auto simp: not_le)
    from snoc(1) [OF b'(1)] obtain e where e: "deepest t e bs" by blast
    then have "r_depth b' \<le> r_depth e" using b'(1) by (rule deepest_top)
    with e b' False show ?thesis unfolding x deepest_last by (intro exI [of _ e]) auto
  qed
qed simp

lemma map_of_add_binding:
  "map_of (add_binding (u, d) m) t =
     (if u = t \<and> (\<forall>e. map_of m t = Some e \<longrightarrow> r_depth e \<le> r_depth d) then Some d else map_of m t)"
  by (auto simp: add_binding_def split: option.split)

lemma map_of_fold_binding: "map_of (fold add_binding bs []) t = Some b \<longleftrightarrow> deepest t b bs"
proof (induction bs arbitrary: b rule: rev_induct)
  case Nil
  then show ?case by (simp add: deepest_def)
next
  case (snoc x bs)
  obtain u d where x: "x = (u, d)" by (cases x)
  define m where "m = fold add_binding bs []"
  have m: "map_of m t = Some e \<longleftrightarrow> deepest t e bs" for e using snoc.IH by (simp add: m_def)
  have "(\<forall>e. map_of m t = Some e \<longrightarrow> r_depth e \<le> r_depth d) \<longleftrightarrow> (\<forall>b'. (t, b') \<in> set bs \<longrightarrow> r_depth b' \<le> r_depth d)"
    using m deepest_exists deepest_top by (meson deepest_in le_trans)
  moreover have "u = t \<longrightarrow> r_depth d < r_depth b"
    if "deepest t b bs" "\<not> (u = t \<and> (\<forall>e. map_of m t = Some e \<longrightarrow> r_depth e \<le> r_depth d))"
    using that m by (metis not_le option.inject)
  ultimately show ?case
    by (auto simp: x m_def [symmetric] map_of_add_binding deepest_last m)
qed

text \<open>In the order of the list, the last of the deepest declarations counts.\<close>

lemma derived_is_deepest: "map_of (deriveBindings w s) t = Some b \<longleftrightarrow> deepest t b (offered w s)"
  by (simp only: derive_offered map_of_fold_binding)

section \<open>What is in scope\<close>

inductive at_or_above :: "world \<Rightarrow> nat \<Rightarrow> nat \<Rightarrow> bool" for w where
  above_self: "at_or_above w c c"
| above_up: "at_or_above w c a \<Longrightarrow> parent (ctl w a) = Some p \<Longrightarrow> at_or_above w c p"

inductive at_or_below :: "world \<Rightarrow> nat \<Rightarrow> nat \<Rightarrow> bool" for w where
  below_self: "at_or_below w c c"
| below_kid: "at_or_below w c a \<Longrightarrow> k \<in> set (kids (ctl w a)) \<Longrightarrow> at_or_below w c k"

text \<open>The level of a control under the root of its tree.\<close>

inductive level :: "world \<Rightarrow> nat \<Rightarrow> nat \<Rightarrow> bool" for w where
  level_root: "parent (ctl w c) = None \<Longrightarrow> level w c 0"
| level_child: "parent (ctl w c) = Some p \<Longrightarrow> level w p n \<Longrightarrow> level w c (Suc n)"

text \<open>Which control counts, and at what depth: the four tiers of the derived map.\<close>

inductive in_scope :: "world \<Rightarrow> scopes \<Rightarrow> nat \<Rightarrow> nat \<Rightarrow> bool" for w s where
  scope_root: "sc_root s = Some c \<Longrightarrow> in_scope w s c 0"
| scope_focus: "sc_active s = Some f \<Longrightarrow> at_or_above w f c \<Longrightarrow> level w c n \<Longrightarrow> in_scope w s c n"
| scope_screen: "sc_screen s = Some x \<Longrightarrow> at_or_below w x c \<Longrightarrow> level w c n \<Longrightarrow> in_scope w s c n"
| scope_overlay: "sc_overlay s = Some x \<Longrightarrow> at_or_above w x c \<Longrightarrow> level w c n \<Longrightarrow> in_scope w s c (n + 1000000)"

inductive_cases in_scopeE: "in_scope w s c d"

lemma above_first: "at_or_above w c a \<longleftrightarrow> a = c \<or> (\<exists>p. parent (ctl w c) = Some p \<and> at_or_above w p a)"
proof
  show "at_or_above w c a \<Longrightarrow> a = c \<or> (\<exists>p. parent (ctl w c) = Some p \<and> at_or_above w p a)"
    by (induction rule: at_or_above.induct) (auto intro: at_or_above.intros)
  have "at_or_above w p a \<Longrightarrow> parent (ctl w c) = Some p \<Longrightarrow> at_or_above w c a" for p
    by (induction rule: at_or_above.induct) (auto intro: at_or_above.intros)
  then show "a = c \<or> (\<exists>p. parent (ctl w c) = Some p \<and> at_or_above w p a) \<Longrightarrow> at_or_above w c a"
    by (auto intro: at_or_above.intros)
qed

lemma below_first: "at_or_below w c a \<longleftrightarrow> a = c \<or> (\<exists>k \<in> set (kids (ctl w c)). at_or_below w k a)"
proof
  show "at_or_below w c a \<Longrightarrow> a = c \<or> (\<exists>k \<in> set (kids (ctl w c)). at_or_below w k a)"
    by (induction rule: at_or_below.induct) (auto intro: at_or_below.intros)
  have "at_or_below w k a \<Longrightarrow> k \<in> set (kids (ctl w c)) \<Longrightarrow> at_or_below w c a" for k
    by (induction rule: at_or_below.induct) (auto intro: at_or_below.intros)
  then show "a = c \<or> (\<exists>k \<in> set (kids (ctl w c)). at_or_below w k a) \<Longrightarrow> at_or_below w c a"
    by (auto intro: at_or_below.intros)
qed

lemma parent_older: "well_owned w \<Longrightarrow> parent (ctl w c) = Some p \<Longrightarrow> p < c"
  using owned_butD(3) [of None w c p] owned_butD(1) [of None w] by (auto simp: younger_def)

lemma up_chain_None [simp]: "up_chain n w None = []"
  by (cases n) simp_all

lemma chain_is_above: "well_owned w \<Longrightarrow> c < n \<Longrightarrow> set (up_chain n w (Some c)) = Collect (at_or_above w c)"
proof (induction n arbitrary: c)
  case (Suc n)
  show ?case
  proof (cases "parent (ctl w c)")
    case None
    then have "at_or_above w c a \<longleftrightarrow> a = c" for a using above_first [of w c a] by simp
    then show ?thesis using None by simp
  next
    case (Some p)
    then have "p < n" using Suc.prems parent_older by fastforce
    then have "set (up_chain n w (Some p)) = Collect (at_or_above w p)" by (rule Suc.IH [OF Suc.prems(1)])
    moreover have "at_or_above w c a \<longleftrightarrow> a = c \<or> at_or_above w p a" for a
      using above_first [of w c a] Some by simp
    ultimately show ?thesis using Some by auto
  qed
qed simp

lemma walk_is_below: "younger w \<Longrightarrow> fresh w - c \<le> n \<Longrightarrow> c < fresh w \<Longrightarrow> set (walk n w c) = Collect (at_or_below w c)"
proof (induction n arbitrary: c)
  case (Suc n)
  have "set (walk n w k) = Collect (at_or_below w k)" if "k \<in> set (kids (ctl w c))" for k
  proof -
    have "c < k" "k < fresh w" using that Suc.prems(1) by (auto simp: younger_def)
    then show ?thesis using Suc by simp
  qed
  moreover have "at_or_below w c a \<longleftrightarrow> a = c \<or> (\<exists>k \<in> set (kids (ctl w c)). at_or_below w k a)" for a
    by (rule below_first)
  ultimately show ?case by (auto simp: childControls_def)
qed simp

lemma level_length: "well_owned w \<Longrightarrow> c \<le> n \<Longrightarrow> level w c (length (up_chain n w (parent (ctl w c))))"
proof (induction n arbitrary: c)
  case 0
  then have "parent (ctl w c) = None" using parent_older [of w c] by (cases "parent (ctl w c)") auto
  then show ?case by (auto intro: level.intros)
next
  case (Suc n)
  show ?case
  proof (cases "parent (ctl w c)")
    case None
    then show ?thesis by (auto intro: level.intros)
  next
    case (Some p)
    with Suc have "level w p (length (up_chain n w (parent (ctl w p))))" using parent_older by fastforce
    with Some show ?thesis by (auto intro: level.intros)
  qed
qed

lemma level_unique: "level w c n \<Longrightarrow> level w c m \<Longrightarrow> n = m"
proof (induction arbitrary: m rule: level.induct)
  case (level_child c p n)
  from level_child.prems level_child.hyps(1) show ?case by (cases rule: level.cases) (auto dest: level_child.IH)
qed (auto elim: level.cases)

lemma depthOf_level: "well_owned w \<Longrightarrow> level w c n \<longleftrightarrow> n = depthOf w c"
proof -
  assume o: "well_owned w"
  have "level w c (depthOf w c)"
  proof (cases "c \<le> fresh w")
    case True
    then show ?thesis using level_length [OF o True] by (simp add: depthOf_def)
  next
    case False
    then have "parent (ctl w c) = None" using owned_butD(6) [OF o, of c] by (simp add: blank_def)
    then show ?thesis using level.intros(1) by (simp add: depthOf_def)
  qed
  then show ?thesis using level_unique by blast
qed

text \<open>The scopes name controls of the heap.\<close>

definition scopes_exist :: "world \<Rightarrow> scopes \<Rightarrow> bool" where
  "scopes_exist w s \<longleftrightarrow> (\<forall>c. Some c \<in> {sc_root s, sc_active s, sc_overlay s, sc_screen s} \<longrightarrow> c < fresh w)"

lemma contributions_in_scope:
  assumes r: "reachable w" and e: "scopes_exist w s"
  shows "(c, d) \<in> set (contributions w s) \<longleftrightarrow> in_scope w s c d"
proof -
  note o = reachable_owned [OF r]
  have up: "c \<in> set (chainToRoot w x) \<longleftrightarrow> (\<exists>y. x = Some y \<and> at_or_above w y c)" if "x = sc_active s \<or> x = sc_overlay s" for x
  proof (cases x)
    case None
    then show ?thesis by (simp add: chainToRoot_def)
  next
    case (Some y)
    then have "y < fresh w" using e that by (auto simp: scopes_exist_def)
    then show ?thesis using Some chain_is_above [OF o] by (simp add: chainToRoot_def)
  qed
  have down: "c \<in> set (walkSubtree w x) \<longleftrightarrow> at_or_below w x c" if "sc_screen s = Some x" for x
  proof -
    have "x < fresh w" using e that by (auto simp: scopes_exist_def)
    then show ?thesis using walk_is_below [OF owned_butD(1) [OF o], of x "fresh w"] by (simp add: walkSubtree_def)
  qed
  have "in_scope w s c d \<longleftrightarrow> sc_root s = Some c \<and> d = 0 \<or> (\<exists>f. sc_active s = Some f \<and> at_or_above w f c) \<and> d = depthOf w c \<or>
      (\<exists>x. sc_screen s = Some x \<and> at_or_below w x c) \<and> d = depthOf w c \<or>
      (\<exists>x. sc_overlay s = Some x \<and> at_or_above w x c) \<and> d = depthOf w c + 1000000"
    (is "_ \<longleftrightarrow> ?tiers")
  proof
    show "in_scope w s c d \<Longrightarrow> ?tiers" by (erule in_scopeE) (auto simp: depthOf_level [OF o])
    have l: "level w c (depthOf w c)" by (simp add: depthOf_level [OF o])
    assume ?tiers
    then show "in_scope w s c d"
      using scope_root [of s c w] scope_focus [OF _ _ l] scope_screen [OF _ _ l] scope_overlay [OF _ _ l] by blast
  qed
  moreover have "(c, d) \<in> set (contributions w s) \<longleftrightarrow> sc_root s = Some c \<and> d = 0 \<or>
      c \<in> set (chainToRoot w (sc_active s)) \<and> d = depthOf w c \<or>
      (\<exists>x. sc_screen s = Some x \<and> c \<in> set (walkSubtree w x)) \<and> d = depthOf w c \<or>
      c \<in> set (chainToRoot w (sc_overlay s)) \<and> d = depthOf w c + 1000000"
    by (cases "sc_root s"; cases "sc_screen s") (auto simp: contributions_def OVERLAY_DEPTH_BOOST_def)
  moreover have "(\<exists>x. sc_screen s = Some x \<and> c \<in> set (walkSubtree w x)) \<longleftrightarrow> (\<exists>x. sc_screen s = Some x \<and> at_or_below w x c)"
    using down by blast
  ultimately show ?thesis by (simp only: up [OF disjI1 [OF refl]] up [OF disjI2 [OF refl]])
qed

text \<open>The bindings of a control with a spelling of a token.\<close>

definition keys_for :: "world \<Rightarrow> nat \<Rightarrow> string \<Rightarrow> hotkey_binding list" where
  "keys_for w c t = filter (\<lambda>k. t \<in> normalizeToken ` set (aliases k)) (cfg_hotkeys (config (ctl w c)))"

lemma declared_keys:
  "(t, b) \<in> set (declared w c d) \<longleftrightarrow> (\<exists>k \<in> set (keys_for w c t). b = resolve_at d (if d = 0 then ''global'' else cfg_type (config (ctl w c))) k)"
  by (auto simp: declared_def keys_for_def Let_def)

lemma concat_map_at:
  "concat (map F ks) = xs @ z # ys \<Longrightarrow> \<exists>ks1 k ks2 us vs. ks = ks1 @ k # ks2 \<and> F k = us @ z # vs \<and> ys = vs @ concat (map F ks2)"
proof (induction ks arbitrary: xs)
  case (Cons l ks)
  then have "F l @ concat (map F ks) = xs @ z # ys" by simp
  then consider us where "F l = xs @ us" "us @ concat (map F ks) = z # ys" | us where "F l @ us = xs" "concat (map F ks) = us @ z # ys"
    by (auto simp: append_eq_append_conv2)
  then show ?case
  proof cases
    case (1 us)
    show ?thesis
    proof (cases us)
      case Nil
      then have "concat (map F ks) = [] @ z # ys" using 1 by simp
      from Cons.IH [OF this] show ?thesis by (metis append_Cons)
    next
      case (Cons u vs)
      then have "l # ks = [] @ l # ks" "F l = xs @ z # vs" "ys = vs @ concat (map F ks)" using 1 by simp_all
      then show ?thesis by blast
    qed
  next
    case (2 us)
    from Cons.IH [OF 2(2)] show ?thesis by (metis append_Cons)
  qed
qed simp

lemma declared_depth: "(t, b) \<in> set (declared w c d) \<Longrightarrow> r_depth b = d"
  by (auto simp: declared_def resolve_at_def)

lemma last_declared:
  assumes "concat (map (\<lambda>k. map (\<lambda>a. (f a, g k)) (h k)) ks) = xs @ (t, b) # ys" and "t \<notin> fst ` set ys"
  shows "filter (\<lambda>k. t \<in> f ` set (h k)) ks \<noteq> [] \<and> b = g (last (filter (\<lambda>k. t \<in> f ` set (h k)) ks))"
proof -
  obtain ks1 k ks2 us vs where k: "ks = ks1 @ k # ks2" "map (\<lambda>a. (f a, g k)) (h k) = us @ (t, b) # vs"
      "ys = vs @ concat (map (\<lambda>k. map (\<lambda>a. (f a, g k)) (h k)) ks2)"
    using concat_map_at [OF assms(1)] by blast
  have m: "(t, b) \<in> set (map (\<lambda>a. (f a, g k)) (h k))" by (simp add: k(2))
  then have b: "t \<in> f ` set (h k)" "b = g k" by auto
  have "t \<notin> f ` set (h k')" if "k' \<in> set ks2" for k'
  proof
    assume "t \<in> f ` set (h k')"
    then have "(t, g k') \<in> set ys" using that k(3) by auto
    then show False using assms(2) by force
  qed
  then have "filter (\<lambda>k. t \<in> f ` set (h k)) ks2 = []" by (simp add: filter_empty_conv)
  then show ?thesis using b k(1) by simp
qed

text \<open>C27: In scope are: the root at depth zero, the focused control and its owners, the whole subtree of the current
  screen, each at its level in the tree, and the open overlay and its owners at a million more. A key has a binding
  exactly when a control in scope declares a spelling of its token; it is then one of the deepest such controls that
  answers, and of its declarations of the token the last. The heap is a reachable one and the scopes name controls of it.\<close>

theorem deepest_binding_wins:
  assumes "reachable w" and "scopes_exist w s"
  shows "case map_of (deriveBindings w s) t of
      None \<Rightarrow> \<forall>c d. in_scope w s c d \<longrightarrow> keys_for w c t = []
    | Some b \<Rightarrow> (\<exists>c. in_scope w s c (r_depth b) \<and> keys_for w c t \<noteq> [] \<and> r_run b = hk_run (last (keys_for w c t)) \<and>
          r_fireInInputs b = (hk_fireInInputs (last (keys_for w c t)) = Some True) \<and> r_label b = hk_label (last (keys_for w c t)) \<and>
          r_scope b = (if r_depth b = 0 then ''global'' else cfg_type (config (ctl w c)))) \<and>
        (\<forall>c d. in_scope w s c d \<and> keys_for w c t \<noteq> [] \<longrightarrow> d \<le> r_depth b)"
proof -
  note sc = contributions_in_scope [OF assms]
  have off: "(\<exists>b. (t, b) \<in> set (offered w s) \<and> r_depth b = d) \<longleftrightarrow> (\<exists>c. in_scope w s c d \<and> keys_for w c t \<noteq> [])" for d
  proof
    assume "\<exists>b. (t, b) \<in> set (offered w s) \<and> r_depth b = d"
    then obtain b c e where b: "(c, e) \<in> set (contributions w s)" "(t, b) \<in> set (declared w c e)" "r_depth b = d"
      by (auto simp: offered_def)
    then have "keys_for w c t \<noteq> []" by (auto simp: declared_keys)
    then show "\<exists>c. in_scope w s c d \<and> keys_for w c t \<noteq> []" using b declared_depth [OF b(2)] sc by blast
  next
    assume "\<exists>c. in_scope w s c d \<and> keys_for w c t \<noteq> []"
    then obtain c k where c: "(c, d) \<in> set (contributions w s)" "k \<in> set (keys_for w c t)"
      using sc by (meson last_in_set)
    then obtain b where b: "(t, b) \<in> set (declared w c d)" using declared_keys by blast
    then have "(t, b) \<in> set (offered w s)" using c(1) by (auto simp: offered_def intro!: bexI [of _ "(c, d)"])
    then show "\<exists>b. (t, b) \<in> set (offered w s) \<and> r_depth b = d" using declared_depth [OF b] by blast
  qed
  show ?thesis
  proof (cases "map_of (deriveBindings w s) t")
    case None
    then have "(t, b) \<notin> set (offered w s)" for b
      using deepest_exists derived_is_deepest by (metis option.distinct(1))
    with None off show ?thesis by auto
  next
    case (Some b)
    then have d: "deepest t b (offered w s)" by (simp add: derived_is_deepest)
    then obtain xs ys where x: "offered w s = xs @ (t, b) # ys" "\<forall>b'. (t, b') \<in> set ys \<longrightarrow> r_depth b' < r_depth b"
      by (auto simp: deepest_def)
    obtain cd cs us vs where y: "cd \<in> set (contributions w s)" "declared w (fst cd) (snd cd) = us @ (t, b) # vs" "ys = vs @ cs"
      using concat_map_at [OF x(1) [unfolded offered_def]] by (metis in_set_conv_decomp)
    obtain c e where c: "(c, e) \<in> set (contributions w s)" "declared w c e = us @ (t, b) # vs" using y(1,2) by (metis prod.collapse)
    have e: "e = r_depth b" using c(2) declared_depth [of t b w c e] by simp
    have "t \<notin> fst ` set vs"
    proof
      assume "t \<in> fst ` set vs"
      then obtain b' where b': "(t, b') \<in> set vs" by auto
      then have "r_depth b' = e" using c(2) declared_depth [of t b' w c e] by simp
      then show False using b' x(2) y(3) e by fastforce
    qed
    from last_declared [OF c(2) [unfolded declared_def] this]
    have k: "keys_for w c t \<noteq> []" "b = resolve_at e (if e = 0 then ''global'' else cfg_type (config (ctl w c))) (last (keys_for w c t))"
      by (simp_all add: keys_for_def)
    have "d' \<le> r_depth b" if i: "in_scope w s c' d'" "keys_for w c' t \<noteq> []" for c' d'
    proof -
      obtain b' where b': "(t, b') \<in> set (offered w s)" "r_depth b' = d'" using off [of d'] i by blast
      then show ?thesis using deepest_top [OF d b'(1)] by simp
    qed
    moreover have "in_scope w s c (r_depth b)" using c(1) e by (simp add: sc)
    moreover have "r_run b = hk_run (last (keys_for w c t))"
      "r_fireInInputs b = (hk_fireInInputs (last (keys_for w c t)) = Some True)" "r_label b = hk_label (last (keys_for w c t))"
      "r_scope b = (if r_depth b = 0 then ''global'' else cfg_type (config (ctl w c)))"
      by (simp_all only: k(2) resolve_at_def resolved_binding.simps)
    ultimately show ?thesis unfolding Some option.case using k(1) by blast
  qed
qed

definition keyed_start :: world where
  "keyed_start = snd (New (Cfg ''List'' [\<lparr>aliases = [''j''], hk_run = 1, hk_label = None, hk_fireInInputs = None\<rparr>] []) small_start)"

definition keyed_tree :: world where
  "keyed_tree = spawn 0 (Cfg ''Row'' [\<lparr>aliases = [''j''], hk_run = 2, hk_label = None, hk_fireInInputs = None\<rparr>,
     \<lparr>aliases = [''k'', ''j''], hk_run = 3, hk_label = None, hk_fireInInputs = None\<rparr>] []) keyed_start"

text \<open>Nothing is focused: the key is the screen's, a row below the root; with an overlay at the root it is the overlay's.\<close>

theorem deepest_binding_wins_witness:
  "(\<exists>b. map_of (deriveBindings keyed_tree \<lparr>sc_root = Some 0, sc_active = None, sc_overlay = None, sc_screen = Some 1\<rparr>) ''j'' = Some b \<and>
      r_run b = 3 \<and> r_depth b = 1) \<and>
   (\<exists>b. map_of (deriveBindings keyed_tree \<lparr>sc_root = Some 0, sc_active = None, sc_overlay = Some 0, sc_screen = Some 1\<rparr>) ''j'' = Some b \<and>
      r_run b = 1 \<and> 1000000 \<le> r_depth b)"
proof -
  have "reachable small_start"
    by (rule reach_register [OF reach_start, of "''Row''"]) (simp add: register_control_def start_world_def small_start_def)
  then have "reachable keyed_start" unfolding keyed_start_def by (rule reach_New)
  then have r: "reachable keyed_tree" unfolding keyed_tree_def by (rule reach_spawn) (simp add: keyed_start_def small_defs)
  have n: "normalizeToken ''j'' = ''j''" "normalizeToken ''k'' = ''k''" by code_simp+
  have t: "fresh keyed_tree = 2" "parent (ctl keyed_tree 0) = None" "parent (ctl keyed_tree (Suc 0)) = Some 0"
      "kids (ctl keyed_tree 0) = [1]" "kids (ctl keyed_tree (Suc 0)) = []"
    by (simp_all add: keyed_tree_def keyed_start_def small_defs)
  have k: "map hk_run (keys_for keyed_tree 0 ''j'') = [1]" "map hk_run (keys_for keyed_tree (Suc 0) ''j'') = [2, 3]"
    by (simp_all add: keys_for_def keyed_tree_def keyed_start_def small_defs n)
  have "level keyed_tree 0 0" "level keyed_tree (Suc 0) (Suc 0)" using t by (auto intro: level.intros)
  then have l: "level keyed_tree 0 d \<longleftrightarrow> d = 0" "level keyed_tree (Suc 0) d \<longleftrightarrow> d = Suc 0" for d
    using level_unique by blast+
  have below: "at_or_below keyed_tree (Suc 0) c \<longleftrightarrow> c = Suc 0" and above: "at_or_above keyed_tree 0 c \<longleftrightarrow> c = 0" for c
    using below_first [of keyed_tree "Suc 0" c] above_first [of keyed_tree 0 c] t by simp_all
  define s where "s ov = \<lparr>sc_root = Some 0, sc_active = None, sc_overlay = ov, sc_screen = Some (Suc 0)\<rparr>" for ov :: "nat option"
  have sc: "in_scope keyed_tree (s ov) c d \<longleftrightarrow> c = 0 \<and> d = 0 \<or> c = Suc 0 \<and> d = Suc 0 \<or> ov = Some 0 \<and> c = 0 \<and> d = 1000000"
    if "ov = None \<or> ov = Some 0" for ov c d
  proof
    show "in_scope keyed_tree (s ov) c d \<Longrightarrow> c = 0 \<and> d = 0 \<or> c = Suc 0 \<and> d = Suc 0 \<or> ov = Some 0 \<and> c = 0 \<and> d = 1000000"
      using that by (erule_tac in_scopeE) (auto simp: s_def below above l)
    have "in_scope keyed_tree (s ov) 0 0" "in_scope keyed_tree (s ov) (Suc 0) (Suc 0)"
      by (rule scope_root, simp add: s_def, rule scope_screen [of _ "Suc 0"], simp_all add: s_def below l)
    moreover have "in_scope keyed_tree (s (Some 0)) 0 (0 + 1000000)"
      by (rule scope_overlay [of _ 0]) (simp_all add: s_def above l)
    ultimately show "c = 0 \<and> d = 0 \<or> c = Suc 0 \<and> d = Suc 0 \<or> ov = Some 0 \<and> c = 0 \<and> d = 1000000 \<Longrightarrow> in_scope keyed_tree (s ov) c d"
      by auto
  qed
  have e: "scopes_exist keyed_tree (s None)" "scopes_exist keyed_tree (s (Some 0))" by (auto simp: scopes_exist_def s_def t(1))
  have last: "keys_for keyed_tree 0 ''j'' \<noteq> []" "keys_for keyed_tree (Suc 0) ''j'' \<noteq> []"
      "hk_run (last (keys_for keyed_tree 0 ''j'')) = 1" "hk_run (last (keys_for keyed_tree (Suc 0) ''j'')) = 3"
    using k by (auto simp: last_map [symmetric])
  have win: "\<exists>b c. map_of (deriveBindings keyed_tree (s ov)) ''j'' = Some b \<and> in_scope keyed_tree (s ov) c (r_depth b) \<and>
      r_run b = hk_run (last (keys_for keyed_tree c ''j'')) \<and>
      (\<forall>c d. in_scope keyed_tree (s ov) c d \<and> keys_for keyed_tree c ''j'' \<noteq> [] \<longrightarrow> d \<le> r_depth b)"
    if ov: "ov = None \<or> ov = Some 0" for ov
  proof -
    have "scopes_exist keyed_tree (s ov)" using e ov by auto
    note w = deepest_binding_wins [OF r this, of "''j''"]
    show ?thesis
    proof (cases "map_of (deriveBindings keyed_tree (s ov)) ''j''")
      case None
      then have "in_scope keyed_tree (s ov) 0 0 \<longrightarrow> keys_for keyed_tree 0 ''j'' = []" using w by auto
      then show ?thesis using sc [OF ov] last(1) by simp
    next
      case (Some b)
      show ?thesis using w unfolding Some option.case by blast
    qed
  qed
  obtain b c where b: "map_of (deriveBindings keyed_tree (s None)) ''j'' = Some b" "in_scope keyed_tree (s None) c (r_depth b)"
      "r_run b = hk_run (last (keys_for keyed_tree c ''j''))" "in_scope keyed_tree (s None) (Suc 0) (Suc 0) \<longrightarrow> Suc 0 \<le> r_depth b"
    using win [of None] last(2) by blast
  then have "c = Suc 0 \<and> r_depth b = 1" using sc [of None c "r_depth b"] sc [of None "Suc 0" "Suc 0"] by auto
  moreover obtain b' c' where b': "map_of (deriveBindings keyed_tree (s (Some 0))) ''j'' = Some b'"
      "in_scope keyed_tree (s (Some 0)) c' (r_depth b')" "r_run b' = hk_run (last (keys_for keyed_tree c' ''j''))"
      "in_scope keyed_tree (s (Some 0)) 0 1000000 \<longrightarrow> 1000000 \<le> r_depth b'"
    using win [of "Some 0"] last(1) by blast
  then have "c' = 0 \<and> 1000000 \<le> r_depth b'" using sc [of "Some 0" c' "r_depth b'"] sc [of "Some 0" 0 1000000] by auto
  ultimately have "r_run b = 3 \<and> r_depth b = 1" "r_run b' = 1 \<and> 1000000 \<le> r_depth b'" using b(3) b'(3) last(3,4) by simp_all
  moreover have "s None = \<lparr>sc_root = Some 0, sc_active = None, sc_overlay = None, sc_screen = Some 1\<rparr>"
    "s (Some 0) = \<lparr>sc_root = Some 0, sc_active = None, sc_overlay = Some 0, sc_screen = Some 1\<rparr>" by (simp_all add: s_def)
  ultimately show ?thesis using b(1) b'(1) by auto
qed

lemma length_up_chain: "length (up_chain n w c) \<le> n"
  by (induction n w c rule: up_chain.induct) (auto split: option.split)

text \<open>While there are fewer than a million controls, a key that the open overlay (or a control above it)
  declares is always answered by a declaration of the overlay's chain, whatever the screen and the
  focused control declare.
\<close>

theorem overlay_shadows:
  assumes "fresh w < OVERLAY_DEPTH_BOOST" and "c \<in> set (chainToRoot w (sc_overlay s))"
    and "(t, b) \<in> set (declared w c (depthOf w c + OVERLAY_DEPTH_BOOST))"
  shows "\<exists>c' \<in> set (chainToRoot w (sc_overlay s)). \<exists>b'. map_of (deriveBindings w s) t = Some b' \<and>
    (t, b') \<in> set (declared w c' (depthOf w c' + OVERLAY_DEPTH_BOOST))"
proof -
  have "(t, b) \<in> set (offered w s)" using assms(2,3) by (auto simp: offered_def contributions_def)
  then obtain b' where b': "deepest t b' (offered w s)" "r_depth b \<le> r_depth b'"
    using deepest_exists deepest_top by blast
  then obtain c' d where d: "(c', d) \<in> set (contributions w s)" "(t, b') \<in> set (declared w c' d)"
    using deepest_in by (fastforce simp: offered_def)
  have "OVERLAY_DEPTH_BOOST \<le> d" using b'(2) declared_depth [OF d(2)] declared_depth [OF assms(3)] by simp
  moreover have "depthOf w x < OVERLAY_DEPTH_BOOST" for x
    using length_up_chain [of "fresh w" w "parent (ctl w x)"] assms(1) by (simp add: depthOf_def)
  ultimately have "c' \<in> set (chainToRoot w (sc_overlay s)) \<and> d = depthOf w c' + OVERLAY_DEPTH_BOOST"
    using d(1) by (force simp: contributions_def OVERLAY_DEPTH_BOOST_def not_less [symmetric] split: option.splits)
  with d(2) b'(1) show ?thesis by (auto simp: derive_offered map_of_fold_binding)
qed

section \<open>The listener\<close>

text \<open>A key typed into an editable element keeps its default action, except for a binding declared to
  fire in inputs, which then runs.
\<close>

theorem typing_is_not_swallowed:
  assumes "isEditable (target e)" and "prevented (snd (hotkey_step m (Keydown e) st))"
  shows "\<exists>t b. map_of m t = Some b \<and> r_fireInInputs b \<and> ran (snd (hotkey_step m (Keydown e) st)) = Some (r_run b)"
  using assms
  by (auto simp: hotkey_step_def onKeydown_def single_key_def allowed_def Let_def split: if_splits option.splits)

definition plain_key :: "string \<Rightarrow> key_event" where
  "plain_key k = \<lparr>key = k, ctrlKey = False, metaKey = False, altKey = False, shiftKey = False, isComposing = False, target = None\<rparr>"

definition run_binding :: "nat \<Rightarrow> bool \<Rightarrow> resolved_binding" where
  "run_binding r inp = \<lparr>r_run = r, r_fireInInputs = inp, r_depth = 0, r_label = None, r_scope = ''global''\<rparr>"

theorem typing_is_not_swallowed_witness:
  "\<exists>t b. map_of [(''a'', run_binding 3 True)] t = Some b \<and> r_fireInInputs b \<and>
    ran (snd (hotkey_step [(''a'', run_binding 3 True)]
      (Keydown ((plain_key ''a'')\<lparr>target := Some \<lparr>tagName = ''INPUT'', isContentEditable = False\<rparr>\<rparr>))
      \<lparr>chordPrefix = '''', listening = True\<rparr>)) = Some (r_run b)"
  by (rule typing_is_not_swallowed) (code_simp, code_simp)

fun hotkey_run :: "(string \<times> resolved_binding) list \<Rightarrow> hotkey_event list \<Rightarrow> hotkey_controller \<Rightarrow> reaction list" where
  "hotkey_run m [] st = []"
| "hotkey_run m (e # es) st = (case hotkey_step m e st of (st', r) \<Rightarrow> r # hotkey_run m es st')"

definition ordinary :: "key_event \<Rightarrow> bool" where
  "ordinary e \<longleftrightarrow> \<not> isComposing e \<and> \<not> isEditable (target e) \<and> eventToToken e \<noteq> ''''"

text \<open>The two keys of a chord, the first one without a binding of its own, run the chord's handler when
  nothing comes between them; when the timeout does, the second key acts as a single key.
\<close>

theorem chord_fires_in_time:
  assumes "map_of m (eventToToken e @ '' '' @ eventToToken f) = Some b" and "map_of m (eventToToken e) = None"
    and "ordinary e" and "ordinary f" and "listening st" and "chordPrefix st = ''''"
  shows "hotkey_run m [Keydown e, Keydown f] st = [\<lparr>prevented = True, ran = None\<rparr>, \<lparr>prevented = True, ran = Some (r_run b)\<rparr>] \<and>
    hotkey_run m [Keydown e, ChordTimeout, Keydown f] st =
      [\<lparr>prevented = True, ran = None\<rparr>, \<lparr>prevented = False, ran = None\<rparr>, snd (single_key m f st)]"
proof -
  have "list_ex (\<lambda>k. js_starts (eventToToken e @ '' '') k) (map fst m)"
    using map_of_SomeD [OF assms(1)] by (force simp: list_ex_iff js_starts_iff)
  then have first: "hotkey_step m (Keydown e) st = (st\<lparr>chordPrefix := eventToToken e\<rparr>, \<lparr>prevented = True, ran = None\<rparr>)"
    using assms by (simp add: hotkey_step_def onKeydown_def single_key_def ordinary_def)
  have "hotkey_step m (Keydown f) (st\<lparr>chordPrefix := eventToToken e\<rparr>) =
      (st\<lparr>chordPrefix := ''''\<rparr>, \<lparr>prevented = True, ran = Some (r_run b)\<rparr>)"
    using assms by (simp add: hotkey_step_def onKeydown_def allowed_def ordinary_def)
  moreover have st: "st\<lparr>chordPrefix := ''''\<rparr> = st" using assms(6) by simp
  moreover have "hotkey_step m ChordTimeout (st\<lparr>chordPrefix := eventToToken e\<rparr>) = (st, \<lparr>prevented = False, ran = None\<rparr>)"
    using assms(6) by (simp add: hotkey_step_def)
  moreover have "hotkey_step m (Keydown f) st = single_key m f st"
    using assms by (simp add: hotkey_step_def onKeydown_def ordinary_def)
  ultimately show ?thesis using first by (simp add: split_beta)
qed

theorem chord_fires_in_time_witness:
  "hotkey_run [(''g p'', run_binding 5 False)] [Keydown (plain_key ''g''), Keydown (plain_key ''p'')] \<lparr>chordPrefix = '''', listening = True\<rparr> =
      [\<lparr>prevented = True, ran = None\<rparr>, \<lparr>prevented = True, ran = Some (r_run (run_binding 5 False))\<rparr>] \<and>
    hotkey_run [(''g p'', run_binding 5 False)] [Keydown (plain_key ''g''), ChordTimeout, Keydown (plain_key ''p'')]
      \<lparr>chordPrefix = '''', listening = True\<rparr> =
      [\<lparr>prevented = True, ran = None\<rparr>, \<lparr>prevented = False, ran = None\<rparr>,
       snd (single_key [(''g p'', run_binding 5 False)] (plain_key ''p'') \<lparr>chordPrefix = '''', listening = True\<rparr>)]"
  by (rule chord_fires_in_time) code_simp+

section \<open>Tokens\<close>

lemma lower_other: "\<not> is_upper c \<Longrightarrow> ascii_lower c = c"
  by (simp add: ascii_lower_def)

lemma lower_is_plain:
  assumes "\<not> is_upper d" and "\<not> is_lower d"
  shows "d = ascii_lower c \<longleftrightarrow> c = d"
  using assms upper_lower(1) [of c] lower_other [of c] by (cases "is_upper c") auto

lemma lower_is_plus [simp]: "CHR ''+'' = ascii_lower c \<longleftrightarrow> c = CHR ''+''" "CHR '' '' = ascii_lower c \<longleftrightarrow> c = CHR '' ''"
  by (rule lower_is_plain; simp add: is_lower_iff is_upper_iff)+

lemma lower_space [simp]: "ascii_lower CHR '' '' = CHR '' ''" "ascii_lower CHR ''+'' = CHR ''+''"
  by (simp_all add: lower_other is_upper_iff)

lemma lower_twice [simp]: "ascii_lower (ascii_lower c) = ascii_lower c"
  by (cases "is_upper c") (auto simp: ascii_lower_def [of "ascii_lower c"] char_classes dest: upper_lower(1), simp add: ascii_lower_def)

lemma split_event:
  "CHR ''+'' \<notin> set (key e) \<Longrightarrow> js_split CHR ''+'' (eventToToken e) =
     (if ctrlKey e \<or> metaKey e then [''Mod''] else []) @ (if altKey e then [''Alt''] else []) @
      (if shiftKey e \<and> 1 < length (key e) then [''Shift''] else []) @
      [if key e = '' '' then ''Space'' else if length (key e) = 1 then js_lower (key e) else key e]"
  unfolding eventToToken_def
  by (rule js_split_join) (auto simp: js_lower_def length_Suc_conv eq_commute [of "ascii_lower _"] split: if_splits)

lemma js_join_snoc: "js_join d (ws @ [w]) = (if ws = [] then w else js_join d ws @ d @ w)"
  by (induction d ws rule: js_join.induct) simp_all

lemma last_join: "w \<noteq> [] \<Longrightarrow> last (js_join d (ws @ [w])) = last w"
  by (simp add: js_join_snoc)

lemma seg_loop_append: "seg_loop (ps @ qs) st = seg_loop qs (seg_loop ps st)"
  by (induction ps st rule: seg_loop.induct) (auto split: option.split)

text \<open>The token of a key press is its own normal form, unless the key is \<open>+\<close> itself or a bare
  modifier: a binding declared in the words of the token is the binding of that key.
\<close>

theorem event_tokens_are_normal:
  assumes "CHR ''+'' \<notin> set (key e)" and "modifier_of (key e) = None" and "key e = '' '' \<or> CHR '' '' \<notin> set (key e)"
  shows "normalizeToken (eventToToken e) = eventToToken e"
proof -
  define k where "k = (if key e = '' '' then ''Space'' else if length (key e) = 1 then js_lower (key e) else key e)"
  define ms where "ms = (if ctrlKey e \<or> metaKey e then [''Mod''] else []) @ (if altKey e then [''Alt''] else []) @
      (if shiftKey e \<and> 1 < length (key e) then [''Shift''] else [])"
  have token: "eventToToken e = js_join ''+'' (ms @ [k])" by (simp add: eventToToken_def ms_def k_def)
  have split: "js_split CHR ''+'' (eventToToken e) = ms @ [k]"
    using split_event [OF assms(1)] by (simp add: ms_def k_def)
  have mods: "seg_loop ms ([], '''') = (ms, '''')" "filter (\<lambda>m. m \<in> set ms) [''Mod'', ''Alt'', ''Shift''] = ms"
    by (cases "ctrlKey e \<or> metaKey e"; cases "altKey e"; cases "shiftKey e \<and> 1 < length (key e)"; simp add: ms_def)+
  have "CHR '' '' \<notin> set k" using assms(3) by (auto simp: k_def js_lower_def length_Suc_conv)
  then have "CHR '' '' \<notin> set (js_join ''+'' (ms @ [k]))"
    by (cases "ctrlKey e \<or> metaKey e"; cases "altKey e"; cases "shiftKey e \<and> 1 < length (key e)"; simp add: ms_def)
  moreover have "modifier_of k = None"
    using assms(2) by (auto simp: k_def js_lower_def length_Suc_conv)
  moreover have "(if length k = 1 then js_lower k else k) = k"
    by (auto simp: k_def js_lower_def length_Suc_conv)
  moreover have "normalizeSegment (eventToToken e) = eventToToken e"
    unfolding normalizeSegment_def split seg_loop_append mods(1) using calculation(2,3) mods(2)
    by (simp add: token del: modifier_of.simps)
  ultimately show ?thesis by (simp add: normalizeToken_def token)
qed

theorem event_tokens_are_normal_witness:
  "normalizeToken (eventToToken ((plain_key ''Enter'')\<lparr>ctrlKey := True, shiftKey := True\<rparr>)) =
    eventToToken ((plain_key ''Enter'')\<lparr>ctrlKey := True, shiftKey := True\<rparr>)"
  by (rule event_tokens_are_normal) (simp_all add: plain_key_def)

text \<open>A declaration of Shift with a single letter is in the binding map under its normal form, but no
  key press has that token: the token of a one-character key never says Shift.
\<close>

theorem shifted_letters_never_fire:
  assumes "c \<notin> {CHR '' '', CHR ''+''}" and "length (key e) = 1 \<or> CHR ''+'' \<notin> set (key e)"
  shows "eventToToken e \<noteq> normalizeToken (''Shift+'' @ [c])"
proof
  assume e: "eventToToken e = normalizeToken (''Shift+'' @ [c])"
  have c: "js_split CHR ''+'' [c] = [[c]]" using assms(1) by (simp add: js_split_plain)
  have d: "CHR '' '' \<noteq> c" "CHR ''+'' \<noteq> c" using assms(1) by auto
  have "modifier_of ''Shift'' = Some ''Shift''" "modifier_of [c] = None" by simp_all
  then have n: "normalizeToken (''Shift+'' @ [c]) = js_join ''+'' [''Shift'', js_lower [c]]"
    using d c by (simp add: normalizeToken_def normalizeSegment_def del: modifier_of.simps)
  have "js_split CHR ''+'' (normalizeToken (''Shift+'' @ [c])) = [''Shift'', js_lower [c]]"
    unfolding n using assms(1) by (intro js_split_join) (auto simp: js_lower_def)
  then have s: "js_split CHR ''+'' (eventToToken e) = [''Shift'', js_lower [c]]" by (simp add: e)
  show False
  proof (cases "CHR ''+'' \<in> set (key e)")
    case True
    with assms(2) have "key e = ''+''" by (auto simp: length_Suc_conv)
    then have "last (eventToToken e) = CHR ''+''"
      unfolding eventToToken_def append_assoc [symmetric] by (subst last_join) (simp_all add: js_lower_def)
    moreover have "last (eventToToken e) = ascii_lower c" unfolding e n by (simp add: js_lower_def)
    ultimately show False using assms(1) lower_is_plus by (metis insert_iff)
  next
    case False
    with s split_event [of e] show False by (auto simp: js_lower_def split: if_splits)
  qed
qed

theorem shifted_letters_never_fire_witness:
  "eventToToken ((plain_key ''J'')\<lparr>shiftKey := True\<rparr>) \<noteq> normalizeToken (''Shift+'' @ [CHR ''j''])"
  by (rule shifted_letters_never_fire) (simp_all add: plain_key_def)

definition overlay_world :: world where
  "overlay_world = snd (New (Cfg ''Menu'' [\<lparr>aliases = [''j''], hk_run = 4, hk_label = None, hk_fireInInputs = None\<rparr>] []) start_world)"

definition overlay_scopes :: scopes where
  "overlay_scopes = \<lparr>sc_root = None, sc_active = None, sc_overlay = Some 0, sc_screen = None\<rparr>"

theorem overlay_shadows_witness:
  "\<exists>c' \<in> set (chainToRoot overlay_world (sc_overlay overlay_scopes)). \<exists>b'.
    map_of (deriveBindings overlay_world overlay_scopes) ''j'' = Some b' \<and>
    (''j'', b') \<in> set (declared overlay_world c' (depthOf overlay_world c' + OVERLAY_DEPTH_BOOST))"
proof (rule overlay_shadows [where c = 0])
  have f: "fresh overlay_world = 1" by (simp add: overlay_world_def New_def start_world_def)
  then show "fresh overlay_world < OVERLAY_DEPTH_BOOST" by (simp add: OVERLAY_DEPTH_BOOST_def)
  show "0 \<in> set (chainToRoot overlay_world (sc_overlay overlay_scopes))"
    by (simp add: chainToRoot_def f overlay_scopes_def numeral_eq_Suc)
  show "(''j'', resolve_at (depthOf overlay_world 0 + OVERLAY_DEPTH_BOOST) ''Menu''
      \<lparr>aliases = [''j''], hk_run = 4, hk_label = None, hk_fireInInputs = None\<rparr>)
    \<in> set (declared overlay_world 0 (depthOf overlay_world 0 + OVERLAY_DEPTH_BOOST))"
    by (simp add: declared_def overlay_world_def New_def start_world_def OVERLAY_DEPTH_BOOST_def normalizeToken_def
      normalizeSegment_def js_lower_def ascii_lower_def is_upper_iff)
qed

end
