(* ===== verification/KeyedList.thy ===== *)
theory KeyedList
  imports JsValue "HOL-Library.Multiset"
begin

text \<open>
  Keyed list reconciliation, \<^verbatim>\<open>core/keyed-list.ts\<close>: the controls of a host element follow a list
  of keyed items. A control stands for its element and is a number; the host's child nodes are the
  controls and nodes of others, all numbers. \<open>create\<close> gives a new control, whose mounting
  appends its element to the host. What \<open>create\<close>, \<open>update\<close> and \<open>destroy\<close> do beside that is logged.

  Main results: after a run the host shows one node per key, in the order of the keys (a repeated key
  at its last place), before the foreign nodes; a key that stays keeps its node; exactly the keys that
  went are destroyed; a run over the same keys moves no node.
\<close>

section \<open>The host element\<close>

text \<open>\<open>host.insertBefore(node, before)\<close> of a node that may already be a child.\<close>

fun insert_at :: "nat \<Rightarrow> nat option \<Rightarrow> nat list \<Rightarrow> nat list" where
  "insert_at c b [] = [c]"
| "insert_at c b (x # xs) = (if b = Some x then c # x # xs else x # insert_at c b xs)"

definition insertBefore :: "nat \<Rightarrow> nat option \<Rightarrow> nat list \<Rightarrow> nat list" where
  "insertBefore c b ns = (if b = Some c then ns else insert_at c b (removeAll c ns))"

fun nextSibling :: "nat \<Rightarrow> nat list \<Rightarrow> nat option" where
  "nextSibling c [] = None"
| "nextSibling c (x # xs) = (if x = c then (case xs of [] \<Rightarrow> None | y # _ \<Rightarrow> Some y) else nextSibling c xs)"

definition firstChild :: "nat list \<Rightarrow> nat option" where
  "firstChild ns = (case ns of [] \<Rightarrow> None | x # _ \<Rightarrow> Some x)"

section \<open>State\<close>

datatype list_event = Created nat | Updated nat | Moved nat | Destroyed nat

record keyed_state =
  host :: "nat list"
  live :: "(string \<times> nat) list"
  next_node :: nat
  events :: "list_event list"

definition log_event :: "list_event \<Rightarrow> keyed_state \<Rightarrow> keyed_state" where
  "log_event e s = s\<lparr>events := events s @ [e]\<rparr>"

section \<open>One run\<close>

text \<open>The control of an item: created and mounted, or the one that is there, updated if there is a hook.\<close>

definition control_for :: "bool \<Rightarrow> string \<Rightarrow> keyed_state \<Rightarrow> nat \<times> keyed_state" where
  "control_for has_update k s = (case map_of (live s) k of
     None \<Rightarrow> let c = next_node s in
       (c, log_event (Created c) (s\<lparr>live := map_put k c (live s), host := host s @ [c], next_node := Suc c\<rparr>))
   | Some c \<Rightarrow> (c, if has_update then log_event (Updated c) s else s))"

definition place_after :: "nat option \<Rightarrow> nat \<Rightarrow> keyed_state \<Rightarrow> keyed_state" where
  "place_after anchor c s =
     (let before = (case anchor of None \<Rightarrow> firstChild (host s) | Some a \<Rightarrow> nextSibling a (host s))
      in if before \<noteq> Some c then log_event (Moved c) (s\<lparr>host := insertBefore c before (host s)\<rparr>) else s)"

fun place_loop :: "bool \<Rightarrow> string list \<Rightarrow> nat option \<Rightarrow> keyed_state \<Rightarrow> keyed_state" where
  "place_loop u [] anchor s = s"
| "place_loop u (k # ks) anchor s = (case control_for u k s of (c, s') \<Rightarrow>
     place_loop u ks (Some c) (place_after anchor c s'))"

definition drop_key :: "string \<times> nat \<Rightarrow> keyed_state \<Rightarrow> keyed_state" where
  "drop_key kc s = log_event (Destroyed (snd kc))
     (s\<lparr>live := filter (\<lambda>e. fst e \<noteq> fst kc) (live s), host := removeAll (snd kc) (host s)\<rparr>)"

definition sweep :: "string list \<Rightarrow> keyed_state \<Rightarrow> keyed_state" where
  "sweep seen s = fold (\<lambda>kc s. if fst kc \<notin> set seen then drop_key kc s else s) (live s) s"

definition reconcile :: "bool \<Rightarrow> string list \<Rightarrow> keyed_state \<Rightarrow> keyed_state" where
  "reconcile u ks s = sweep ks (place_loop u ks None s)"

definition dispose :: "keyed_state \<Rightarrow> keyed_state" where
  "dispose s = (fold (\<lambda>kc s. log_event (Destroyed (snd kc)) (s\<lparr>host := removeAll (snd kc) (host s)\<rparr>)) (live s) s)\<lparr>live := []\<rparr>"

section \<open>The invariant\<close>

definition node_of :: "keyed_state \<Rightarrow> string \<Rightarrow> nat" where
  "node_of s k = the (map_of (live s) k)"

text \<open>The live controls are children of the host, each under one key.\<close>

definition keyed_ok :: "keyed_state \<Rightarrow> bool" where
  "keyed_ok s \<longleftrightarrow> distinct (host s) \<and> distinct_keys (live s) \<and> distinct (map snd (live s)) \<and>
     snd ` set (live s) \<subseteq> set (host s) \<and> (\<forall>c \<in> set (host s). c < next_node s)"

definition others :: "keyed_state \<Rightarrow> nat list" where
  "others s = filter (\<lambda>c. c \<notin> snd ` set (live s)) (host s)"

lemma insert_at_append: "b \<notin> set xs \<Longrightarrow> insert_at c (Some b) (xs @ b # ys) = xs @ c # b # ys"
  by (induction xs) auto

lemma insert_at_end: "insert_at c None xs = xs @ [c]"
  by (induction xs) auto

lemma nextSibling_append: "c \<notin> set xs \<Longrightarrow> nextSibling c (xs @ c # ys) = firstChild ys"
  by (induction xs) (auto simp: firstChild_def split: list.split)

text \<open>What placing does when \<open>P\<close> are the nodes placed so far and \<open>R\<close> the rest.\<close>

lemma place_host:
  assumes d: "distinct (P @ R)" and c: "c \<in> set (P @ R)" and h: "host s = P @ R"
    and a: "anchor = (if P = [] then None else Some (last P))"
  shows "host (place_after anchor c s) = removeAll c P @ c # removeAll c R"
proof -
  have before: "(case anchor of None \<Rightarrow> firstChild (host s) | Some a \<Rightarrow> nextSibling a (host s)) = firstChild R"
  proof (cases P rule: rev_cases)
    case (snoc Q x)
    with d have "x \<notin> set Q" by simp
    with snoc a h show ?thesis using nextSibling_append [of x Q R] by simp
  qed (simp add: a h)
  show ?thesis
  proof (cases R)
    case Nil
    with c d have "host s = P" "c \<in> set P" "R = []" by (simp_all add: h)
    then show ?thesis unfolding place_after_def before
      by (simp add: firstChild_def log_event_def insertBefore_def insert_at_end)
  next
    case (Cons r R')
    show ?thesis
    proof (cases "r = c")
      case True
      with d Cons have "c \<notin> set P" "c \<notin> set R'" by auto
      with True Cons h show ?thesis unfolding place_after_def before by (simp add: firstChild_def removeAll_id)
    next
      case False
      have "r \<notin> set (removeAll c P)" using d Cons by auto
      with False Cons h show ?thesis unfolding place_after_def before
        by (simp add: firstChild_def log_event_def insertBefore_def insert_at_append)
    qed
  qed
qed

lemma remdups_snoc: "remdups (xs @ [x]) = removeAll x (remdups xs) @ [x]"
  by (induction xs) (auto simp: removeAll_filter_not_eq)

lemma removeAll_map: "inj_on f (insert x (set xs)) \<Longrightarrow> removeAll (f x) (map f xs) = map f (removeAll x xs)"
  by (induction xs) (auto simp: inj_on_def)

lemma map_of_member: "distinct_keys m \<Longrightarrow> map_of m k = Some v \<longleftrightarrow> (k, v) \<in> set m"
  by (simp add: distinct_keys_def)

lemma node_inj: "keyed_ok s \<Longrightarrow> inj_on (node_of s) (fst ` set (live s))"
proof (rule inj_onI)
  fix j k
  assume s: "keyed_ok s" and j: "j \<in> fst ` set (live s)" and k: "k \<in> fst ` set (live s)" and e: "node_of s j = node_of s k"
  from j k obtain c d where c: "(j, c) \<in> set (live s)" "(k, d) \<in> set (live s)" by auto
  with s have "node_of s j = c" "node_of s k = d" by (simp_all add: node_of_def keyed_ok_def distinct_keys_def)
  with e have "c = d" by simp
  moreover have "inj_on snd (set (live s))" using s by (simp add: keyed_ok_def distinct_map)
  ultimately show "j = k" using c by (metis Pair_inject inj_onD snd_conv)
qed

lemma node_in: "keyed_ok s \<Longrightarrow> k \<in> fst ` set (live s) \<Longrightarrow> (k, node_of s k) \<in> set (live s) \<and> node_of s k \<in> set (host s)"
  by (fastforce simp: node_of_def keyed_ok_def distinct_keys_def)

lemma control_for_ok:
  assumes s: "keyed_ok s" and c: "control_for u k s = (c, s')"
  shows "keyed_ok s' \<and> map_of (live s') k = Some c \<and> others s' = others s \<and>
    fst ` set (live s') = insert k (fst ` set (live s)) \<and>
    (\<forall>j \<in> fst ` set (live s). map_of (live s') j = map_of (live s) j) \<and> host s' = host s @ (if map_of (live s) k = None then [c] else [])"
proof (cases "map_of (live s) k")
  case None
  let ?c = "next_node s"
  have new: "?c \<notin> set (host s)" "?c \<notin> snd ` set (live s)" using s by (auto simp: keyed_ok_def)
  have put: "map_put k ?c (live s) = live s @ [(k, ?c)]" using None unfolding map_of_eq_None_iff by (simp add: map_put_def)
  have live: "live s' = live s @ [(k, ?c)]" "host s' = host s @ [?c]" "next_node s' = Suc ?c" "c = ?c"
    using c None by (auto simp: control_for_def log_event_def put Let_def)
  have k: "k \<notin> fst ` set (live s)" using None unfolding map_of_eq_None_iff .
  have "keyed_ok s'"
    using s new k by (auto simp: keyed_ok_def distinct_keys_def live less_Suc_eq)
  moreover have "others s' = others s"
    using s new(1) by (auto simp: others_def live intro!: filter_cong)
  ultimately show ?thesis using None k by (auto simp: live map_add_def split: option.split)
next
  case (Some d)
  then have "c = d" "live s' = live s" "host s' = host s" "next_node s' = next_node s"
    using c by (auto simp: control_for_def log_event_def split: if_splits)
  moreover have "k \<in> fst ` set (live s)" using map_of_SomeD [OF Some] by force
  ultimately show ?thesis using s Some by (auto simp: keyed_ok_def others_def)
qed

lemma place_after_fields [simp]:
  "live (place_after a c s) = live s" "next_node (place_after a c s) = next_node s"
  by (simp_all add: place_after_def log_event_def Let_def)

lemma place_loop_host:
  assumes "keyed_ok s" and "host s = map (node_of s) (remdups ds) @ R" and "set ds \<subseteq> fst ` set (live s)"
  shows "\<exists>R'. let s' = place_loop u ks (if ds = [] then None else Some (node_of s (last ds))) s in
    keyed_ok s' \<and> host s' = map (node_of s') (remdups (ds @ ks)) @ R' \<and> others s' = others s \<and>
    fst ` set (live s') = set ks \<union> fst ` set (live s) \<and> (\<forall>j \<in> fst ` set (live s). map_of (live s') j = map_of (live s) j)"
  using assms
proof (induction ks arbitrary: s ds R)
  case Nil
  then show ?case by (simp add: Let_def)
next
  case (Cons k ks)
  let ?a = "if ds = [] then None else Some (node_of s (last ds))"
  obtain c s1 where c: "control_for u k s = (c, s1)" by (cases "control_for u k s")
  note f = control_for_ok [OF Cons.prems(1) c]
  define s2 where "s2 = place_after ?a c s1"
  have same: "node_of s1 j = node_of s j" if "j \<in> set ds" for j
    using f that Cons.prems(3) by (metis node_of_def subsetD)
  then have P: "map (node_of s1) (remdups ds) = map (node_of s) (remdups ds)" by simp
  obtain R1 where R1: "host s1 = map (node_of s1) (remdups ds) @ R1"
    using f Cons.prems(2) P by (metis append.assoc)
  have nc: "node_of s1 k = c" using f by (simp add: node_of_def)
  have ok1: "keyed_ok s1" and dom1: "insert k (set ds) \<subseteq> fst ` set (live s1)" using f Cons.prems(3) by auto
  have "last (map (node_of s1) (remdups ds)) = node_of s (last ds)" if "ds \<noteq> []"
  proof -
    from that have "last (remdups ds) = last ds" by (metis append_butlast_last_id remdups_snoc last_snoc)
    with that same show ?thesis by (simp add: last_map)
  qed
  then have raw: "host s2 = removeAll c (map (node_of s1) (remdups ds)) @ c # removeAll c R1"
    unfolding s2_def using ok1 node_in [OF ok1, of k] dom1 nc R1
    by (intro place_host) (auto simp: keyed_ok_def)
  have "removeAll c (map (node_of s1) (remdups ds)) = map (node_of s1) (removeAll k (remdups ds))"
    unfolding nc [symmetric] using dom1 by (intro removeAll_map inj_on_subset [OF node_inj [OF ok1]]) simp
  moreover have n2: "node_of s2 = node_of s1" by (simp add: s2_def node_of_def fun_eq_iff)
  ultimately have h2: "host s2 = map (node_of s2) (remdups (ds @ [k])) @ removeAll c R1"
    unfolding raw by (simp add: remdups_snoc nc)
  have perm: "set (host s2) = set (host s1)" "distinct (host s2)"
  proof -
    have "c \<in> set (host s1)" using node_in [OF ok1, of k] dom1 nc by auto
    with raw R1 show "set (host s2) = set (host s1)" by auto
    have "distinct (map (node_of s1) (remdups ds) @ R1)" using ok1 R1 by (simp add: keyed_ok_def)
    then show "distinct (host s2)" unfolding raw by (auto simp: distinct_removeAll)
  qed
  have ok2: "keyed_ok s2" using ok1 perm by (simp add: keyed_ok_def s2_def)
  have "filter (\<lambda>x. x \<notin> L) (removeAll c xs @ c # removeAll c ys) = filter (\<lambda>x. x \<notin> L) (xs @ ys)" if "c \<in> L" for L xs ys
  proof -
    have "filter (\<lambda>x. x \<notin> L) (removeAll c zs) = filter (\<lambda>x. x \<notin> L) zs" for zs
      using that by (induction zs) auto
    with that show ?thesis by simp
  qed
  moreover have "(k, c) \<in> set (live s1)" using node_in [OF ok1, of k] dom1 nc by simp
  then have "c \<in> snd ` set (live s1)" by (metis image_eqI snd_conv)
  ultimately have "filter (\<lambda>x. x \<notin> snd ` set (live s1)) (host s2) = filter (\<lambda>x. x \<notin> snd ` set (live s1)) (host s1)"
    unfolding raw R1 by blast
  then have "others s2 = others s1" by (simp add: others_def s2_def)
  then have o2: "others s2 = others s" using f by simp
  have "\<exists>R'. let s' = place_loop u ks (if ds @ [k] = [] then None else Some (node_of s2 (last (ds @ [k])))) s2 in
    keyed_ok s' \<and> host s' = map (node_of s') (remdups ((ds @ [k]) @ ks)) @ R' \<and> others s' = others s2 \<and>
    fst ` set (live s') = set ks \<union> fst ` set (live s2) \<and> (\<forall>j \<in> fst ` set (live s2). map_of (live s') j = map_of (live s2) j)"
    by (rule Cons.IH [OF ok2 h2]) (use dom1 in \<open>simp add: s2_def\<close>)
  moreover have "place_loop u (k # ks) ?a s = place_loop u ks (Some (node_of s2 k)) s2"
    by (simp add: c s2_def [symmetric] n2 nc)
  moreover have "live s2 = live s1" by (simp add: s2_def)
  ultimately show ?case unfolding o2 using f by (auto simp: Let_def)
qed

lemma sweep_fold:
  "fold (\<lambda>kc s. if fst kc \<notin> S then drop_key kc s else s) l s =
    s\<lparr>live := filter (\<lambda>e. fst e \<in> S \<or> fst e \<notin> fst ` set l) (live s),
      host := filter (\<lambda>c. c \<notin> snd ` set (filter (\<lambda>e. fst e \<notin> S) l)) (host s),
      events := events s @ map (Destroyed \<circ> snd) (filter (\<lambda>e. fst e \<notin> S) l)\<rparr>"
proof (induction l arbitrary: s)
  case (Cons kc l)
  have "filter P (removeAll c xs) = filter (\<lambda>x. x \<noteq> c \<and> P x) xs" for P c and xs :: "nat list"
    by (induction xs) auto
  then show ?case by (auto simp: Cons drop_key_def log_event_def intro!: filter_cong arg_cong2 [where f = "\<lambda>x y. s\<lparr>live := x, host := y, events := _\<rparr>"])
qed simp

lemma sweep_eq:
  "sweep ks s = s\<lparr>live := filter (\<lambda>e. fst e \<in> set ks) (live s),
      host := filter (\<lambda>c. c \<notin> snd ` set (filter (\<lambda>e. fst e \<notin> set ks) (live s))) (host s),
      events := events s @ map (Destroyed \<circ> snd) (filter (\<lambda>e. fst e \<notin> set ks) (live s))\<rparr>"
  unfolding sweep_def sweep_fold by (auto intro!: arg_cong [where f = "\<lambda>x. s\<lparr>live := x, host := _, events := _\<rparr>"] filter_cong)

lemma map_of_filter_key: "map_of (filter (\<lambda>e. P (fst e)) m) k = (if P k then map_of m k else None)"
  by (induction m) auto

lemma reconcile_facts:
  fixes u :: bool and ks :: "string list"
  assumes s: "keyed_ok s"
  defines "s' \<equiv> reconcile u ks s"
  shows "keyed_ok s'" "host s' = map (node_of s') (remdups ks) @ others s" "fst ` set (live s') = set ks"
    "k \<in> set ks \<Longrightarrow> k \<in> fst ` set (live s) \<Longrightarrow> node_of s' k = node_of s k"
proof -
  define p where "p = place_loop u ks None s"
  obtain R where p: "keyed_ok p" "host p = map (node_of p) (remdups ks) @ R" "others p = others s"
    "fst ` set (live p) = set ks \<union> fst ` set (live s)" "\<forall>j \<in> fst ` set (live s). map_of (live p) j = map_of (live s) j"
    using place_loop_host [OF s, of "[]" "host s" u ks] by (auto simp: Let_def p_def)
  define D where "D = snd ` set (filter (\<lambda>e. fst e \<notin> set ks) (live p))"
  have s': "s' = sweep ks p" by (simp add: s'_def reconcile_def p_def)
  have live: "live s' = filter (\<lambda>e. fst e \<in> set ks) (live p)" and host: "host s' = filter (\<lambda>c. c \<notin> D) (host p)"
    by (simp_all add: s' sweep_eq D_def)
  have node: "node_of s' k = node_of p k" if "k \<in> set ks" for k
    using that by (simp add: node_of_def live map_of_filter_key [of "\<lambda>k. k \<in> set ks"])
  have at: "(k, node_of p k) \<in> set (live p)" if "k \<in> set ks" for k
    using node_in [OF p(1), of k] p(4) that by blast
  have stay: "node_of p k \<notin> D" if "k \<in> set ks" for k
  proof
    assume "node_of p k \<in> D"
    then obtain j where j: "(j, node_of p k) \<in> set (live p)" "j \<notin> set ks" by (auto simp: D_def)
    moreover have "inj_on snd (set (live p))" using p(1) by (simp add: keyed_ok_def distinct_map)
    ultimately have "j = k" using at [OF that] by (metis Pair_inject inj_onD snd_conv)
    with j that show False by simp
  qed
  have own: "c = node_of p k" if "(k, c) \<in> set (live p)" for k c
    using that p(1) by (simp add: node_of_def keyed_ok_def distinct_keys_def)
  have all: "snd ` set (live p) = D \<union> node_of p ` set ks"
  proof -
    have "snd ` set (live p) \<subseteq> D \<union> node_of p ` set ks" using own unfolding D_def by force
    moreover have "D \<union> node_of p ` set ks \<subseteq> snd ` set (live p)" using at unfolding D_def by force
    ultimately show ?thesis by blast
  qed
  have R: "c \<notin> node_of p ` set ks" if "c \<in> set R" for c
    using p(1,2) that by (auto simp: keyed_ok_def)
  have "filter (\<lambda>c. c \<notin> D) R = filter (\<lambda>c. c \<notin> snd ` set (live p)) R"
    using R by (intro filter_cong) (auto simp: all)
  moreover have "filter (\<lambda>c. c \<notin> snd ` set (live p)) (map (node_of p) (remdups ks)) = []"
    by (auto simp: filter_empty_conv all)
  ultimately have "filter (\<lambda>c. c \<notin> D) R = others s" using p(2,3) by (simp add: others_def)
  moreover have "filter (\<lambda>c. c \<notin> D) (map (node_of p) (remdups ks)) = map (node_of s') (remdups ks)"
    using stay node by (auto simp: filter_map intro!: filter_True map_cong)
  ultimately show "host s' = map (node_of s') (remdups ks) @ others s" by (simp add: host p(2))
  show "fst ` set (live s') = set ks" unfolding live using p(4) by force
  show "keyed_ok s'"
  proof -
    have "distinct (map snd (live s'))" unfolding live using p(1) by (simp add: keyed_ok_def distinct_map_filter)
    moreover have "distinct_keys (live s')" unfolding live using p(1) by (simp add: keyed_ok_def distinct_keys_def distinct_map_filter)
    moreover have "snd ` set (live s') \<subseteq> set (host s')"
      using p(1) own stay unfolding live host keyed_ok_def by fastforce
    ultimately show ?thesis using p(1) by (auto simp: keyed_ok_def host s' sweep_eq)
  qed
  show "node_of s' k = node_of s k" if "k \<in> set ks" "k \<in> fst ` set (live s)"
    using node [OF that(1)] p(5) that(2) by (simp add: node_of_def)
qed

section \<open>Properties\<close>

text \<open>C21: Whatever list the items become, a run leaves the host with one node per key, in the order of the
  keys (a repeated key at its last place), before the nodes of others in their order; and no key without
  its item stays live.
\<close>

theorem host_shows_the_keys:
  assumes "keyed_ok s"
  shows "host (reconcile u ks s) = map (node_of (reconcile u ks s)) (remdups ks) @ others s \<and>
    fst ` set (live (reconcile u ks s)) = set ks \<and> keyed_ok (reconcile u ks s)"
  using reconcile_facts [OF assms, where u = u and ks = ks] by blast

definition two_rows :: keyed_state where
  "two_rows = \<lparr>host = [0, 1, 7], live = [(''a'', 0), (''b'', 1)], next_node = 8, events = []\<rparr>"

lemma two_rows_ok: "keyed_ok two_rows"
  by (simp add: keyed_ok_def two_rows_def distinct_keys_def)

theorem host_shows_the_keys_witness:
  "host (reconcile True [''b'', ''c''] two_rows) = map (node_of (reconcile True [''b'', ''c''] two_rows)) (remdups [''b'', ''c'']) @ others two_rows \<and>
    fst ` set (live (reconcile True [''b'', ''c''] two_rows)) = set [''b'', ''c''] \<and> keyed_ok (reconcile True [''b'', ''c''] two_rows)"
  by (rule host_shows_the_keys [OF two_rows_ok])

lemma control_for_events:
  "control_for u k s = (c, s') \<Longrightarrow> \<exists>es. events s' = events s @ es \<and> (\<forall>d. Destroyed d \<notin> set es)"
  by (auto simp: control_for_def log_event_def Let_def split: option.splits if_splits)

lemma place_loop_events:
  "\<exists>es. events (place_loop u ks a s) = events s @ es \<and> (\<forall>d. Destroyed d \<notin> set es)"
proof (induction ks arbitrary: a s)
  case (Cons k ks)
  obtain c s' where c: "control_for u k s = (c, s')" by (cases "control_for u k s")
  have "\<exists>es. events (place_after a c s') = events s' @ es \<and> (\<forall>d. Destroyed d \<notin> set es)"
    by (auto simp: place_after_def log_event_def Let_def)
  with control_for_events [OF c] Cons [of "Some c" "place_after a c s'"] c show ?case
    by (simp add: c) (metis UnE append.assoc set_append)
qed simp

text \<open>A key that has its item before and after keeps its control, and the controls destroyed in a run
  are exactly those whose key went, each once.
\<close>

theorem kept_keys_keep_their_control:
  assumes "keyed_ok s"
  shows "(\<forall>k \<in> set ks \<inter> fst ` set (live s). node_of (reconcile u ks s) k = node_of s k) \<and>
    (\<exists>es. events (reconcile u ks s) = events s @ es \<and>
      mset [d. Destroyed d \<leftarrow> es] = mset [node_of s k. k \<leftarrow> filter (\<lambda>k. k \<notin> set ks) (map fst (live s))])"
proof -
  define p where "p = place_loop u ks None s"
  obtain es where es: "events p = events s @ es" "\<forall>d. Destroyed d \<notin> set es"
    using place_loop_events [of u ks None s] by (auto simp: p_def)
  have p: "keyed_ok p" "fst ` set (live p) = set ks \<union> fst ` set (live s)" "\<forall>j \<in> fst ` set (live s). map_of (live p) j = map_of (live s) j"
    using place_loop_host [OF assms, of "[]" "host s" u ks] by (auto simp: Let_def p_def)
  define gone where "gone = map snd (filter (\<lambda>e. fst e \<notin> set ks) (live p))"
  have r: "events (reconcile u ks s) = events s @ es @ map Destroyed gone"
    by (simp add: reconcile_def p_def [symmetric] sweep_eq es gone_def)
  have none: "[d. Destroyed d \<leftarrow> xs] = []" if "\<forall>d. Destroyed d \<notin> set xs" for xs
    using that by (induction xs) (auto split: list_event.splits)
  have "[d. Destroyed d \<leftarrow> es @ map Destroyed gone] = gone"
    using none [OF es(2)] by (simp add: concat_map_singleton o_def)
  moreover have "mset gone = mset [node_of s k. k \<leftarrow> filter (\<lambda>k. k \<notin> set ks) (map fst (live s))]"
  proof -
    have "distinct (live p)" "distinct (live s)" using p(1) assms by (auto simp: keyed_ok_def distinct_map)
    have "e \<in> set (filter (\<lambda>e. fst e \<notin> set ks) (live p)) \<longleftrightarrow> e \<in> set (filter (\<lambda>e. fst e \<notin> set ks) (live s))" for e
    proof -
      obtain k c where e: "e = (k, c)" by (cases e)
      have "(k, c) \<in> set (live p) \<longleftrightarrow> (k, c) \<in> set (live s)" if "k \<notin> set ks"
        using p assms that by (metis (no_types, lifting) Un_iff fst_conv image_eqI keyed_ok_def map_of_member)
      then show ?thesis by (auto simp: e)
    qed
    with \<open>distinct (live p)\<close> \<open>distinct (live s)\<close>
    have "mset (filter (\<lambda>e. fst e \<notin> set ks) (live p)) = mset (filter (\<lambda>e. fst e \<notin> set ks) (live s))"
      by (intro set_eq_iff_mset_eq_distinct [THEN iffD1]) (auto)
    then have "mset gone = mset (map snd (filter (\<lambda>e. fst e \<notin> set ks) (live s)))" unfolding gone_def mset_map by (rule arg_cong)
    also have "map snd (filter (\<lambda>e. fst e \<notin> set ks) (live s)) = [node_of s k. k \<leftarrow> filter (\<lambda>k. k \<notin> set ks) (map fst (live s))]"
      using assms by (auto simp: filter_map o_def node_of_def keyed_ok_def distinct_keys_def intro!: map_cong)
    finally show ?thesis .
  qed
  ultimately have "\<exists>es. events (reconcile u ks s) = events s @ es \<and>
      mset [d. Destroyed d \<leftarrow> es] = mset [node_of s k. k \<leftarrow> filter (\<lambda>k. k \<notin> set ks) (map fst (live s))]"
    using r by (intro exI [of _ "es @ map Destroyed gone"]) simp
  then show ?thesis using reconcile_facts(4) [OF assms] by blast
qed

theorem kept_keys_keep_their_control_witness:
  "(\<forall>k \<in> set [''b'', ''c''] \<inter> fst ` set (live two_rows). node_of (reconcile True [''b'', ''c''] two_rows) k = node_of two_rows k) \<and>
    (\<exists>es. events (reconcile True [''b'', ''c''] two_rows) = events two_rows @ es \<and>
      mset [d. Destroyed d \<leftarrow> es] = mset [node_of two_rows k. k \<leftarrow> filter (\<lambda>k. k \<notin> set [''b'', ''c'']) (map fst (live two_rows))])"
  by (rule kept_keys_keep_their_control [OF two_rows_ok])

lemma place_loop_still:
  assumes "keyed_ok s" and "host s = map (node_of s) (ds @ ks) @ R" and "set (ds @ ks) \<subseteq> fst ` set (live s)"
    and "distinct (ds @ ks)"
  shows "place_loop u ks (if ds = [] then None else Some (node_of s (last ds))) s =
    s\<lparr>events := events s @ (if u then map (Updated \<circ> node_of s) ks else [])\<rparr>"
  using assms
proof (induction ks arbitrary: ds s)
  case (Cons k ks)
  let ?P = "map (node_of s) ds"
  define s1 where "s1 = (if u then log_event (Updated (node_of s k)) s else s)"
  have live: "(k, node_of s k) \<in> set (live s)" using node_in [OF Cons.prems(1), of k] Cons.prems(3) by simp
  then have c: "control_for u k s = (node_of s k, s1)"
    using Cons.prems(1) by (simp add: control_for_def s1_def keyed_ok_def distinct_keys_def)
  have s1: "host s1 = host s" "live s1 = live s" "next_node s1 = next_node s" by (simp_all add: s1_def log_event_def)
  then have same: "node_of s1 = node_of s" by (simp add: node_of_def fun_eq_iff)
  have "distinct (host s)" using Cons.prems(1) by (simp add: keyed_ok_def)
  then have "(case (if ds = [] then None else Some (node_of s (last ds))) of None \<Rightarrow> firstChild (host s1) | Some a \<Rightarrow> nextSibling a (host s1))
      = Some (node_of s k)"
  proof (cases ds rule: rev_cases)
    case (snoc es d)
    with Cons.prems(2) \<open>distinct (host s)\<close> have "node_of s d \<notin> set (map (node_of s) es)" by auto
    from nextSibling_append [OF this, of "map (node_of s) (k # ks) @ R"] snoc Cons.prems(2) s1 show ?thesis
      by (simp add: firstChild_def)
  qed (simp add: Cons.prems(2) s1 firstChild_def)
  then have still: "place_after (if ds = [] then None else Some (node_of s (last ds))) (node_of s k) s1 = s1"
    by (simp add: place_after_def)
  have "place_loop u ks (if ds @ [k] = [] then None else Some (node_of s1 (last (ds @ [k])))) s1 =
    s1\<lparr>events := events s1 @ (if u then map (Updated \<circ> node_of s1) ks else [])\<rparr>"
    by (rule Cons.IH) (use Cons.prems s1 same in \<open>simp_all add: keyed_ok_def\<close>)
  then show ?case by (simp add: c still same) (simp add: s1_def log_event_def)
qed simp

text \<open>A run over the keys the host already shows, in the same order, moves and creates no node and
  destroys none: all that happens is one update per item, where there is an update hook.
\<close>

theorem unchanged_list_moves_nothing:
  assumes "keyed_ok s" and "host s = map (node_of s) ks @ others s" and "fst ` set (live s) = set ks" and "distinct ks"
  shows "reconcile u ks s = s\<lparr>events := events s @ (if u then map (Updated \<circ> node_of s) ks else [])\<rparr>"
proof -
  have "place_loop u ks None s = s\<lparr>events := events s @ (if u then map (Updated \<circ> node_of s) ks else [])\<rparr>"
    using place_loop_still [of s "[]" ks "others s" u] assms by simp
  moreover have "filter (\<lambda>e. fst e \<in> set ks) (live s) = live s" "filter (\<lambda>e. fst e \<notin> set ks) (live s) = []"
    using assms(3) by (auto simp: filter_id_conv filter_empty_conv)
  ultimately show ?thesis by (simp add: reconcile_def sweep_eq)
qed

theorem unchanged_list_moves_nothing_witness:
  "reconcile True [''a'', ''b''] two_rows =
    two_rows\<lparr>events := events two_rows @ (if True then map (Updated \<circ> node_of two_rows) [''a'', ''b''] else [])\<rparr>"
  by (rule unchanged_list_moves_nothing [OF two_rows_ok]) (simp_all add: two_rows_def node_of_def others_def)

end
