(* ===== verification/GridColumns.thy ===== *)
theory GridColumns
  imports ScreenResolve AttrSchema Grouping JsSort WireDecode "HOL-Library.List_Lexorder" "HOL-Library.Char_ord"
begin

text \<open>
  The columns and orders of the Grid: sorting and the columns of a schema (\<^verbatim>\<open>grid/grid-helpers.ts\<close>), the
  derived columns (\<^verbatim>\<open>cardlist/derived-columns.ts\<close>), the chooser (\<^verbatim>\<open>grid/grid-columns.ts\<close>), the
  Grid's own column set, tracks, wire order, column filters and tag groups (\<^verbatim>\<open>grid/grid.ts\<close>), and the
  two bulk calls (\<^verbatim>\<open>grid/specs.ts\<close>). Widths are exact numbers.

  Main results: the columns of the Grid are the chooser's list without the hidden ones; a column moved in
  the chooser stays where it was put; grouping under a tag prefix shows every task once; the wire order
  starts with the group and names no field twice that the sort does not.
\<close>

section \<open>Sorting\<close>

type_synonym sort_state = "string \<times> sort_dir"

definition cycleSort :: "sort_state option \<Rightarrow> string \<Rightarrow> sort_state option" where
  "cycleSort current field = (case current of
     None \<Rightarrow> Some (field, SAsc)
   | Some (f, d) \<Rightarrow> if f \<noteq> field then Some (field, SAsc) else if d = SAsc then Some (field, SDesc) else None)"

definition buildOrderClauses :: "sort_state list \<Rightarrow> (string \<times> string) list" where
  "buildOrderClauses = map (\<lambda>(f, d). (f, if d = SAsc then ''ASC'' else ''DESC''))"

definition sortStatesFromFilter :: "sort_entry list \<Rightarrow> sort_state list" where
  "sortStatesFromFilter = map (\<lambda>(a, d). (if isTopLevelField a then a else ''attributes.'' @ a, d))"

definition effectiveSort :: "sort_state option \<Rightarrow> sort_state list \<Rightarrow> sort_state list" where
  "effectiveSort headerSort filterSort = (case headerSort of Some s \<Rightarrow> [s] | None \<Rightarrow> filterSort)"

text \<open>\<open>applyOrder\<close>; the group is given by its attribute and, for a tag group, its prefix.\<close>

definition group_field :: "group_attr option \<Rightarrow> string option" where
  "group_field g = (case g of Some ga \<Rightarrow> if tagPrefix ga = None then Some (''attributes.'' @ group_attr.attr ga) else None | None \<Rightarrow> None)"

definition applyOrder :: "group_attr option \<Rightarrow> sort_dir \<Rightarrow> sort_state option \<Rightarrow> js \<Rightarrow> (string \<times> string) list" where
  "applyOrder g groupDir headerSort screenSort =
     buildOrderClauses ((case group_field g of Some f \<Rightarrow> [(f, groupDir)] | None \<Rightarrow> []) @
       filter (\<lambda>s. Some (fst s) \<noteq> group_field g)
         (effectiveSort headerSort (sortStatesFromFilter (sort_entries screenSort))))"

record grid_sort =
  gs_group :: "group_attr option"
  gs_dir :: sort_dir
  gs_sort :: "sort_state option"

definition toggleGroupDir :: "grid_sort \<Rightarrow> grid_sort" where
  "toggleGroupDir g = (if gs_group g = None then g
     else g\<lparr>gs_dir := (if gs_dir g = SAsc then SDesc else SAsc)\<rparr>)"

definition onHeaderClick :: "string option \<Rightarrow> grid_sort \<Rightarrow> grid_sort" where
  "onHeaderClick field g = (case field of
     None \<Rightarrow> g
   | Some f \<Rightarrow> if (case gs_group g of Some ga \<Rightarrow> f = ''attributes.'' @ group_attr.attr ga | None \<Rightarrow> False) then toggleGroupDir g
              else g\<lparr>gs_sort := cycleSort (gs_sort g) f\<rparr>)"

section \<open>Derived columns\<close>

record derived_column =
  dc_cardType :: string
  dc_label :: string
  dc_sortField :: string
  dc_withApprovals :: bool

definition DERIVED_COLUMNS :: "derived_column props" where
  "DERIVED_COLUMNS =
     [(''approvals'', \<lparr>dc_cardType = ''task'', dc_label = ''Approvals'', dc_sortField = ''approval_state'', dc_withApprovals = True\<rparr>),
      (''approval_asked_at'', \<lparr>dc_cardType = ''task'', dc_label = ''Approval asked'', dc_sortField = ''approval_asked_at'', dc_withApprovals = True\<rparr>)]"

definition derivedColumn :: "string \<Rightarrow> derived_column option" where
  "derivedColumn name = map_of DERIVED_COLUMNS name"

definition derivedColumnsFor :: "string \<Rightarrow> derived_column props" where
  "derivedColumnsFor t = filter (\<lambda>(n, c). dc_cardType c = t) DERIVED_COLUMNS"

definition columnsNeedApprovals :: "string list \<Rightarrow> bool" where
  "columnsNeedApprovals = list_ex (\<lambda>c. case derivedColumn c of Some d \<Rightarrow> dc_withApprovals d | None \<Rightarrow> False)"

section \<open>The columns of a schema\<close>

datatype column_kind = CId | CTitle | CRef | CTagPrefix | CDate | CAttr | CDerived | CCreated | CLastActivity

record column_def =
  co_kind :: column_kind
  co_key :: string
  co_label :: string
  co_field :: "string option"
  co_attrName :: "string option"
  co_lookup :: "string option"
  co_target :: "string option"
  co_prefix :: "string option"

definition plain_col :: "column_kind \<Rightarrow> string \<Rightarrow> string \<Rightarrow> string option \<Rightarrow> string option \<Rightarrow> column_def" where
  "plain_col k key l f a = \<lparr>co_kind = k, co_key = key, co_label = l, co_field = f, co_attrName = a,
     co_lookup = None, co_target = None, co_prefix = None\<rparr>"

definition ref_col :: "ref_axis \<Rightarrow> column_def outcome" where
  "ref_col ax = obind (lookupNameForCardType (ax_target ax)) (\<lambda>l.
     Return ((plain_col CRef (ax_attr ax) (ax_label ax) (Some (''attributes.'' @ ax_attr ax)) (Some (ax_attr ax)))
       \<lparr>co_lookup := Some l, co_target := Some (ax_target ax)\<rparr>))"

definition prefix_col :: "string \<Rightarrow> column_def" where
  "prefix_col p = (plain_col CTagPrefix (''tag:'' @ p) (friendlyLabel p) None None)\<lparr>co_prefix := Some p\<rparr>"

definition extra_col :: "attr_schema list \<Rightarrow> string \<Rightarrow> column_def" where
  "extra_col schema name = (case derivedColumn name of
     Some d \<Rightarrow> plain_col CDerived name (dc_label d) (Some (dc_sortField d)) None
   | None \<Rightarrow> let sch = find (\<lambda>a. a_name a = name) schema in
       plain_col (case sch of Some s \<Rightarrow> if a_type s = ''date'' then CDate else CAttr | None \<Rightarrow> CAttr) name
         (case sch of Some s \<Rightarrow> a_label s | None \<Rightarrow> friendlyLabel name) (Some (''attributes.'' @ name)) (Some name))"

fun extra_loop :: "attr_schema list \<Rightarrow> string list \<Rightarrow> string list \<Rightarrow> column_def list" where
  "extra_loop schema [] shown = []"
| "extra_loop schema (n # ns) shown =
     (if n \<in> set shown then extra_loop schema ns shown
      else extra_col schema n # extra_loop schema ns (shown @ [n]))"

definition buildGridColumns ::
  "ref_axis list \<Rightarrow> attr_schema list \<Rightarrow> string list \<Rightarrow> string list \<Rightarrow> column_def list outcome" where
  "buildGridColumns refAxes schema extraColumns tagPrefixes =
     obind (otraverse ref_col (filter (\<lambda>ax. \<not> ax_multi ax) refAxes)) (\<lambda>refs.
       let cols = [plain_col CId ''id'' ''ID'' None None, plain_col CTitle ''title'' ''Title'' (Some ''attributes.title'') None] @
             refs @ map prefix_col tagPrefixes;
           shown = dedup (List.map_filter co_attrName cols)
       in Return (cols @ extra_loop schema extraColumns shown @
         [plain_col CCreated ''created'' ''Created'' (Some ''created_at'') None,
          plain_col CLastActivity ''last_activity'' ''Last activity'' (Some ''last_activity_at'') None]))"

section \<open>Tag paths\<close>

definition path_prefix :: "string \<Rightarrow> string option" where
  "path_prefix p = (let h = takeWhile (\<lambda>c. c \<noteq> CHR ''/'') p in if CHR ''/'' \<in> set p \<and> h \<noteq> [] then Some h else None)"

definition extractTagPrefixes :: "string list \<Rightarrow> string list" where
  "extractTagPrefixes paths = js_sort cmp_of (dedup (List.map_filter path_prefix paths))"

definition path_suffix :: "string \<Rightarrow> string \<Rightarrow> string option" where
  "path_suffix prefix p = (let pre = prefix @ ''/'' in if js_starts pre p then Some (drop (length pre) p) else None)"

definition tagPrefixValues :: "string list \<Rightarrow> string \<Rightarrow> string list" where
  "tagPrefixValues paths prefix = filter (\<lambda>v. v \<noteq> []) (List.map_filter (path_suffix prefix) paths)"

definition widest :: "string \<Rightarrow> string list \<Rightarrow> string" where
  "widest prefix paths = fold (\<lambda>p w. case path_suffix prefix p of
     None \<Rightarrow> w | Some s \<Rightarrow> if length w < length s then s else w) paths ''''"

definition estimateTagPrefixColumnPx :: "string list \<Rightarrow> string \<Rightarrow> int" where
  "estimateTagPrefixColumnPx paths prefix =
     max (max 56 \<lceil>rat_of_nat (length prefix) * 7 + 36\<rceil>) \<lceil>rat_of_nat (length (widest prefix paths)) * (13 / 2) + 40\<rceil>"

definition tagPathSegments :: "string \<Rightarrow> string list" where
  "tagPathSegments path = filter (\<lambda>s. s \<noteq> []) (js_split CHR ''/'' path)"

definition tagPathLeaf :: "string \<Rightarrow> string" where
  "tagPathLeaf path = (let segs = tagPathSegments path in if segs \<noteq> [] then last segs else path)"

section \<open>The chooser and the column set\<close>

record column_config =
  cc_hidden :: "string list"
  cc_order :: "string list"
  cc_widths :: "rat props"

definition merged_prefixes :: "string list \<Rightarrow> string list \<Rightarrow> string list" where
  "merged_prefixes explicit auto_found = dedup (filter (\<lambda>p. p \<noteq> '''') (explicit @ auto_found))"

definition rawColumns ::
  "ref_axis list \<Rightarrow> attr_schema list \<Rightarrow> string list \<Rightarrow> string list \<Rightarrow> string props \<Rightarrow> column_def list outcome" where
  "rawColumns refAxes schema extra explicit tagMap =
     buildGridColumns refAxes schema extra (merged_prefixes explicit (extractTagPrefixes (map snd tagMap)))"

text \<open>\<open>xs.indexOf(x)\<close> of an element.\<close>

definition index_of :: "string \<Rightarrow> string list \<Rightarrow> nat" where
  "index_of x xs = length (takeWhile (\<lambda>y. y \<noteq> x) xs)"

definition rank :: "string list \<Rightarrow> string list \<Rightarrow> string \<Rightarrow> nat" where
  "rank keys order k = (if k \<in> set order then index_of k order else length order + index_of k keys)"

definition orderedKeys :: "string list \<Rightarrow> column_config \<Rightarrow> string list" where
  "orderedKeys keys cfg = (if cc_order cfg = [] then keys
     else js_sort (\<lambda>a b. cmp_of (rank keys (cc_order cfg) a) (rank keys (cc_order cfg) b)) keys)"

definition toggleHidden :: "string \<Rightarrow> column_config \<Rightarrow> column_config" where
  "toggleHidden key cfg = cfg\<lparr>cc_hidden :=
     (let s = dedup (cc_hidden cfg) in if key \<in> set s then filter (\<lambda>k. k \<noteq> key) s else s @ [key])\<rparr>"

text \<open>The chooser's arrows: up is \<open>True\<close>.\<close>

definition moveColumn :: "string list \<Rightarrow> string \<Rightarrow> bool \<Rightarrow> column_config \<Rightarrow> column_config" where
  "moveColumn raw key up cfg =
     (let keys = orderedKeys raw cfg; i = index_of key keys in
      if key \<notin> set keys \<or> (up \<and> i = 0) \<or> (\<not> up \<and> length keys \<le> Suc i) then cfg
      else let j = (if up then i - 1 else Suc i) in cfg\<lparr>cc_order := keys[i := keys ! j, j := keys ! i]\<rparr>)"

definition computeColumns :: "column_def list \<Rightarrow> column_config \<Rightarrow> column_def list" where
  "computeColumns raw cfg =
     (let visible = filter (\<lambda>c. co_key c \<notin> set (cc_hidden cfg)) raw;
          r = (\<lambda>c. rank (map co_key raw) (cc_order cfg) (co_key c))
      in if cc_order cfg = [] then visible else js_sort (\<lambda>a b. cmp_of (r a) (r b)) visible)"

section \<open>Tracks\<close>

definition px :: "rat \<Rightarrow> string" where
  "px w = num_text (Fin w) @ ''px''"

definition defaultTrack :: "(string \<times> int) list \<Rightarrow> column_def \<Rightarrow> string" where
  "defaultTrack tagPrefixWidths c = (case co_kind c of
     CId \<Rightarrow> ''4.5rem'' | CTitle \<Rightarrow> ''minmax(12rem, 2fr)'' | CRef \<Rightarrow> ''9rem''
   | CTagPrefix \<Rightarrow> px (of_int (case map_of tagPrefixWidths (case co_prefix c of Some p \<Rightarrow> p | None \<Rightarrow> '''') of Some w \<Rightarrow> w | None \<Rightarrow> 56))
   | CDate \<Rightarrow> ''7rem'' | CDerived \<Rightarrow> ''9rem'' | CCreated \<Rightarrow> ''7.5rem'' | CLastActivity \<Rightarrow> ''7.5rem'' | CAttr \<Rightarrow> ''8rem'')"

definition js_round :: "rat \<Rightarrow> int" where
  "js_round x = \<lfloor>x + 1 / 2\<rfloor>"

text \<open>The track of a column while one may be dragged; \<open>live\<close> is that column's key and width.\<close>

definition sized :: "column_config \<Rightarrow> (string \<times> rat) option \<Rightarrow> column_def \<Rightarrow> string option" where
  "sized cfg live c = (case live of
     Some (k, w) \<Rightarrow> if co_key c = k then Some (px (of_int (max 48 (js_round w))))
                   else map_option (\<lambda>w. px (max 48 w)) (map_of (cc_widths cfg) (co_key c))
   | None \<Rightarrow> map_option (\<lambda>w. px (max 48 w)) (map_of (cc_widths cfg) (co_key c)))"

definition colsString :: "(string \<times> int) list \<Rightarrow> column_config \<Rightarrow> column_def list \<Rightarrow> (string \<times> rat) option \<Rightarrow> string" where
  "colsString tw cfg cols live =
     js_join '' '' (''2.25rem'' # map (\<lambda>c. case sized cfg live c of Some t \<Rightarrow> t | None \<Rightarrow> defaultTrack tw c) cols)"

definition minmax_min :: "string \<Rightarrow> string" where
  "minmax_min t = (if js_starts ''minmax('' t
     then (let r = dropWhile is_space (drop 7 t); m = takeWhile (\<lambda>c. c \<noteq> CHR '','') r in
           if m \<noteq> [] \<and> length m < length r then js_trim m else t)
     else t)"

definition colMinTrack :: "(string \<times> int) list \<Rightarrow> column_config \<Rightarrow> (string \<times> rat) option \<Rightarrow> column_def \<Rightarrow> string" where
  "colMinTrack tw cfg live c = (case sized cfg live c of Some t \<Rightarrow> t | None \<Rightarrow> minmax_min (defaultTrack tw c))"

definition colsMinWidth :: "(string \<times> int) list \<Rightarrow> column_config \<Rightarrow> column_def list \<Rightarrow> (string \<times> rat) option \<Rightarrow> string" where
  "colsMinWidth tw cfg cols live = ''calc('' @ js_join '' + '' (''2.25rem'' # map (colMinTrack tw cfg live) cols) @ '')''"

text \<open>A drag that moved by \<open>dx\<close> and ended; one that never moved leaves the widths.\<close>

definition endResize :: "string \<Rightarrow> rat \<Rightarrow> rat option \<Rightarrow> column_config \<Rightarrow> column_config" where
  "endResize key startW dx cfg = (case dx of
     None \<Rightarrow> cfg
   | Some d \<Rightarrow> cfg\<lparr>cc_widths := obj_put key (of_int (max 48 (js_round (startW + d)))) (cc_widths cfg)\<rparr>)"

definition recomputeTagPrefixWidths :: "string props \<Rightarrow> (string \<times> int) list" where
  "recomputeTagPrefixWidths tagMap =
     map (\<lambda>p. (p, estimateTagPrefixColumnPx (map snd tagMap) p)) (extractTagPrefixes (map snd tagMap))"

section \<open>The filter of a column\<close>

definition columnFilterValues :: "predicate option \<Rightarrow> string \<Rightarrow> string list" where
  "columnFilterValues p a = (case topLevelLeafForAttr p a of
     None \<Rightarrow> []
   | Some l \<Rightarrow> if oper l = Op_eq \<or> oper l = Op_in then map js_text (leaf_vals l) else [])"

definition toggleColumnFilter :: "string \<Rightarrow> string \<Rightarrow> predicate option \<Rightarrow> predicate option" where
  "toggleColumnFilter a v p =
     (let cur = columnFilterValues p a;
          vs = (if v \<in> set cur then filter (\<lambda>x. x \<noteq> v) cur else cur @ [v])
      in if vs = [] then removeTopLevelLeaf p a
         else upsertTopLevelLeaf p (mk_leaf a (if length vs = 1 then Op_eq else Op_in) (Some (map JStr vs))))"

section \<open>Groups under a tag prefix\<close>

definition compare_tag :: "rat props \<Rightarrow> string \<Rightarrow> string \<Rightarrow> int" where
  "compare_tag tagSort a b = then_cmp
     (case (map_of tagSort a, map_of tagSort b) of
        (Some x, Some y) \<Rightarrow> cmp_of x y | (None, Some y) \<Rightarrow> 1 | (Some x, None) \<Rightarrow> -1 | (None, None) \<Rightarrow> 0)
     (cmp_of a b)"

definition tag_key :: "('a \<Rightarrow> js props) \<Rightarrow> string props \<Rightarrow> string \<Rightarrow> 'a \<Rightarrow> string" where
  "tag_key attrs roots prefix row = (case tagIdUnderRoot (prop_get (attrs row) ''tags'') roots prefix of
     Some k \<Rightarrow> k | None \<Rightarrow> GROUP_EMPTY_KEY)"

fun emit_groups :: "nat \<Rightarrow> (string \<times> string \<times> 'a list) list \<Rightarrow> 'a group_item list" where
  "emit_groups i [] = []"
| "emit_groups i ((key, lab, rows) # gs) =
     GroupHeader lab (length rows) key # row_items i rows @ emit_groups (i + length rows) gs"

definition bucket_of :: "(string \<times> 'a list) list \<Rightarrow> string \<Rightarrow> 'a list" where
  "bucket_of m k = (case map_of m k of Some b \<Rightarrow> b | None \<Rightarrow> [])"

definition tag_groups ::
  "('a \<Rightarrow> js props) \<Rightarrow> string props \<Rightarrow> string props \<Rightarrow> rat props \<Rightarrow> 'a list \<Rightarrow> string \<Rightarrow> (string \<times> string \<times> 'a list) list" where
  "tag_groups attrs paths roots tagSort tasks prefix =
     (let buckets = group_into map_of map_put (tag_key attrs roots prefix) tasks [];
          prefixIds = js_sort (compare_tag tagSort) (filter (\<lambda>i. map_of roots i = Some prefix) (map fst roots));
          lab = (\<lambda>i. tagLeaf (case map_of paths i of Some p \<Rightarrow> p | None \<Rightarrow> ''#'' @ i))
      in filter (\<lambda>(k, l, rows). rows \<noteq> [])
           (map (\<lambda>i. (i, lab i, bucket_of buckets i)) prefixIds @
            [(GROUP_EMPTY_KEY, ''(unset)'', bucket_of buckets GROUP_EMPTY_KEY)]))"

definition buildTagPrefixItems ::
  "('a \<Rightarrow> js props) \<Rightarrow> string props \<Rightarrow> string props \<Rightarrow> rat props \<Rightarrow> 'a list \<Rightarrow> string \<Rightarrow> 'a group_item list" where
  "buildTagPrefixItems attrs paths roots tagSort tasks prefix = emit_groups 0 (tag_groups attrs paths roots tagSort tasks prefix)"

definition tagPrefixCellMatches :: "string props \<Rightarrow> js \<Rightarrow> string \<Rightarrow> (int \<times> string) list" where
  "tagPrefixCellMatches paths tags prefix = (case tags of
     JArr ids \<Rightarrow> if prefix = '''' then [] else
       List.map_filter (\<lambda>v. case v of
         JBig i \<Rightarrow> (case Option.bind (map_of paths (int_text i)) (path_suffix prefix) of
           Some s \<Rightarrow> if s \<noteq> [] then Some (i, s) else None | None \<Rightarrow> None)
       | _ \<Rightarrow> None) ids
   | _ \<Rightarrow> [])"

section \<open>The chooser and the Grid agree\<close>

lemma rank_comparator: "js_comparator (\<lambda>a b. cmp_of (rank ks order (f a)) (rank ks order (f b)))"
  by (rule js_comparator_cmp_of)

lemma js_insert_map: "js_insert cmp (f x) (map f xs) = map f (js_insert (\<lambda>a b. cmp (f a) (f b)) x xs)"
  by (induction xs) auto

lemma js_sort_map: "js_sort cmp (map f xs) = map f (js_sort (\<lambda>a b. cmp (f a) (f b)) xs)"
  by (induction xs) (simp_all add: js_insert_map)

text \<open>The columns the Grid shows are the chooser's list, in its order, without the hidden ones.
\<close>

theorem chooser_shows_grid_order:
  "map co_key (computeColumns raw cfg) =
    filter (\<lambda>k. k \<notin> set (cc_hidden cfg)) (orderedKeys (map co_key raw) cfg)"
proof (cases "cc_order cfg = []")
  case True
  then show ?thesis by (simp add: computeColumns_def orderedKeys_def filter_map o_def)
next
  case False
  let ?r = "rank (map co_key raw) (cc_order cfg)"
  have "filter (\<lambda>k. k \<notin> set (cc_hidden cfg)) (orderedKeys (map co_key raw) cfg) =
      js_sort (\<lambda>a b. cmp_of (?r a) (?r b)) (map co_key (filter (\<lambda>c. co_key c \<notin> set (cc_hidden cfg)) raw))"
    using False js_comparator.filter_sort [OF js_comparator_cmp_of [of ?r]]
    by (simp add: orderedKeys_def filter_map o_def)
  with False show ?thesis by (simp add: computeColumns_def js_sort_map)
qed

lemma mset_orderedKeys [simp]: "mset (orderedKeys keys cfg) = mset keys"
  by (simp add: orderedKeys_def)

lemma orderedKeys_facts: "set (orderedKeys keys cfg) = set keys" "distinct (orderedKeys keys cfg) = distinct keys"
  "length (orderedKeys keys cfg) = length keys"
  by (simp_all add: orderedKeys_def)

lemma index_of_nth: "distinct xs \<Longrightarrow> i < length xs \<Longrightarrow> index_of (xs ! i) xs = i"
proof (induction xs arbitrary: i)
  case (Cons x xs)
  then show ?case by (cases i) (auto simp: index_of_def)
qed simp

lemma index_of_less: "x \<in> set xs \<Longrightarrow> index_of x xs < length xs \<and> xs ! index_of x xs = x"
  by (induction xs) (auto simp: index_of_def)

lemma ordered_by_order:
  assumes "mset order = mset keys" and "distinct keys" and "cc_order cfg = order"
  shows "orderedKeys keys cfg = order"
proof (cases "order = []")
  case True
  with assms show ?thesis by (simp add: orderedKeys_def)
next
  case False
  have d: "distinct order" using assms by (metis mset_eq_imp_distinct_iff)
  have "sorted_wrt (\<lambda>a b. cmp_of (rank keys order a) (rank keys order b) < 0) order"
    unfolding sorted_wrt_iff_nth_less by (simp add: rank_def index_of_nth [OF d])
  from js_comparator.sort_strict [OF js_comparator_cmp_of [of "rank keys order"] this assms(1)] False assms(3)
  show ?thesis by (simp add: orderedKeys_def)
qed

text \<open>Moving a column in the chooser swaps it with its neighbour and the chooser shows exactly that order
  from then on; at the edge nothing changes.
\<close>

theorem moved_column_stays:
  assumes "distinct raw" and "key \<in> set raw"
  shows "orderedKeys raw (moveColumn raw key up cfg) =
    (let ks = orderedKeys raw cfg; i = index_of key ks in
     if up then if i = 0 then ks else ks[i := ks ! (i - 1), i - 1 := key]
     else if Suc i = length raw then ks else ks[i := ks ! Suc i, Suc i := key])"
proof -
  define ks where "ks = orderedKeys raw cfg"
  define i where "i = index_of key ks"
  have i: "i < length raw" "ks ! i = key"
    using index_of_less [of key ks] assms(2) by (simp_all add: ks_def i_def orderedKeys_facts)
  have swap: "orderedKeys raw (cfg\<lparr>cc_order := ks[i := ks ! j, j := ks ! i]\<rparr>) = ks[i := ks ! j, j := ks ! i]"
    if "j < length raw" for j
  proof (rule ordered_by_order)
    have "mset (ks[i := ks ! j, j := ks ! i]) = mset ks"
      using that i(1) by (intro mset_swap) (simp_all add: ks_def orderedKeys_facts)
    then show "mset (ks[i := ks ! j, j := ks ! i]) = mset raw" by (simp add: ks_def)
  qed (simp_all add: assms(1))
  have e: "moveColumn raw key up cfg = (if (up \<and> i = 0) \<or> (\<not> up \<and> length raw \<le> Suc i) then cfg
      else cfg\<lparr>cc_order := ks[i := ks ! (if up then i - 1 else Suc i), (if up then i - 1 else Suc i) := ks ! i]\<rparr>)"
    using assms(2) by (simp add: moveColumn_def Let_def orderedKeys_facts i_def ks_def)
  show ?thesis
    using i swap [of "i - 1"] swap [of "Suc i"] unfolding e ks_def [symmetric] Let_def i_def [symmetric]
    by (auto simp: not_le ks_def [symmetric])
qed

theorem moved_column_stays_witness:
  "orderedKeys [''id'', ''title'', ''created''] (moveColumn [''id'', ''title'', ''created''] ''title'' True \<lparr>cc_hidden = [], cc_order = [], cc_widths = []\<rparr>) =
    [''title'', ''id'', ''created'']"
  using moved_column_stays [where raw = "[''id'', ''title'', ''created'']" and key = "''title''" and up = True and cfg = "\<lparr>cc_hidden = [], cc_order = [], cc_widths = []\<rparr>"]
  by (simp add: orderedKeys_def index_of_def)

section \<open>Tag groups\<close>

lemma mset_buckets:
  "distinct is \<Longrightarrow> (\<And>x. x \<in> set xs \<Longrightarrow> key x \<in> set is) \<Longrightarrow>
    mset (concat (map (\<lambda>i. filter (\<lambda>x. key x = i) xs) is)) = mset xs"
proof (induction xs)
  case Nil
  then show ?case by (induction "is") auto
next
  case (Cons x xs)
  have add: "mset (concat (map (\<lambda>i. filter (\<lambda>y. key y = i) (x # xs)) js)) =
      (if key x \<in> set js then {#x#} else {#}) + mset (concat (map (\<lambda>i. filter (\<lambda>y. key y = i) xs) js))"
    if "distinct js" for js
    using that by (induction js) auto
  with Cons show ?case by simp
qed

lemma bucket_of_filter: "bucket_of (group_into map_of map_put f xs []) k = filter (\<lambda>x. f x = k) xs"
  by (auto simp: bucket_of_def map_buckets.get_group Let_def)

fun rows_of_groups :: "(string \<times> string \<times> 'a list) list \<Rightarrow> 'a list" where
  "rows_of_groups [] = []"
| "rows_of_groups ((k, l, rows) # gs) = rows @ rows_of_groups gs"

lemma rows_of_groups_append [simp]: "rows_of_groups (xs @ ys) = rows_of_groups xs @ rows_of_groups ys"
  by (induction xs rule: rows_of_groups.induct) auto

lemma rows_of_groups_filter [simp]: "rows_of_groups (filter (\<lambda>(k, l, rows). rows \<noteq> []) gs) = rows_of_groups gs"
  by (induction gs rule: rows_of_groups.induct) auto

lemma rows_of_groups_map: "rows_of_groups (map (\<lambda>i. (i, l i, b i)) is) = concat (map b is)"
  by (induction "is") auto

lemma rows_in_emit: "rows_in (emit_groups i gs) = zip (rows_of_groups gs) [i ..< i + length (rows_of_groups gs)]"
proof (induction i gs rule: emit_groups.induct)
  case (2 i key lab rows gs)
  have "[i ..< i + (length rows + n)] = [i ..< i + length rows] @ [i + length rows ..< i + length rows + n]" for n
    by (metis add.assoc le_add1 upt_add_eq_append)
  with 2 show ?case by simp
qed simp

lemma headers_in_emit: "headers_in (emit_groups i gs) = map fst gs"
  by (induction i gs rule: emit_groups.induct) auto

lemma tag_key_root:
  "tag_key attrs roots prefix row = GROUP_EMPTY_KEY \<or> map_of roots (tag_key attrs roots prefix row) = Some prefix"
  by (auto simp: tag_key_def tagIdUnderRoot_def find_Some_iff split: js.split option.split)

text \<open>Grouped under a tag prefix, the Grid shows every task exactly once, numbered from zero in the order
  shown, and no group twice.
\<close>

theorem tag_groups_keep_every_task:
  assumes "distinct_keys roots" and "map_of roots GROUP_EMPTY_KEY = None"
  shows "mset (map fst (rows_in (buildTagPrefixItems attrs paths roots tagSort tasks prefix))) = mset tasks \<and>
    map snd (rows_in (buildTagPrefixItems attrs paths roots tagSort tasks prefix)) = [0 ..< length tasks] \<and>
    distinct (headers_in (buildTagPrefixItems attrs paths roots tagSort tasks prefix))"
proof -
  define ids where "ids = js_sort (compare_tag tagSort) (filter (\<lambda>i. map_of roots i = Some prefix) (map fst roots))"
  have ids: "distinct (ids @ [GROUP_EMPTY_KEY])"
    using assms map_of_SomeD [of roots GROUP_EMPTY_KEY prefix] by (auto simp: ids_def distinct_keys_def)
  have "tag_key attrs roots prefix x \<in> set (ids @ [GROUP_EMPTY_KEY])" for x
    using tag_key_root [of attrs roots prefix x] map_of_SomeD [of roots _ prefix] by (force simp: ids_def)
  then have rows: "mset (rows_of_groups (tag_groups attrs paths roots tagSort tasks prefix)) = mset tasks"
    using mset_buckets [OF ids, of tasks "tag_key attrs roots prefix"]
    unfolding tag_groups_def Let_def rows_of_groups_filter ids_def [symmetric]
    by (simp add: rows_of_groups_map bucket_of_filter)
  have "distinct (map fst (tag_groups attrs paths roots tagSort tasks prefix))"
    unfolding tag_groups_def Let_def ids_def [symmetric] using ids
    by (intro distinct_map_filter) (simp add: o_def)
  with rows show ?thesis
    by (auto simp: buildTagPrefixItems_def rows_in_emit headers_in_emit dest: mset_eq_length)
qed

theorem tag_groups_keep_every_task_witness:
  "mset (map fst (rows_in (buildTagPrefixItems (\<lambda>_. []) [] [(''5'', ''area'')] [] [1 :: nat, 2] ''area''))) = mset [1, 2] \<and>
    map snd (rows_in (buildTagPrefixItems (\<lambda>_. []) [] [(''5'', ''area'')] [] [1 :: nat, 2] ''area'')) = [0 ..< length [1 :: nat, 2]] \<and>
    distinct (headers_in (buildTagPrefixItems (\<lambda>_. []) [] [(''5'', ''area'')] [] [1 :: nat, 2] ''area''))"
  by (rule tag_groups_keep_every_task) (simp_all add: distinct_keys_def GROUP_EMPTY_KEY_def)

section \<open>Orders and column filters\<close>

text \<open>While the Grid is grouped by an attribute, the wire order starts with that attribute at the group's
  direction and names it nowhere else; the rest is the header's sort, or the screen's when there is none.
\<close>

theorem group_orders_first:
  assumes "group_field g = Some f"
  shows "\<exists>rest. applyOrder g dir headerSort screenSort = (f, if dir = SAsc then ''ASC'' else ''DESC'') # rest \<and>
    f \<notin> fst ` set rest \<and>
    rest = buildOrderClauses (filter (\<lambda>s. fst s \<noteq> f) (case headerSort of Some s \<Rightarrow> [s]
      | None \<Rightarrow> sortStatesFromFilter (sort_entries screenSort)))"
  using assms by (auto simp: applyOrder_def buildOrderClauses_def effectiveSort_def split: option.split)

theorem group_orders_first_witness:
  "\<exists>rest. applyOrder (Some \<lparr>attr = ''status'', lookup = None, tagPrefix = None\<rparr>) SDesc None JUndef =
      (''attributes.status'', if SDesc = SAsc then ''ASC'' else ''DESC'') # rest \<and>
    ''attributes.status'' \<notin> fst ` set rest \<and>
    rest = buildOrderClauses (filter (\<lambda>s. fst s \<noteq> ''attributes.status'') (case None of Some s \<Rightarrow> [s]
      | None \<Rightarrow> sortStatesFromFilter (sort_entries JUndef)))"
  by (rule group_orders_first) (simp add: group_field_def)

text \<open>Toggling a value of a column's filter adds it at the end when it is not selected and takes it out
  when it is, and leaves what every other column selects.
\<close>

theorem column_filter_toggles:
  assumes "flat_root p"
  shows "columnFilterValues (toggleColumnFilter a v p) a =
      (let cur = columnFilterValues p a in if v \<in> set cur then filter (\<lambda>x. x \<noteq> v) cur else cur @ [v]) \<and>
    (b \<noteq> a \<longrightarrow> columnFilterValues (toggleColumnFilter a v p) b = columnFilterValues p b)"
proof -
  define vs where "vs = (let cur = columnFilterValues p a in if v \<in> set cur then filter (\<lambda>x. x \<noteq> v) cur else cur @ [v])"
  define new where "new = (if vs = [] then None else Some (mk_leaf a (if length vs = 1 then Op_eq else Op_in) (Some (map JStr vs))))"
  have t: "toggleColumnFilter a v p = chip_store a new p"
    by (simp add: toggleColumnFilter_def new_def vs_def chip_store_def Let_def)
  have ok: "chip_valid a new" by (simp add: chip_valid_def new_def mk_leaf_def)
  have own: "topLevelLeafForAttr (chip_store a new p) a = new"
    unfolding topLevelLeafForAttr_members first_value_leaf_filter chip_slot.owned_store [OF ok assms]
    by (simp add: chip_content_def new_def)
  have "columnFilterValues (toggleColumnFilter a v p) a = vs"
    unfolding columnFilterValues_def t own by (simp add: new_def mk_leaf_def leaf_vals_def o_def)
  moreover have "columnFilterValues (toggleColumnFilter a v p) b = columnFilterValues p b" if "b \<noteq> a"
  proof -
    have "filter (value_leaf_of b) (members (chip_store a new p)) =
        filter (value_leaf_of b) (filter (\<lambda>m. \<not> value_leaf_of a m) (members p))"
      unfolding chip_slot.members_store [OF ok assms]
      using that by (simp add: chip_content_def new_def value_leaf_of_def mk_leaf_def)
    also have "\<dots> = filter (value_leaf_of b) (members p)"
      using that by (auto simp: filter_filter value_leaf_of_def split: predicate.splits intro!: filter_cong)
    finally have "filter (value_leaf_of b) (members (chip_store a new p)) = filter (value_leaf_of b) (members p)" .
    then show ?thesis unfolding columnFilterValues_def t topLevelLeafForAttr_members first_value_leaf_filter by simp
  qed
  ultimately show ?thesis by (simp add: vs_def)
qed

theorem column_filter_toggles_witness:
  "columnFilterValues (toggleColumnFilter ''status'' ''5'' None) ''status'' =
      (let cur = columnFilterValues None ''status'' in if ''5'' \<in> set cur then filter (\<lambda>x. x \<noteq> ''5'') cur else cur @ [''5'']) \<and>
    (''title'' \<noteq> ''status'' \<longrightarrow> columnFilterValues (toggleColumnFilter ''status'' ''5'' None) ''title'' = columnFilterValues None ''title'')"
  by (rule column_filter_toggles) (simp add: flat_root_def members_def rootView_def)

section \<open>The keys of the columns\<close>

lemma ref_col_key: "ref_col ax = Return c \<Longrightarrow> co_key c = ax_attr ax \<and> co_attrName c = Some (ax_attr ax)"
  by (auto simp: ref_col_def plain_col_def outcome_simps)

lemma extra_col_key [simp]: "co_key (extra_col schema n) = n"
  by (simp add: extra_col_def plain_col_def Let_def split: option.split)

lemma extra_loop_keys: "map co_key (extra_loop schema ns shown) = dedup_acc shown ns"
  by (induction schema ns shown rule: extra_loop.induct) auto

definition base_keys :: "string list" where
  "base_keys = [''id'', ''title'', ''created'', ''last_activity'']"

definition is_tag_key :: "string \<Rightarrow> bool" where
  "is_tag_key k \<longleftrightarrow> js_starts ''tag:'' k"

lemma distinct_framed:
  "bs = xs @ ys \<Longrightarrow> distinct bs \<Longrightarrow> distinct A \<Longrightarrow> distinct T \<Longrightarrow> distinct E \<Longrightarrow> set A \<inter> set T = {} \<Longrightarrow>
   set E \<inter> set T = {} \<Longrightarrow> set A \<inter> set E = {} \<Longrightarrow> set bs \<inter> (set A \<union> set T \<union> set E) = {} \<Longrightarrow> distinct (xs @ A @ T @ E @ ys)"
  by auto

text \<open>When the axes are distinct and neither an axis nor an extra column is named like a fixed or a tag
  column, every column of the Grid has a key of its own.
\<close>

theorem column_keys_distinct:
  assumes "buildGridColumns refAxes schema extra prefixes = Return cols"
    and "distinct (map ax_attr refAxes)" and "distinct prefixes"
    and "\<forall>n \<in> set extra \<union> ax_attr ` set refAxes. n \<notin> set base_keys \<and> \<not> is_tag_key n"
  shows "distinct (map co_key cols)"
proof -
  obtain refs where refs: "otraverse ref_col (filter (\<lambda>ax. \<not> ax_multi ax) refAxes) = Return refs"
    using assms(1) by (auto simp: buildGridColumns_def outcome_simps Let_def)
  let ?axes = "map ax_attr (filter (\<lambda>ax. \<not> ax_multi ax) refAxes)"
  have l: "list_all2 (\<lambda>ax c. ref_col ax = Return c) (filter (\<lambda>ax. \<not> ax_multi ax) refAxes) refs"
    using refs by (simp add: outcome_simps)
  then have keys: "map co_key refs = ?axes" "List.map_filter co_attrName refs = ?axes"
    by (induction rule: list_all2_induct) (auto simp: map_filter_simps dest!: ref_col_key)
  define cols0 where "cols0 = [plain_col CId ''id'' ''ID'' None None, plain_col CTitle ''title'' ''Title'' (Some ''attributes.title'') None] @
    refs @ map prefix_col prefixes"
  have "List.map_filter co_attrName (map prefix_col prefixes) = []"
    by (induction prefixes) (simp_all add: map_filter_simps prefix_col_def plain_col_def)
  then have shown: "List.map_filter co_attrName cols0 = ?axes"
    using keys(2) by (simp add: cols0_def map_filter_def plain_col_def)
  have cols: "map co_key cols = [''id'', ''title''] @ ?axes @ map (\<lambda>p. ''tag:'' @ p) prefixes @
      dedup_acc (dedup ?axes) extra @ [''created'', ''last_activity'']"
    using assms(1) refs shown keys(1)
    by (auto simp: buildGridColumns_def outcome_simps Let_def extra_loop_keys cols0_def plain_col_def prefix_col_def o_def)
  define T where "T = map (\<lambda>p. ''tag:'' @ p) prefixes"
  define E where "E = dedup_acc (dedup ?axes) extra"
  define A where "A = ?axes"
  have d: "distinct A" "distinct T" "distinct E"
    using assms(2,3) by (simp_all add: A_def T_def E_def distinct_map_filter distinct_map inj_on_def distinct_dedup_acc)
  have E: "set E = set extra - set A" by (simp add: E_def A_def set_dedup_acc)
  have "\<forall>k \<in> set T. is_tag_key k" by (auto simp: T_def is_tag_key_def js_starts_def)
  moreover have "\<forall>k \<in> set base_keys. \<not> is_tag_key k" by (simp add: is_tag_key_def js_starts_def base_keys_def)
  moreover have "\<forall>n \<in> set A \<union> set E. n \<notin> set base_keys \<and> \<not> is_tag_key n" using assms(4) E by (auto simp: A_def)
  ultimately have apart: "set A \<inter> set T = {}" "set E \<inter> set T = {}" "set base_keys \<inter> (set A \<union> set T \<union> set E) = {}"
    by blast+
  have "set A \<inter> set E = {}" using E by blast
  then have "distinct ([''id'', ''title''] @ A @ T @ E @ [''created'', ''last_activity''])"
    by (intro distinct_framed [OF _ _ d apart(1,2) _ apart(3)]) (simp_all add: base_keys_def)
  then show ?thesis
    unfolding cols unfolding E_def [symmetric] unfolding T_def [symmetric] A_def [symmetric] .
qed

theorem column_keys_distinct_witness:
  "distinct (map co_key (case buildGridColumns
      [\<lparr>ax_attr = ''status'', ax_label = ''Status'', ax_target = ''status'', ax_multi = False\<rparr>] [] [''due_date''] [''area''] of
    Return cols \<Rightarrow> cols))"
proof (rule column_keys_distinct)
  show "buildGridColumns [\<lparr>ax_attr = ''status'', ax_label = ''Status'', ax_target = ''status'', ax_multi = False\<rparr>] [] [''due_date''] [''area''] =
    Return (case buildGridColumns [\<lparr>ax_attr = ''status'', ax_label = ''Status'', ax_target = ''status'', ax_multi = False\<rparr>]
      [] [''due_date''] [''area''] of Return cols \<Rightarrow> cols)"
    by (simp add: buildGridColumns_def ref_col_def lookupNameForCardType_def CARD_TYPE_TO_LOOKUP_def Let_def)
qed (simp_all add: base_keys_def is_tag_key_def js_starts_def)

text \<open>
  An extra column named \<open>title\<close> is not recognised as shown, since the title column has no attribute
  name: the Grid then has two columns with one key.
\<close>

lemma extra_title_is_shown_twice:
  "obind (buildGridColumns [] [] [''title''] []) (\<lambda>cols. Return (map co_key cols)) =
    Return [''id'', ''title'', ''title'', ''created'', ''last_activity'']"
  by (simp add: buildGridColumns_def plain_col_def map_filter_def dedup_def Let_def)

section \<open>The bulk calls\<close>

record task_move_input =
  mv_cardId :: int
  mv_newProjectId :: int
  mv_newStatusId :: "int option"
  mv_newMilestoneId :: "int option"
  mv_newComponentId :: "int option"
  mv_newTagIds :: "int list option"
  mv_subtaskStrategy :: "string option"

record task_move_output =
  mo_movedCardIds :: "int list"
  mo_brokenChildIds :: "int list"
  mo_resolvedStatusId :: int

record task_purge_output =
  po_ok :: bool
  po_purgedCardIds :: "int list"
  po_purgedReplyBodyIds :: "int list"

definition id_elem :: "js \<Rightarrow> int option" where
  "id_elem x = (case x of
     JBig i \<Rightarrow> Some i
   | JNum (Fin r) \<Rightarrow> if is_int_rat r then Some \<lfloor>r\<rfloor> else None
   | JStr s \<Rightarrow> if is_int_text s then Some (int_of_text s) else None
   | _ \<Rightarrow> None)"

definition asIdArray :: "js \<Rightarrow> int list" where
  "asIdArray v = (case v of JArr xs \<Rightarrow> List.map_filter id_elem xs | _ \<Rightarrow> [])"

definition put_id :: "string \<Rightarrow> int option \<Rightarrow> js props" where
  "put_id k v = (case v of Some i \<Rightarrow> if i \<noteq> 0 then [(k, JBig i)] else [] | None \<Rightarrow> [])"

definition encode_task_move :: "task_move_input \<Rightarrow> js props" where
  "encode_task_move i =
     [(''card_id'', JBig (mv_cardId i)), (''new_project_id'', JBig (mv_newProjectId i))] @
     put_id ''new_status_id'' (mv_newStatusId i) @ put_id ''new_milestone_id'' (mv_newMilestoneId i) @
     put_id ''new_component_id'' (mv_newComponentId i) @
     (case mv_newTagIds i of Some ts \<Rightarrow> if ts \<noteq> [] then [(''new_tag_ids'', JArr (map JBig ts))] else [] | None \<Rightarrow> []) @
     (case mv_subtaskStrategy i of Some s \<Rightarrow> [(''subtask_strategy'', JStr s)] | None \<Rightarrow> [])"

definition decode_task_move :: "js \<Rightarrow> task_move_output" where
  "decode_task_move raw = (let j = asObj raw in
     \<lparr>mo_movedCardIds = asIdArray (prop_get j ''moved_card_ids''),
      mo_brokenChildIds = asIdArray (prop_get j ''broken_child_ids''),
      mo_resolvedStatusId = asId (prop_get j ''resolved_status_id'')\<rparr>)"

definition decode_task_purge :: "js \<Rightarrow> task_purge_output" where
  "decode_task_purge raw = (let j = asObj raw in
     \<lparr>po_ok = asFlag (prop_get j ''ok''), po_purgedCardIds = asIdArray (prop_get j ''purged_card_ids''),
      po_purgedReplyBodyIds = asIdArray (prop_get j ''purged_reply_body_ids'')\<rparr>)"

end
