(* ===== verification/Upload.thy ===== *)
theory Upload
  imports Dispatch
begin

text \<open>
  The chunked upload of a file, \<^verbatim>\<open>task-detail/upload.ts\<close>: slicing, the question which chunks the
  server lacks, the pool of workers that posts those, and the two calls that make the file and bind it
  to a card. A file is the list of its bytes, \<open>sha\<close> is the digest of the Web Crypto API, a parameter. The
  awaits of the service are events; a call or a post it makes and a callback it runs is an output. An
  answer of the dispatcher to a control that is gone is dropped by the dispatcher.

  Main results: the slices are the file; every missing chunk is posted once, at most four at a time; the
  file is created only after the server has confirmed every missing chunk, and the caller hears of one end.
\<close>

section \<open>Slices\<close>

definition FALLBACK_CHUNK_BYTES :: nat where
  "FALLBACK_CHUNK_BYTES = 1 * 1024 * 1024"

definition CONCURRENCY :: nat where
  "CONCURRENCY = 4"

definition chunk_bytes :: "nat option \<Rightarrow> nat" where
  "chunk_bytes c = (case c of Some n \<Rightarrow> if n > 0 then n else FALLBACK_CHUNK_BYTES | None \<Rightarrow> FALLBACK_CHUNK_BYTES)"

function slice_loop :: "nat \<Rightarrow> 'b list \<Rightarrow> 'b list list" where
  "slice_loop n bs = (if bs = [] \<or> n = 0 then [] else take n bs # slice_loop n (drop n bs))"
  by pat_completeness auto
termination
  by (relation "measure (length \<circ> snd)") auto

declare slice_loop.simps [simp del]

definition slices :: "nat \<Rightarrow> 'b list \<Rightarrow> 'b list list" where
  "slices n bs = (let bl = slice_loop n bs in if bl = [] then [[]] else bl)"

section \<open>URLs and messages\<close>

text \<open>\<open>encodeURIComponent\<close> leaves the digits of an id.\<close>

definition attachment_url :: "int \<Rightarrow> string \<Rightarrow> string" where
  "attachment_url i leaf = ''/api/v1/attachment/'' @ int_text i @ ''/'' @ leaf"

definition downloadUrl :: "int \<Rightarrow> string" where "downloadUrl i = attachment_url i ''download''"
definition viewUrl :: "int \<Rightarrow> string" where "viewUrl i = attachment_url i ''view''"
definition thumbUrl :: "int \<Rightarrow> string" where "thumbUrl i = attachment_url i ''thumb''"

definition describeFault :: "api_fault \<Rightarrow> string" where
  "describeFault f = (case f of
     Sub_error c m d \<Rightarrow> c @ '': '' @ m
   | Http s \<Rightarrow> ''http '' @ int_text s
   | Network m \<Rightarrow> ''network: '' @ m
   | Decode m \<Rightarrow> ''decode: '' @ m
   | Aborted r \<Rightarrow> ''aborted: '' @ r)"

section \<open>State\<close>

datatype up_phase = Hashing | Uploading | Saving_phase

datatype up_out =
    Progress nat nat up_phase
  | Ask_missing "string list"
  | Post nat
  | Create_file "(string \<times> nat) list"
  | Bind_file int int
  | Done int
  | Failed string

datatype up_stage = Preflight | Pool | Saving | Binding | Finished | Stopped

record upload =
  sizes :: "nat list"
  addresses :: "string list"
  card :: "int option"
  stage :: up_stage
  missingIdx :: "nat list"
  cursor :: nat
  running :: nat
  posting :: "nat list"
  completed :: "nat list"
  up_alive :: bool
  outs :: "up_out list"

definition out :: "up_out \<Rightarrow> upload \<Rightarrow> upload" where
  "out x u = u\<lparr>outs := outs u @ [x]\<rparr>"

definition report :: "up_out \<Rightarrow> upload \<Rightarrow> upload" where
  "report x u = (if up_alive u then out x u else u)"

section \<open>Steps\<close>

text \<open>The card is absent for \<open>prepareFile\<close>.\<close>

definition start_upload :: "('b list \<Rightarrow> string) \<Rightarrow> nat option \<Rightarrow> int option \<Rightarrow> 'b list \<Rightarrow> upload" where
  "start_upload sha chunk c bs =
     (let bl = slices (chunk_bytes chunk) bs; addrs = map sha bl
      in \<lparr>sizes = map length bl, addresses = addrs, card = c, stage = Preflight, missingIdx = [], cursor = 0, running = 0,
          posting = [], completed = replicate (length bl) 0, up_alive = True,
          outs = [Progress 0 (length bs) Hashing, Ask_missing (dedup addrs)]\<rparr>)"

definition total :: "upload \<Rightarrow> nat" where
  "total u = sum_list (sizes u)"

text \<open>A worker takes the next missing chunk, or ends.\<close>

definition claim :: "upload \<Rightarrow> upload" where
  "claim u = (if cursor u < length (missingIdx u)
     then let i = missingIdx u ! cursor u in out (Post i) (u\<lparr>cursor := Suc (cursor u), posting := posting u @ [i]\<rparr>)
     else u\<lparr>cursor := Suc (cursor u), running := running u - 1\<rparr>)"

text \<open>\<open>Promise.all\<close> goes on once every worker ended.\<close>

definition finish_pool :: "upload \<Rightarrow> upload" where
  "finish_pool u = (if stage u = Pool \<and> running u = 0
     then out (Create_file (zip (addresses u) (sizes u)))
       ((report (Progress (total u) (total u) Saving_phase) u)\<lparr>stage := Saving\<rparr>)
     else u)"

text \<open>The first failure ends the pipeline; the other workers of the pool go on by themselves.\<close>

definition stop_with :: "string \<Rightarrow> upload \<Rightarrow> upload" where
  "stop_with e u = (if stage u = Stopped then u else (report (Failed e) u)\<lparr>stage := Stopped\<rparr>)"

definition on_missing :: "string list \<Rightarrow> upload \<Rightarrow> upload" where
  "on_missing ms u =
     (let idx = filter (\<lambda>i. addresses u ! i \<in> set ms) [0 ..< length (addresses u)];
          dn = map (\<lambda>i. if addresses u ! i \<in> set ms then completed u ! i else sizes u ! i) [0 ..< length (addresses u)];
          n = min CONCURRENCY (max 1 (length idx));
          u1 = report (Progress (sum_list dn) (total u) Uploading) (u\<lparr>completed := dn\<rparr>)
      in finish_pool ((claim ^^ n) (u1\<lparr>missingIdx := idx, running := n, stage := Pool\<rparr>)))"

definition on_posted :: "nat \<Rightarrow> string \<Rightarrow> nat \<Rightarrow> upload \<Rightarrow> upload" where
  "on_posted i addr n u =
     (let u1 = u\<lparr>posting := removeAll i (posting u)\<rparr> in
      if addr \<noteq> addresses u ! i
      then stop_with (''address mismatch on chunk '' @ nat_text i @ '': client='' @ addresses u ! i @ '', server='' @ addr)
             (u1\<lparr>running := running u - 1\<rparr>)
      else let dn = map (\<lambda>j. if j = i then n else if addresses u ! j = addr then sizes u ! j else completed u ! j)
                  [0 ..< length (addresses u)]
           in finish_pool (claim (report (Progress (sum_list dn) (total u) Uploading) (u1\<lparr>completed := dn\<rparr>))))"

definition on_created :: "int \<Rightarrow> upload \<Rightarrow> upload" where
  "on_created f u = (case card u of
     Some c \<Rightarrow> out (Bind_file c f) (u\<lparr>stage := Binding\<rparr>)
   | None \<Rightarrow> report (Done f) (u\<lparr>stage := Finished\<rparr>))"

datatype up_event =
    Missing_answer "string list"
  | Posted nat string nat
  | Post_failed nat string
  | File_created int
  | Attached int
  | Call_fault string api_fault
  | Torn_down

text \<open>An event that nothing waits for is none of the service's.\<close>

fun up_step :: "up_event \<Rightarrow> upload \<Rightarrow> upload" where
  "up_step (Missing_answer ms) u = (if stage u = Preflight \<and> up_alive u then on_missing ms u else u)"
| "up_step (Posted i addr n) u = (if i \<in> set (posting u) then on_posted i addr n u else u)"
| "up_step (Post_failed i e) u =
     (if i \<in> set (posting u) then stop_with e (u\<lparr>posting := removeAll i (posting u), running := running u - 1\<rparr>) else u)"
| "up_step (File_created f) u = (if stage u = Saving \<and> up_alive u then on_created f u else u)"
| "up_step (Attached a) u = (if stage u = Binding \<and> up_alive u then report (Done a) (u\<lparr>stage := Finished\<rparr>) else u)"
| "up_step (Call_fault spec f) u =
     (if stage u \<in> {Preflight, Saving, Binding} \<and> up_alive u then stop_with (spec @ '': '' @ describeFault f) u else u)"
| "up_step Torn_down u = u\<lparr>up_alive := False\<rparr>"

definition upload_run :: "up_event list \<Rightarrow> upload \<Rightarrow> upload" where
  "upload_run es u = fold up_step es u"

section \<open>The slices\<close>

lemma slice_loop_facts:
  "0 < n \<Longrightarrow> concat (slice_loop n bs) = bs \<and> (\<forall>b \<in> set (slice_loop n bs). b \<noteq> [] \<and> length b \<le> n)"
proof (induction n bs rule: slice_loop.induct)
  case (1 n bs)
  then show ?case by (subst (1 2) slice_loop.simps) auto
qed

lemma chunk_bytes_pos: "0 < chunk_bytes c"
  by (auto simp: chunk_bytes_def FALLBACK_CHUNK_BYTES_def split: option.split)

text \<open>The slices put together are the file; there is at least one, none is longer than the chunk size, and
  none is empty unless the file is.
\<close>

theorem slices_are_the_file:
  "concat (slices (chunk_bytes c) bs) = bs \<and> slices (chunk_bytes c) bs \<noteq> [] \<and>
    list_all (\<lambda>b. length b \<le> chunk_bytes c \<and> ((b = []) = (bs = []))) (slices (chunk_bytes c) bs)"
proof (cases "slice_loop (chunk_bytes c) bs = []")
  case True
  moreover have "bs = []" using slice_loop_facts [OF chunk_bytes_pos, of c bs] True by simp
  ultimately show ?thesis by (simp add: slices_def)
next
  case False
  moreover have "bs \<noteq> []" using False by (metis slice_loop.simps)
  ultimately show ?thesis
    using slice_loop_facts [OF chunk_bytes_pos, of c bs] by (auto simp: slices_def list_all_iff Let_def)
qed

section \<open>The pool\<close>

definition posts :: "up_out list \<Rightarrow> nat list" where
  "posts xs = List.map_filter (\<lambda>x. case x of Post i \<Rightarrow> Some i | _ \<Rightarrow> None) xs"

definition creates :: "up_out list \<Rightarrow> bool" where
  "creates xs \<longleftrightarrow> (\<exists>cs. Create_file cs \<in> set xs)"

definition ends :: "up_out list \<Rightarrow> nat" where
  "ends xs = length (filter (\<lambda>x. case x of Done a \<Rightarrow> True | Failed e \<Rightarrow> True | _ \<Rightarrow> False) xs)"

text \<open>The server confirmed the chunk under the address the client computed.\<close>

definition confirmed :: "up_event list \<Rightarrow> upload \<Rightarrow> nat \<Rightarrow> bool" where
  "confirmed es u i \<longleftrightarrow> (\<exists>n. Posted i (addresses u ! i) n \<in> set es)"

text \<open>The pool while \<open>k\<close> of its workers are about to claim.\<close>

definition pool_ok :: "nat \<Rightarrow> up_event list \<Rightarrow> upload \<Rightarrow> bool" where
  "pool_ok k es u \<longleftrightarrow>
     posts (outs u) = take (cursor u) (missingIdx u) \<and> running u = length (posting u) + k \<and> running u \<le> CONCURRENCY \<and>
     distinct (missingIdx u) \<and> set (missingIdx u) \<subseteq> {..< length (addresses u)} \<and> distinct (posting u) \<and>
     set (posting u) \<subseteq> set (take (cursor u) (missingIdx u)) \<and>
     (stage u = Pool \<and> running u = 0 \<longrightarrow> length (missingIdx u) \<le> cursor u) \<and>
     (stage u \<noteq> Stopped \<longrightarrow> (\<forall>i \<in> set (take (cursor u) (missingIdx u)). i \<in> set (posting u) \<or> confirmed es u i))"

lemma posts_append [simp]: "posts (xs @ ys) = posts xs @ posts ys"
  by (induction xs) (auto simp: posts_def map_filter_simps split: option.split)

lemma posts_simps [simp]:
  "posts [] = []" "posts (Post i # xs) = i # posts xs" "posts (Progress a b p # xs) = posts xs" "posts (Ask_missing as # xs) = posts xs"
  "posts (Create_file cs # xs) = posts xs" "posts (Bind_file c f # xs) = posts xs" "posts (Done d # xs) = posts xs" "posts (Failed e # xs) = posts xs"
  by (simp_all add: posts_def map_filter_simps)

lemma creates_simps [simp]:
  "creates [] = False" "creates (xs @ ys) \<longleftrightarrow> creates xs \<or> creates ys" "creates (Create_file cs # xs)" "creates (Post i # xs) = creates xs"
  "creates (Progress a b p # xs) = creates xs" "creates (Ask_missing as # xs) = creates xs" "creates (Bind_file c f # xs) = creates xs"
  "creates (Done d # xs) = creates xs" "creates (Failed e # xs) = creates xs"
  by (auto simp: creates_def)

lemma ends_simps [simp]:
  "ends [] = 0" "ends (xs @ ys) = ends xs + ends ys" "ends (Create_file cs # xs) = ends xs" "ends (Post i # xs) = ends xs"
  "ends (Progress a b p # xs) = ends xs" "ends (Ask_missing as # xs) = ends xs" "ends (Bind_file c f # xs) = ends xs"
  "ends (Done d # xs) = Suc (ends xs)" "ends (Failed e # xs) = Suc (ends xs)"
  by (simp_all add: ends_def)

lemma out_fields [simp]:
  "sizes (out x u) = sizes u" "addresses (out x u) = addresses u" "card (out x u) = card u" "stage (out x u) = stage u"
  "missingIdx (out x u) = missingIdx u" "cursor (out x u) = cursor u" "running (out x u) = running u" "posting (out x u) = posting u"
  "completed (out x u) = completed u" "up_alive (out x u) = up_alive u" "outs (out x u) = outs u @ [x]"
  by (simp_all add: out_def)

lemma report_fields [simp]:
  "sizes (report x u) = sizes u" "addresses (report x u) = addresses u" "card (report x u) = card u" "stage (report x u) = stage u"
  "missingIdx (report x u) = missingIdx u" "cursor (report x u) = cursor u" "running (report x u) = running u" "posting (report x u) = posting u"
  "completed (report x u) = completed u" "up_alive (report x u) = up_alive u" "outs (report x u) = outs u @ (if up_alive u then [x] else [])"
  by (simp_all add: report_def)

lemma claim_fields [simp]:
  "sizes (claim u) = sizes u" "addresses (claim u) = addresses u" "card (claim u) = card u" "stage (claim u) = stage u"
  "missingIdx (claim u) = missingIdx u" "cursor (claim u) = Suc (cursor u)" "up_alive (claim u) = up_alive u"
  "creates (outs (claim u)) = creates (outs u)" "ends (outs (claim u)) = ends (outs u)"
  by (simp_all add: claim_def Let_def)

lemma claim_pool: "pool_ok (Suc k) es u \<Longrightarrow> pool_ok k es (claim u)"
proof (cases "cursor u < length (missingIdx u)")
  case True
  assume p: "pool_ok (Suc k) es u"
  have t: "take (Suc (cursor u)) (missingIdx u) = take (cursor u) (missingIdx u) @ [missingIdx u ! cursor u]"
    by (rule take_Suc_conv_app_nth [OF True])
  moreover have "missingIdx u ! cursor u \<notin> set (take (cursor u) (missingIdx u))"
    using p True by (auto simp: pool_ok_def in_set_conv_nth nth_eq_iff_index_eq)
  ultimately show ?thesis using p True by (auto simp: pool_ok_def claim_def Let_def confirmed_def)
next
  case False
  then show "pool_ok (Suc k) es u \<Longrightarrow> ?thesis" by (auto simp: pool_ok_def claim_def confirmed_def)
qed

lemma claims_pool: "pool_ok (n + k) es u \<Longrightarrow> pool_ok k es ((claim ^^ n) u)"
  by (induction n arbitrary: k) (auto intro: claim_pool simp: add_Suc_right [symmetric] simp del: add_Suc_right)

lemma claims_fields [simp]:
  "sizes ((claim ^^ n) u) = sizes u" "addresses ((claim ^^ n) u) = addresses u" "stage ((claim ^^ n) u) = stage u"
  "missingIdx ((claim ^^ n) u) = missingIdx u" "creates (outs ((claim ^^ n) u)) = creates (outs u)"
  "ends (outs ((claim ^^ n) u)) = ends (outs u)"
  by (induction n) simp_all

text \<open>What holds of every upload after the events \<open>es\<close>.\<close>

definition up_ok :: "up_event list \<Rightarrow> upload \<Rightarrow> bool" where
  "up_ok es u \<longleftrightarrow> pool_ok 0 es u \<and>
     (stage u = Preflight \<longrightarrow> missingIdx u = [] \<and> cursor u = 0 \<and> posting u = []) \<and>
     (stage u \<in> {Saving, Binding, Finished} \<longrightarrow> posting u = [] \<and> length (missingIdx u) \<le> cursor u) \<and>
     (stage u \<in> {Preflight, Pool} \<longrightarrow> \<not> creates (outs u)) \<and>
     (creates (outs u) \<longrightarrow> (\<forall>i \<in> set (missingIdx u). confirmed es u i) \<and> posting u = []) \<and>
     ends (outs u) \<le> (if stage u \<in> {Finished, Stopped} then 1 else 0)"

lemma up_start: "up_ok [] (start_upload sha chunk c bs)"
  by (simp add: up_ok_def pool_ok_def start_upload_def Let_def)

lemma confirmed_more: "confirmed es u i \<Longrightarrow> confirmed (es @ fs) u i"
  by (auto simp: confirmed_def)

lemma pool_more: "pool_ok k es u \<Longrightarrow> pool_ok k (es @ fs) u"
  by (auto simp: pool_ok_def confirmed_def)

lemma up_more: "up_ok es u \<Longrightarrow> up_ok (es @ fs) u"
  by (auto simp: up_ok_def confirmed_def dest: pool_more)

lemma finish_ok:
  assumes p: "pool_ok 0 es u" and s: "stage u \<in> {Pool, Stopped}" and c: "creates (outs u) \<longrightarrow> stage u = Stopped \<and> (\<forall>i \<in> set (missingIdx u). confirmed es u i) \<and> posting u = []"
    and e: "ends (outs u) \<le> (if stage u = Stopped then 1 else 0)"
  shows "up_ok es (finish_pool u)"
proof (cases "stage u = Pool \<and> running u = 0")
  case True
  with p have d: "posting u = []" "length (missingIdx u) \<le> cursor u" by (auto simp: pool_ok_def)
  with p True have "\<forall>i \<in> set (missingIdx u). confirmed es u i" by (simp add: pool_ok_def)
  then show ?thesis using p True d e c by (simp add: up_ok_def pool_ok_def finish_pool_def confirmed_def)
next
  case False
  then have "finish_pool u = u" by (simp add: finish_pool_def)
  with p s c e show ?thesis by (auto simp: up_ok_def)
qed

lemma stop_ok:
  assumes p: "pool_ok 0 es (u\<lparr>stage := Stopped\<rparr>)" and c: "creates (outs u) \<longrightarrow> (\<forall>i \<in> set (missingIdx u). confirmed es u i) \<and> posting u = []"
    and e: "ends (outs u) \<le> (if stage u = Stopped then 1 else 0)"
  shows "up_ok es (stop_with m u)"
proof (cases "stage u = Stopped")
  case True
  then have "stop_with m u = u" "u\<lparr>stage := Stopped\<rparr> = u" by (simp_all add: stop_with_def)
  with assms True show ?thesis by (simp add: up_ok_def)
next
  case False
  with assms show ?thesis by (simp add: stop_with_def up_ok_def pool_ok_def confirmed_def)
qed

lemma on_missing_ok:
  assumes u: "up_ok es u" and s: "stage u = Preflight"
  shows "up_ok es (on_missing ms u)"
proof -
  define idx where "idx = filter (\<lambda>i. addresses u ! i \<in> set ms) [0 ..< length (addresses u)]"
  define n where "n = min CONCURRENCY (max 1 (length idx))"
  have n: "0 < n" "n \<le> CONCURRENCY" by (simp_all add: n_def CONCURRENCY_def)
  define dn where "dn = map (\<lambda>i. if addresses u ! i \<in> set ms then completed u ! i else sizes u ! i) [0 ..< length (addresses u)]"
  define v where "v = report (Progress (sum_list dn) (total u) Uploading) (u\<lparr>completed := dn\<rparr>)"
  have v: "on_missing ms u = finish_pool ((claim ^^ n) (v\<lparr>missingIdx := idx, running := n, stage := Pool\<rparr>))"
    by (simp only: on_missing_def idx_def n_def dn_def v_def Let_def)
  have f: "addresses v = addresses u" "posts (outs v) = posts (outs u)" "creates (outs v) = creates (outs u)" "ends (outs v) = ends (outs u)"
      "cursor v = cursor u" "posting v = posting u"
    by (simp_all add: v_def)
  let ?w = "v\<lparr>missingIdx := idx, running := n, stage := Pool\<rparr>"
  have "pool_ok (n + 0) es ?w" using u s n by (auto simp: up_ok_def pool_ok_def f idx_def)
  then have "pool_ok 0 es ((claim ^^ n) ?w)" by (rule claims_pool)
  then show ?thesis unfolding v using u s by (intro finish_ok) (simp_all add: up_ok_def f)
qed

lemma on_posted_ok:
  assumes u: "up_ok es u" and i: "i \<in> set (posting u)"
  shows "up_ok (es @ [Posted i addr n]) (on_posted i addr n u)"
proof -
  have s: "stage u \<in> {Pool, Stopped}" and c: "\<not> creates (outs u)" using u i by (cases "stage u"; auto simp: up_ok_def)+
  have p: "pool_ok 0 es u" and e: "ends (outs u) \<le> (if stage u = Stopped then 1 else 0)" using u s by (auto simp: up_ok_def)
  from i p have len: "0 < length (posting u)" "length (removeAll i (posting u)) = length (posting u) - 1"
    by (auto simp: pool_ok_def distinct_remove1_removeAll [symmetric] length_remove1)
  show ?thesis
  proof (cases "addr = addresses u ! i")
    case True
    define dn where "dn = map (\<lambda>j. if j = i then n else if addresses u ! j = addr then sizes u ! j else completed u ! j)
      [0 ..< length (addresses u)]"
    define v where "v = report (Progress (sum_list dn) (total u) Uploading) (u\<lparr>posting := removeAll i (posting u), completed := dn\<rparr>)"
    have v: "on_posted i addr n u = finish_pool (claim v)" 
    proof -
      have "(addr \<noteq> addresses u ! i) = False" using True by simp
      then show ?thesis by (simp only: on_posted_def Let_def v_def dn_def if_False)
    qed
    have f: "addresses v = addresses u" "posts (outs v) = posts (outs u)" "creates (outs v) = creates (outs u)" "ends (outs v) = ends (outs u)"
        "cursor v = cursor u" "posting v = removeAll i (posting u)" "missingIdx v = missingIdx u" "running v = running u" "stage v = stage u"
      by (simp_all add: v_def)
    have "pool_ok (Suc 0) (es @ [Posted i addr n]) v"
      using p len True i by (auto simp: pool_ok_def f confirmed_def distinct_removeAll)
    then have "pool_ok 0 (es @ [Posted i addr n]) (claim v)" by (rule claim_pool)
    then show ?thesis unfolding v using s c e by (intro finish_ok) (simp_all add: f)
  next
    case False
    have "pool_ok 0 (es @ [Posted i addr n]) (u\<lparr>posting := removeAll i (posting u), running := running u - 1, stage := Stopped\<rparr>)"
      using p len by (auto simp: pool_ok_def distinct_removeAll)
    then show ?thesis using False c e by (simp add: on_posted_def Let_def) (rule stop_ok; simp)
  qed
qed

lemma on_failed_ok:
  assumes u: "up_ok es u" and i: "i \<in> set (posting u)"
  shows "up_ok (es @ [Post_failed i m]) (stop_with m (u\<lparr>posting := removeAll i (posting u), running := running u - 1\<rparr>))"
proof (rule stop_ok)
  have p: "pool_ok 0 es u" using u by (simp add: up_ok_def)
  have s: "stage u \<in> {Pool, Stopped}" and c: "\<not> creates (outs u)" using u i by (cases "stage u"; auto simp: up_ok_def)+
  from i p have len: "0 < length (posting u)" "length (removeAll i (posting u)) = length (posting u) - 1"
    by (auto simp: pool_ok_def distinct_remove1_removeAll [symmetric] length_remove1)
  show "pool_ok 0 (es @ [Post_failed i m]) (u\<lparr>posting := removeAll i (posting u), running := running u - 1, stage := Stopped\<rparr>)"
    using p len by (auto simp: pool_ok_def distinct_removeAll)
qed (use u i in \<open>auto simp: up_ok_def\<close>)

lemma up_step_ok: "up_ok es u \<Longrightarrow> up_ok (es @ [e]) (up_step e u)"
proof (cases e)
  case (Missing_answer ms)
  assume u: "up_ok es u"
  with on_missing_ok [OF u] Missing_answer show ?thesis by (simp add: up_more)
next
  case (Posted i addr n)
  assume u: "up_ok es u"
  with on_posted_ok [OF u] Posted show ?thesis by (simp add: up_more)
next
  case (Post_failed i m)
  assume u: "up_ok es u"
  with on_failed_ok [OF u] Post_failed show ?thesis by (simp add: up_more)
next
  case (Call_fault spec f)
  assume u: "up_ok es u"
  have "up_ok (es @ [e]) (stop_with m u)" if "stage u \<in> {Preflight, Saving, Binding}" for m
  proof (rule stop_ok)
    note o = up_more [OF u, of "[e]"]
    show "pool_ok 0 (es @ [e]) (u\<lparr>stage := Stopped\<rparr>)" using o by (simp add: up_ok_def pool_ok_def)
    show "creates (outs u) \<longrightarrow> (\<forall>i \<in> set (missingIdx u). confirmed (es @ [e]) u i) \<and> posting u = []"
      using o unfolding up_ok_def by blast
    show "ends (outs u) \<le> (if stage u = Stopped then 1 else 0)" using o that unfolding up_ok_def by auto
  qed
  with Call_fault up_more [OF u] show ?thesis by simp
next
  case (File_created f)
  assume u: "up_ok es u"
  note o = up_more [OF u, of "[e]"]
  show ?thesis
  proof (cases "stage u = Saving \<and> up_alive u")
    case True
    then have "take (cursor u) (missingIdx u) = missingIdx u" using o by (simp add: up_ok_def)
    with True o File_created show ?thesis
      by (auto simp: up_ok_def pool_ok_def on_created_def confirmed_def split: option.split)
  qed (use o File_created in auto)
next
  case (Attached a)
  assume u: "up_ok es u"
  note o = up_more [OF u, of "[e]"]
  show ?thesis
  proof (cases "stage u = Binding \<and> up_alive u")
    case True
    then have "take (cursor u) (missingIdx u) = missingIdx u" using o by (simp add: up_ok_def)
    with True o Attached show ?thesis by (auto simp: up_ok_def pool_ok_def confirmed_def)
  qed (use o Attached in auto)
next
  case Torn_down
  assume u: "up_ok es u"
  from up_more [OF u, of "[e]"] Torn_down show ?thesis
    by (simp add: up_ok_def pool_ok_def confirmed_def)
qed

lemma upload_run_ok: "up_ok es (upload_run es (start_upload sha chunk c bs))"
proof (induction es rule: rev_induct)
  case (snoc e es)
  then show ?case using up_step_ok by (simp add: upload_run_def)
qed (simp add: upload_run_def up_start)

section \<open>Properties\<close>

text \<open>
  The answer to the preflight that the service takes: the first one, unless the control is torn down or the
  call faults before it.
\<close>

definition decides :: "up_event \<Rightarrow> bool" where
  "decides e \<longleftrightarrow> (case e of Missing_answer ms \<Rightarrow> True | Call_fault spec f \<Rightarrow> True | Torn_down \<Rightarrow> True | _ \<Rightarrow> False)"

definition answer_taken :: "up_event list \<Rightarrow> string list option" where
  "answer_taken es = (case find decides es of Some (Missing_answer ms) \<Rightarrow> Some ms | _ \<Rightarrow> None)"

lemma find_snoc: "find P (xs @ [x]) = (case find P xs of Some y \<Rightarrow> Some y | None \<Rightarrow> if P x then Some x else None)"
  by (induction xs) auto

definition lacking :: "string list \<Rightarrow> string list option \<Rightarrow> nat list" where
  "lacking addrs a = (case a of None \<Rightarrow> [] | Some ms \<Rightarrow> filter (\<lambda>i. addrs ! i \<in> set ms) [0 ..< length addrs])"

lemma finish_fields [simp]:
  "sizes (finish_pool u) = sizes u" "addresses (finish_pool u) = addresses u" "missingIdx (finish_pool u) = missingIdx u"
  "up_alive (finish_pool u) = up_alive u"
  "Create_file cs \<in> set (outs (finish_pool u)) \<longleftrightarrow>
     Create_file cs \<in> set (outs u) \<or> stage u = Pool \<and> running u = 0 \<and> cs = zip (addresses u) (sizes u)"
  "stage (finish_pool u) = Preflight \<longleftrightarrow> stage u = Preflight"
  by (auto simp: finish_pool_def)

lemma stop_fields [simp]:
  "sizes (stop_with e u) = sizes u" "addresses (stop_with e u) = addresses u" "missingIdx (stop_with e u) = missingIdx u"
  "up_alive (stop_with e u) = up_alive u" "Create_file cs \<in> set (outs (stop_with e u)) \<longleftrightarrow> Create_file cs \<in> set (outs u)"
  "stage (stop_with e u) = Stopped"
  by (auto simp: stop_with_def)

lemma claim_creates [simp]: "Create_file cs \<in> set (outs (claim u)) \<longleftrightarrow> Create_file cs \<in> set (outs u)"
  by (simp add: claim_def Let_def)

lemma claims_more [simp]:
  "up_alive ((claim ^^ n) u) = up_alive u" "Create_file cs \<in> set (outs ((claim ^^ n) u)) \<longleftrightarrow> Create_file cs \<in> set (outs u)"
  by (induction n) simp_all

text \<open>The chunks and addresses stay those of the file, and what is missing is what the taken answer says.\<close>

definition sent_fine :: "up_event list \<Rightarrow> string list \<Rightarrow> nat list \<Rightarrow> upload \<Rightarrow> bool" where
  "sent_fine es addrs ns u \<longleftrightarrow>
     addresses u = addrs \<and> sizes u = ns \<and> missingIdx u = lacking addrs (answer_taken es) \<and>
     (stage u = Preflight \<and> up_alive u \<longleftrightarrow> find decides es = None) \<and>
     (stage u \<in> {Pool, Saving, Binding} \<longrightarrow> answer_taken es \<noteq> None) \<and>
     (\<forall>cs. Create_file cs \<in> set (outs u) \<longrightarrow> cs = zip addrs ns \<and> answer_taken es \<noteq> None)"

lemma taken_stays: "find decides es \<noteq> None \<Longrightarrow> answer_taken (es @ [e]) = answer_taken es"
  by (auto simp: answer_taken_def find_snoc)

lemma taken_other: "\<not> decides e \<Longrightarrow> answer_taken (es @ [e]) = answer_taken es"
  by (auto simp: answer_taken_def find_snoc split: option.split)

lemma sent_idle:
  assumes "sent_fine es addrs ns u" "\<not> decides e"
  shows "sent_fine (es @ [e]) addrs ns u"
  using assms by (simp add: sent_fine_def taken_other find_snoc split: option.split)

lemma sent_decided:
  assumes "sent_fine es addrs ns u" "find decides es \<noteq> None"
  shows "sent_fine (es @ [e]) addrs ns u"
  using assms taken_stays [OF assms(2), of e] by (auto simp: sent_fine_def find_snoc)

lemma sent_step:
  assumes s: "sent_fine es addrs ns u" and u: "up_ok es u"
  shows "sent_fine (es @ [e]) addrs ns (up_step e u)"
proof (cases e)
  case (Missing_answer ms)
  show ?thesis
  proof (cases "find decides es")
    case None
    then have p: "stage u = Preflight" "up_alive u" and t: "answer_taken (es @ [e]) = Some ms" "find decides (es @ [e]) \<noteq> None"
      using s Missing_answer by (simp_all add: sent_fine_def answer_taken_def find_snoc decides_def)
    have "stage (on_missing ms u) \<noteq> Preflight" by (simp add: on_missing_def Let_def)
    then show ?thesis
      using s p t Missing_answer by (auto simp: sent_fine_def on_missing_def Let_def lacking_def)
  next
    case (Some d)
    then have "\<not> (stage u = Preflight \<and> up_alive u)" using s unfolding sent_fine_def by simp
    then have "up_step e u = u" by (auto simp: Missing_answer)
    then show ?thesis using sent_decided [OF s] Some by simp
  qed
next
  case (Posted i addr n)
  show ?thesis
  proof (cases "i \<in> set (posting u)")
    case True
    let ?v = "on_posted i addr n u"
    have st: "stage u \<noteq> Preflight" using u True by (auto simp: up_ok_def)
    have same: "addresses ?v = addresses u" "sizes ?v = sizes u" "missingIdx ?v = missingIdx u"
      by (simp_all add: on_posted_def Let_def)
    have v: "stage ?v \<noteq> Preflight" using st by (simp add: on_posted_def Let_def)
    have later: "stage ?v \<in> {Pool, Saving, Binding} \<Longrightarrow> stage u \<in> {Pool, Saving, Binding}"
      by (auto simp: on_posted_def Let_def finish_pool_def split: if_splits)
    have new: "Create_file cs \<in> set (outs ?v) \<Longrightarrow>
        Create_file cs \<in> set (outs u) \<or> stage u = Pool \<and> cs = zip (addresses u) (sizes u)" for cs
      by (auto simp: on_posted_def Let_def split: if_splits)
    have "sent_fine es addrs ns ?v"
      unfolding sent_fine_def
    proof (intro conjI allI impI)
      fix cs assume "Create_file cs \<in> set (outs ?v)"
      from new [OF this] show "cs = zip addrs ns" "answer_taken es \<noteq> None"
        using s unfolding sent_fine_def by auto
    qed (use s same st v later in \<open>auto simp: sent_fine_def\<close>)
    from sent_idle [OF this, of e] show ?thesis using True Posted by (simp add: decides_def)
  qed (use sent_idle [OF s, of e] Posted in \<open>simp add: decides_def\<close>)
next
  case (Post_failed i m)
  show ?thesis
  proof (cases "i \<in> set (posting u)")
    case True
    have st: "stage u \<noteq> Preflight" using u True by (auto simp: up_ok_def)
    then show ?thesis
      using s True Post_failed taken_other [of e es]
      by (auto simp: sent_fine_def decides_def find_snoc split: option.splits)
  qed (use sent_idle [OF s, of e] Post_failed in \<open>simp add: decides_def\<close>)
next
  case (File_created f)
  then show ?thesis
    using s taken_other [of e es] by (auto simp: sent_fine_def decides_def find_snoc on_created_def split: option.splits)
next
  case (Attached a)
  then show ?thesis
    using s taken_other [of e es] by (auto simp: sent_fine_def decides_def find_snoc split: option.splits)
next
  case (Call_fault spec f)
  then show ?thesis
    using s taken_stays [of es e] by (auto simp: sent_fine_def decides_def find_snoc answer_taken_def split: option.splits)
next
  case Torn_down
  then show ?thesis
    using s taken_stays [of es e] by (auto simp: sent_fine_def decides_def find_snoc answer_taken_def split: option.splits)
qed

lemma sent_run:
  "sent_fine es (map sha (slices (chunk_bytes chunk) bs)) (map length (slices (chunk_bytes chunk) bs))
     (upload_run es (start_upload sha chunk c bs))"
proof (induction es rule: rev_induct)
  case Nil
  show ?case by (simp add: sent_fine_def upload_run_def start_upload_def Let_def lacking_def answer_taken_def)
next
  case (snoc e es)
  then show ?case using sent_step [OF _ upload_run_ok] by (simp add: upload_run_def)
qed

text \<open>C12: Whatever arrives in whatever order, a chunk is posted only when the server answered that it lacks the
  address of its bytes, and at most once; at most four posts are open at a time, and they are of chunks posted before.
\<close>

theorem chunks_are_posted_once:
  "distinct (posts (outs (upload_run es (start_upload sha chunk c bs)))) \<and>
    (\<forall>i \<in> set (posts (outs (upload_run es (start_upload sha chunk c bs)))). \<exists>ms. answer_taken es = Some ms \<and>
       i < length (slices (chunk_bytes chunk) bs) \<and> sha (slices (chunk_bytes chunk) bs ! i) \<in> set ms) \<and>
    length (posting (upload_run es (start_upload sha chunk c bs))) \<le> 4 \<and>
    set (posting (upload_run es (start_upload sha chunk c bs))) \<subseteq> set (posts (outs (upload_run es (start_upload sha chunk c bs))))"
proof -
  define u where "u = upload_run es (start_upload sha chunk c bs)"
  have p: "pool_ok 0 es u" using upload_run_ok [of es sha chunk c bs] by (simp add: up_ok_def u_def)
  have m: "missingIdx u = lacking (map sha (slices (chunk_bytes chunk) bs)) (answer_taken es)"
    using sent_run [of es sha chunk bs c] by (simp add: sent_fine_def u_def)
  have "\<exists>ms. answer_taken es = Some ms \<and> i < length (slices (chunk_bytes chunk) bs) \<and>
      sha (slices (chunk_bytes chunk) bs ! i) \<in> set ms" if "i \<in> set (posts (outs u))" for i
  proof -
    have "i \<in> set (missingIdx u)" using p that by (auto simp: pool_ok_def dest: in_set_takeD)
    then show ?thesis by (cases "answer_taken es") (auto simp: m lacking_def)
  qed
  with p show ?thesis unfolding u_def [symmetric] by (auto simp: pool_ok_def CONCURRENCY_def)
qed

text \<open>The server lacks two of three chunks, two of them the same.\<close>

definition wit_sha :: "nat list \<Rightarrow> string" where
  "wit_sha bs = nat_text (sum_list bs)"

theorem chunks_are_posted_once_witness:
  "posts (outs (upload_run [Missing_answer [''5'']] (start_upload wit_sha (Some 2) None [1, 2, 5]))) = [1] \<and>
   wit_sha (slices (chunk_bytes (Some 2)) [1, 2, 5] ! 1) \<in> set [''5'']"
proof -
  have p: "posts (outs (upload_run [Missing_answer [''5'']] (start_upload wit_sha (Some 2) None [1, 2, 5]))) = [1]"
    by code_simp
  moreover have "answer_taken [Missing_answer [''5'']] = Some [''5'']" by code_simp
  ultimately show ?thesis
    using chunks_are_posted_once [of "[Missing_answer [''5'']]" wit_sha "Some 2" None "[1, 2, 5]"] by simp
qed

text \<open>C31: When the service asks for the file to be created, the server's answer to the preflight had arrived, every
  chunk whose address the server lacked was confirmed under the address of its bytes, and the call lists the
  address and the size of every chunk of the file, in order.
\<close>

theorem created_after_confirmation:
  assumes "Create_file cs \<in> set (outs (upload_run es (start_upload sha chunk c bs)))"
  shows "cs = map (\<lambda>b. (sha b, length b)) (slices (chunk_bytes chunk) bs) \<and>
    (\<exists>ms. answer_taken es = Some ms \<and>
      (\<forall>i < length (slices (chunk_bytes chunk) bs). sha (slices (chunk_bytes chunk) bs ! i) \<in> set ms \<longrightarrow>
        (\<exists>n. Posted i (sha (slices (chunk_bytes chunk) bs ! i)) n \<in> set es)))"
proof -
  define u where "u = upload_run es (start_upload sha chunk c bs)"
  let ?bs = "slices (chunk_bytes chunk) bs"
  have f: "sent_fine es (map sha ?bs) (map length ?bs) u" unfolding u_def by (rule sent_run)
  then obtain ms where ms: "answer_taken es = Some ms" "cs = zip (map sha ?bs) (map length ?bs)" "addresses u = map sha ?bs"
    "missingIdx u = lacking (map sha ?bs) (Some ms)"
    using assms by (auto simp: sent_fine_def u_def)
  have "\<forall>i \<in> set (missingIdx u). confirmed es u i"
    using upload_run_ok [of es sha chunk c bs] assms by (auto simp: up_ok_def creates_def u_def)
  then have "\<exists>n. Posted i (sha (?bs ! i)) n \<in> set es" if "i < length ?bs" "sha (?bs ! i) \<in> set ms" for i
    using that by (auto simp: ms(3,4) lacking_def confirmed_def)
  with ms(1,2) show ?thesis by (auto simp: zip_map_map zip_same_conv_map)
qed

text \<open>The caller hears at most once that the upload ended, be it done or failed.\<close>

theorem upload_ends_once:
  "length (filter (\<lambda>x. case x of Done a \<Rightarrow> True | Failed e \<Rightarrow> True | _ \<Rightarrow> False)
    (outs (upload_run es (start_upload sha chunk c bs)))) \<le> 1"
  using upload_run_ok [of es sha chunk c bs] by (auto simp: up_ok_def ends_def split: if_splits)

lemma finish_busy: "stage (finish_pool u) = Pool \<Longrightarrow> running (finish_pool u) \<noteq> 0"
  by (auto simp: finish_pool_def split: if_splits)

lemma stop_stopped [simp]: "stage (stop_with e u) = Stopped"
  by (simp add: stop_with_def)

lemma step_busy:
  "(stage u = Pool \<Longrightarrow> running u \<noteq> 0) \<Longrightarrow> stage (up_step e u) = Pool \<Longrightarrow> running (up_step e u) \<noteq> 0"
  by (cases e) (auto simp: on_missing_def on_posted_def on_created_def Let_def dest!: finish_busy split: if_splits option.splits)

lemma run_busy: "stage (upload_run es (start_upload sha chunk c bs)) = Pool \<Longrightarrow> posting (upload_run es (start_upload sha chunk c bs)) \<noteq> []"
proof -
  have "stage (upload_run es (start_upload sha chunk c bs)) = Pool \<Longrightarrow> running (upload_run es (start_upload sha chunk c bs)) \<noteq> 0"
  proof (induction es rule: rev_induct)
    case (snoc e es)
    then show ?case using step_busy [of "upload_run es (start_upload sha chunk c bs)" e] by (simp add: upload_run_def)
  qed (simp add: upload_run_def start_upload_def Let_def)
  moreover assume "stage (upload_run es (start_upload sha chunk c bs)) = Pool"
  ultimately show ?thesis using upload_run_ok [of es sha chunk c bs] by (auto simp: up_ok_def pool_ok_def)
qed

text \<open>What the pool still waits for, and answers that confirm open posts.\<close>

definition outstanding :: "upload \<Rightarrow> nat" where
  "outstanding u = length (missingIdx u) - cursor u + length (posting u)"

fun confirming :: "upload \<Rightarrow> up_event list \<Rightarrow> bool" where
  "confirming u [] = True"
| "confirming u (e # es) = (case e of
     Posted i addr n \<Rightarrow> i \<in> set (posting u) \<and> addr = addresses u ! i \<and> confirming (up_step e u) es
   | _ \<Rightarrow> False)"

lemma posted_progress:
  fixes n :: nat
  assumes u: "up_ok es u" and s: "stage u = Pool" and i: "i \<in> set (posting u)"
  defines "v \<equiv> up_step (Posted i (addresses u ! i) n) u"
  shows "outstanding u = Suc (outstanding v) \<and> (if posting v = [] then stage v = Saving \<and> creates (outs v) else stage v = Pool)"
proof -
  have p: "pool_ok 0 es u" using u by (simp add: up_ok_def)
  then have l: "length (removeAll i (posting u)) = length (posting u) - 1" "0 < length (posting u)" "running u = length (posting u)"
    using i by (auto simp: pool_ok_def distinct_remove1_removeAll [symmetric] length_remove1)
  obtain w where v: "v = finish_pool (claim w)" and w: "posting w = removeAll i (posting u)" "stage w = Pool" "running w = running u"
      "cursor w = cursor u" "missingIdx w = missingIdx u"
  proof
    show "v = finish_pool (claim (report (Progress (sum_list (map (\<lambda>j. if j = i then n else if addresses u ! j = addresses u ! i then sizes u ! j
        else completed u ! j) [0 ..< length (addresses u)])) (total u) Uploading)
        (u\<lparr>posting := removeAll i (posting u), completed := map (\<lambda>j. if j = i then n else if addresses u ! j = addresses u ! i
          then sizes u ! j else completed u ! j) [0 ..< length (addresses u)]\<rparr>)))"
      using i by (simp add: v_def on_posted_def Let_def)
  qed (simp_all add: s)
  show ?thesis
  proof (cases "cursor u < length (missingIdx u)")
    case True
    then have "posting (claim w) \<noteq> []" "running (claim w) \<noteq> 0" using w l by (simp_all add: claim_def Let_def)
    then show ?thesis using True w l unfolding v by (simp add: finish_pool_def outstanding_def claim_def Let_def)
  next
    case False
    then show ?thesis using w l unfolding v by (auto simp: finish_pool_def outstanding_def claim_def le_Suc_eq)
  qed
qed

lemma confirming_ends:
  "up_ok es u \<Longrightarrow> stage u = Pool \<Longrightarrow> posting u \<noteq> [] \<Longrightarrow> confirming u fs \<Longrightarrow> length fs = outstanding u \<Longrightarrow>
   creates (outs (fold up_step fs u)) \<and> stage (fold up_step fs u) = Saving"
proof (induction fs arbitrary: es u)
  case Nil
  then show ?case by (simp add: outstanding_def)
next
  case (Cons e fs)
  then obtain i n where e: "e = Posted i (addresses u ! i) n" "i \<in> set (posting u)" "confirming (up_step e u) fs"
    by (cases e) auto
  note p = posted_progress [OF Cons.prems(1,2) e(2), of n, folded e(1)]
  have ok: "up_ok (es @ [e]) (up_step e u)" by (rule up_step_ok [OF Cons.prems(1)])
  show ?case
  proof (cases "posting (up_step e u) = []")
    case True
    with p have "stage (up_step e u) = Saving" "creates (outs (up_step e u))" by simp_all
    moreover have "fs = []" using True ok p e(3) by (cases fs) (auto split: up_event.splits)
    ultimately show ?thesis by simp
  next
    case False
    with p e(3) Cons.prems(5) Cons.IH [OF ok] show ?thesis by simp
  qed
qed

text \<open>C32: From any moment at which the pool is at work, as many confirmations of open posts as there are
  chunks left, in any order, bring the service to the call that creates the file.
\<close>

theorem pool_reaches_creation:
  assumes "stage (upload_run es (start_upload sha chunk c bs)) = Pool"
    and "confirming (upload_run es (start_upload sha chunk c bs)) fs"
    and "length fs = outstanding (upload_run es (start_upload sha chunk c bs))"
  shows "\<exists>cs. Create_file cs \<in> set (outs (upload_run (es @ fs) (start_upload sha chunk c bs)))"
  using confirming_ends [OF upload_run_ok assms(1) run_busy [OF assms(1)] assms(2,3)]
  by (simp add: upload_run_def creates_def)

theorem pool_reaches_creation_witness:
  "\<exists>cs. Create_file cs \<in> set (outs (upload_run ([Missing_answer [''3'', ''3'', ''5'']] @ [Posted 1 ''5'' 1, Posted 0 ''3'' 2])
    (start_upload wit_sha (Some 2) None [1, 2, 5])))"
  by (rule pool_reaches_creation)
    code_simp+

theorem created_after_confirmation_witness:
  "\<exists>n. Posted 0 ''3'' n \<in> set [Missing_answer [''3'', ''5''], Posted 1 ''5'' 1, Posted 0 ''3'' 2]"
proof -
  let ?es = "[Missing_answer [''3'', ''5''], Posted 1 ''5'' 1, Posted 0 ''3'' 2]"
  let ?bs = "slices (chunk_bytes (Some 2)) [1, 2, 5 :: nat]"
  have "Create_file [(''3'', 2), (''5'', 1)] \<in> set (outs (upload_run ?es (start_upload wit_sha (Some 2) None [1, 2, 5])))"
    by code_simp
  note t = created_after_confirmation [OF this]
  have a: "answer_taken ?es = Some [''3'', ''5'']" by code_simp
  have l: "0 < length ?bs" "wit_sha (?bs ! 0) = ''3''" by code_simp+
  from t obtain ms where "answer_taken ?es = Some ms" "wit_sha (?bs ! 0) \<in> set ms \<longrightarrow> (\<exists>n. Posted 0 (wit_sha (?bs ! 0)) n \<in> set ?es)"
    using l(1) by blast
  then show ?thesis unfolding a l(2) by simp
qed

end
