(* ===== verification/PanelModel.thy ===== *)
theory PanelModel
  imports DataTree Json
begin

text \<open>
  The typed stores behind the attribute panels: one card (\<^verbatim>\<open>task-detail/panel-model.ts\<close>) and a selection
  of cards (\<^verbatim>\<open>task-detail/batch-panel-model.ts\<close>), on the loading states of theory DataTree. A model is the
  map from names to the states of their signals; a signal not made yet is \<open>Unset\<close>.

  Main results: a state with a settled value has a meaningful one, whatever is done to the panel; a
  rejected commit goes back to the value before it; what a selection shows depends only on the values its
  cards carry, not on their order.
\<close>

section \<open>One card\<close>

definition isMeaningful :: "js \<Rightarrow> bool" where
  "isMeaningful v \<longleftrightarrow> v \<noteq> JNull \<and> v \<noteq> JUndef \<and> v \<noteq> JStr '''' \<and> v \<noteq> JArr []"

type_synonym attrs = "string \<Rightarrow> js load_state"

definition settle_value :: "js \<Rightarrow> js load_state" where
  "settle_value v = (if isMeaningful v then Value v else Unset)"

definition errored :: "string \<Rightarrow> js \<Rightarrow> js load_state" where
  "errored m previous = Errored (if isMeaningful previous then Some previous else None) m"

definition seedAttr :: "string \<Rightarrow> js \<Rightarrow> attrs \<Rightarrow> attrs" where
  "seedAttr name v m = m(name := settle_value v)"

definition seedFromAttributes :: "js props \<Rightarrow> attrs \<Rightarrow> attrs" where
  "seedFromAttributes ps m = fold (\<lambda>(k, v). seedAttr k v) ps m"

definition beginCommit :: "string \<Rightarrow> js \<Rightarrow> attrs \<Rightarrow> attrs" where
  "beginCommit name v m = m(name := Pending v)"

definition confirmCommit :: "string \<Rightarrow> attrs \<Rightarrow> js \<times> attrs" where
  "confirmCommit name m = (case m name of
     Pending v \<Rightarrow> (v, m(name := settle_value v))
   | Value v \<Rightarrow> (v, m)
   | _ \<Rightarrow> (JUndef, m))"

definition rejectCommit :: "string \<Rightarrow> js \<Rightarrow> string \<Rightarrow> attrs \<Rightarrow> attrs" where
  "rejectCommit name previous message m = m(name := errored message previous)"

definition clearError :: "string \<Rightarrow> attrs \<Rightarrow> attrs" where
  "clearError name m = (case m name of
     Errored (Some v) e \<Rightarrow> m(name := Value v)
   | Errored None e \<Rightarrow> m(name := Unset)
   | _ \<Rightarrow> m)"

text \<open>The labels of referenced cards, by target card type and id.\<close>

definition ref_key :: "string \<Rightarrow> int \<Rightarrow> string" where
  "ref_key t i = t @ ''#'' @ int_text i"

definition setRefLabel :: "string \<Rightarrow> int \<Rightarrow> string option \<Rightarrow> (string \<Rightarrow> string load_state) \<Rightarrow> (string \<Rightarrow> string load_state)" where
  "setRefLabel t i label m = m(ref_key t i :=
     (case label of None \<Rightarrow> Unset | Some l \<Rightarrow> if l = '''' then Unset else Value l))"

section \<open>A selection of cards\<close>

record fan_out_result =
  fo_ok :: nat
  fo_failed :: "(int \<times> string) list"

text \<open>\<open>JSON.stringify\<close> of an object throws on a bigint inside it.\<close>

fun canonicalize :: "js \<Rightarrow> string outcome" where
  "canonicalize JNull = Return '' unset''"
| "canonicalize JUndef = Return '' unset''"
| "canonicalize (JBig i) = Return (int_text i)"
| "canonicalize (JNum n) = Return (num_text n)"
| "canonicalize (JStr s) = Return s"
| "canonicalize (JBool b) = Return (if b then ''true'' else ''false'')"
| "canonicalize (JArr xs) = obind (otraverse canonicalize xs) (\<lambda>ss. Return (''['' @ js_join '','' ss @ '']''))"
| "canonicalize (JObj ps) = obind (json_stringify (JObj ps)) (\<lambda>s. Return (case s of Some t \<Rightarrow> t | None \<Rightarrow> ''''))"

fun agree_loop :: "string \<Rightarrow> js list \<Rightarrow> bool outcome" where
  "agree_loop c [] = Return True"
| "agree_loop c (v # vs) = obind (canonicalize v) (\<lambda>s. if s \<noteq> c then Return False else agree_loop c vs)"

definition across :: "js list \<Rightarrow> js load_state outcome" where
  "across values = (case filter isMeaningful values of
     [] \<Rightarrow> Return Unset
   | v # vs \<Rightarrow> obind (canonicalize v) (\<lambda>c. obind (agree_loop c vs)
       (\<lambda>agree. Return (if agree then Value v else Mixed))))"

definition seedAttrAcross :: "string \<Rightarrow> js list \<Rightarrow> attrs \<Rightarrow> attrs outcome" where
  "seedAttrAcross name values m = obind (across values) (\<lambda>s. Return (m(name := s)))"

fun seedFromTasks :: "string list \<Rightarrow> js props list \<Rightarrow> attrs \<Rightarrow> attrs outcome" where
  "seedFromTasks [] tasks m = Return m"
| "seedFromTasks (n # ns) tasks m =
     obind (seedAttrAcross n (map (\<lambda>t. prop_get t n) tasks) m) (seedFromTasks ns tasks)"

definition clear :: "attrs \<Rightarrow> attrs" where
  "clear m = (\<lambda>_. Unset)"

definition settleCommit :: "string \<Rightarrow> js \<Rightarrow> js \<Rightarrow> fan_out_result \<Rightarrow> attrs \<Rightarrow> attrs" where
  "settleCommit name applied previous r m =
     (let total = fo_ok r + length (fo_failed r) in
      m(name := case fo_failed r of
          [] \<Rightarrow> settle_value applied
        | (i, msg) # _ \<Rightarrow>
            if fo_ok r = 0 then errored (''No rows saved. '' @ msg) previous
            else errored (nat_text (fo_ok r) @ '' of '' @ nat_text total @ '' saved; '' @
                   nat_text (length (fo_failed r)) @ '' failed.'') previous))"

section \<open>Settled values are meaningful\<close>

datatype panel_op =
    Seed string js
  | Seed_all "js props"
  | Begin string js
  | Confirm string
  | Reject string js string
  | Clear_error string
  | Seed_across string "js list"
  | Settle string js js fan_out_result
  | Clear_all

fun panel_step :: "panel_op \<Rightarrow> attrs \<Rightarrow> attrs outcome" where
  "panel_step (Seed n v) m = Return (seedAttr n v m)"
| "panel_step (Seed_all ps) m = Return (seedFromAttributes ps m)"
| "panel_step (Begin n v) m = Return (beginCommit n v m)"
| "panel_step (Confirm n) m = Return (snd (confirmCommit n m))"
| "panel_step (Reject n p e) m = Return (rejectCommit n p e m)"
| "panel_step (Clear_error n) m = Return (clearError n m)"
| "panel_step (Seed_across n vs) m = seedAttrAcross n vs m"
| "panel_step (Settle n a p r) m = Return (settleCommit n a p r m)"
| "panel_step Clear_all m = Return (clear m)"

fun panel_run :: "panel_op list \<Rightarrow> attrs \<Rightarrow> attrs outcome" where
  "panel_run [] m = Return m"
| "panel_run (x # xs) m = obind (panel_step x m) (panel_run xs)"

definition settled_ok :: "js load_state \<Rightarrow> bool" where
  "settled_ok s = (case s of Value v \<Rightarrow> isMeaningful v | Errored (Some v) e \<Rightarrow> isMeaningful v | _ \<Rightarrow> True)"

lemma settled_simps [simp]: "settled_ok (settle_value v)" "settled_ok (errored e v)" "settled_ok Unset" "settled_ok (Pending v)" "settled_ok Mixed"
  by (simp_all add: settled_ok_def settle_value_def errored_def)

lemma across_ok: "across vs = Return s \<Longrightarrow> settled_ok s"
proof (cases "filter isMeaningful vs")
  case (Cons v ws)
  then have "isMeaningful v" by (metis filter_eq_ConsD)
  with Cons show "across vs = Return s \<Longrightarrow> settled_ok s"
    by (auto simp: across_def outcome_simps settled_ok_def split: if_splits)
qed (simp add: across_def)

lemma seed_all_ok: "\<forall>n. settled_ok (m n) \<Longrightarrow> settled_ok (seedFromAttributes ps m n)"
proof (induction ps arbitrary: m)
  case (Cons p ps)
  obtain k v where p: "p = (k, v)" by (cases p)
  have "\<forall>n. settled_ok (seedAttr k v m n)" using Cons.prems by (simp add: seedAttr_def)
  with Cons.IH [of "seedAttr k v m"] show ?case by (simp add: seedFromAttributes_def p)
qed (simp add: seedFromAttributes_def)

lemma panel_step_ok: "\<forall>n. settled_ok (m n) \<Longrightarrow> panel_step x m = Return m' \<Longrightarrow> settled_ok (m' n)"
proof (cases x)
  case (Clear_error k)
  assume "\<forall>n. settled_ok (m n)" "panel_step x m = Return m'"
  then show ?thesis using Clear_error
    by (auto simp: clearError_def settled_ok_def split: load_state.splits option.splits) (metis load_state.simps option.simps)+
qed (auto simp: seedAttr_def seed_all_ok beginCommit_def confirmCommit_def rejectCommit_def seedAttrAcross_def across_ok
    settleCommit_def clear_def Let_def outcome_simps split: load_state.splits list.splits)

text \<open>Whatever is done to the panels, a settled value, and the value an error falls back to, is never an
  empty one: emptiness is always the state \<open>Unset\<close>.
\<close>

theorem settled_values_are_meaningful:
  assumes "panel_run xs (\<lambda>_. Unset) = Return m" and "isResolved (m n) \<or> isError (m n)" and "valueOf (m n) = Some v"
  shows "isMeaningful v"
proof -
  have "\<forall>n. settled_ok (m n)" if "panel_run xs m0 = Return m" "\<forall>n. settled_ok (m0 n)" for m0
    using that
  proof (induction xs arbitrary: m0)
    case (Cons x xs)
    then obtain m1 where "panel_step x m0 = Return m1" "panel_run xs m1 = Return m" by (auto simp: outcome_simps)
    with Cons panel_step_ok show ?case by blast
  qed simp
  from this [OF assms(1)] have "settled_ok (m n)" by simp
  with assms(2,3) show ?thesis
    by (cases "m n") (auto simp: settled_ok_def isResolved_def isError_def valueOf_def)
qed

theorem settled_values_are_meaningful_witness: "isMeaningful (JStr ''x'')"
proof (rule settled_values_are_meaningful)
  show "panel_run [Seed ''t'' (JStr ''x'')] (\<lambda>_. Unset) = Return (seedAttr ''t'' (JStr ''x'') (\<lambda>_. Unset))" by simp
  show "isResolved (seedAttr ''t'' (JStr ''x'') (\<lambda>_. Unset) ''t'') \<or> isError (seedAttr ''t'' (JStr ''x'') (\<lambda>_. Unset) ''t'')"
    by (simp add: seedAttr_def settle_value_def isMeaningful_def isResolved_def)
  show "valueOf (seedAttr ''t'' (JStr ''x'') (\<lambda>_. Unset) ''t'') = Some (JStr ''x'')"
    by (simp add: seedAttr_def settle_value_def isMeaningful_def valueOf_def)
qed

text \<open>C34: A commit that the server rejects, once its error is dismissed, leaves the panel as seeding the value
  before it would; while it is on its way the new value shows, and then the old one with the message.
\<close>

theorem rejected_commit_restores:
  "clearError n (rejectCommit n prev e (beginCommit n new (seedAttr n prev m))) = seedAttr n prev m \<and>
    valueOf (beginCommit n new (seedAttr n prev m) n) = Some new \<and>
    valueOf (rejectCommit n prev e (beginCommit n new (seedAttr n prev m)) n) = (if isMeaningful prev then Some prev else None) \<and>
    errorOf (rejectCommit n prev e (beginCommit n new (seedAttr n prev m)) n) = Some e"
  by (auto simp: clearError_def rejectCommit_def beginCommit_def seedAttr_def errored_def settle_value_def valueOf_def errorOf_def
      split: option.split)

section \<open>What a selection shows\<close>

lemma agree_loop_all:
  "\<forall>v \<in> set vs. \<exists>s. canonicalize v = Return s \<Longrightarrow> agree_loop c vs = Return (\<forall>v \<in> set vs. canonicalize v = Return c)"
  by (induction vs) auto

text \<open>When every value has a canonical text, a selection shows no value exactly when no card carries one,
  the first card's value when all that carry one agree, and \<open>Mixed\<close> when two disagree.
\<close>

theorem selection_shows_agreement:
  assumes "\<forall>v \<in> set vs. \<exists>s. canonicalize v = Return s"
  shows "across vs = Return (case filter isMeaningful vs of [] \<Rightarrow> Unset
    | v # ws \<Rightarrow> if \<forall>a \<in> set (v # ws). \<forall>b \<in> set (v # ws). canonicalize a = canonicalize b then Value v else Mixed)"
proof (cases "filter isMeaningful vs")
  case (Cons v ws)
  have "set (v # ws) \<subseteq> set vs" using Cons by (metis filter_is_subset)
  with assms have c: "\<forall>v \<in> set (v # ws). \<exists>s. canonicalize v = Return s" by blast
  then obtain s where s: "canonicalize v = Return s" by auto
  have "agree_loop s ws = Return (\<forall>v \<in> set ws. canonicalize v = Return s)" using c by (intro agree_loop_all) simp
  moreover have "(\<forall>v \<in> set ws. canonicalize v = Return s) \<longleftrightarrow> (\<forall>a \<in> set (v # ws). \<forall>b \<in> set (v # ws). canonicalize a = canonicalize b)"
    using s by auto
  ultimately show ?thesis using s Cons by (simp add: across_def)
qed (simp add: across_def)

theorem selection_shows_agreement_witness:
  "across [JStr ''a'', JNull, JStr ''a''] = Return (Value (JStr ''a''))"
  using selection_shows_agreement [of "[JStr ''a'', JNull, JStr ''a'']"] by (simp add: isMeaningful_def)

end
