(* ===== verification/Inbox.thy ===== *)
theory Inbox
  imports ScreenResolve Grouping JsSort WireDecode "HOL-Library.List_Lexorder" "HOL-Library.Char_ord"
begin

text \<open>
  The reader's own order of a list, \<^verbatim>\<open>inbox/inbox-helpers.ts\<close> and \<^verbatim>\<open>inbox/specs.ts\<close>: the plan of
  writes that puts a row at a slot, its optimistic counterpart, the display orders (flat and
  grouped) and the calls. \<open>js_sort\<close> is \<open>Array.prototype.sort\<close> for a comparator that orders; the
  grouped comparator orders the rows of a column whose values are all big ids, or none of them.

  Main results: the writes of a plan sort the rows exactly as the optimistic list shows them, and
  in a grouped list every group has one header, the unset one last in both directions.
\<close>

section \<open>Slots and plans\<close>

record personal_update =
  pu_card :: int
  pu_order :: nat

definition desired_order :: "nat \<Rightarrow> nat" where
  "desired_order i = (i + 1) * SORT_ORDER_STEP"

text \<open>The list with the moved row at its clamped slot; \<open>None\<close> when the row is not there.\<close>

definition reordered :: "card list \<Rightarrow> int \<Rightarrow> int \<Rightarrow> card list option" where
  "reordered rows movedID insertAt =
     map_option (\<lambda>moved. final_order (filter (\<lambda>r. card_id r \<noteq> movedID) rows) moved insertAt)
       (find (\<lambda>r. card_id r = movedID) rows)"

fun personal_updates :: "nat \<Rightarrow> card list \<Rightarrow> personal_update list" where
  "personal_updates i [] = []"
| "personal_updates i (r # rs) =
     (if personal_sort_order r \<noteq> Some (of_nat (desired_order i))
      then \<lparr>pu_card = card_id r, pu_order = desired_order i\<rparr> # personal_updates (Suc i) rs
      else personal_updates (Suc i) rs)"

definition planPersonalReorder :: "card list \<Rightarrow> int \<Rightarrow> int \<Rightarrow> personal_update list" where
  "planPersonalReorder rows movedID insertAt = (case reordered rows movedID insertAt of
     None \<Rightarrow> []
   | Some next_rows \<Rightarrow> personal_updates 0 next_rows)"

definition stamp :: "nat \<Rightarrow> card list \<Rightarrow> card list" where
  "stamp i rs = map (\<lambda>(j, r). r\<lparr>personal_sort_order := Some (of_nat (desired_order j))\<rparr>) (enumerate i rs)"

definition applyPersonalReorder :: "card list \<Rightarrow> int \<Rightarrow> int \<Rightarrow> card list" where
  "applyPersonalReorder rows movedID insertAt = (case reordered rows movedID insertAt of
     None \<Rightarrow> rows
   | Some next_rows \<Rightarrow> stamp 0 next_rows)"

definition move :: "int \<Rightarrow> int \<Rightarrow> int \<Rightarrow> int" where
  "move visibleLen current delta =
     (if visibleLen \<le> 0 then 0
      else let n = current + delta in if n < 0 then 0 else if visibleLen \<le> n then visibleLen - 1 else n)"

section \<open>Display orders\<close>

definition comparePersonal :: "card \<Rightarrow> card \<Rightarrow> int" where
  "comparePersonal a b = (case (personal_sort_order a, personal_sort_order b) of
     (Some x, Some y) \<Rightarrow> then_cmp (cmp_of x y) (cmp_of (card_id a) (card_id b))
   | (None, None) \<Rightarrow> cmp_of (card_id a) (card_id b)
   | (None, Some y) \<Rightarrow> 1
   | (Some x, None) \<Rightarrow> - 1)"

definition sortByPersonal :: "card list \<Rightarrow> card list" where
  "sortByPersonal cards = js_sort comparePersonal cards"

definition compareGroupValue :: "js \<Rightarrow> js \<Rightarrow> int" where
  "compareGroupValue a b = (case (a, b) of
     (JBig x, JBig y) \<Rightarrow> cmp_of x y
   | _ \<Rightarrow> cmp_of (js_text a) (js_text b))"

definition group_part :: "string \<Rightarrow> sort_dir \<Rightarrow> card \<Rightarrow> card \<Rightarrow> int" where
  "group_part a dir x y =
     (let va = prop_get (attributes x) a; vb = prop_get (attributes y) a;
          ea = is_empty_value va; eb = is_empty_value vb
      in if ea \<noteq> eb then (if ea then 1 else - 1)
         else if ea then 0
         else compareGroupValue va vb * (if dir = SDesc then - 1 else 1))"

definition sortGrouped :: "card list \<Rightarrow> string \<Rightarrow> sort_dir \<Rightarrow> card list" where
  "sortGrouped cards a dir = js_sort (\<lambda>x y. then_cmp (group_part a dir x y) (comparePersonal x y)) cards"

section \<open>The calls\<close>

definition encode_sort_set :: "int \<Rightarrow> nat \<Rightarrow> js props" where
  "encode_sort_set c n = [(''card_id'', JBig c), (''sort_order'', jint (int n))]"

definition encode_agent_set :: "int \<Rightarrow> int \<Rightarrow> js props" where
  "encode_agent_set c a = [(''card_id'', JBig c), (''agent_user_id'', JBig a)]"

definition encode_agent_clear :: "int \<Rightarrow> js props" where
  "encode_agent_clear c = [(''card_id'', JBig c)]"

definition encode_agent_list :: "int option \<Rightarrow> js props" where
  "encode_agent_list p = (case p of None \<Rightarrow> [] | Some i \<Rightarrow> [(''parent_card_id'', JBig i)])"

definition decode_ok :: "js \<Rightarrow> bool" where
  "decode_ok raw = asFlag (prop_get (asObj raw) ''ok'')"

definition decode_agent_clear :: "js \<Rightarrow> bool \<times> jnum" where
  "decode_agent_clear raw = (decode_ok raw, case prop_get (asObj raw) ''deleted'' of JNum n \<Rightarrow> n | _ \<Rightarrow> Fin 0)"

text \<open>This file's \<open>asId\<close> gives null for what is no id and takes no sign.\<close>

definition wire_id :: "js \<Rightarrow> int option" where
  "wire_id v = (case v of
     JBig i \<Rightarrow> Some i
   | JNum (Fin x) \<Rightarrow> if is_int_rat x then Some \<lfloor>x\<rfloor> else None
   | JStr s \<Rightarrow> if s \<noteq> '''' \<and> list_all is_digit s then Some (int (digits_val s)) else None
   | _ \<Rightarrow> None)"

fun routing_loop :: "js list \<Rightarrow> int props \<Rightarrow> int props" where
  "routing_loop [] m = m"
| "routing_loop (r # rs) m = routing_loop rs
     (case (wire_id (prop_get (asObj r) ''card_id''), wire_id (prop_get (asObj r) ''agent_user_id'')) of
        (Some c, Some a) \<Rightarrow> obj_put (int_text c) a m
      | _ \<Rightarrow> m)"

definition decode_routing :: "js \<Rightarrow> int props" where
  "decode_routing raw = routing_loop (asArray (prop_get (asObj raw) ''rows'')) []"

section \<open>Plan and view\<close>

interpretation personal: js_comparator comparePersonal
proof -
  have *: "comparePersonal = (\<lambda>a b. then_cmp (cmp_of (personal_sort_order a = None) (personal_sort_order b = None))
      (then_cmp (cmp_of (case personal_sort_order a of None \<Rightarrow> 0 | Some x \<Rightarrow> x) (case personal_sort_order b of None \<Rightarrow> 0 | Some x \<Rightarrow> x))
        (cmp_of (card_id a) (card_id b))))"
    by (intro ext) (auto simp: comparePersonal_def then_cmp_def cmp_of_def split: option.splits)
  show "js_comparator comparePersonal"
    unfolding * by (intro js_comparator_then js_comparator_cmp_of)
qed

text \<open>The server's side of the plan: the row of that id takes the order.\<close>

definition write_personal :: "personal_update list \<Rightarrow> card \<Rightarrow> card" where
  "write_personal us c = (case map_of (map (\<lambda>u. (pu_card u, pu_order u)) us) (card_id c) of
     None \<Rightarrow> c
   | Some n \<Rightarrow> c\<lparr>personal_sort_order := Some (of_nat n)\<rparr>)"

lemma write_personal_Cons:
  "write_personal (u # us) c = (if pu_card u = card_id c then c\<lparr>personal_sort_order := Some (of_nat (pu_order u))\<rparr>
     else write_personal us c)"
  by (simp add: write_personal_def)

lemma write_personal_other: "card_id c \<notin> pu_card ` set us \<Longrightarrow> write_personal us c = c"
  by (induction us) (simp add: write_personal_def, simp add: write_personal_Cons)

lemma card_id_write_personal [simp]: "card_id (write_personal us c) = card_id c"
  by (simp add: write_personal_def split: option.split)

lemma personal_updates_cards: "pu_card ` set (personal_updates i cs) \<subseteq> card_id ` set cs"
  by (induction cs arbitrary: i) auto

lemma stamp_Cons [simp]: "stamp i (c # cs) = c\<lparr>personal_sort_order := Some (of_nat (desired_order i))\<rparr> # stamp (Suc i) cs"
  by (simp add: stamp_def)

lemma stamp_Nil [simp]: "stamp i [] = []"
  by (simp add: stamp_def)

lemma map_card_id_stamp [simp]: "map card_id (stamp i cs) = map card_id cs"
  by (induction cs arbitrary: i) simp_all

lemma length_stamp [simp]: "length (stamp i cs) = length cs"
  by (simp add: stamp_def)

lemma stamp_nth: "n < length cs \<Longrightarrow> stamp i cs ! n = (cs ! n)\<lparr>personal_sort_order := Some (of_nat (desired_order (i + n)))\<rparr>"
  by (simp add: stamp_def nth_enumerate_eq)

lemma written_stamp: "distinct (map card_id cs) \<Longrightarrow> map (write_personal (personal_updates i cs)) cs = stamp i cs"
proof (induction cs arbitrary: i)
  case (Cons c cs)
  have other: "card_id c \<notin> pu_card ` set (personal_updates (Suc i) cs)"
    using Cons.prems personal_updates_cards [of "Suc i" cs] by auto
  have same: "map (write_personal (u # us)) cs = map (write_personal us) cs" if "pu_card u = card_id c" for u us
    unfolding map_eq_conv using Cons.prems that by (auto simp: write_personal_Cons image_iff)
  show ?case
  proof (cases "personal_sort_order c = Some (of_nat (desired_order i))")
    case True
    then have "c\<lparr>personal_sort_order := Some (of_nat (desired_order i))\<rparr> = c" by (cases c) simp
    with True Cons show ?thesis by (simp add: write_personal_other [OF other])
  next
    case False
    have "map (write_personal (\<lparr>pu_card = card_id c, pu_order = desired_order i\<rparr> # personal_updates (Suc i) cs)) cs =
        map (write_personal (personal_updates (Suc i) cs)) cs"
      by (rule same) simp
    also have "\<dots> = stamp (Suc i) cs" using Cons by simp
    finally have "map (write_personal (\<lparr>pu_card = card_id c, pu_order = desired_order i\<rparr> # personal_updates (Suc i) cs)) cs =
        stamp (Suc i) cs" .
    moreover have "write_personal (\<lparr>pu_card = card_id c, pu_order = desired_order i\<rparr> # us) c =
        c\<lparr>personal_sort_order := Some (of_nat (desired_order i))\<rparr>" for us
      by (simp add: write_personal_Cons)
    ultimately show ?thesis using False by simp
  qed
qed simp

lemma stamp_sorted: "sorted_wrt (\<lambda>x y. comparePersonal x y < 0) (stamp i cs)"
  unfolding sorted_wrt_iff_nth_less
  by (auto simp: stamp_nth comparePersonal_def then_cmp_def desired_order_def SORT_ORDER_STEP_def cmp_of_def)

lemma find_by_id: "x \<in> set rows \<Longrightarrow> distinct (map card_id rows) \<Longrightarrow> find (\<lambda>r. card_id r = card_id x) rows = Some x"
  by (induction rows) (auto simp: image_iff)

lemma mset_without: "x \<in> set rows \<Longrightarrow> distinct (map card_id rows) \<Longrightarrow>
   add_mset x (mset (filter (\<lambda>r. card_id r \<noteq> card_id x) rows)) = mset rows"
proof (induction rows)
  case (Cons r rs)
  show ?case
  proof (cases "x = r")
    case True
    then have "filter (\<lambda>y. card_id y \<noteq> card_id x) rs = rs" using Cons.prems by (auto simp: filter_id_conv image_iff)
    with True show ?thesis by simp
  next
    case False
    then have "card_id r \<noteq> card_id x" using Cons.prems by (auto simp: image_iff)
    with False Cons show ?thesis by (simp add: add_mset_commute)
  qed
qed simp

lemma reordered_Some:
  assumes "x \<in> set rows" "distinct (map card_id rows)"
  shows "reordered rows (card_id x) k = Some (final_order (filter (\<lambda>r. card_id r \<noteq> card_id x) rows) x k)"
  using find_by_id [OF assms] by (simp add: reordered_def)

lemma mset_reordered: "distinct (map card_id rows) \<Longrightarrow> reordered rows m k = Some ns \<Longrightarrow> mset ns = mset rows"
proof -
  assume d: "distinct (map card_id rows)" and r: "reordered rows m k = Some ns"
  from r obtain x where x: "find (\<lambda>r. card_id r = m) rows = Some x"
      "ns = final_order (filter (\<lambda>r. card_id r \<noteq> m) rows) x k" by (auto simp: reordered_def)
  then have "x \<in> set rows" "card_id x = m" by (auto simp: find_Some_iff)
  then show ?thesis using x(2) mset_without [OF _ d, of x] by (metis mset_final_order)
qed

text \<open>C19: 
  Moving a row of the reader's own order shows what is written: whatever orders the rows had,
  missing ones included, once the plan's writes arrived the rows sort exactly into the list shown
  at once, which has the row at its slot (clamped to the list) and the other rows in their order.
\<close>

theorem reorder_shows_what_is_written:
  assumes "distinct (map card_id rows)" and "x \<in> set rows"
    and "mset server = mset (map (write_personal (planPersonalReorder rows (card_id x) k)) rows)"
  shows "sortByPersonal server = applyPersonalReorder rows (card_id x) k \<and>
    map card_id (applyPersonalReorder rows (card_id x) k) =
      map card_id (final_order (filter (\<lambda>r. card_id r \<noteq> card_id x) rows) x k)"
proof -
  define ns where "ns = final_order (filter (\<lambda>r. card_id r \<noteq> card_id x) rows) x k"
  have r: "reordered rows (card_id x) k = Some ns" using reordered_Some [OF assms(2,1)] by (simp add: ns_def)
  have m: "mset ns = mset rows" using mset_reordered [OF assms(1) r] .
  then have d: "distinct (map card_id ns)" using assms(1) by (metis mset_eq_imp_distinct_iff mset_map)
  have "mset server = mset (map (write_personal (personal_updates 0 ns)) ns)"
    using assms(3) m by (simp add: planPersonalReorder_def r)
  then have "mset server = mset (stamp 0 ns)" by (simp only: written_stamp [OF d])
  then have "sortByPersonal server = stamp 0 ns"
    unfolding sortByPersonal_def by (intro personal.sort_strict stamp_sorted) simp
  then show ?thesis by (simp add: applyPersonalReorder_def r ns_def)
qed

theorem reorder_shows_what_is_written_witness:
  "sortByPersonal (map (write_personal (planPersonalReorder [wcard 1 [], wcard 2 [], wcard 3 []] (card_id (wcard 3 [])) 0))
       [wcard 1 [], wcard 2 [], wcard 3 []]) =
     applyPersonalReorder [wcard 1 [], wcard 2 [], wcard 3 []] (card_id (wcard 3 [])) 0 \<and>
   map card_id (applyPersonalReorder [wcard 1 [], wcard 2 [], wcard 3 []] (card_id (wcard 3 [])) 0) = [3, 1, 2]"
proof -
  let ?rs = "[wcard 1 [], wcard 2 [], wcard 3 []]"
  have "map card_id (final_order (filter (\<lambda>r. card_id r \<noteq> card_id (wcard 3 [])) ?rs) (wcard 3 []) 0) = [3, 1, 2]"
    by (simp add: wcard_def final_order_def drop_slot_def)
  moreover have "distinct (map card_id ?rs)" "wcard 3 [] \<in> set ?rs" by (simp_all add: wcard_def)
  ultimately show ?thesis
    using reorder_shows_what_is_written [of ?rs "wcard 3 []" "map (write_personal (planPersonalReorder ?rs (card_id (wcard 3 [])) 0)) ?rs" 0]
    by metis
qed

section \<open>Groups stand together\<close>

text \<open>A column the grouped order is meant for: its set values are all big ids, or none is.\<close>

definition is_big :: "js \<Rightarrow> bool" where
  "is_big v = (case v of JBig i \<Rightarrow> True | _ \<Rightarrow> False)"

definition uniform_column :: "string \<Rightarrow> card list \<Rightarrow> bool" where
  "uniform_column a rows =
     (let vs = filter (\<lambda>v. \<not> is_empty_value v) (map (\<lambda>r. prop_get (attributes r) a) rows)
      in list_all is_big vs \<or> (\<not> list_ex is_big vs \<and> \<not> list_ex (\<lambda>v. js_text v = GROUP_EMPTY_KEY) vs))"

text \<open>On such a column the grouped comparator is one that orders every pair of cards.\<close>

definition column_order :: "bool \<Rightarrow> string \<Rightarrow> sort_dir \<Rightarrow> card \<Rightarrow> card \<Rightarrow> int" where
  "column_order big a dir x y =
     (let k = (\<lambda>c. prop_get (attributes c) a);
          e = (\<lambda>c. is_empty_value (k c));
          num = (\<lambda>c. if e c then 0 else case k c of JBig i \<Rightarrow> if dir = SDesc then - i else i | _ \<Rightarrow> 0);
          lo = (\<lambda>c. if e c \<or> dir = SDesc then [] else js_text (k c));
          hi = (\<lambda>c. if e c \<or> dir = SAsc then [] else js_text (k c))
      in then_cmp (cmp_of (e x) (e y))
           (if big then cmp_of (num x) (num y) else then_cmp (cmp_of (lo x) (lo y)) (cmp_of (hi y) (hi x))))"

lemma js_comparator_column: "js_comparator (column_order big a dir)"
  unfolding column_order_def Let_def
  by (cases big; simp only: if_True if_False) (intro js_comparator_then js_comparator_cmp_of js_comparator_flip_of)+

lemma js_sort_cong: "(\<And>x y. x \<in> set xs \<Longrightarrow> y \<in> set xs \<Longrightarrow> c x y = d x y) \<Longrightarrow> js_sort c xs = js_sort d xs"
proof (induction xs)
  case (Cons x xs)
  have "js_insert c x ys = js_insert d x ys" if "set ys \<subseteq> set xs" for ys
    using that Cons.prems by (induction ys) auto
  with Cons show ?case by simp
qed simp

lemma group_part_column:
  assumes "uniform_column a rows"
  obtains big where "\<And>x y. x \<in> set rows \<Longrightarrow> y \<in> set rows \<Longrightarrow> group_part a dir x y = column_order big a dir x y"
    and "\<And>x y. x \<in> set rows \<Longrightarrow> y \<in> set rows \<Longrightarrow> column_order big a dir x y = 0 \<longleftrightarrow>
           group_key (prop_get (attributes x) a) = group_key (prop_get (attributes y) a)"
    and "\<And>x. x \<in> set rows \<Longrightarrow> group_key (prop_get (attributes x) a) = GROUP_EMPTY_KEY \<longleftrightarrow> is_empty_value (prop_get (attributes x) a)"
proof -
  define val where "val = (\<lambda>c :: card. prop_get (attributes c) a)"
  define vs where "vs = filter (\<lambda>v. \<not> is_empty_value v) (map val rows)"
  have in_vs: "\<not> is_empty_value (val x) \<Longrightarrow> x \<in> set rows \<Longrightarrow> val x \<in> set vs" for x by (auto simp: vs_def)
  have dirs: "dir = SAsc \<or> dir = SDesc" by (cases dir) simp_all
  consider (big) "list_all is_big vs" | (plain) "\<not> list_ex is_big vs" "\<not> list_ex (\<lambda>v. js_text v = GROUP_EMPTY_KEY) vs"
    using assms by (auto simp: uniform_column_def Let_def vs_def val_def)
  then show ?thesis
  proof cases
    case big
    have b: "\<exists>i. val x = JBig i" if "x \<in> set rows" "\<not> is_empty_value (val x)" for x
      using bspec [OF big [unfolded list_all_iff] in_vs [OF that(2,1)]] by (cases "val x") (simp_all add: is_big_def)
    have ne: "int_text i \<noteq> GROUP_EMPTY_KEY" for i
    proof
      assume "int_text i = GROUP_EMPTY_KEY"
      moreover have "\<not> is_int_text GROUP_EMPTY_KEY" by code_simp
      ultimately show False using is_int_text_int_text [of i] by simp
    qed
    show ?thesis
    proof (rule that [of True])
      fix x y assume xy: "x \<in> set rows" "y \<in> set rows"
      show "group_part a dir x y = column_order True a dir x y"
        using b [OF xy(1)] b [OF xy(2)] dirs
        by (auto simp: group_part_def column_order_def Let_def then_cmp_def cmp_of_def compareGroupValue_def val_def)
      show "column_order True a dir x y = 0 \<longleftrightarrow> group_key (prop_get (attributes x) a) = group_key (prop_get (attributes y) a)"
        using b [OF xy(1)] b [OF xy(2)] dirs ne ne [symmetric]
        by (auto simp: group_key_def column_order_def Let_def then_cmp_def val_def)
      show "group_key (prop_get (attributes x) a) = GROUP_EMPTY_KEY \<longleftrightarrow> is_empty_value (prop_get (attributes x) a)"
        using b [OF xy(1)] ne by (auto simp: group_key_def val_def)
    qed
  next
    case plain
    have b: "\<not> is_big (val x) \<and> js_text (val x) \<noteq> GROUP_EMPTY_KEY" if "x \<in> set rows" "\<not> is_empty_value (val x)" for x
      using plain in_vs [OF that(2,1)] by (auto simp: list_ex_iff)
    have cg: "compareGroupValue v w = cmp_of (js_text v) (js_text w)" if "\<not> is_big v" for v w
      using that by (cases v) (simp_all add: compareGroupValue_def is_big_def)
    show ?thesis
    proof (rule that [of False])
      fix x y assume xy: "x \<in> set rows" "y \<in> set rows"
      show "group_part a dir x y = column_order False a dir x y"
        using b [OF xy(1)] b [OF xy(2)] dirs
        by (auto simp: group_part_def column_order_def Let_def then_cmp_def cmp_of_def cg val_def)
      show "column_order False a dir x y = 0 \<longleftrightarrow> group_key (prop_get (attributes x) a) = group_key (prop_get (attributes y) a)"
        using b [OF xy(1)] b [OF xy(2)] dirs
        by (auto simp: group_key_def column_order_def Let_def then_cmp_def val_def)
      show "group_key (prop_get (attributes x) a) = GROUP_EMPTY_KEY \<longleftrightarrow> is_empty_value (prop_get (attributes x) a)"
        using b [OF xy(1)] by (auto simp: group_key_def val_def)
    qed
  qed
qed

lemma sorted_heads: "sorted_wrt r xs \<Longrightarrow> sorted_wrt r (map hd (runs key xs))"
proof (induction key xs rule: runs.induct)
  case (2 key x xs)
  let ?rest = "dropWhile (\<lambda>y. key y = key x) xs"
  have "sorted_wrt r (takeWhile (\<lambda>y. key y = key x) xs @ ?rest)" using "2.prems" by simp
  then have "sorted_wrt r ?rest" by (simp only: sorted_wrt_append)
  moreover have "\<forall>y \<in> set xs. r x y" using "2.prems" by simp
  then have "\<forall>y \<in> hd ` set (runs key ?rest). r x y"
    using runs_heads_subset [of key ?rest] by (auto dest: set_dropWhileD)
  ultimately show ?case using "2.IH" by simp
qed simp

text \<open>
  A grouped list has one header for each value of its column, the unset group's last in both
  directions, and shows every row once, numbered from zero in the order shown.
\<close>

theorem one_header_per_group:
  fixes dir :: sort_dir and labelOf :: "js \<Rightarrow> string"
  assumes "uniform_column a rows"
  defines "items \<equiv> walkGrouped attributes (sortGrouped rows a dir) (Some a) labelOf"
  shows "distinct (headers_in items) \<and> GROUP_EMPTY_KEY \<notin> set (butlast (headers_in items)) \<and>
    mset (map fst (rows_in items)) = mset rows \<and> map snd (rows_in items) = [0 ..< length rows]"
proof -
  define key where "key = (\<lambda>r :: card. group_key (prop_get (attributes r) a))"
  obtain big where eq: "\<And>x y. x \<in> set rows \<Longrightarrow> y \<in> set rows \<Longrightarrow> group_part a dir x y = column_order big a dir x y"
      and tie: "\<And>x y. x \<in> set rows \<Longrightarrow> y \<in> set rows \<Longrightarrow> column_order big a dir x y = 0 \<longleftrightarrow> key x = key y"
      and empty: "\<And>x. x \<in> set rows \<Longrightarrow> key x = GROUP_EMPTY_KEY \<longleftrightarrow> is_empty_value (prop_get (attributes x) a)"
    using group_part_column [OF assms(1), of dir] unfolding key_def by blast
  define col where "col = column_order big a dir"
  have c: "js_comparator col" unfolding col_def by (rule js_comparator_column)
  have both: "js_comparator (\<lambda>x y. then_cmp (col x y) (comparePersonal x y))"
    by (rule js_comparator_then [OF c personal.js_comparator_axioms])
  define ys where "ys = sortGrouped rows a dir"
  have ys: "ys = js_sort (\<lambda>x y. then_cmp (col x y) (comparePersonal x y)) rows"
    unfolding ys_def sortGrouped_def col_def by (rule js_sort_cong) (simp add: eq)
  have set_ys: "set ys = set rows" by (simp add: ys)
  have sorted: "sorted_wrt (\<lambda>x y. col x y \<le> 0) ys"
    using js_comparator.ordered_sort [OF both, of rows] unfolding ys js_comparator.ordered_def [OF both]
    by (rule sorted_wrt_mono_rel [rotated]) (auto simp: then_cmp_def split: if_splits)
  have hs: "headers_in items = map (key \<circ> hd) (runs key ys)"
    unfolding items_def ys_def [symmetric] walkGrouped_headers key_def ..
  have dist: "distinct (headers_in items)"
    unfolding hs
  proof (rule tied_headers_distinct [OF sorted])
    fix x y z assume in_ys: "x \<in> set ys" "y \<in> set ys" "z \<in> set ys" and le: "col y z \<le> 0" "col x y \<le> 0" and k: "key z = key x"
    have "col z x = 0" using tie [of z x] in_ys k by (simp add: set_ys col_def)
    then have "col y x \<le> 0" using js_comparator.cmp_trans [OF c le(1), of x] by simp
    then have "col x y = 0" using le(2) by (simp add: js_comparator.cmp_eq_iff [OF c])
    then show "key y = key x" using tie [of x y] in_ys by (simp add: set_ys col_def)
  qed
  have last: "GROUP_EMPTY_KEY \<notin> set (butlast (headers_in items))"
  proof
    assume "GROUP_EMPTY_KEY \<in> set (butlast (headers_in items))"
    then obtain i where i: "i < length (butlast (headers_in items))" "butlast (headers_in items) ! i = GROUP_EMPTY_KEY"
      by (auto simp: in_set_conv_nth)
    define heads where "heads = map hd (runs key ys)"
    define j where "j = length heads - 1"
    have len: "length (headers_in items) = length heads" by (simp add: hs heads_def)
    then have ij: "i < j" "j < length heads" using i by (auto simp: j_def)
    have keys: "n < length heads \<Longrightarrow> headers_in items ! n = key (heads ! n)" for n by (simp add: hs heads_def)
    have in_rows: "n < length heads \<Longrightarrow> heads ! n \<in> set rows" for n
      using runs_heads_subset [of key ys] nth_mem [of n heads] by (auto simp: heads_def set_ys)
    have "col (heads ! i) (heads ! j) \<le> 0"
      using sorted_heads [OF sorted, of key] ij by (simp add: heads_def sorted_wrt_iff_nth_less)
    moreover have ki: "key (heads ! i) = GROUP_EMPTY_KEY" using i keys [of i] ij by (simp add: nth_butlast)
    moreover have "key (heads ! i) \<noteq> key (heads ! j)"
      using dist ij keys len by (metis less_trans nth_eq_iff_index_eq nat_neq_iff)
    moreover have "is_empty_value (prop_get (attributes (heads ! i)) a)" using ki empty in_rows ij by auto
    ultimately have "key (heads ! j) = GROUP_EMPTY_KEY"
      using empty [OF in_rows [OF ij(2)]] by (auto simp: col_def column_order_def Let_def then_cmp_def cmp_of_def split: if_splits)
    with ki \<open>key (heads ! i) \<noteq> key (heads ! j)\<close> show False by simp
  qed
  have rows: "rows_in items = zip ys [0 ..< length ys]"
    unfolding items_def ys_def [symmetric] by (rule walkGrouped_rows)
  have "mset ys = mset rows" by (simp add: ys)
  with dist last show ?thesis using mset_eq_length [of ys rows] by (simp add: rows)
qed

theorem one_header_per_group_witness:
  "distinct (headers_in (walkGrouped attributes (sortGrouped [wcard 1 [], wcard 2 [(''status'', JBig 9)], wcard 3 [(''status'', JBig 10)], wcard 4 [(''status'', JBig 9)]] ''status'' SDesc) (Some ''status'') js_text)) \<and>
   GROUP_EMPTY_KEY \<notin> set (butlast (headers_in (walkGrouped attributes (sortGrouped [wcard 1 [], wcard 2 [(''status'', JBig 9)], wcard 3 [(''status'', JBig 10)], wcard 4 [(''status'', JBig 9)]] ''status'' SDesc) (Some ''status'') js_text)))"
  using one_header_per_group [of "''status''" "[wcard 1 [], wcard 2 [(''status'', JBig 9)], wcard 3 [(''status'', JBig 10)], wcard 4 [(''status'', JBig 9)]]" SDesc js_text]
  by (simp add: uniform_column_def wcard_def is_empty_value_def is_big_def)

end
