(* ===== verification/CardList.thy ===== *)
theory CardList
  imports Inbox FilterPredicateSpec
begin

text \<open>
  The behaviour every list of cards shares, \<^verbatim>\<open>cardlist/core.ts\<close> and \<^verbatim>\<open>ui/drag-placeholder.ts\<close>: the
  query a list asks, the items it shows, its cursor, its selection and the reader's own order.
  The tree leaves the class keeps are fields of the state. The list's rows are rendered to items
  by an effect, so \<open>items\<close> stays what the last render made of the rows until \<open>render_items\<close>; a reorder
  that writes renders at once, since an optimistic patch ends a batch.

  Main results: the query asks for exactly the cards that the search, the filter, the screen's
  scope and the toggles all let through; a moved row takes the cursor along, flat and grouped, and
  never leaves its group; a restored cursor is on the remembered card; extending a selection adds
  exactly the rows between.
\<close>

section \<open>Configuration and state\<close>

record list_config =
  lc_group :: bool
  lc_personalSort :: bool
  lc_viewToggles :: bool
  lc_flagAttr :: "string option"
  lc_openParent :: bool
  lc_openRoute :: "string option"
  lc_orphan :: "(string \<times> string) option"
  lc_order :: "(string \<times> string) list option"
  lc_currentUser :: "int option"

text \<open>The leaves of the screen the list reads; an absent card type is \<open>task\<close> for the cursor's key.\<close>

record screen_leaves =
  sl_search :: string
  sl_searchFields :: "string list"
  sl_predicate :: "predicate option"
  sl_scopeTree :: "wire option"
  sl_cardType :: "string option"
  sl_project :: "int option"
  sl_mineOnly :: bool
  sl_routedToMe :: bool
  sl_authUser :: "int option"

record asked =
  ask_query :: query
  ask_order :: "(string \<times> string) list"
  ask_personal :: bool
  ask_routed :: bool

record card_list =
  conf :: list_config
  leaves :: screen_leaves
  rows :: "card list"
  items :: "card group_item list"
  loaded :: bool
  flaggedOnly :: bool
  selectedIndex :: int
  cursorRestored :: bool
  grp :: "group_attr option"
  groupDir :: sort_dir
  anchor :: "string option"
  selection :: "string list"
  remembered :: "((string \<times> int) \<times> int) list"
  lookups :: "(string \<times> string props) list"
  versions :: "nat \<times> nat \<times> nat"
  asks :: asked
  sent :: "personal_update list"
  opened :: "(int \<times> string option) list"

definition bump_group :: "card_list \<Rightarrow> card_list" where
  "bump_group s = s\<lparr>versions := (case versions s of (g, q, v) \<Rightarrow> (Suc g, q, v))\<rparr>"

definition bumpQuery :: "card_list \<Rightarrow> card_list" where
  "bumpQuery s = s\<lparr>versions := (case versions s of (g, q, v) \<Rightarrow> (g, Suc q, v))\<rparr>"

section \<open>What the list shows\<close>

definition isOrphan :: "card_list \<Rightarrow> card \<Rightarrow> bool" where
  "isOrphan s c \<longleftrightarrow> lc_orphan (conf s) \<noteq> None \<and> parent_card_id c \<noteq> None \<and> sl_project (leaves s) = parent_card_id c"

definition orphansFirst :: "card_list \<Rightarrow> card list \<Rightarrow> card list" where
  "orphansFirst s cs = (if lc_orphan (conf s) = None then cs
     else let first = filter (isOrphan s) cs in
       if first = [] then cs else first @ filter (\<lambda>r. \<not> isOrphan s r) cs)"

definition bare_id :: "string \<Rightarrow> int option" where
  "bare_id search = (let needle = js_trim search in
     if needle \<noteq> '''' \<and> list_all is_digit needle then Some (int (digits_val needle)) else None)"

definition idFirst :: "card_list \<Rightarrow> card list \<Rightarrow> card list" where
  "idFirst s cs = (case bare_id (sl_search (leaves s)) of
     None \<Rightarrow> cs
   | Some want \<Rightarrow>
       let i = length (takeWhile (\<lambda>r. card_id r \<noteq> want) cs) in
       if i = 0 \<or> i = length cs then cs else cs ! i # take i cs @ drop (Suc i) cs)"

definition orderRows :: "card_list \<Rightarrow> card list \<Rightarrow> card list" where
  "orderRows s cs = (case grp s of
     Some g \<Rightarrow> sortGrouped cs (group_attr.attr g) (groupDir s)
   | None \<Rightarrow> idFirst s (orphansFirst s (if lc_personalSort (conf s) then sortByPersonal cs else cs)))"

definition getLookup :: "card_list \<Rightarrow> string \<Rightarrow> string props" where
  "getLookup s name = (case map_of (lookups s) name of Some m \<Rightarrow> m | None \<Rightarrow> [])"

definition groupKeyLabel :: "card_list \<Rightarrow> string option \<Rightarrow> js \<Rightarrow> string" where
  "groupKeyLabel s lk key = (case lk of
     None \<Rightarrow> js_text key
   | Some name \<Rightarrow> (case asAttrId key of
       None \<Rightarrow> js_text key
     | Some i \<Rightarrow> (case map_of (getLookup s name) (int_text i) of Some l \<Rightarrow> l | None \<Rightarrow> ''#'' @ int_text i)))"

definition computeItems :: "card_list \<Rightarrow> card list \<Rightarrow> card group_item list" where
  "computeItems s cs = (case grp s of
     None \<Rightarrow> walkGrouped attributes (orderRows s cs) None (\<lambda>_. '''')
   | Some g \<Rightarrow> walkGrouped attributes (sortGrouped cs (group_attr.attr g) (groupDir s)) (Some (group_attr.attr g))
       (groupKeyLabel s (group_attr.lookup g)))"

definition render_items :: "card_list \<Rightarrow> card_list" where
  "render_items s = s\<lparr>items := computeItems s (rows s)\<rparr>"

definition displayRows :: "card_list \<Rightarrow> card list" where
  "displayRows s = map fst (rows_in (items s))"

definition labelOf :: "card \<Rightarrow> string" where
  "labelOf c = (let t = prop_get (attributes c) ''title'';
      v = (if t = JNull \<or> t = JUndef then prop_get (attributes c) ''name'' else t) in
    case v of JStr s \<Rightarrow> if s \<noteq> '''' then s else ''#'' @ int_text (card_id c) | _ \<Rightarrow> ''#'' @ int_text (card_id c))"

definition titleOf :: "card \<Rightarrow> string" where
  "titleOf c = (case prop_get (attributes c) ''title'' of JStr s \<Rightarrow> if s \<noteq> '''' then s else ''(untitled)'' | _ \<Rightarrow> ''(untitled)'')"

definition landLabels :: "string \<Rightarrow> card list \<Rightarrow> card_list \<Rightarrow> card_list" where
  "landLabels name cs s = s\<lparr>lookups := map_put name (fold (\<lambda>r m. obj_put (int_text (card_id r)) (labelOf r) m) cs []) (lookups s)\<rparr>"

section \<open>The query\<close>

definition resolveUserId :: "card_list \<Rightarrow> int option" where
  "resolveUserId s = (case lc_currentUser (conf s) of Some u \<Rightarrow> Some u | None \<Rightarrow> sl_authUser (leaves s))"

definition toggle_leaves :: "card_list \<Rightarrow> wire list" where
  "toggle_leaves s =
     (case lc_flagAttr (conf s) of
        Some a \<Rightarrow> if flaggedOnly s then [[(''attr'', JStr a), (''op'', JStr ''eq''), (''values'', JArr [JBool False])]] else []
      | None \<Rightarrow> []) @
     (case resolveUserId s of
        Some me \<Rightarrow> if lc_viewToggles (conf s) \<and> sl_mineOnly (leaves s)
          then [[(''attr'', JStr ''assignee''), (''op'', JStr ''=''), (''values'', JArr [JBig me])]] else []
      | None \<Rightarrow> [])"

definition add_leaf :: "wire \<Rightarrow> query \<Rightarrow> query" where
  "add_leaf l q = (case q_tree q of
     None \<Rightarrow> q\<lparr>q_where := Some ((case q_where q of Some ws \<Rightarrow> ws | None \<Rightarrow> []) @ [l])\<rparr>
   | Some t \<Rightarrow> q\<lparr>q_tree := Some (case (prop_get t ''connective'', prop_get t ''children'') of
       (JStr c, JArr cs) \<Rightarrow> if c = ''and'' then [(''connective'', JStr ''and''), (''children'', JArr (cs @ [JObj l]))] else and_node [t, l]
     | _ \<Rightarrow> and_node [t, l])\<rparr>)"

definition list_query :: "card_list \<Rightarrow> query" where
  "list_query s =
     (let base = applySearchFilter (sl_search (leaves s)) (sl_searchFields (leaves s)) (sl_predicate (leaves s))
      in fold add_leaf (toggle_leaves s) (withScopeTree (q_where base) (q_tree base) (sl_scopeTree (leaves s))))"

definition list_order :: "card_list \<Rightarrow> (string \<times> string) list \<Rightarrow> (string \<times> string) list" where
  "list_order s extra =
     (let by_group = (case grp s of
            Some g \<Rightarrow> if tagPrefix g = None then [(''attributes.'' @ group_attr.attr g, if groupDir s = SAsc then ''ASC'' else ''DESC'')] else []
          | None \<Rightarrow> []);
          with_extra = fold (\<lambda>o' out. if list_ex (\<lambda>x. fst x = fst o') out then out else out @ [o']) extra by_group;
          order = with_extra @ (if lc_personalSort (conf s) then [(''personal_sort_order'', ''ASC''), (''created_at'', ''DESC'')] else [])
      in if order = [] then (case lc_order (conf s) of Some o' \<Rightarrow> o' | None \<Rightarrow> [(''created_at'', ''DESC'')]) else order)"

definition applyFilterAndOrder :: "(string \<times> string) list \<Rightarrow> card_list \<Rightarrow> card_list" where
  "applyFilterAndOrder extra s = s\<lparr>asks := \<lparr>ask_query = list_query s, ask_order = list_order s extra,
     ask_personal = lc_personalSort (conf s), ask_routed = lc_viewToggles (conf s) \<and> sl_routedToMe (leaves s)\<rparr>\<rparr>"

text \<open>The effect on the group axis, and a click on a group's header.\<close>

definition on_group_axis :: "group_attr option \<Rightarrow> card_list \<Rightarrow> card_list" where
  "on_group_axis g s =
     (let s1 = (if map_option group_attr.attr g \<noteq> map_option group_attr.attr (grp s) then s\<lparr>groupDir := SAsc\<rparr> else s)
      in bumpQuery (applyFilterAndOrder [] (bump_group (s1\<lparr>grp := g\<rparr>))))"

definition toggle_dir :: "card_list \<Rightarrow> card_list" where
  "toggle_dir s = (if grp s = None then s
     else bumpQuery (applyFilterAndOrder [] (bump_group (s\<lparr>groupDir := (if groupDir s = SAsc then SDesc else SAsc)\<rparr>))))"

section \<open>Cursor\<close>

definition cursor_key :: "card_list \<Rightarrow> (string \<times> int) option" where
  "cursor_key s = map_option (\<lambda>p. (case sl_cardType (leaves s) of Some t \<Rightarrow> t | None \<Rightarrow> ''task'', p)) (sl_project (leaves s))"

definition rememberedCursorId :: "card_list \<Rightarrow> int option" where
  "rememberedCursorId s = Option.bind (cursor_key s) (map_of (remembered s))"

definition rememberCardId :: "int \<Rightarrow> card_list \<Rightarrow> card_list" where
  "rememberCardId i s = (case cursor_key s of Some k \<Rightarrow> s\<lparr>remembered := map_put k i (remembered s)\<rparr> | None \<Rightarrow> s)"

definition row_at :: "card_list \<Rightarrow> int \<Rightarrow> card option" where
  "row_at s i = (if 0 \<le> i \<and> nat i < length (displayRows s) then Some (displayRows s ! nat i) else None)"

definition rememberCursor :: "card_list \<Rightarrow> card_list" where
  "rememberCursor s = (case row_at s (selectedIndex s) of Some c \<Rightarrow> rememberCardId (card_id c) s | None \<Rightarrow> s)"

definition landCards :: "card list \<Rightarrow> card_list \<Rightarrow> card_list" where
  "landCards cs s =
     (let idx = (if cursorRestored s then selectedIndex s else
            (case rememberedCursorId s of
               None \<Rightarrow> selectedIndex s
             | Some want \<Rightarrow>
                 let i = length (takeWhile (\<lambda>c. card_id c \<noteq> want) (orderRows s cs)) in
                 if i < length (orderRows s cs) then int i else selectedIndex s));
          idx' = (if int (length cs) \<le> idx then max 0 (int (length cs) - 1) else idx)
      in s\<lparr>loaded := True, cursorRestored := True, selectedIndex := idx', rows := cs\<rparr>)"

definition moveSelection :: "int \<Rightarrow> card_list \<Rightarrow> card_list" where
  "moveSelection delta s =
     (let n = int (length (displayRows s)) in
      if n = 0 then s else rememberCursor (s\<lparr>selectedIndex := max 0 (min (n - 1) (selectedIndex s + delta))\<rparr>))"

definition openTargetId :: "card_list \<Rightarrow> card \<Rightarrow> int option" where
  "openTargetId s c = (if isOrphan s c then Some (card_id c) else if lc_openParent (conf s) then parent_card_id c else Some (card_id c))"

definition openRouteOf :: "card_list \<Rightarrow> card \<Rightarrow> string option" where
  "openRouteOf s c = (if isOrphan s c then map_option snd (lc_orphan (conf s)) else lc_openRoute (conf s))"

definition openRowIndex :: "int \<Rightarrow> card_list \<Rightarrow> card_list" where
  "openRowIndex i s = (case row_at s i of
     None \<Rightarrow> s
   | Some c \<Rightarrow>
       let s1 = rememberCardId (card_id c) (s\<lparr>selectedIndex := i\<rparr>) in
       (case openTargetId s c of Some t \<Rightarrow> s1\<lparr>opened := opened s1 @ [(t, openRouteOf s c)]\<rparr> | None \<Rightarrow> s1))"

section \<open>The reader's own order\<close>

definition groupKeyOf :: "card_list \<Rightarrow> card \<Rightarrow> string" where
  "groupKeyOf s c = (case grp s of None \<Rightarrow> '''' | Some g \<Rightarrow> group_key (prop_get (attributes c) (group_attr.attr g)))"

definition groupSpan :: "card_list \<Rightarrow> card list \<Rightarrow> string \<Rightarrow> nat \<times> nat" where
  "groupSpan s cs gk =
     (let is = filter (\<lambda>i. groupKeyOf s (cs ! i) = gk) [0 ..< length cs]
      in if is = [] then (0, 0) else (hd is, Suc (last is)))"

text \<open>The optimistic patch of one write.\<close>

definition patch_row :: "personal_update \<Rightarrow> card list \<Rightarrow> card list" where
  "patch_row u = map (\<lambda>r. if card_id r = pu_card u then r\<lparr>personal_sort_order := Some (of_nat (pu_order u))\<rparr> else r)"

definition reorderTo :: "int \<Rightarrow> int \<Rightarrow> card_list \<Rightarrow> card_list" where
  "reorderTo movedId insertAt s =
     (if \<not> lc_personalSort (conf s) then s
      else let cs = displayRows s;
             updates = planPersonalReorder cs movedId insertAt;
             s1 = bump_group (s\<lparr>rows := applyPersonalReorder cs movedId insertAt\<rparr>)
        in if updates = [] then s1
           else render_items (s1\<lparr>rows := fold patch_row updates (rows s1), sent := sent s1 @ updates\<rparr>))"

definition reorderSelected :: "int \<Rightarrow> card_list \<Rightarrow> card_list" where
  "reorderSelected delta s =
     (if \<not> lc_personalSort (conf s) then s
      else case row_at s (selectedIndex s) of
        None \<Rightarrow> s
      | Some row \<Rightarrow>
          let cs = displayRows s;
              n = move (int (length cs)) (selectedIndex s) delta;
              n' = (if grp s = None then n
                    else case groupSpan s cs (groupKeyOf s row) of (lo, hi) \<Rightarrow> max (int lo) (min (int hi - 1) n))
          in if length cs < 2 \<or> n' = selectedIndex s then s
             else rememberCursor ((reorderTo (card_id row) n' s)\<lparr>selectedIndex := n'\<rparr>))"

text \<open>A drop at a slot; the cursor lands on the row that moved.\<close>

definition drop_row :: "int \<Rightarrow> int \<Rightarrow> card_list \<Rightarrow> card_list" where
  "drop_row dragged slot s =
     (let s1 = reorderTo dragged slot s;
          i = length (takeWhile (\<lambda>r. card_id r \<noteq> dragged) (displayRows s1))
      in if i < length (displayRows s1) then rememberCursor (s1\<lparr>selectedIndex := int i\<rparr>) else s1)"

section \<open>Selection\<close>

definition orderedRowIds :: "card_list \<Rightarrow> string list" where
  "orderedRowIds s = map (\<lambda>c. int_text (card_id c)) (displayRows s)"

definition setSelection :: "string list \<Rightarrow> card_list \<Rightarrow> card_list" where
  "setSelection ids s = s\<lparr>selection := ids, versions := (case versions s of (g, q, v) \<Rightarrow> (g, q, Suc v))\<rparr>"

definition set_add :: "string \<Rightarrow> string list \<Rightarrow> string list" where
  "set_add x xs = (if x \<in> set xs then xs else xs @ [x])"

definition position :: "string \<Rightarrow> string list \<Rightarrow> nat option" where
  "position x xs = (if x \<in> set xs then Some (length (takeWhile (\<lambda>y. y \<noteq> x) xs)) else None)"

definition toggle_one :: "string \<Rightarrow> card_list \<Rightarrow> card_list" where
  "toggle_one i s = (setSelection (if i \<in> set (selection s) then filter (\<lambda>x. x \<noteq> i) (selection s) else selection s @ [i]) s)
     \<lparr>anchor := Some i\<rparr>"

definition toggleRowSelection :: "string \<Rightarrow> bool \<Rightarrow> card_list \<Rightarrow> card_list" where
  "toggleRowSelection i ext s =
     (if i = '''' then s
      else case anchor s of
        None \<Rightarrow> toggle_one i s
      | Some a \<Rightarrow>
          if ext \<and> a \<noteq> i then
            (case (position a (orderedRowIds s), position i (orderedRowIds s)) of
               (Some x, Some y) \<Rightarrow>
                 (setSelection (fold set_add (take (Suc (max x y) - min x y) (drop (min x y) (orderedRowIds s))) (selection s)) s)
                   \<lparr>anchor := Some i\<rparr>
             | _ \<Rightarrow> toggle_one i s)
          else toggle_one i s)"

datatype select_state = None_selected | Some_selected | All_selected

definition selectAllState :: "card_list \<Rightarrow> select_state" where
  "selectAllState s =
     (let ids = orderedRowIds s; hits = length (filter (\<lambda>i. i \<in> set (selection s)) ids) in
      if ids = [] \<or> hits = 0 then None_selected else if hits = length ids then All_selected else Some_selected)"

definition toggleSelectAll :: "card_list \<Rightarrow> card_list" where
  "toggleSelectAll s = (if selectAllState s = All_selected then setSelection [] s
     else setSelection (fold set_add (orderedRowIds s) (selection s)) s)"

section \<open>Where a drag would drop\<close>

text \<open>A row of the viewport: hidden (a parked slot) or not, its card, its top and bottom.\<close>

record row_box =
  box_hidden :: bool
  box_card :: string
  box_top :: rat
  box_bottom :: rat

definition skipped :: "string \<Rightarrow> (string \<Rightarrow> bool) \<Rightarrow> row_box \<Rightarrow> bool" where
  "skipped dragged ok b \<longleftrightarrow> box_hidden b \<or> box_card b = dragged \<or> \<not> ok (box_card b) \<or> (box_top b = 0 \<and> box_bottom b = 0)"

fun drop_loop :: "rat \<Rightarrow> string \<Rightarrow> (string \<Rightarrow> bool) \<Rightarrow> rat \<Rightarrow> row_box list \<Rightarrow> nat \<Rightarrow> rat \<Rightarrow> nat \<times> rat" where
  "drop_loop y dragged ok off [] slot lastBottom = (slot, lastBottom)"
| "drop_loop y dragged ok off (b # bs) slot lastBottom =
     (if skipped dragged ok b then drop_loop y dragged ok off bs slot lastBottom
      else if y < box_top b + (box_bottom b - box_top b) / 2 then (slot, box_top b + off)
      else drop_loop y dragged ok off bs (Suc slot) (box_bottom b + off))"

text \<open>\<open>viewTop\<close> is the viewport's own top edge.\<close>

definition computeDropTarget :: "rat \<Rightarrow> rat \<Rightarrow> row_box list \<Rightarrow> rat \<Rightarrow> string \<Rightarrow> (string \<Rightarrow> bool) \<Rightarrow> nat \<times> rat" where
  "computeDropTarget viewTop scrollTop boxes y dragged ok =
     drop_loop y dragged ok (scrollTop - viewTop) boxes 0 0"

definition dropTargetFor :: "rat \<Rightarrow> rat \<Rightarrow> row_box list \<Rightarrow> rat \<Rightarrow> int \<Rightarrow> card_list \<Rightarrow> int \<times> rat" where
  "dropTargetFor viewTop scrollTop boxes y dragged s =
     (if grp s = None then (case computeDropTarget viewTop scrollTop boxes y (int_text dragged) (\<lambda>_. True) of (k, y') \<Rightarrow> (int k, y'))
      else let cs = displayRows s;
             gk = (case find (\<lambda>r. card_id r = dragged) cs of Some r \<Rightarrow> groupKeyOf s r | None \<Rightarrow> '''');
             same = map (\<lambda>r. int_text (card_id r)) (filter (\<lambda>r. groupKeyOf s r = gk) cs);
             lo = length (takeWhile (\<lambda>r. groupKeyOf s r \<noteq> gk) cs);
             lo' = (if lo < length cs then lo else 0)
        in case computeDropTarget viewTop scrollTop boxes y (int_text dragged) (\<lambda>i. i \<in> set same) of
             (k, y') \<Rightarrow> (int lo' + int k, y'))"

section \<open>The query asks for what is shown\<close>






definition wlist :: card_list where
  "wlist = \<lparr>conf = \<lparr>lc_group = True, lc_personalSort = True, lc_viewToggles = True, lc_flagAttr = Some ''acked'',
       lc_openParent = False, lc_openRoute = Some ''task'', lc_orphan = None, lc_order = None, lc_currentUser = None\<rparr>,
     leaves = \<lparr>sl_search = ''12'', sl_searchFields = [''title''],
       sl_predicate = Some (Leaf (mk_leaf ''status'' Op_in (Some [jint 3]))), sl_scopeTree = None, sl_cardType = Some ''task'',
       sl_project = Some 7, sl_mineOnly = True, sl_routedToMe = False, sl_authUser = Some 4\<rparr>,
     rows = [], items = [], loaded = False, flaggedOnly = True, selectedIndex = 0, cursorRestored = False, grp = None,
     groupDir = SAsc, anchor = None, selection = [], remembered = [], lookups = [], versions = (0, 0, 0),
     asks = \<lparr>ask_query = \<lparr>q_where = None, q_tree = None\<rparr>, ask_order = [], ask_personal = False, ask_routed = False\<rparr>,
     sent = [], opened = []\<rparr>"



section \<open>The cursor\<close>

lemma displayRows_render: "displayRows (render_items s) = orderRows s (rows s)"
proof (cases "grp s")
  case None
  have "walkGrouped attributes cs None lab = row_items 0 cs" for cs :: "card list" and lab
    by (simp add: walkGrouped_def row_items_def)
  with None show ?thesis by (simp add: displayRows_def render_items_def computeItems_def)
next
  case (Some g)
  then show ?thesis by (simp add: displayRows_def render_items_def computeItems_def orderRows_def walkGrouped_rows)
qed

lemma orderRows_same:
  assumes "conf s = conf t" "leaves s = leaves t" "grp s = grp t" "groupDir s = groupDir t"
  shows "orderRows s = orderRows t"
proof -
  have "isOrphan s = isOrphan t" by (rule ext) (simp add: isOrphan_def assms)
  then have "idFirst s cs = idFirst t cs" "orphansFirst s cs = orphansFirst t cs" for cs
    by (simp_all add: idFirst_def orphansFirst_def assms Let_def)
  then show ?thesis by (intro ext) (simp only: orderRows_def assms)
qed

lemma mset_idFirst [simp]: "mset (idFirst s cs) = mset cs"
proof (cases "bare_id (sl_search (leaves s))")
  case (Some want)
  define i where "i = length (takeWhile (\<lambda>r. card_id r \<noteq> want) cs)"
  have "i \<le> length cs" by (simp add: i_def length_takeWhile_le)
  then have "i < length cs \<or> i = length cs" by auto
  moreover have "mset (cs ! i # take i cs @ drop (Suc i) cs) = mset cs" if "i < length cs"
    using arg_cong [OF id_take_nth_drop [OF that], of mset] by simp
  ultimately show ?thesis by (auto simp: idFirst_def Some Let_def i_def [symmetric] simp del: mset.simps mset_append)
qed (simp add: idFirst_def)

lemma mset_orphansFirst [simp]: "mset (orphansFirst s cs) = mset cs"
  by (auto simp: orphansFirst_def Let_def)

lemma mset_orderRows [simp]: "mset (orderRows s cs) = mset cs"
  by (auto simp: orderRows_def sortGrouped_def sortByPersonal_def split: option.split)

text \<open>
  Coming back to a list, the cursor is on the card it was left on, wherever that card is now in
  the order shown.
\<close>

theorem cursor_returns_to_its_card:
  assumes "\<not> cursorRestored s" and "rememberedCursorId s = Some want" and "want \<in> card_id ` set cs"
  defines "s' \<equiv> render_items (landCards cs s)"
  shows "map_option card_id (row_at s' (selectedIndex s')) = Some want"
proof -
  define os where "os = orderRows s cs"
  define i where "i = length (takeWhile (\<lambda>c. card_id c \<noteq> want) os)"
  have "mset os = mset cs" by (simp add: os_def)
  then have "set os = set cs" and len: "length os = length cs" by (metis set_mset_mset, metis size_mset)
  then have "\<not> list_all (\<lambda>c. card_id c \<noteq> want) os" using assms(3) by (auto simp: list_all_iff)
  then have i: "i < length os"
    unfolding i_def by (metis length_takeWhile_le le_neq_implies_less takeWhile_eq_take take_all_iff takeWhile_eq_all_conv list_all_iff order_refl)
  then have at: "card_id (os ! i) = want" unfolding i_def using nth_length_takeWhile by fastforce
  have "selectedIndex (landCards cs s) = int i" "rows (landCards cs s) = cs"
    using i len assms(1,2) by (simp_all add: landCards_def os_def i_def)
  moreover have "orderRows (landCards cs s) = orderRows s" by (rule orderRows_same) (simp_all add: landCards_def Let_def)
  ultimately have "selectedIndex s' = int i" "displayRows s' = os"
    by (simp_all add: s'_def displayRows_render os_def) (simp add: render_items_def)
  then show ?thesis using i at by (simp add: row_at_def)
qed

theorem cursor_returns_to_its_card_witness:
  "map_option card_id (row_at (render_items (landCards [wcard 5 [], wcard 6 []] (rememberCardId 6 wlist)))
     (selectedIndex (render_items (landCards [wcard 5 [], wcard 6 []] (rememberCardId 6 wlist))))) = Some 6"
  by (rule cursor_returns_to_its_card)
    (simp_all add: wlist_def rememberCardId_def cursor_key_def rememberedCursorId_def wcard_def map_put_def)

section \<open>Moving a row\<close>

text \<open>
  The display order of a list that orders its rows itself: by the reader's own order, or by group
  and then that. A search for a bare id and a screen that puts some rows first reorder afterwards.
\<close>

definition orders_rows :: "card_list \<Rightarrow> card list \<Rightarrow> bool" where
  "orders_rows s cs \<longleftrightarrow> lc_personalSort (conf s) \<and>
     (case grp s of
        None \<Rightarrow> lc_orphan (conf s) = None \<and> bare_id (sl_search (leaves s)) = None
      | Some g \<Rightarrow> uniform_column (group_attr.attr g) cs)"

lemma uniform_values:
  "mset (map (\<lambda>r. prop_get (attributes r) a) cs) = mset (map (\<lambda>r. prop_get (attributes r) a) ds) \<Longrightarrow>
   uniform_column a cs = uniform_column a ds"
proof -
  assume m: "mset (map (\<lambda>r. prop_get (attributes r) a) cs) = mset (map (\<lambda>r. prop_get (attributes r) a) ds)"
  then have "set (map (\<lambda>r. prop_get (attributes r) a) cs) = set (map (\<lambda>r. prop_get (attributes r) a) ds)"
    by (metis set_mset_mset)
  then show ?thesis by (simp only: uniform_column_def Let_def list_all_iff list_ex_iff set_filter)
qed

text \<open>The comparator such a list sorts by, with the part that ties the rows of one group.\<close>

lemma display_comparator:
  assumes "orders_rows s cs"
  obtains part :: "card \<Rightarrow> card \<Rightarrow> int" where "js_comparator part"
    and "\<And>ds :: card list. set (map attributes ds) \<subseteq> set (map attributes cs) \<Longrightarrow>
           orderRows s ds = js_sort (\<lambda>x y. then_cmp (part x y) (comparePersonal x y)) ds"
    and "\<And>x y. attributes x \<in> attributes ` set cs \<Longrightarrow> attributes y \<in> attributes ` set cs \<Longrightarrow>
           part x y = 0 \<longleftrightarrow> groupKeyOf s x = groupKeyOf s y"
proof (cases "grp s")
  case None
  have c: "js_comparator (\<lambda>(x :: card) (y :: card). 0 :: int)" by unfold_locales simp_all
  show ?thesis
    by (rule that [of "\<lambda>x y. 0", OF c])
      (use assms None in \<open>simp_all add: orders_rows_def orderRows_def orphansFirst_def idFirst_def sortByPersonal_def
          then_cmp_def groupKeyOf_def\<close>)
next
  case (Some g)
  define a where "a = group_attr.attr g"
  have u: "uniform_column a cs" using assms by (simp add: orders_rows_def Some a_def)
  obtain big where eq: "\<And>x y. x \<in> set cs \<Longrightarrow> y \<in> set cs \<Longrightarrow> group_part a (groupDir s) x y = column_order big a (groupDir s) x y"
    and tie: "\<And>x y. x \<in> set cs \<Longrightarrow> y \<in> set cs \<Longrightarrow> column_order big a (groupDir s) x y = 0 \<longleftrightarrow>
           group_key (prop_get (attributes x) a) = group_key (prop_get (attributes y) a)"
    using group_part_column [OF u] by metis
  have same: "group_part a d x y = group_part a d x' y'" "column_order big a d x y = column_order big a d x' y'"
    if "attributes x = attributes x'" "attributes y = attributes y'" for d and x y x' y' :: card
    using that by (simp_all add: group_part_def column_order_def)
  show ?thesis
  proof (rule that [of "column_order big a (groupDir s)", OF js_comparator_column])
    fix ds :: "card list" assume ds: "set (map attributes ds) \<subseteq> set (map attributes cs)"
    have "group_part a (groupDir s) x y = column_order big a (groupDir s) x y" if xy: "x \<in> set ds" "y \<in> set ds" for x y :: card
    proof -
      have "attributes x \<in> attributes ` set cs" "attributes y \<in> attributes ` set cs" using ds xy by auto
      then obtain x' y' where *: "x' \<in> set cs" "y' \<in> set cs" "attributes x = attributes x'" "attributes y = attributes y'"
        by blast
      show ?thesis using eq [OF *(1,2)] same [OF *(3,4)] by metis
    qed
    then show "orderRows s ds = js_sort (\<lambda>x y. then_cmp (column_order big a (groupDir s) x y) (comparePersonal x y)) ds"
      unfolding orderRows_def Some option.case sortGrouped_def a_def [symmetric] by (intro js_sort_cong) simp
  next
    fix x y :: card assume "attributes x \<in> attributes ` set cs" "attributes y \<in> attributes ` set cs"
    then obtain x' y' where *: "x' \<in> set cs" "y' \<in> set cs" "attributes x = attributes x'" "attributes y = attributes y'"
      by auto
    then show "column_order big a (groupDir s) x y = 0 \<longleftrightarrow> groupKeyOf s x = groupKeyOf s y"
      using tie [OF *(1,2)] same(2) [OF *(3,4)] by (simp add: groupKeyOf_def Some a_def)
  qed
qed

text \<open>Moving an element among equals does not change the list of their keys.\<close>

lemma move_among_equals:
  assumes "i < length ks" "t < length ks" and "\<And>k. min i t \<le> k \<Longrightarrow> k \<le> max i t \<Longrightarrow> ks ! k = ks ! i"
  shows "take t (take i ks @ drop (Suc i) ks) @ [ks ! i] @ drop t (take i ks @ drop (Suc i) ks) = ks"
proof (rule nth_equalityI)
  define rest where "rest = take i ks @ drop (Suc i) ks"
  have len: "length rest = length ks - 1" using assms(1) by (simp add: rest_def)
  have at: "rest ! j = (if j < i then ks ! j else ks ! Suc j)" if "j < length rest" for j
    using that assms(1) by (auto simp: rest_def nth_append)
  show "length (take t rest @ [ks ! i] @ drop t rest) = length ks" using len assms(1) by simp
  fix j assume "j < length (take t rest @ [ks ! i] @ drop t rest)"
  then have j: "j < length ks" using len assms(1) by simp
  have tl: "t \<le> length rest" using assms(2) len by simp
  consider "j < t" | "j = t" | "t < j" by linarith
  then show "(take t rest @ [ks ! i] @ drop t rest) ! j = ks ! j"
  proof cases
    case 1
    then show ?thesis using tl at [of j] assms(3) [of j] assms(3) [of "Suc j"] by (auto simp: nth_append)
  next
    case 2
    then show ?thesis using tl assms(3) [of t] by (simp add: nth_append)
  next
    case 3
    then have "(take t rest @ [ks ! i] @ drop t rest) ! j = rest ! (j - 1)"
      using tl by (simp add: nth_append)
    then show ?thesis using 3 j len at [of "j - 1"] assms(3) [of j] assms(3) [of "j - 1"] by (auto split: if_splits)
  qed
qed

lemma filter_other_ids:
  "distinct (map card_id cs) \<Longrightarrow> i < length cs \<Longrightarrow>
   filter (\<lambda>r. card_id r \<noteq> card_id (cs ! i)) cs = take i cs @ drop (Suc i) cs"
proof (induction cs arbitrary: i)
  case (Cons c cs)
  show ?case
  proof (cases i)
    case 0
    have "filter (\<lambda>r. card_id r \<noteq> card_id c) cs = cs" using Cons.prems(1) by (auto simp: filter_id_conv image_iff)
    with 0 show ?thesis by simp
  next
    case (Suc j)
    then have "cs ! j \<in> set cs" using Cons.prems(2) by simp
    then have "card_id c \<noteq> card_id (cs ! j)" using Cons.prems(1) by (auto simp: image_iff)
    with Suc Cons show ?thesis by simp
  qed
qed simp

lemma personal_updates_at:
  "u \<in> set (personal_updates i cs) \<Longrightarrow> \<exists>k < length cs. pu_card u = card_id (cs ! k) \<and> pu_order u = desired_order (i + k)"
proof (induction cs arbitrary: i)
  case (Cons c cs)
  have "\<exists>k < length cs. pu_card u = card_id (cs ! k) \<and> pu_order u = desired_order (Suc i + k)" if "u \<in> set (personal_updates (Suc i) cs)"
    using Cons.IH [OF that] .
  with Cons.prems show ?case by (fastforce split: if_splits)
qed simp

lemma patch_nothing:
  "\<forall>u \<in> set us. \<forall>r \<in> set cs. card_id r = pu_card u \<longrightarrow> personal_sort_order r = Some (of_nat (pu_order u)) \<Longrightarrow>
   fold patch_row us cs = cs"
proof (induction us)
  case (Cons u us)
  have "map (\<lambda>r. if card_id r = pu_card u then r\<lparr>personal_sort_order := Some (of_nat (pu_order u))\<rparr> else r) cs = cs"
  proof (rule map_idI)
    fix r :: card assume "r \<in> set cs"
    with Cons.prems show "(if card_id r = pu_card u then r\<lparr>personal_sort_order := Some (of_nat (pu_order u))\<rparr> else r) = r"
      by (cases r) auto
  qed
  then have "patch_row u cs = cs" by (simp only: patch_row_def)
  then have "fold patch_row (u # us) cs = fold patch_row us cs" by simp
  also have "\<dots> = cs" by (rule Cons.IH) (use Cons.prems in simp)
  finally show ?case .
qed simp

lemma patches_of_plan:
  assumes "distinct (map card_id ns)"
  shows "fold patch_row (personal_updates 0 ns) (stamp 0 ns) = stamp 0 ns"
proof (rule patch_nothing, intro ballI impI)
  fix u r assume u: "u \<in> set (personal_updates 0 ns)" and r: "r \<in> set (stamp 0 ns)" and eq: "card_id r = pu_card u"
  obtain k where k: "k < length ns" "pu_card u = card_id (ns ! k)" "pu_order u = desired_order k"
    using personal_updates_at [OF u] by auto
  obtain j where j: "j < length ns" "r = stamp 0 ns ! j" using r by (metis in_set_conv_nth length_stamp)
  then have "card_id (ns ! j) = card_id (ns ! k)" using eq k by (simp add: stamp_nth)
  then have "j = k" using assms j k nth_eq_iff_index_eq [of "map card_id ns" j k] by simp
  then show "personal_sort_order r = Some (of_nat (pu_order u))" using j k by (simp add: stamp_nth)
qed

lemma attributes_stamp [simp]: "map attributes (stamp i ns) = map attributes ns"
  by (induction ns arbitrary: i) simp_all

lemma groupKeys_stamp: "map (groupKeyOf s) (stamp i ns) = map (groupKeyOf s) ns"
  by (induction ns arbitrary: i) (simp_all add: groupKeyOf_def split: option.split)

lemma no_updates: "personal_updates i ns = [] \<Longrightarrow> stamp i ns = ns"
proof (induction ns arbitrary: i)
  case (Cons n ns)
  then have "personal_sort_order n = Some (of_nat (desired_order i))" "personal_updates (Suc i) ns = []"
    by (auto split: if_splits)
  then show ?case using Cons.IH by (cases n) simp
qed simp

text \<open>Moving a row among the rows of its group: what the reorder leaves on the screen.\<close>

lemma reorder_displays:
  assumes fresh: "items s = computeItems s (rows s)" and ord: "orders_rows s (rows s)"
    and dist: "distinct (map card_id (rows s))" and it: "i < length (displayRows s)" "t < length (displayRows s)"
    and keys: "\<And>k. min i t \<le> k \<Longrightarrow> k \<le> max i t \<Longrightarrow> groupKeyOf s (displayRows s ! k) = groupKeyOf s (displayRows s ! i)"
  defines "s' \<equiv> reorderTo (card_id (displayRows s ! i)) (int t) s"
  shows "map card_id (displayRows s') ! t = card_id (displayRows s ! i) \<and> length (displayRows s') = length (displayRows s) \<and>
    map (groupKeyOf s') (displayRows s') = map (groupKeyOf s) (displayRows s) \<and>
    mset (map card_id (displayRows s')) = mset (map card_id (displayRows s)) \<and>
    map card_id (displayRows s') = (let ids = map card_id (displayRows s); rest = take i ids @ drop (Suc i) ids
      in take t rest @ [ids ! i] @ drop t rest)"
proof -
  define D where "D = displayRows s"
  define x where "x = D ! i"
  define rest where "rest = take i D @ drop (Suc i) D"
  define ns where "ns = take t rest @ [x] @ drop t rest"
  have D: "D = orderRows s (rows s)" unfolding D_def using displayRows_render [of s] fresh by (simp add: render_items_def displayRows_def)
  have mD: "mset D = mset (rows s)" by (simp add: D)
  have dD: "distinct (map card_id D)" using dist mD by (metis mset_eq_imp_distinct_iff mset_map)
  have i: "i < length D" "t < length D" "x \<in> set D" using it by (simp_all add: D_def x_def)
  have len: "length rest = length D - 1" using i by (simp add: rest_def)
  have ro: "reordered D (card_id x) (int t) = Some ns"
    using reordered_Some [OF i(3) dD, of "int t"] filter_other_ids [OF dD i(1)] i(2) len
    by (simp add: final_order_def drop_slot_def ns_def rest_def x_def)
  have mns: "mset ns = mset (rows s)" using mset_reordered [OF dD ro] mD by simp
  then have dns: "distinct (map card_id ns)" using dist by (metis mset_eq_imp_distinct_iff mset_map)
  define ks where "ks = map (groupKeyOf s) D"
  have between: "ks ! k = ks ! i" if "min i t \<le> k" "k \<le> max i t" for k
    using keys [OF that] that it unfolding ks_def D_def by (metis le_less_trans max_less_iff_conj nth_map max_def)
  have "length ks = length D" by (simp add: ks_def)
  then have "i < length ks" "t < length ks" using i by simp_all
  then have "take t (take i ks @ drop (Suc i) ks) @ [ks ! i] @ drop t (take i ks @ drop (Suc i) ks) = ks"
    using between by (rule move_among_equals)
  moreover have "map (groupKeyOf s) ns = take t (take i ks @ drop (Suc i) ks) @ [ks ! i] @ drop t (take i ks @ drop (Suc i) ks)"
    using i(1) by (simp add: ns_def rest_def x_def ks_def take_map drop_map)
  ultimately have "map (groupKeyOf s) ns = map (groupKeyOf s) D" by (simp only: ks_def)
  then have gk: "map (groupKeyOf s) (stamp 0 ns) = map (groupKeyOf s) D" by (simp only: groupKeys_stamp)
  obtain part where c: "js_comparator part"
    and sorts: "\<And>ds :: card list. set (map attributes ds) \<subseteq> set (map attributes (rows s)) \<Longrightarrow>
           orderRows s ds = js_sort (\<lambda>x y. then_cmp (part x y) (comparePersonal x y)) ds"
    and tie: "\<And>x y :: card. attributes x \<in> attributes ` set (rows s) \<Longrightarrow> attributes y \<in> attributes ` set (rows s) \<Longrightarrow>
           part x y = 0 \<longleftrightarrow> groupKeyOf s x = groupKeyOf s y"
    by (rule display_comparator [OF ord]) (rule that)
  have both: "js_comparator (\<lambda>x y. then_cmp (part x y) (comparePersonal x y))"
    by (rule js_comparator_then [OF c personal.js_comparator_axioms])
  have att: "set (map attributes (stamp 0 ns)) = set (map attributes (rows s))"
    using mns by (metis attributes_stamp mset_map set_mset_mset)
  have eqlen: "length ns = length D" using mns mD by (metis mset_eq_length)
  have sD: "sorted_wrt (\<lambda>x y. part x y \<le> 0) D"
    using js_comparator.ordered_sort [OF both, of "rows s"] unfolding D sorts [OF order_refl] js_comparator.ordered_def [OF both]
    by (rule sorted_wrt_mono_rel [rotated]) (auto simp: then_cmp_def split: if_splits)
  have strict: "sorted_wrt (\<lambda>x y. then_cmp (part x y) (comparePersonal x y) < 0) (stamp 0 ns)"
    unfolding sorted_wrt_iff_nth_less
  proof (intro allI impI)
    fix a b assume ab: "a < b" "b < length (stamp 0 ns)"
    then have lens: "a < length D" "b < length D" using eqlen by simp_all
    have kk: "groupKeyOf s (stamp 0 ns ! k) = groupKeyOf s (D ! k)" if "k < length D" for k
      using arg_cong [OF gk, of "\<lambda>l. l ! k"] that eqlen by simp
    have ins: "attributes (stamp 0 ns ! k) \<in> attributes ` set (rows s)" "attributes (D ! k) \<in> attributes ` set (rows s)" if "k < length D" for k
      using that eqlen att mD by (metis image_eqI length_stamp list.set_map nth_mem, metis image_eqI nth_mem set_mset_mset)
    have "part (stamp 0 ns ! k) (D ! k) = 0" if "k < length D" for k
      using tie [OF ins(1) ins(2)] kk that by blast
    then have "part (stamp 0 ns ! a) (D ! a) = 0" "part (D ! b) (stamp 0 ns ! b) = 0"
      using lens js_comparator.cmp_sym_eq [OF c] by blast+
    moreover have "part (D ! a) (D ! b) \<le> 0" using sD ab lens by (simp add: sorted_wrt_iff_nth_less)
    ultimately have "part (stamp 0 ns ! a) (stamp 0 ns ! b) \<le> 0"
      by (metis order_refl js_comparator.cmp_trans [OF c])
    moreover have "comparePersonal (stamp 0 ns ! a) (stamp 0 ns ! b) < 0"
      using stamp_sorted [of 0 ns] ab by (simp add: sorted_wrt_iff_nth_less)
    ultimately show "then_cmp (part (stamp 0 ns ! a) (stamp 0 ns ! b)) (comparePersonal (stamp 0 ns ! a) (stamp 0 ns ! b)) < 0"
      by (auto simp: then_cmp_def)
  qed
  have fixed: "orderRows s (stamp 0 ns) = stamp 0 ns"
    using sorts [of "stamp 0 ns"] att js_comparator.sort_strict [OF both strict refl] by simp
  have shown: "displayRows s' = stamp 0 ns"
  proof (cases "personal_updates 0 ns = []")
    case True
    then have st: "stamp 0 ns = ns" by (rule no_updates)
    have "D = stamp 0 ns" unfolding D sorts [OF order_refl]
      by (rule js_comparator.sort_strict [OF both strict]) (simp add: st mns)
    moreover have "displayRows s' = D"
      using True ord by (simp add: s'_def reorderTo_def D_def [symmetric] x_def [symmetric] planPersonalReorder_def ro orders_rows_def Let_def bump_group_def)
        (simp add: displayRows_def D_def)
    ultimately show ?thesis by simp
  next
    case False
    define s1 where "s1 = bump_group (s\<lparr>rows := stamp 0 ns\<rparr>)"
    define s2 where "s2 = s1\<lparr>rows := stamp 0 ns, sent := sent s1 @ personal_updates 0 ns\<rparr>"
    have "s' = render_items s2"
      using False ord patches_of_plan [OF dns]
      by (simp add: s'_def reorderTo_def D_def [symmetric] x_def [symmetric] planPersonalReorder_def applyPersonalReorder_def ro
          orders_rows_def Let_def s1_def s2_def bump_group_def)
    moreover have "orderRows s2 = orderRows s" by (rule orderRows_same) (simp_all add: s2_def s1_def bump_group_def)
    ultimately show ?thesis using fixed by (simp add: displayRows_render s2_def)
  qed
  have moved: "map card_id ns = (let ids = map card_id D; rest = take i ids @ drop (Suc i) ids in take t rest @ [ids ! i] @ drop t rest)"
    using i(1) by (simp add: ns_def rest_def x_def take_map drop_map Let_def)
  have ids: "map card_id (stamp 0 ns) = map card_id ns" by (rule nth_equalityI) (simp_all add: stamp_nth)
  have last: "map card_id (displayRows s') =
      (let ids = map card_id D; rest = take i ids @ drop (Suc i) ids in take t rest @ [ids ! i] @ drop t rest)"
    by (simp only: shown ids moved)
  have "groupKeyOf s' = groupKeyOf s"
    by (rule ext) (simp add: s'_def groupKeyOf_def reorderTo_def Let_def bump_group_def render_items_def split: option.split)
  moreover have "ns ! t = x" using i len by (simp add: ns_def nth_append)
  ultimately have rest: "map card_id (displayRows s') ! t = card_id x" "length (displayRows s') = length D"
      "map (groupKeyOf s') (displayRows s') = map (groupKeyOf s) D" "mset (map card_id (displayRows s')) = mset (map card_id D)"
    using shown gk eqlen i(2) mns mD by (simp_all add: stamp_nth)
  show ?thesis unfolding D_def [symmetric] x_def [symmetric] by (intro conjI rest last)
qed

lemma group_is_a_span:
  assumes fresh: "items s = computeItems s (rows s)" and ord: "orders_rows s (rows s)"
    and abc: "a \<le> b" "b \<le> c" "c < length (displayRows s)" and k: "groupKeyOf s (displayRows s ! a) = groupKeyOf s (displayRows s ! c)"
  shows "groupKeyOf s (displayRows s ! b) = groupKeyOf s (displayRows s ! a)"
proof -
  define D where "D = displayRows s"
  have D: "D = orderRows s (rows s)" unfolding D_def using displayRows_render [of s] fresh by (simp add: render_items_def displayRows_def)
  have sD: "set D = set (rows s)" using mset_orderRows [of s "rows s"] unfolding D by (metis set_mset_mset)
  obtain part where c: "js_comparator part"
    and sorts: "\<And>ds :: card list. set (map attributes ds) \<subseteq> set (map attributes (rows s)) \<Longrightarrow>
           orderRows s ds = js_sort (\<lambda>x y. then_cmp (part x y) (comparePersonal x y)) ds"
    and tie: "\<And>x y :: card. attributes x \<in> attributes ` set (rows s) \<Longrightarrow> attributes y \<in> attributes ` set (rows s) \<Longrightarrow>
           part x y = 0 \<longleftrightarrow> groupKeyOf s x = groupKeyOf s y"
    by (rule display_comparator [OF ord]) (rule that)
  have both: "js_comparator (\<lambda>x y. then_cmp (part x y) (comparePersonal x y))"
    by (rule js_comparator_then [OF c personal.js_comparator_axioms])
  have "sorted_wrt (\<lambda>x y. part x y \<le> 0) D"
    using js_comparator.ordered_sort [OF both, of "rows s"] unfolding D sorts [OF order_refl] js_comparator.ordered_def [OF both]
    by (rule sorted_wrt_mono_rel [rotated]) (auto simp: then_cmp_def split: if_splits)
  then have le: "part (D ! i) (D ! j) \<le> 0" if "i \<le> j" "j < length D" for i j
    using that by (cases "i = j") (simp_all add: sorted_wrt_iff_nth_less js_comparator.cmp_refl [OF c])
  have ins: "attributes (D ! i) \<in> attributes ` set (rows s)" if "i < length D" for i
    using that sD by (metis imageI nth_mem)
  have abc': "a < length D" "b < length D" "c < length D" using abc by (simp_all add: D_def)
  have "part (D ! a) (D ! c) = 0" using tie [OF ins ins, of a c] abc' k by (simp add: D_def)
  then have "part (D ! c) (D ! a) \<le> 0" using js_comparator.cmp_sym_eq [OF c] by (metis order_refl)
  then have "part (D ! b) (D ! a) \<le> 0" using le [OF abc(2) abc'(3)] by (rule js_comparator.cmp_trans [OF c, rotated])
  then have "part (D ! a) (D ! b) = 0" using le [OF abc(1) abc'(2)] by (simp add: js_comparator.cmp_eq_iff [OF c])
  then show ?thesis using tie [OF ins ins, of a b] abc' by (simp add: D_def)
qed

lemma span_bounds:
  assumes "i < length cs" and "groupSpan s cs (groupKeyOf s (cs ! i)) = (lo, hi)"
  shows "lo \<le> i \<and> i < hi \<and> hi \<le> length cs \<and> groupKeyOf s (cs ! lo) = groupKeyOf s (cs ! i) \<and>
     groupKeyOf s (cs ! (hi - 1)) = groupKeyOf s (cs ! i)"
proof -
  define ix where "ix = filter (\<lambda>j. groupKeyOf s (cs ! j) = groupKeyOf s (cs ! i)) [0 ..< length cs]"
  have i: "i \<in> set ix" using assms(1) by (simp add: ix_def)
  then have ne: "ix \<noteq> []" by auto
  then have lh: "lo = hd ix" "hi = Suc (last ix)"
    using assms(2) by (auto simp: groupSpan_def ix_def Let_def split: if_splits)
  have sorted: "sorted ix" unfolding ix_def by (rule sorted_wrt_filter) simp
  then have "hd ix \<le> i" using i by (cases ix) auto
  moreover have "i \<le> last ix"
    using sorted i ne append_butlast_last_id [OF ne] sorted_append [of "butlast ix" "[last ix]"]
    by (metis in_set_conv_decomp_last insert_iff list.set(1) list.set(2) order_refl empty_iff set_append Un_iff)
  moreover have "hd ix \<in> set ix" "last ix \<in> set ix" using ne by simp_all
  ultimately show ?thesis using lh by (auto simp: ix_def)
qed

lemma cursor_fields [simp]:
  "displayRows (rememberCardId i s) = displayRows s" "displayRows (s\<lparr>selectedIndex := n\<rparr>) = displayRows s"
  "displayRows (rememberCursor s) = displayRows s" "selectedIndex (rememberCursor s) = selectedIndex s"
  "groupKeyOf (rememberCursor s) = groupKeyOf s" "groupKeyOf (s\<lparr>selectedIndex := n\<rparr>) = groupKeyOf s"
  by (auto simp: displayRows_def rememberCardId_def rememberCursor_def groupKeyOf_def intro!: ext split: option.split)

lemma row_at_remembered [simp]: "row_at (rememberCursor s) = row_at s"
  by (rule ext) (simp add: row_at_def)

lemma move_to_neighbour:
  assumes "i < length xs" "t < length xs" "t = Suc i \<or> i = Suc t"
  shows "(let rest = take i xs @ drop (Suc i) xs in take t rest @ [xs ! i] @ drop t rest) = xs[i := xs ! t, t := xs ! i]"
  unfolding Let_def
proof (rule nth_equalityI)
  let ?rest = "take i xs @ drop (Suc i) xs"
  show "length (take t ?rest @ [xs ! i] @ drop t ?rest) = length (xs[i := xs ! t, t := xs ! i])" using assms by simp
  fix k assume "k < length (take t ?rest @ [xs ! i] @ drop t ?rest)"
  then have k: "k < length xs" using assms by simp
  consider "t = Suc i" | "i = Suc t" using assms(3) by blast
  then show "(take t ?rest @ [xs ! i] @ drop t ?rest) ! k = xs[i := xs ! t, t := xs ! i] ! k"
  proof cases
    case 1
    then show ?thesis using assms(1,2) k by (auto simp: nth_append nth_list_update min_def split: if_splits) ((rule arg_cong [of _ _ "(!) xs"], linarith)+)
  next
    case 2
    then show ?thesis using assms(1,2) k by (auto simp: nth_append nth_list_update min_def nth_Cons split: if_splits nat.split)
        (rule arg_cong [of _ _ "(!) xs"], linarith)
  qed
qed

text \<open>C20: Shift+ArrowDown and Shift+ArrowUp move the row under the cursor exactly one place down or up: it trades
  places with its neighbour, no other row moves, and the cursor goes with it; every place keeps its group. At the
  end of the list, and of the row's group in a grouped list, nothing changes at all. This is of a list that shows its
  rows in the reader's own order, or by group and then that: no search for a bare id, no rows put first, the
  values of the group column all numbers or all text; the rows have different ids and what is shown is up to date.\<close>

theorem moved_row_keeps_the_cursor:
  assumes fresh: "items s = computeItems s (rows s)" and ord: "orders_rows s (rows s)"
    and dist: "distinct (map card_id (rows s))" and row: "row_at s (selectedIndex s) = Some row"
    and delta: "delta = 1 \<or> delta = - 1"
  shows "(let s' = reorderSelected delta s; ids = map card_id (displayRows s);
              i = nat (selectedIndex s); j = nat (selectedIndex s + delta)
    in if 0 \<le> selectedIndex s + delta \<and> j < length ids \<and> groupKeyOf s (displayRows s ! j) = groupKeyOf s row
       then map card_id (displayRows s') = ids[i := ids ! j, j := card_id row] \<and> selectedIndex s' = selectedIndex s + delta \<and>
         map (groupKeyOf s') (displayRows s') = map (groupKeyOf s) (displayRows s)
       else s' = s)"
proof -
  define D where "D = displayRows s"
  define i where "i = nat (selectedIndex s)"
  have i: "selectedIndex s = int i" "i < length D" "row = D ! i"
    using row by (auto simp: row_at_def i_def D_def split: if_splits)
  define n where "n = move (int (length D)) (selectedIndex s) delta"
  obtain lo hi where span: "groupSpan s D (groupKeyOf s row) = (lo, hi)" by (cases "groupSpan s D (groupKeyOf s row)")
  define n' where "n' = (if grp s = None then n else max (int lo) (min (int hi - 1) n))"
  have sb: "lo \<le> i" "i < hi" "hi \<le> length D" "groupKeyOf s (D ! (hi - 1)) = groupKeyOf s (D ! i)" "groupKeyOf s (D ! lo) = groupKeyOf s (D ! i)"
    using span_bounds [OF i(2), of s lo hi] span i(3) by simp_all
  have "lc_personalSort (conf s)" using ord by (simp add: orders_rows_def)
  then have eq: "reorderSelected delta s = (if length D < 2 \<or> n' = selectedIndex s then s
      else rememberCursor ((reorderTo (card_id row) n' s)\<lparr>selectedIndex := n'\<rparr>))"
    by (simp only: reorderSelected_def row option.case Let_def D_def [symmetric] n_def [symmetric] span prod.case
        n'_def [symmetric] not_True_eq_False if_False)
  define j where "j = nat (int i + delta)"
  define ok where "ok \<longleftrightarrow> 0 \<le> int i + delta \<and> j < length D \<and> groupKeyOf s (D ! j) = groupKeyOf s row"
  have n': "n' = (if ok then int j else int i)"
  proof (cases "0 \<le> int i + delta \<and> j < length D")
    case False
    then have "n = int i" using delta i(1,2) by (auto simp: n_def move_def Let_def j_def)
    then show ?thesis using False sb by (auto simp: n'_def ok_def)
  next
    case True
    then have nj: "n = int j" "int j = int i + delta" using i(1) by (auto simp: n_def move_def Let_def j_def)
    show ?thesis
    proof (cases "groupKeyOf s (D ! j) = groupKeyOf s row")
      case same: True
      then have "lo \<le> j" "j < hi" using span_bounds [of j D s lo hi] span True by simp_all
      then show ?thesis using True same nj by (simp add: n'_def ok_def)
    next
      case other: False
      then have g: "grp s \<noteq> None" by (cases "grp s") (simp_all add: groupKeyOf_def)
      have "\<not> (lo \<le> j \<and> j \<le> hi - 1)"
      proof
        assume "lo \<le> j \<and> j \<le> hi - 1"
        then have "groupKeyOf s (D ! j) = groupKeyOf s (D ! lo)"
          using group_is_a_span [OF fresh ord, of lo j "hi - 1"] sb by (simp add: D_def)
        then show False using other sb(5) i(3) by simp
      qed
      then show ?thesis using True other nj sb delta g by (auto simp: n'_def ok_def)
    qed
  qed
  show ?thesis
  proof (cases ok)
    case False
    then have "reorderSelected delta s = s" using n' i(1) by (simp add: eq)
    with False show ?thesis by (auto simp: Let_def i(1) j_def [symmetric] D_def [symmetric] ok_def)
  next
    case True
    then have ji: "j < length D" "j = Suc i \<or> i = Suc j" "int j = int i + delta" using delta by (auto simp: ok_def j_def)
    then have "\<not> (length D < 2 \<or> n' = selectedIndex s)" using True i n' by auto
    then have r: "reorderSelected delta s = rememberCursor ((reorderTo (card_id (D ! i)) (int j) s)\<lparr>selectedIndex := int j\<rparr>)"
      using True n' by (simp add: eq i(3))
    have "groupKeyOf s (D ! k) = groupKeyOf s (D ! i)" if "min i j \<le> k" "k \<le> max i j" for k
    proof -
      have "k = i \<or> k = j" using that ji(2) by auto
      then show ?thesis using True i(3) by (auto simp: ok_def)
    qed
    note d = reorder_displays [OF fresh ord dist, of i j, folded D_def, OF i(2) ji(1) this]
    then have "map card_id (displayRows (reorderTo (card_id (D ! i)) (int j) s)) = (map card_id D)[i := map card_id D ! j, j := map card_id D ! i]"
      using move_to_neighbour [of i "map card_id D" j] i(2) ji by (simp only: Let_def length_map)
    with d True i show ?thesis
      by (simp add: Let_def j_def [symmetric] D_def [symmetric] ok_def r ji(3) [symmetric])
  qed
qed

definition wrows :: "card list" where
  "wrows = [wcard 1 [(''status'', JBig 9)], wcard 2 [(''status'', JBig 10)], wcard 3 [(''status'', JBig 9)], wcard 4 []]"

definition wgrouped :: card_list where
  "wgrouped = render_items (wlist\<lparr>rows := wrows, selectedIndex := 0, grp := Some \<lparr>attr = ''status'', lookup = None, tagPrefix = None\<rparr>\<rparr>)"

theorem moved_row_keeps_the_cursor_witness:
  "map card_id (displayRows wgrouped) = [1, 3, 2, 4] \<and> map card_id (displayRows (reorderSelected 1 wgrouped)) = [3, 1, 2, 4] \<and>
   selectedIndex (reorderSelected 1 wgrouped) = 1"
proof -
  have "row_at wgrouped (selectedIndex wgrouped) = Some (wcard 1 [(''status'', JBig 9)])" by code_simp
  moreover have "items wgrouped = computeItems wgrouped (rows wgrouped)" by code_simp
  moreover have "orders_rows wgrouped (rows wgrouped)" by code_simp
  moreover have "distinct (map card_id (rows wgrouped))" by code_simp
  moreover have v: "displayRows wgrouped = [wcard 1 [(''status'', JBig 9)], wcard 3 [(''status'', JBig 9)], wcard 2 [(''status'', JBig 10)], wcard 4 []]"
    "selectedIndex wgrouped = 0" "groupKeyOf wgrouped (wcard 3 [(''status'', JBig 9)]) = groupKeyOf wgrouped (wcard 1 [(''status'', JBig 9)])"
    by code_simp+
  ultimately show ?thesis using moved_row_keeps_the_cursor [of wgrouped "wcard 1 [(''status'', JBig 9)]" 1]
    by (simp add: Let_def v wcard_def)
qed

text \<open>Under a search for a bare id the row that was found cannot be moved, but the cursor leaves it.\<close>

lemma found_row_loses_the_cursor:
  "(let s = render_items (wlist\<lparr>rows := wrows, leaves := (leaves wlist)\<lparr>sl_search := ''3''\<rparr>\<rparr>); s' = reorderSelected 1 s
    in map card_id (displayRows s) = [3, 1, 2, 4] \<and> map card_id (displayRows s') = [3, 1, 2, 4] \<and>
       map_option card_id (row_at s (selectedIndex s)) = Some 3 \<and>
       map_option card_id (row_at s' (selectedIndex s')) = Some 1)"
  by code_simp

section \<open>Selecting rows\<close>

lemma set_fold_set_add: "set (fold set_add xs ys) = set ys \<union> set xs"
  by (induction xs arbitrary: ys) (auto simp: set_add_def)

lemma distinct_fold_set_add: "distinct ys \<Longrightarrow> distinct (fold set_add xs ys)"
  by (induction xs arbitrary: ys) (auto simp: set_add_def)

lemma position_Some: "position x xs = Some i \<Longrightarrow> i < length xs \<and> xs ! i = x"
proof -
  assume p: "position x xs = Some i"
  then have x: "x \<in> set xs" and i: "i = length (takeWhile (\<lambda>y. y \<noteq> x) xs)" by (auto simp: position_def split: if_splits)
  have "takeWhile (\<lambda>y. y \<noteq> x) xs \<noteq> xs" using x by (auto simp: takeWhile_eq_all_conv)
  then have "i < length xs"
    unfolding i by (metis length_takeWhile_le le_neq_implies_less takeWhile_eq_take take_all_iff order_refl)
  then show ?thesis using nth_length_takeWhile [of "\<lambda>y. y \<noteq> x" xs] by (simp add: i)
qed

lemma displayRows_selection [simp]:
  "displayRows (setSelection ids s) = displayRows s" "displayRows (s\<lparr>anchor := a\<rparr>) = displayRows s"
  by (simp_all add: displayRows_def setSelection_def)

lemma selection_fields [simp]:
  "selection (setSelection ids s) = ids" "selection (s\<lparr>anchor := a\<rparr>) = selection s"
  by (simp_all add: setSelection_def)

text \<open>
  Extending a selection adds exactly the rows shown from the last one picked to this one, both
  included, whichever comes first, and keeps what was selected.
\<close>

theorem extending_selects_between:
  assumes "ext" and "anchor s = Some a" and "a \<noteq> i" and "i \<noteq> ''''"
    and "position a (orderedRowIds s) = Some x" and "position i (orderedRowIds s) = Some y"
  shows "set (selection (toggleRowSelection i ext s)) =
     set (selection s) \<union> {orderedRowIds s ! k | k. min x y \<le> k \<and> k \<le> max x y} \<and>
     {a, i} \<subseteq> set (selection (toggleRowSelection i ext s))"
proof -
  define ids where "ids = orderedRowIds s"
  have xy: "x < length ids" "ids ! x = a" "y < length ids" "ids ! y = i"
    using position_Some assms(5,6) by (auto simp: ids_def)
  define range where "range = take (Suc (max x y) - min x y) (drop (min x y) ids)"
  have len: "length range = Suc (max x y) - min x y" using xy by (auto simp: range_def max_def min_def)
  have "min x y \<le> length ids" using xy by simp
  then have at: "k < length range \<Longrightarrow> range ! k = ids ! (min x y + k)" for k by (simp add: range_def nth_drop)
  have "set range = {ids ! k | k. min x y \<le> k \<and> k \<le> max x y}"
  proof (intro equalityI subsetI)
    fix z assume "z \<in> set range"
    then obtain k where "k < length range" "z = ids ! (min x y + k)" using at by (auto simp: in_set_conv_nth)
    then show "z \<in> {ids ! k | k. min x y \<le> k \<and> k \<le> max x y}"
      using len by (intro CollectI exI [of _ "min x y + k"]) auto
  next
    fix z assume "z \<in> {ids ! k | k. min x y \<le> k \<and> k \<le> max x y}"
    then obtain k where k: "min x y \<le> k" "k \<le> max x y" "z = ids ! k" by auto
    then have "k - min x y < length range" using len by linarith
    then show "z \<in> set range" using at [of "k - min x y"] k by (metis le_add_diff_inverse nth_mem)
  qed
  moreover have "selection (toggleRowSelection i ext s) = fold set_add range (selection s)"
    using assms by (simp add: toggleRowSelection_def range_def ids_def)
  ultimately show ?thesis
    using xy by (auto simp: set_fold_set_add ids_def [symmetric] intro: exI [of _ x] exI [of _ y])
qed

theorem extending_selects_between_witness:
  "set (selection (toggleRowSelection ''4'' True (wgrouped\<lparr>anchor := Some ''1'', selection := [''1'']\<rparr>))) =
     set [''1''] \<union> {orderedRowIds wgrouped ! k | k. min 0 (3 :: nat) \<le> k \<and> k \<le> max 0 3} \<and>
     {''1'', ''4''} \<subseteq> set (selection (toggleRowSelection ''4'' True (wgrouped\<lparr>anchor := Some ''1'', selection := [''1'']\<rparr>)))"
proof -
  define s where "s = wgrouped\<lparr>anchor := Some ''1'', selection := [''1'']\<rparr>"
  have ids: "orderedRowIds s = orderedRowIds wgrouped" by (simp add: s_def orderedRowIds_def displayRows_def)
  have "orderedRowIds wgrouped = [''1'', ''3'', ''2'', ''4'']" by code_simp
  then have "position ''1'' (orderedRowIds s) = Some 0" "position ''4'' (orderedRowIds s) = Some 3"
    by (simp_all add: ids position_def)
  moreover have "anchor s = Some ''1''" "selection s = [''1'']" by (simp_all add: s_def)
  ultimately have "set (selection (toggleRowSelection ''4'' True s)) =
      set (selection s) \<union> {orderedRowIds s ! k | k. min 0 3 \<le> k \<and> k \<le> max 0 3} \<and>
      {''1'', ''4''} \<subseteq> set (selection (toggleRowSelection ''4'' True s))"
    by (intro extending_selects_between) simp_all
  note this [unfolded ids \<open>selection s = [''1'']\<close>]
  then show ?thesis unfolding s_def .
qed

text \<open>The header box: it selects every row shown unless all are selected; then it clears the selection.\<close>

lemma all_selected_iff: "selectAllState s = All_selected \<longleftrightarrow> orderedRowIds s \<noteq> [] \<and> set (orderedRowIds s) \<subseteq> set (selection s)"
proof -
  have "length (filter P xs) = length xs \<longleftrightarrow> list_all P xs" for P and xs :: "string list"
    by (metis filter_True length_filter_less less_irrefl list_all_iff)
  then show ?thesis by (auto simp: selectAllState_def Let_def list_all_iff)
qed

lemma select_all_then_none:
  assumes "displayRows s \<noteq> []" and "selectAllState s \<noteq> All_selected"
  shows "selectAllState (toggleSelectAll s) = All_selected \<and> selection (toggleSelectAll (toggleSelectAll s)) = []"
proof -
  have ids: "orderedRowIds (toggleSelectAll s) = orderedRowIds s" by (simp add: toggleSelectAll_def orderedRowIds_def)
  have "selectAllState (toggleSelectAll s) = All_selected"
    unfolding all_selected_iff ids using assms by (simp add: toggleSelectAll_def set_fold_set_add) (simp add: orderedRowIds_def)
  then show ?thesis by (simp add: toggleSelectAll_def [of "toggleSelectAll s"])
qed

section \<open>Dropping between rows\<close>

definition box_mid :: "row_box \<Rightarrow> rat" where
  "box_mid b = box_top b + (box_bottom b - box_top b) / 2"

lemma drop_loop_counts:
  "sorted (map box_mid (filter (\<lambda>b. \<not> skipped d ok b) bs)) \<Longrightarrow>
   fst (drop_loop y d ok off bs n l) = n + length (filter (\<lambda>b. \<not> skipped d ok b \<and> box_mid b \<le> y) bs)"
proof (induction bs arbitrary: n l)
  case (Cons b bs)
  show ?case
  proof (cases "skipped d ok b \<or> box_mid b \<le> y")
    case True
    with Cons show ?thesis by (auto simp: box_mid_def)
  next
    case False
    then have "\<forall>c \<in> set bs. \<not> skipped d ok c \<longrightarrow> \<not> box_mid c \<le> y" using Cons.prems by auto
    then have "filter (\<lambda>b. \<not> skipped d ok b \<and> box_mid b \<le> y) bs = []" by (auto simp: filter_empty_conv)
    with False show ?thesis by (simp add: box_mid_def)
  qed
qed simp

text \<open>
  The slot a drag points at is the number of rows, other than the dragged one and those not
  accepted, whose middle is above the pointer; so it never exceeds the rows of the group.
\<close>

theorem drop_slot_counts_rows_above:
  assumes "sorted (map box_mid (filter (\<lambda>b. \<not> skipped d ok b) boxes))"
  shows "fst (computeDropTarget vtop scrolled boxes y d ok) = length (filter (\<lambda>b. \<not> skipped d ok b \<and> box_mid b \<le> y) boxes) \<and>
     fst (computeDropTarget vtop scrolled boxes y d ok) \<le> length (filter (\<lambda>b. \<not> skipped d ok b) boxes)"
proof -
  have "length (filter (\<lambda>b. \<not> skipped d ok b \<and> box_mid b \<le> y) bs) \<le> length (filter (\<lambda>b. \<not> skipped d ok b) bs)" for bs
    by (induction bs) auto
  then show ?thesis using drop_loop_counts [OF assms, of y _ 0 0] by (simp add: computeDropTarget_def)
qed

theorem drop_slot_counts_rows_above_witness:
  "fst (computeDropTarget 0 0 [\<lparr>box_hidden = False, box_card = ''1'', box_top = 10, box_bottom = 20\<rparr>,
      \<lparr>box_hidden = False, box_card = ''2'', box_top = 20, box_bottom = 30\<rparr>,
      \<lparr>box_hidden = False, box_card = ''3'', box_top = 30, box_bottom = 40\<rparr>] 36 ''1'' (\<lambda>_. True)) = 2"
  using drop_slot_counts_rows_above [of "''1''" "\<lambda>_. True" "[\<lparr>box_hidden = False, box_card = ''1'', box_top = 10, box_bottom = 20\<rparr>,
      \<lparr>box_hidden = False, box_card = ''2'', box_top = 20, box_bottom = 30\<rparr>,
      \<lparr>box_hidden = False, box_card = ''3'', box_top = 30, box_bottom = 40\<rparr>]" 0 0 36]
  by (simp add: skipped_def box_mid_def)

end
