(* ===== verification/CardListData.thy ===== *)
theory CardListData
  imports DataController WireDecode
begin

text \<open>
  What a card list declares to the data layer, \<^verbatim>\<open>cardlist/core.ts\<close>: its queries and its optimistic
  actions over the leaves of its own prefix. They are values of the types of theory
  DataController, so its theorems are about them.

  Main results: no query of a project is in flight without a project or the flag of a screen that
  spans projects, whatever happened to the control; an optimistic patch changes one card's entry.
\<close>

section \<open>Queries\<close>

definition card_query :: "string \<Rightarrow> string \<Rightarrow> input_spec \<Rightarrow> string list \<Rightarrow> string \<Rightarrow> query_binding" where
  "card_query name watched input skip handler_name =
     \<lparr>q_name = name, q_spec = ''card.select_with_attributes'', q_when = Some (On_signal watched), q_input = Some input,
      q_result = Method handler_name, q_onError = Some Self, skipWhenNull = Some skip\<rparr>"

definition project_inputs :: input_spec where
  "project_inputs = [(''projectId'', From ''scope.projectId''), (''_allProjects'', From ''scope.allProjects'')]"

text \<open>The lookups of one type's value cards; a gate names the config flag that turns them on.\<close>

definition lookup_query :: "string \<Rightarrow> string \<Rightarrow> string option \<Rightarrow> string \<Rightarrow> query_binding" where
  "lookup_query name card_type gate handler_name =
     card_query name ''scope.projectId''
       ((''cardTypeName'', Lit (JStr card_type)) # project_inputs @ (case gate of Some g \<Rightarrow> [(''_gate'', Config g)] | None \<Rightarrow> []))
       (''projectId|_allProjects'' # (case gate of Some g \<Rightarrow> [''_gate''] | None \<Rightarrow> [])) handler_name"

definition buildCardListQueries :: "string \<Rightarrow> query_binding list" where
  "buildCardListQueries p =
     [card_query ''cards'' (p @ ''.queryVersion'')
        ((''cardTypeName'', From ''screen.cardType'') # project_inputs @
         [(''withPersonalSort'', From (p @ ''.withPersonalSort'')), (''routedToMe'', From (p @ ''.routedToMe'')),
          (''withApprovals'', From ''screen.withApprovals''), (''withWatch'', Lit (JBool True)),
          (''order'', From (p @ ''.order'')), (''where'', From (p @ ''.where'')), (''tree'', From (p @ ''.tree'')),
          (''limit'', Lit (jint 200))])
        [''cardTypeName'', ''projectId|_allProjects''] ''landCards'',
      lookup_query ''statuses'' ''status'' None ''landStatuses'',
      card_query ''persons'' ''scope.projectId''
        [(''cardTypeName'', Lit (JStr ''person'')), (''_gate'', Config ''loadTaskLookups'')] [''_gate''] ''landPersons'',
      lookup_query ''milestones'' ''milestone'' (Some ''loadTaskLookups'') ''landMilestones'',
      lookup_query ''components'' ''component'' (Some ''loadTaskLookups'') ''landComponents'',
      lookup_query ''tags'' ''tag'' (Some ''loadTags'') ''landTags'',
      card_query ''parents'' ''scope.projectId'' ((''cardTypeName'', Config ''parentChipCardType'') # project_inputs)
        [''cardTypeName'', ''projectId|_allProjects''] ''landParents'',
      (card_query ''agents'' (p @ ''.parentUserId'')
         [(''parentUserId'', From (p @ ''.parentUserId'')), (''isAgent'', Lit (JBool True))] [''parentUserId''] ''landAgents'')
         \<lparr>q_spec := ''user.select'', q_onError := Some (Error_method ''agentsLoadFailed'')\<rparr>,
      (card_query ''routing'' ''scope.projectId''
         [(''parentCardId'', From ''scope.projectId''), (''_gate'', Config ''delegate'')] [''parentCardId'', ''_gate''] ''landRouting'')
         \<lparr>q_spec := ''user_card_agent.list'', q_onError := Some (Error_method ''routingLoadFailed'')\<rparr>]"

section \<open>Optimistic patches\<close>

definition patch_order :: "js \<Rightarrow> js \<Rightarrow> js" where
  "patch_order current payload =
     (let rs = asArray current; pl = asObj payload; i = prop_get pl ''cardId''; o' = prop_get pl ''sortOrder'' in
      if i = JUndef \<or> o' = JUndef then JArr rs
      else JArr (map (\<lambda>r. if prop_get (asObj r) ''id'' = i then JObj (obj_put ''personal_sort_order'' o' (asObj r)) else r) rs))"

definition patch_delegate :: "js \<Rightarrow> js \<Rightarrow> js" where
  "patch_delegate current payload =
     (let m = asObj current; pl = asObj payload; i = prop_get pl ''cardId''; a = prop_get pl ''agentUserId'' in
      JObj (if i = JUndef \<or> a = JUndef then m else obj_put (js_text i) a m))"

definition patch_undelegate :: "js \<Rightarrow> js \<Rightarrow> js" where
  "patch_undelegate current payload =
     (let m = asObj current; i = prop_get (asObj payload) ''cardId'' in
      JObj (if i = JUndef then m else filter (\<lambda>(k, v). k \<noteq> js_text i) m))"

definition buildCardListActions :: "string \<Rightarrow> action_binding list" where
  "buildCardListActions p =
     [\<lparr>intent = ''reorderRow'', a_spec = ''user_card_sort.set'',
       a_input = Some [(''cardId'', Payload ''cardId''), (''sortOrder'', Payload ''sortOrder'')],
       a_result = None, a_optimistic = Some (p @ ''.rows'', patch_order), a_onError = Some Top\<rparr>,
      \<lparr>intent = ''delegateRow'', a_spec = ''user_card_agent.set'',
       a_input = Some [(''cardId'', Payload ''cardId''), (''agentUserId'', Payload ''agentUserId'')],
       a_result = None, a_optimistic = Some (p @ ''.routing'', patch_delegate), a_onError = Some Top\<rparr>,
      \<lparr>intent = ''clearDelegateRow'', a_spec = ''user_card_agent.clear'', a_input = Some [(''cardId'', Payload ''cardId'')],
       a_result = None, a_optimistic = Some (p @ ''.routing'', patch_undelegate), a_onError = Some Top\<rparr>]"

section \<open>No query without a scope\<close>

lemma ready_run: "calls_ready s \<Longrightarrow> calls_ready (fold dc_step evs s)"
  by (induction evs arbitrary: s) (auto intro: ready_step)

lemma scoped_skip:
  "q \<in> set (buildCardListQueries p) \<Longrightarrow> q_name q \<notin> {''persons'', ''agents'', ''routing''} \<Longrightarrow>
   \<exists>es. skipWhenNull q = Some es \<and> ''projectId|_allProjects'' \<in> set es"
  by (auto simp: buildCardListQueries_def lookup_query_def card_query_def)

text \<open>
  Whatever happens to a card list, its wiring, its watched leaves, answers and teardown in any
  order: a query that reads a project's cards is in flight only with that project, or with the
  flag of a screen that spans projects.
\<close>

theorem list_queries_have_a_scope:
  assumes "in_flight s = []" and "c \<in> set (in_flight (fold dc_step evs s))" and "c_cont c = Query_call q"
    and "q \<in> set (buildCardListQueries p)" and "q_name q \<notin> {''persons'', ''agents'', ''routing''}"
  shows "\<not> missing (c_input c) ''projectId'' \<or> \<not> missing (c_input c) ''_allProjects''"
proof -
  have "calls_ready (fold dc_step evs s)" using assms(1) by (intro ready_run) (simp add: calls_ready_def)
  then have "\<not> held_back q (c_input c)" using assms(2,3) by (auto simp: calls_ready_def)
  moreover obtain es where "skipWhenNull q = Some es" "''projectId|_allProjects'' \<in> set es"
    using scoped_skip [OF assms(4,5)] by blast
  moreover have "js_split CHR ''|'' ''projectId|_allProjects'' = [''projectId'', ''_allProjects'']" by code_simp
  ultimately show ?thesis by (auto simp: held_back_def list_ex_iff list_all_iff)
qed

definition wlist_ctl :: controller where
  "wlist_ctl = \<lparr>data_tree = (\<lambda>_. JUndef), cfg = [], scope = Some [(''projectId'', JBig 7)], queries = [lookup_query ''statuses'' ''status'' None ''landStatuses''],
     actions = [], handlers = [], wired = False, ctl_alive = True, watches = [], intents = [], in_flight = [], faults = [], handled = []\<rparr>"

theorem list_queries_have_a_scope_witness:
  "\<not> missing (c_input (hd (in_flight (fold dc_step [Wire] wlist_ctl)))) ''projectId'' \<or>
   \<not> missing (c_input (hd (in_flight (fold dc_step [Wire] wlist_ctl)))) ''_allProjects''"
proof (rule list_queries_have_a_scope)
  let ?q = "lookup_query ''statuses'' ''status'' None ''landStatuses''"
  have "in_flight (fold dc_step [Wire] wlist_ctl) \<noteq> []" by code_simp
  then show "hd (in_flight (fold dc_step [Wire] wlist_ctl)) \<in> set (in_flight (fold dc_step [Wire] wlist_ctl))" by simp
  show "in_flight wlist_ctl = []" by (simp add: wlist_ctl_def)
  show "c_cont (hd (in_flight (fold dc_step [Wire] wlist_ctl))) = Query_call ?q" 
    by (simp add: dc_step_def wlist_ctl_def wire_bindings_def wireQuery_def fireQuery_def lookup_query_def card_query_def
        held_back_def resolveInput_def Let_def project_inputs_def resolveValue_def call_sources_def missing_def readObjPath_def member_def)
  show "?q \<in> set (buildCardListQueries ''cardlist'')" by (simp add: buildCardListQueries_def)
  show "q_name ?q \<notin> {''persons'', ''agents'', ''routing''}" by (simp add: lookup_query_def card_query_def)
qed

section \<open>Patches touch one entry\<close>

lemma delegate_then_clear:
  "i \<noteq> JUndef \<Longrightarrow> map_of (asObj (patch_undelegate (patch_delegate (JObj m) (JObj [(''cardId'', i), (''agentUserId'', a)])) (JObj [(''cardId'', i)]))) k =
     (if k = js_text i then None else map_of m k)"
proof -
  have f: "map_of (filter (\<lambda>(k, v). k \<noteq> t) ps) k = (if k = t then None else map_of ps k)" for t and ps :: "js props"
    by (induction ps) auto
  show "i \<noteq> JUndef \<Longrightarrow> ?thesis" by (simp add: patch_undelegate_def patch_delegate_def Let_def f)
qed

end
