(* ===== verification/Areas.thy ===== *)
theory Areas
  imports Kanban JsText JsSort JsNumber WireDecode Dispatch
begin

text \<open>
  The areas of a project. The new-project dialog ticks and unticks areas (\<^verbatim>\<open>projects/project-helpers.ts\<close>);
  the Areas screen lists a project's areas and switches them (\<^verbatim>\<open>areas/area-switches.ts\<close>, with the wire
  shapes of \<^verbatim>\<open>bundles/specs.ts\<close>). The nested walk of \<open>toggleArea\<close> is written with its call stack as a list;
  it ends because the keys it may still add, or the ticked keys, get fewer.

  Main results: a tick adds exactly the areas an area needs, directly or not, an untick removes exactly
  those that need it, and the dependencies stay whole; the screen never shows another project's areas.
\<close>

section \<open>The dialog's areas\<close>

record area_start =
  st_key :: string
  st_title :: string

record dialog_area =
  da_key :: string
  da_title :: string
  da_doc :: "string option"
  da_sort :: rat
  da_dependsOn :: "string list"
  da_starts :: "area_start list"

definition needs_of :: "dialog_area list \<Rightarrow> string \<Rightarrow> string list" where
  "needs_of areas k = (case find (\<lambda>a. da_key a = k) areas of Some a \<Rightarrow> da_dependsOn a | None \<Rightarrow> [])"

definition needed_by :: "dialog_area list \<Rightarrow> string \<Rightarrow> string list" where
  "needed_by areas k = map da_key (filter (\<lambda>a. k \<in> set (da_dependsOn a)) areas)"

text \<open>The keys \<open>visit\<close> can still be called with.\<close>

definition open_keys :: "dialog_area list \<Rightarrow> string list \<Rightarrow> string list \<Rightarrow> string set" where
  "open_keys areas ks ticked = (set ks \<union> (\<Union>a \<in> set areas. set (da_dependsOn a))) - set ticked"

lemma finite_open_keys [simp]: "finite (open_keys areas ks ticked)"
  by (simp add: open_keys_def)

lemma needs_of_subset: "set (needs_of areas k) \<subseteq> (\<Union>a \<in> set areas. set (da_dependsOn a))"
proof (cases "find (\<lambda>a. da_key a = k) areas")
  case (Some a)
  then have "a \<in> set areas" by (auto simp: find_Some_iff)
  then show ?thesis by (auto simp: needs_of_def Some)
qed (simp add: needs_of_def)

function visit_on :: "dialog_area list \<Rightarrow> string list \<Rightarrow> string list \<Rightarrow> string list" where
  "visit_on areas [] out = out"
| "visit_on areas (k # ks) out =
     (if k \<in> set out then visit_on areas ks out
      else visit_on areas (needs_of areas k @ ks) (out @ [k]))"
  by pat_completeness auto
termination
proof (relation "measures [\<lambda>(areas, ks, out). card (open_keys areas ks out), \<lambda>(areas, ks, out). length ks]")
  fix areas :: "dialog_area list" and k and ks out :: "string list"
  show "k \<in> set out \<Longrightarrow> ((areas, ks, out), areas, k # ks, out) \<in>
      measures [\<lambda>(areas, ks, out). card (open_keys areas ks out), \<lambda>(areas, ks, out). length ks]"
    by (simp add: open_keys_def insert_absorb Un_Diff)
  assume k: "k \<notin> set out"
  have "open_keys areas (needs_of areas k @ ks) (out @ [k]) \<subset> open_keys areas (k # ks) out"
    using k needs_of_subset [of areas k] unfolding open_keys_def by auto
  then show "((areas, needs_of areas k @ ks, out @ [k]), areas, k # ks, out) \<in>
      measures [\<lambda>(areas, ks, out). card (open_keys areas ks out), \<lambda>(areas, ks, out). length ks]"
    by (simp add: psubset_card_mono)
qed simp

function visit_off :: "dialog_area list \<Rightarrow> string list \<Rightarrow> string list \<Rightarrow> string list" where
  "visit_off areas [] out = out"
| "visit_off areas (k # ks) out =
     (if k \<notin> set out then visit_off areas ks out
      else visit_off areas (needed_by areas k @ ks) (removeAll k out))"
  by pat_completeness auto
termination
proof (relation "measures [\<lambda>(areas, ks, out). length out, \<lambda>(areas, ks, out). length ks]")
  fix areas :: "dialog_area list" and k and ks out :: "string list"
  assume "\<not> k \<notin> set out"
  then show "((areas, needed_by areas k @ ks, removeAll k out), areas, k # ks, out) \<in>
      measures [\<lambda>(areas, ks, out). length out, \<lambda>(areas, ks, out). length ks]"
    by (simp add: length_removeAll_less)
qed simp_all

definition toggleArea :: "string list \<Rightarrow> dialog_area list \<Rightarrow> string \<Rightarrow> bool \<Rightarrow> string list" where
  "toggleArea ticked areas key on = (if on then visit_on areas [key] ticked else visit_off areas [key] ticked)"

definition areasOfPreset :: "string list \<Rightarrow> dialog_area list \<Rightarrow> string list" where
  "areasOfPreset features areas =
     foldl (\<lambda>out a. if list_ex (\<lambda>s. st_key s \<in> set features) (da_starts a) then toggleArea out areas (da_key a) True else out)
       [] areas"

section \<open>Whole dependencies\<close>

definition whole :: "dialog_area list \<Rightarrow> string set \<Rightarrow> bool" where
  "whole areas S \<longleftrightarrow> (\<forall>a \<in> set areas. da_key a \<in> S \<longrightarrow> set (da_dependsOn a) \<subseteq> S)"

definition needs :: "dialog_area list \<Rightarrow> string \<Rightarrow> string \<Rightarrow> bool" where
  "needs areas k j \<longleftrightarrow> (\<exists>a \<in> set areas. da_key a = k \<and> j \<in> set (da_dependsOn a))"

lemma needed_by_set: "set (needed_by areas k) = {j. needs areas j k}"
  by (auto simp: needed_by_def needs_def)

lemma needs_of_set:
  assumes "distinct (map da_key areas)"
  shows "set (needs_of areas k) = {j. needs areas k j}"
proof (cases "find (\<lambda>a. da_key a = k) areas")
  case None
  then have "\<not> needs areas k j" for j by (auto simp: needs_def find_None_iff)
  then show ?thesis by (simp add: needs_of_def None)
next
  case (Some a)
  then have a: "a \<in> set areas" "da_key a = k" by (auto simp: find_Some_iff)
  have "b = a" if "b \<in> set areas" "da_key b = k" for b
    using assms a that by (metis distinct_map inj_on_def)
  with a have "needs areas k j \<longleftrightarrow> j \<in> set (da_dependsOn a)" for j unfolding needs_def by metis
  then show ?thesis by (simp add: needs_of_def Some)
qed

lemma whole_needs: "whole areas S \<longleftrightarrow> (\<forall>k j. needs areas k j \<longrightarrow> k \<in> S \<longrightarrow> j \<in> S)"
  by (auto simp: whole_def needs_def)

lemma whole_reach: "(needs areas)\<^sup>*\<^sup>* k j \<Longrightarrow> whole areas S \<Longrightarrow> k \<in> S \<Longrightarrow> j \<in> S"
  by (induction rule: rtranclp_induct) (auto simp: whole_needs)

lemma visit_on_keeps: "set out \<union> set ks \<subseteq> set (visit_on areas ks out)"
  by (induction areas ks out rule: visit_on.induct) auto

lemma visit_on_adds:
  "distinct (map da_key areas) \<Longrightarrow> j \<in> set (visit_on areas ks out) \<Longrightarrow> j \<in> set out \<or> (\<exists>k \<in> set ks. (needs areas)\<^sup>*\<^sup>* k j)"
proof (induction areas ks out rule: visit_on.induct)
  case (2 areas k ks out)
  have step: "\<exists>i \<in> set (k # ks). (needs areas)\<^sup>*\<^sup>* i j" if "i \<in> set (needs_of areas k @ ks)" "(needs areas)\<^sup>*\<^sup>* i j" for i
    using that by (auto simp: needs_of_set [OF "2.prems"(1)] intro: converse_rtranclp_into_rtranclp)
  show ?case
  proof (cases "k \<in> set out")
    case False
    with 2 have "j \<in> set (out @ [k]) \<or> (\<exists>i \<in> set (needs_of areas k @ ks). (needs areas)\<^sup>*\<^sup>* i j)" by simp
    with step show ?thesis by auto
  qed (use 2 in auto)
qed simp

lemma visit_on_whole:
  "distinct (map da_key areas) \<Longrightarrow> (\<And>k j. needs areas k j \<Longrightarrow> k \<in> set out \<Longrightarrow> j \<in> set out \<union> set ks) \<Longrightarrow>
   whole areas (set (visit_on areas ks out))"
proof (induction areas ks out rule: visit_on.induct)
  case (2 areas k ks out)
  show ?case
  proof (cases "k \<in> set out")
    case True
    with 2 show ?thesis by auto
  next
    case False
    have "whole areas (set (visit_on areas (needs_of areas k @ ks) (out @ [k])))"
    proof (rule "2.IH"(2) [OF False "2.prems"(1)])
      fix i j assume "needs areas i j" "i \<in> set (out @ [k])"
      then show "j \<in> set (out @ [k]) \<union> set (needs_of areas k @ ks)"
        using "2.prems"(2) [of i j] needs_of_set [OF "2.prems"(1), of k] by auto
    qed
    with False show ?thesis by simp
  qed
qed (auto simp: whole_needs)

lemma visit_off_drops: "set (visit_off areas ks out) \<subseteq> set out - set ks"
  by (induction areas ks out rule: visit_off.induct) auto

lemma visit_off_keeps:
  "j \<in> set out \<Longrightarrow> j \<in> set (visit_off areas ks out) \<or> (\<exists>k \<in> set ks. (needs areas)\<^sup>*\<^sup>* j k)"
proof (induction areas ks out rule: visit_off.induct)
  case (2 areas k ks out)
  have step: "\<exists>i \<in> set (k # ks). (needs areas)\<^sup>*\<^sup>* j i" if "i \<in> set (needed_by areas k @ ks)" "(needs areas)\<^sup>*\<^sup>* j i" for i
    using that by (auto simp: needed_by_set intro: rtranclp.rtrancl_into_rtrancl)
  show ?case
  proof (cases "k \<in> set out \<and> j \<noteq> k")
    case True
    then have "j \<in> set (visit_off areas (needed_by areas k @ ks) (removeAll k out)) \<or>
        (\<exists>i \<in> set (needed_by areas k @ ks). (needs areas)\<^sup>*\<^sup>* j i)"
      using 2 by simp
    with step True show ?thesis by auto
  qed (use 2 in auto)
qed simp

lemma visit_off_whole:
  "(\<And>j k. needs areas j k \<Longrightarrow> j \<in> set out \<Longrightarrow> k \<in> set out \<or> j \<in> set ks) \<Longrightarrow> whole areas (set (visit_off areas ks out))"
proof (induction areas ks out rule: visit_off.induct)
  case (2 areas k ks out)
  show ?case
  proof (cases "k \<in> set out")
    case False
    with 2 show ?thesis by (metis set_ConsD visit_off.simps(2))
  next
    case True
    have "whole areas (set (visit_off areas (needed_by areas k @ ks) (removeAll k out)))"
    proof (rule "2.IH"(2))
      fix i j assume "needs areas i j" "i \<in> set (removeAll k out)"
      then show "j \<in> set (removeAll k out) \<or> i \<in> set (needed_by areas k @ ks)"
        using "2.prems" [of i j] needed_by_set [of areas k] by auto
    qed (use True in simp)
    with True show ?thesis by simp
  qed
qed (auto simp: whole_needs)

lemma toggle_stays_whole:
  assumes d: "distinct (map da_key areas)" and w: "whole areas (set ticked)"
  shows "whole areas (set (toggleArea ticked areas key on))"
proof (cases on)
  case True
  have "whole areas (set (visit_on areas [key] ticked))"
    by (rule visit_on_whole [OF d]) (use w in \<open>auto simp: whole_needs\<close>)
  with True show ?thesis by (simp add: toggleArea_def)
next
  case False
  have "whole areas (set (visit_off areas [key] ticked))"
    by (rule visit_off_whole) (use w in \<open>auto simp: whole_needs\<close>)
  with False show ?thesis by (simp add: toggleArea_def)
qed

lemma ticking_exact:
  assumes d: "distinct (map da_key areas)" and w: "whole areas (set ticked)"
  shows "whole areas (set (toggleArea ticked areas key on)) \<and>
    set (toggleArea ticked areas key on) =
      (if on then set ticked \<union> {j. (needs areas)\<^sup>*\<^sup>* key j} else set ticked - {j. (needs areas)\<^sup>*\<^sup>* j key})"
proof -
  have whole: "whole areas (set (toggleArea ticked areas key on))" by (rule toggle_stays_whole [OF d w])
  have "set (visit_on areas [key] ticked) = set ticked \<union> {j. (needs areas)\<^sup>*\<^sup>* key j}" if on
  proof -
    have "j \<in> set (visit_on areas [key] ticked)" if "(needs areas)\<^sup>*\<^sup>* key j" for j
      using whole_reach [OF that whole] visit_on_keeps [of ticked "[key]" areas] \<open>on\<close> by (simp add: toggleArea_def)
    then show ?thesis using visit_on_adds [OF d, of _ "[key]" ticked] visit_on_keeps [of ticked "[key]" areas]
      by (auto simp del: visit_on.simps)
  qed
  moreover have "set (visit_off areas [key] ticked) = set ticked - {j. (needs areas)\<^sup>*\<^sup>* j key}" if "\<not> on"
  proof -
    have "j \<notin> set (visit_off areas [key] ticked)" if "(needs areas)\<^sup>*\<^sup>* j key" for j
      using whole_reach [OF that whole] visit_off_drops [of areas "[key]" ticked] \<open>\<not> on\<close> by (auto simp: toggleArea_def)
    then show ?thesis using visit_off_keeps [of _ ticked areas "[key]"] visit_off_drops [of areas "[key]" ticked]
      by (auto simp del: visit_off.simps)
  qed
  ultimately show ?thesis using whole by (simp add: toggleArea_def)
qed

text \<open>C29: 
  While the ticked areas are whole, ticking an area ticks it and everything it needs, directly or not,
  and nothing else; unticking it unticks it and everything that needs it, and nothing else; and the ticked
  areas are whole again.
\<close>

theorem ticking_keeps_dependencies:
  assumes d: "distinct (map da_key areas)" and w: "whole areas (set ticked)"
  shows "whole areas (set (toggleArea ticked areas key on)) \<and>
    set (toggleArea ticked areas key on) =
      (if on then set ticked \<union> {j. (needs areas)\<^sup>*\<^sup>* key j} else set ticked - {j. (needs areas)\<^sup>*\<^sup>* j key})"
  by (rule ticking_exact [OF d w])

definition warea :: "string \<Rightarrow> rat \<Rightarrow> string list \<Rightarrow> string list \<Rightarrow> dialog_area" where
  "warea k n deps starts = \<lparr>da_key = k, da_title = k, da_doc = None, da_sort = n, da_dependsOn = deps,
     da_starts = map (\<lambda>s. \<lparr>st_key = s, st_title = s\<rparr>) starts\<rparr>"

definition wareas :: "dialog_area list" where
  "wareas = [warea ''tasks'' 10 [] [''tracking''], warea ''mail'' 20 [''tasks''] [''support''], warea ''sla'' 30 [''mail''] [''sla-a'', ''sla-b'']]"

lemma wareas_facts: "distinct (map da_key wareas)" "whole wareas {}" "whole wareas {''tasks'', ''mail'', ''sla''}"
  by (simp_all add: wareas_def warea_def whole_def)

theorem ticking_keeps_dependencies_witness:
  "set (toggleArea [] wareas ''mail'' True) = {j. (needs wareas)\<^sup>*\<^sup>* ''mail'' j} \<and>
   ''tasks'' \<notin> set (toggleArea [''tasks'', ''mail'', ''sla''] wareas ''tasks'' False) \<and>
   ''sla'' \<notin> set (toggleArea [''tasks'', ''mail'', ''sla''] wareas ''tasks'' False)"
proof -
  have "needs wareas ''sla'' ''mail''" "needs wareas ''mail'' ''tasks''" by (auto simp: needs_def wareas_def warea_def)
  then have "(needs wareas)\<^sup>*\<^sup>* ''sla'' ''tasks''" by (meson converse_rtranclp_into_rtranclp rtranclp.rtrancl_refl)
  then show ?thesis
    using ticking_keeps_dependencies [OF wareas_facts(1), of "[]" "''mail''" True] wareas_facts
      ticking_keeps_dependencies [OF wareas_facts(1), of "[''tasks'', ''mail'', ''sla'']" "''tasks''" False] by simp
qed

section \<open>Presets\<close>

text \<open>
  The areas of a preset are those its features start together with everything they need, and they are whole.
\<close>

theorem preset_areas_are_whole:
  assumes d: "distinct (map da_key areas)"
  shows "whole areas (set (areasOfPreset features areas)) \<and>
    set (areasOfPreset features areas) =
      {j. \<exists>a \<in> set areas. (\<exists>s \<in> set (da_starts a). st_key s \<in> set features) \<and> (needs areas)\<^sup>*\<^sup>* (da_key a) j}"
proof -
  define starts where "starts = (\<lambda>a :: dialog_area. \<exists>s \<in> set (da_starts a). st_key s \<in> set features)"
  define f where "f = (\<lambda>out (a :: dialog_area).
    if list_ex (\<lambda>s. st_key s \<in> set features) (da_starts a) then toggleArea out areas (da_key a) True else out)"
  have f: "whole areas (set (f out a)) \<and> set (f out a) = set out \<union> {j. starts a \<and> (needs areas)\<^sup>*\<^sup>* (da_key a) j}"
    if "whole areas (set out)" for out a
    using conjunct1 [OF ticking_exact [OF d that, of "da_key a" True]] conjunct2 [OF ticking_exact [OF d that, of "da_key a" True]] that
    by (cases "starts a") (simp_all add: f_def starts_def list_ex_iff)
  have "whole areas (set out) \<Longrightarrow> whole areas (set (foldl f out as)) \<and>
      (\<forall>j. j \<in> set (foldl f out as) \<longleftrightarrow> j \<in> set out \<or> (\<exists>a \<in> set as. starts a \<and> (needs areas)\<^sup>*\<^sup>* (da_key a) j))" for out as
  proof (induction as arbitrary: out)
    case (Cons a as)
    have "j \<in> set (f out a) \<longleftrightarrow> j \<in> set out \<or> starts a \<and> (needs areas)\<^sup>*\<^sup>* (da_key a) j" for j
      using f [OF Cons.prems, of a] by simp
    with Cons.IH [OF conjunct1 [OF f [OF Cons.prems, of a]]] show ?case by simp
  qed simp
  from this [of "[]" areas] have "whole areas (set (areasOfPreset features areas))"
    "j \<in> set (areasOfPreset features areas) \<longleftrightarrow> (\<exists>a \<in> set areas. starts a \<and> (needs areas)\<^sup>*\<^sup>* (da_key a) j)" for j
    by (simp_all add: areasOfPreset_def f_def whole_def [of _ "{}"])
  then show ?thesis by (simp add: set_eq_iff starts_def)
qed

section \<open>The compose input\<close>

text \<open>\<open>picks[a.key] ?? a.starts[0]?.key\<close>; no area is named like a member of \<open>Object.prototype\<close>.\<close>

definition start_of :: "string props \<Rightarrow> dialog_area \<Rightarrow> string option" where
  "start_of picks a = (case map_of picks (da_key a) of
     Some s \<Rightarrow> Some s
   | None \<Rightarrow> (case da_starts a of [] \<Rightarrow> None | s # _ \<Rightarrow> Some (st_key s)))"

fun compose_loop ::
  "string list \<Rightarrow> string props \<Rightarrow> dialog_area list \<Rightarrow> string list \<times> string list \<Rightarrow> string list \<times> string list"
where
  "compose_loop ticked picks [] r = r"
| "compose_loop ticked picks (a # as) (features, areasOff) =
     (if da_key a \<notin> set ticked then compose_loop ticked picks as (features, areasOff @ [da_key a])
      else compose_loop ticked picks as
        ((case start_of picks a of
            Some s \<Rightarrow> if s \<notin> set features then features @ [s] else features
          | None \<Rightarrow> features), areasOff))"

definition composeFromAreas :: "string list \<Rightarrow> dialog_area list \<Rightarrow> string props \<Rightarrow> string list \<times> string list" where
  "composeFromAreas ticked areas picks =
     compose_loop ticked picks (js_sort (\<lambda>a b. cmp_of (da_sort a) (da_sort b)) areas) ([], [])"

interpretation area_order: js_comparator "\<lambda>a b. cmp_of (da_sort a) (da_sort b)"
  by (rule js_comparator_cmp_of)

lemma compose_loop_spec:
  "compose_loop ticked picks as (fs, offs) =
     (fs @ dedup_acc fs (List.map_filter (start_of picks) (filter (\<lambda>a. da_key a \<in> set ticked) as)),
      offs @ map da_key (filter (\<lambda>a. da_key a \<notin> set ticked) as))"
  by (induction as arbitrary: fs offs) (auto simp: List.map_filter_simps split: option.split)

lemma composeFromAreas_spec:
  "composeFromAreas ticked areas picks =
     (let as = js_sort (\<lambda>a b. cmp_of (da_sort a) (da_sort b)) areas in
      (dedup (List.map_filter (start_of picks) (filter (\<lambda>a. da_key a \<in> set ticked) as)),
       map da_key (filter (\<lambda>a. da_key a \<notin> set ticked) as)))"
  by (simp add: composeFromAreas_def compose_loop_spec dedup_def Let_def)

lemma before_in_order:
  assumes "a \<in> set areas" "b \<in> set areas" "da_sort b < da_sort a"
  shows "\<exists>p q r. js_sort (\<lambda>a b. cmp_of (da_sort a) (da_sort b)) areas = p @ b # q @ a # r"
proof -
  let ?L = "js_sort (\<lambda>a b. cmp_of (da_sort a) (da_sort b)) areas"
  obtain u r where L: "?L = u @ a # r" using assms(1) split_list [of a ?L] by auto
  have "sorted_wrt (\<lambda>x y. cmp_of (da_sort x) (da_sort y) \<le> 0) ?L"
    using area_order.ordered_sort [of areas] by (simp add: area_order.ordered_def)
  then have "b \<notin> set r" using assms(3) by (auto simp: L sorted_wrt_append cmp_of_le)
  moreover have "b \<in> set (u @ a # r)" using assms(2) by (simp add: L [symmetric])
  ultimately have "b \<in> set u" using assms(3) by auto
  then obtain p q where "u = p @ b # q" by (meson split_list)
  then show ?thesis using L by auto
qed

text \<open>
  When an area needs only areas of a smaller sort order, the starting point of an area comes after the
  starting points of the areas it needs, provided the ticked areas are whole and no two of them start
  from the same bundle.
\<close>

theorem compose_starts_needs_first:
  assumes w: "whole areas (set ticked)"
    and d: "distinct (List.map_filter (start_of picks) (filter (\<lambda>a. da_key a \<in> set ticked) areas))"
    and a: "a \<in> set areas" "da_key a \<in> set ticked" "start_of picks a = Some f"
    and b: "b \<in> set areas" "da_key b \<in> set (da_dependsOn a)" "start_of picks b = Some g" "da_sort b < da_sort a"
  shows "\<exists>xs ys zs. fst (composeFromAreas ticked areas picks) = xs @ g # ys @ f # zs"
proof -
  let ?L = "js_sort (\<lambda>a b. cmp_of (da_sort a) (da_sort b)) areas"
  let ?M = "\<lambda>as. List.map_filter (start_of picks) (filter (\<lambda>a. da_key a \<in> set ticked) as)"
  obtain p q r where L: "?L = p @ b # q @ a # r" using before_in_order [OF a(1) b(1) b(4)] by blast
  have tb: "da_key b \<in> set ticked" using w a(1,2) b(2) by (auto simp: whole_def)
  have M: "?M ?L = ?M p @ g # ?M q @ f # ?M r"
    by (simp add: L a tb b List.map_filter_def)
  have "mset (?M ?L) = mset (?M areas)" by (simp add: List.map_filter_def)
  then have "distinct (?M ?L)" using d by (metis mset_eq_imp_distinct_iff)
  then have "fst (composeFromAreas ticked areas picks) = ?M ?L"
    by (simp add: composeFromAreas_spec Let_def)
  also note M
  finally show ?thesis by blast
qed

theorem compose_starts_needs_first_witness:
  "\<exists>xs ys zs. fst (composeFromAreas [''tasks'', ''mail'', ''sla''] wareas [(''sla'', ''sla-b'')]) = xs @ ''support'' # ys @ ''sla-b'' # zs"
proof (rule compose_starts_needs_first [where a = "warea ''sla'' 30 [''mail''] [''sla-a'', ''sla-b'']" and b = "warea ''mail'' 20 [''tasks''] [''support'']"])
  show "whole wareas (set [''tasks'', ''mail'', ''sla''])" by (simp add: wareas_facts)
qed (simp_all add: wareas_def, simp_all add: warea_def start_of_def List.map_filter_simps)

section \<open>The project list's readers\<close>

definition PRESET_CHOICE_PREFIX :: string where "PRESET_CHOICE_PREFIX = ''preset:''"
definition AREAS_CHOICE :: string where "AREAS_CHOICE = ''areas:''"

definition composeChoice :: "string \<Rightarrow> string option" where
  "composeChoice value =
     (if \<not> js_starts PRESET_CHOICE_PREFIX value then None
      else let key = drop (length PRESET_CHOICE_PREFIX) value in if key \<noteq> [] then Some key else None)"

definition projectTitle :: "card \<Rightarrow> string" where
  "projectTitle p = (case prop_get (attributes p) ''title'' of
     JStr t \<Rightarrow> if t \<noteq> [] then t else ''#'' @ int_text (card_id p)
   | _ \<Rightarrow> ''#'' @ int_text (card_id p))"

definition projectDescription :: "card \<Rightarrow> string option" where
  "projectDescription p = (case prop_get (attributes p) ''description'' of
     JStr v \<Rightarrow> (let trimmed = js_trim v in if trimmed \<noteq> [] then Some trimmed else None)
   | _ \<Rightarrow> None)"

definition searchByTitle :: "card list \<Rightarrow> string \<Rightarrow> card list" where
  "searchByTitle projects search =
     (let needle = js_lower (js_trim search)
      in if needle = [] then projects else filter (\<lambda>p. js_includes needle (js_lower (projectTitle p))) projects)"

definition clampIndex :: "int \<Rightarrow> int \<Rightarrow> int \<Rightarrow> int" where
  "clampIndex visibleLen current delta =
     (if visibleLen \<le> 0 then 0
      else let next = current + delta in if next < 0 then 0 else if next > visibleLen - 1 then visibleLen - 1 else next)"

lemma composeChoice_prefix: "composeChoice (PRESET_CHOICE_PREFIX @ key) = (if key = [] then None else Some key)"
  by (simp add: composeChoice_def)

lemma searchByTitle_empty: "searchByTitle ps [] = ps"
  by (simp add: searchByTitle_def js_lower_def)

text \<open>A walk over the visible projects stays on one of them, and a step moves by one until it meets an end.\<close>

lemma clampIndex_bounds: "0 < n \<Longrightarrow> 0 \<le> clampIndex n i d \<and> clampIndex n i d < n"
  by (simp add: clampIndex_def Let_def)

end
