(* ===== verification/AreaSwitches.thy ===== *)
theory AreaSwitches
  imports Areas
begin

text \<open>
  The Areas screen, \<^verbatim>\<open>areas/area-switches.ts\<close>: the rows it lists, the actions a row offers, and the calls it
  makes. Its callbacks are events; a callback of a destroyed control is dropped by the dispatcher. The row of
  a key is the first row with it (the server sends each area once). The markup of a row is left out.
\<close>

section \<open>The wire\<close>

datatype area_state = Area_on | Area_off | Area_unused
datatype area_scope = Project_scope | Workspace_scope

record area_switched =
  aw_on :: bool
  aw_at :: string
  aw_by :: string

record area_row =
  ar_key :: string
  ar_title :: string
  ar_doc :: string
  ar_scope :: area_scope
  ar_sort :: jnum
  ar_state :: area_state
  ar_dependsOn :: "string list"
  ar_starts :: "area_start list"
  ar_added :: "string list"
  ar_screens :: "string list"
  ar_items :: "jnum option"
  ar_switched :: "area_switched option"

definition asNum :: "js \<Rightarrow> jnum" where
  "asNum v = (case v of
     JNum n \<Rightarrow> n
   | JBig i \<Rightarrow> Fin (of_int i)
   | JStr s \<Rightarrow> if js_trim s \<noteq> [] \<and> js_number s \<noteq> NaN then js_number s else Fin 0
   | _ \<Rightarrow> Fin 0)"

definition asStrings :: "js \<Rightarrow> string list" where
  "asStrings v = map asStr (asArray v)"

definition decodeAreaRow :: "js props \<Rightarrow> area_row" where
  "decodeAreaRow j =
     (let state = asStr (prop_get j ''state'') in
      \<lparr>ar_key = asStr (prop_get j ''key''), ar_title = asStr (prop_get j ''title''), ar_doc = asStr (prop_get j ''doc''),
       ar_scope = (if asStr (prop_get j ''scope'') = ''workspace'' then Workspace_scope else Project_scope),
       ar_sort = asNum (prop_get j ''sort''),
       ar_state = (if state = ''off'' then Area_off else if state = ''unused'' then Area_unused else Area_on),
       ar_dependsOn = asStrings (prop_get j ''depends_on''),
       ar_starts = map (\<lambda>r. \<lparr>st_key = asStr (prop_get (asObj r) ''key''), st_title = asStr (prop_get (asObj r) ''title'')\<rparr>)
         (asArray (prop_get j ''starts'')),
       ar_added = asStrings (prop_get j ''added''), ar_screens = asStrings (prop_get j ''screens''),
       ar_items = (if prop_get j ''items'' = JNull \<or> prop_get j ''items'' = JUndef then None
         else Some (asNum (prop_get j ''items''))),
       ar_switched = (if is_object (prop_get j ''switched'') then
           (let w = asObj (prop_get j ''switched'') in
            Some \<lparr>aw_on = (asStr (prop_get w ''state'') \<noteq> ''off''), aw_at = asStr (prop_get w ''at''), aw_by = asStr (prop_get w ''by'')\<rparr>)
         else None)\<rparr>)"

definition encode_area_list :: "int option \<Rightarrow> js" where
  "encode_area_list projectId = (case projectId of
     Some p \<Rightarrow> if 0 < p then JObj [(''project_id'', JBig p)] else JObj []
   | None \<Rightarrow> JObj [])"

definition decode_area_list :: "js \<Rightarrow> area_row list" where
  "decode_area_list raw = map (\<lambda>r. decodeAreaRow (asObj r)) (asArray (prop_get (asObj raw) ''areas''))"

record area_set_input =
  as_project :: "int option"
  as_key :: string
  as_on :: bool
  as_start :: "string option"

definition encode_area_set :: "area_set_input \<Rightarrow> js" where
  "encode_area_set i =
     JObj ([(''key'', JStr (as_key i)), (''on'', JBool (as_on i))] @
       (case as_project i of Some p \<Rightarrow> if 0 < p then [(''project_id'', JBig p)] else [] | None \<Rightarrow> []) @
       (case as_start i of Some s \<Rightarrow> if s \<noteq> '''' then [(''start'', JStr s)] else [] | None \<Rightarrow> []))"

section \<open>The facts of a row\<close>

text \<open>\<open>all.find((x) => x.key === k)?.title ?? k\<close>.\<close>

definition area_name :: "area_row list \<Rightarrow> string \<Rightarrow> string" where
  "area_name all k = (case find (\<lambda>x. ar_key x = k) all of Some x \<Rightarrow> ar_title x | None \<Rightarrow> k)"

definition areaFacts :: "area_row \<Rightarrow> area_row list \<Rightarrow> string list" where
  "areaFacts a all =
     (let added = map st_title (filter (\<lambda>s. st_key s \<in> set (ar_added a)) (ar_starts a)) in
      (if ar_dependsOn a \<noteq> [] then [''Needs '' @ js_join '' and '' (map (area_name all) (ar_dependsOn a))] else []) @
      (if added \<noteq> [] then [''Started from '' @ js_join '', '' added] else []) @
      (case ar_items a of None \<Rightarrow> [] | Some n \<Rightarrow> [num_text n @ '' item'' @ (if n = Fin 1 then '''' else ''s'')]) @
      (case ar_switched a of
         Some w \<Rightarrow> if aw_at w \<noteq> '''' then
             [''Switched '' @ (if aw_on w then ''on'' else ''off'') @ '' '' @ take 10 (aw_at w) @
               (if aw_by w \<noteq> '''' then '' by '' @ aw_by w else '''')]
           else []
       | None \<Rightarrow> []))"

section \<open>State\<close>

datatype area_call =
    List_call nat "int option"
  | Set_call area_set_input

record switches =
  sw_scope :: area_scope
  sw_fixed :: "string option"
  sw_follows :: bool
  sw_leaf :: js
  sw_areas :: "area_row list"
  sw_loaded :: bool
  sw_confirming :: "string option"
  sw_busy :: "string option"
  sw_errors :: "string props"
  sw_picked :: "string props"
  loadSeq :: nat
  sw_calls :: "area_call list"
  sw_nav :: nat

text \<open>\<open>/^\d+$/\<close> and \<open>BigInt\<close>.\<close>

definition digits_id :: "string \<Rightarrow> int option" where
  "digits_id s = (if s \<noteq> [] \<and> list_all is_digit s then Some (int_of_text s) else None)"

text \<open>\<open>scopePath() !== null\<close>.\<close>

definition follows_scope :: "switches \<Rightarrow> bool" where
  "follows_scope s \<longleftrightarrow> sw_scope s = Project_scope \<and> sw_fixed s = None \<and> sw_follows s"

definition projectId :: "switches \<Rightarrow> int option" where
  "projectId s =
     (if sw_scope s \<noteq> Project_scope then None
      else if follows_scope s then
        (case sw_leaf s of JBig i \<Rightarrow> Some i | JStr t \<Rightarrow> digits_id t | _ \<Rightarrow> None)
      else Option.bind (sw_fixed s) digits_id)"

definition load :: "switches \<Rightarrow> switches" where
  "load s =
     (let s' = s\<lparr>loadSeq := Suc (loadSeq s)\<rparr> in
      if sw_scope s = Project_scope \<and> projectId s = None
      then (if follows_scope s then s'\<lparr>sw_loaded := True\<rparr> else s')
      else s'\<lparr>sw_calls := sw_calls s @ [List_call (loadSeq s') (projectId s)]\<rparr>)"

text \<open>The first run of the effect, or the load of a control that follows no scope.\<close>

definition start_switches :: "area_scope \<Rightarrow> string option \<Rightarrow> bool \<Rightarrow> js \<Rightarrow> switches" where
  "start_switches scope fixed follows leaf = load
     \<lparr>sw_scope = scope, sw_fixed = fixed, sw_follows = follows, sw_leaf = leaf, sw_areas = [], sw_loaded = False,
      sw_confirming = None, sw_busy = None, sw_errors = [], sw_picked = [], loadSeq = 0, sw_calls = [], sw_nav = 0\<rparr>"

section \<open>Rows\<close>

datatype area_action = Ask_off | Confirm_off | Cancel_off | Switch_on

definition needsStart :: "area_row \<Rightarrow> bool" where
  "needsStart a \<longleftrightarrow> ar_starts a \<noteq> [] \<and> ar_added a = []"

definition row_actions :: "switches \<Rightarrow> bool \<Rightarrow> bool \<Rightarrow> area_row \<Rightarrow> area_action list" where
  "row_actions s admin manager a =
     (if sw_confirming s = Some (ar_key a) then [Confirm_off, Cancel_off]
      else if ar_state a = Area_on then (if manager then [Ask_off] else [])
      else if admin then [Switch_on] else [])"

text \<open>The starting points offered: the choice is shown when there is more than one.\<close>

definition start_choice :: "switches \<Rightarrow> bool \<Rightarrow> area_row \<Rightarrow> string list" where
  "start_choice s admin a =
     (if sw_confirming s \<noteq> Some (ar_key a) \<and> ar_state a \<noteq> Area_on \<and> admin \<and> needsStart a \<and> 1 < length (ar_starts a)
      then map st_key (ar_starts a) else [])"

text \<open>\<open>this.picked[a.key] ?? a.starts[0]!.key\<close>.\<close>

definition picked_start :: "switches \<Rightarrow> area_row \<Rightarrow> string" where
  "picked_start s a = (case map_of (sw_picked s) (ar_key a) of Some k \<Rightarrow> k | None \<Rightarrow> st_key (hd (ar_starts a)))"

definition switch_area :: "area_row \<Rightarrow> bool \<Rightarrow> switches \<Rightarrow> switches" where
  "switch_area a on s =
     s\<lparr>sw_busy := Some (ar_key a), sw_confirming := None, sw_errors := filter (\<lambda>(k, m). k \<noteq> ar_key a) (sw_errors s),
       sw_calls := sw_calls s @ [Set_call
         \<lparr>as_project = projectId s, as_key = ar_key a, as_on = on,
          as_start = (if on \<and> needsStart a then Some (picked_start s a) else None)\<rparr>]\<rparr>"

fun act :: "area_action \<Rightarrow> area_row \<Rightarrow> switches \<Rightarrow> switches" where
  "act Ask_off a s = s\<lparr>sw_confirming := Some (ar_key a)\<rparr>"
| "act Cancel_off a s = s\<lparr>sw_confirming := None\<rparr>"
| "act Confirm_off a s = switch_area a False s"
| "act Switch_on a s = switch_area a True s"

text \<open>A button does something only when its row shows it and is not busy.\<close>

definition press :: "bool \<Rightarrow> bool \<Rightarrow> string \<Rightarrow> area_action \<Rightarrow> switches \<Rightarrow> switches" where
  "press admin manager key b s =
     (case (if sw_loaded s then find (\<lambda>a. ar_key a = key) (sw_areas s) else None) of
        None \<Rightarrow> s
      | Some a \<Rightarrow> if b \<in> set (row_actions s admin (admin \<or> manager) a) \<and> sw_busy s \<noteq> Some key then act b a s else s)"

definition pick :: "bool \<Rightarrow> string \<Rightarrow> string \<Rightarrow> switches \<Rightarrow> switches" where
  "pick admin key start s =
     (case (if sw_loaded s then find (\<lambda>a. ar_key a = key) (sw_areas s) else None) of
        None \<Rightarrow> s
      | Some a \<Rightarrow> if start \<in> set (start_choice s admin a) then s\<lparr>sw_picked := obj_put key start (sw_picked s)\<rparr> else s)"

section \<open>Events\<close>

definition faultText :: "string props \<Rightarrow> api_fault \<Rightarrow> string" where
  "faultText messages f = (case f of
     Sub_error c m d \<Rightarrow> (case map_of messages c of Some t \<Rightarrow> t | None \<Rightarrow> if m \<noteq> '''' then m else c)
   | Http s \<Rightarrow> ''Request failed (http '' @ int_text s @ '').''
   | Network m \<Rightarrow> m
   | Decode m \<Rightarrow> m
   | Aborted r \<Rightarrow> ''Request aborted: '' @ r)"

text \<open>\<open>text.replace(/^area\.set: /, '')\<close>.\<close>

definition drop_prefix :: "string \<Rightarrow> string \<Rightarrow> string" where
  "drop_prefix p s = (if js_starts p s then drop (length p) s else s)"

datatype area_event =
    Scope_moved js
  | Listed nat "area_row list"
  | List_failed nat
  | Pressed bool bool string area_action
  | Picked bool string string
  | Set_done
  | Set_failed string api_fault

fun area_step :: "area_event \<Rightarrow> switches \<Rightarrow> switches" where
  "area_step (Scope_moved v) s =
     (if follows_scope s
      then load (s\<lparr>sw_leaf := v, sw_areas := [], sw_loaded := False, sw_confirming := None, sw_errors := []\<rparr>)
      else s\<lparr>sw_leaf := v\<rparr>)"
| "area_step (Listed n rows) s =
     (if n \<noteq> loadSeq s then s
      else s\<lparr>sw_areas := filter (\<lambda>a. ar_scope a = sw_scope s) rows, sw_loaded := True, sw_busy := None\<rparr>)"
| "area_step (List_failed n) s = (if n \<noteq> loadSeq s then s else s\<lparr>sw_loaded := True\<rparr>)"
| "area_step (Pressed admin manager key b) s = press admin manager key b s"
| "area_step (Picked admin key start) s = pick admin key start s"
| "area_step Set_done s = load (s\<lparr>sw_nav := Suc (sw_nav s)\<rparr>)"
| "area_step (Set_failed key f) s =
     s\<lparr>sw_busy := None, sw_errors := obj_put key (drop_prefix ''area.set: '' (faultText [] f)) (sw_errors s)\<rparr>"

text \<open>An answer comes to a call that was made.\<close>

fun possible :: "area_event \<Rightarrow> switches \<Rightarrow> bool" where
  "possible (Listed n rows) s \<longleftrightarrow> list_ex (\<lambda>c. case c of List_call m p \<Rightarrow> m = n | _ \<Rightarrow> False) (sw_calls s)"
| "possible (List_failed n) s \<longleftrightarrow> list_ex (\<lambda>c. case c of List_call m p \<Rightarrow> m = n | _ \<Rightarrow> False) (sw_calls s)"
| "possible Set_done s \<longleftrightarrow> list_ex (\<lambda>c. case c of Set_call i \<Rightarrow> True | _ \<Rightarrow> False) (sw_calls s)"
| "possible (Set_failed key f) s \<longleftrightarrow> list_ex (\<lambda>c. case c of Set_call i \<Rightarrow> as_key i = key | _ \<Rightarrow> False) (sw_calls s)"
| "possible e s \<longleftrightarrow> True"

inductive area_trace :: "switches \<Rightarrow> area_event list \<Rightarrow> switches \<Rightarrow> bool" for s0 where
  start: "area_trace s0 [] s0"
| step: "area_trace s0 evs s \<Longrightarrow> possible e s \<Longrightarrow> area_trace s0 (evs @ [e]) (area_step e s)"

section \<open>What the screen shows\<close>

text \<open>The rows on the screen answer the call \<open>List_call n p\<close> of a run that sent the calls \<open>cs\<close> and saw \<open>evs\<close>.\<close>

definition answers_for :: "area_event list \<Rightarrow> switches \<Rightarrow> int option \<Rightarrow> bool" where
  "answers_for evs s p \<longleftrightarrow> (\<exists>n rows. List_call n p \<in> set (sw_calls s) \<and> Listed n rows \<in> set evs \<and>
     sw_areas s = filter (\<lambda>a. ar_scope a = sw_scope s) rows)"

text \<open>The list call numbered with the current sequence number, if it was sent, names the current project.\<close>

definition current_load :: "switches \<Rightarrow> bool" where
  "current_load s \<longleftrightarrow> (\<forall>n p. List_call n p \<in> set (sw_calls s) \<longrightarrow> n \<le> loadSeq s \<and> (n = loadSeq s \<longrightarrow> p = projectId s))"

definition shows_project :: "area_event list \<Rightarrow> switches \<Rightarrow> bool" where
  "shows_project evs s \<longleftrightarrow> current_load s \<and> (sw_areas s = [] \<or> answers_for evs s (projectId s))"

lemma projectId_cong:
  "sw_scope s = sw_scope t \<Longrightarrow> sw_fixed s = sw_fixed t \<Longrightarrow> sw_follows s = sw_follows t \<Longrightarrow> sw_leaf s = sw_leaf t \<Longrightarrow>
   projectId s = projectId t"
  by (simp add: projectId_def follows_scope_def)

lemma load_fields [simp]:
  "sw_scope (load s) = sw_scope s" "sw_areas (load s) = sw_areas s" "sw_fixed (load s) = sw_fixed s"
  "sw_follows (load s) = sw_follows s" "sw_leaf (load s) = sw_leaf s" "sw_busy (load s) = sw_busy s"
  "sw_errors (load s) = sw_errors s" "sw_confirming (load s) = sw_confirming s"
  by (simp_all add: load_def Let_def)

lemma projectId_load [simp]: "projectId (load s) = projectId s"
  by (rule projectId_cong) simp_all

lemma calls_load: "set (sw_calls s) \<subseteq> set (sw_calls (load s))"
  by (auto simp: load_def Let_def)

lemma current_load_load:
  assumes "\<And>n p. List_call n p \<in> set (sw_calls s) \<Longrightarrow> n \<le> loadSeq s" shows "current_load (load s)"
  unfolding current_load_def
proof (intro allI impI)
  fix n p assume "List_call n p \<in> set (sw_calls (load s))"
  then show "n \<le> loadSeq (load s) \<and> (n = loadSeq (load s) \<longrightarrow> p = projectId (load s))"
    using assms [of n p] unfolding projectId_load by (auto simp: load_def Let_def split: if_splits)
qed

lemma answers_for_more: "answers_for evs s p \<Longrightarrow> set (sw_calls s) \<subseteq> set (sw_calls t) \<Longrightarrow> sw_areas t = sw_areas s \<Longrightarrow>
  sw_scope t = sw_scope s \<Longrightarrow> answers_for (evs @ [e]) t p"
  by (auto simp: answers_for_def)

lemma press_fields:
  "sw_scope (press a m k b s) = sw_scope s" "sw_areas (press a m k b s) = sw_areas s" "sw_fixed (press a m k b s) = sw_fixed s"
  "sw_follows (press a m k b s) = sw_follows s" "sw_leaf (press a m k b s) = sw_leaf s" "loadSeq (press a m k b s) = loadSeq s"
  "List_call n p \<in> set (sw_calls (press a m k b s)) \<longleftrightarrow> List_call n p \<in> set (sw_calls s)"
  by (cases b; auto simp: press_def switch_area_def split: option.split)+

lemma same_current:
  assumes "current_load s" "sw_scope t = sw_scope s" "sw_fixed t = sw_fixed s" "sw_follows t = sw_follows s" "sw_leaf t = sw_leaf s"
    "loadSeq t = loadSeq s" "\<And>n p. List_call n p \<in> set (sw_calls t) \<longleftrightarrow> List_call n p \<in> set (sw_calls s)"
  shows "current_load t"
  using assms projectId_cong [of t s] by (auto simp: current_load_def)

lemma same_answers:
  assumes "answers_for evs s p" "sw_scope t = sw_scope s" "sw_areas t = sw_areas s"
    "\<And>n p. List_call n p \<in> set (sw_calls t) \<longleftrightarrow> List_call n p \<in> set (sw_calls s)"
  shows "answers_for (evs @ [e]) t p"
  using assms by (auto simp: answers_for_def)

lemma sent_list [simp]:
  "list_ex (\<lambda>c. case c of List_call m p \<Rightarrow> m = n | _ \<Rightarrow> False) cs \<longleftrightarrow> (\<exists>p. List_call n p \<in> set cs)"
  by (induction cs) (auto split: area_call.splits)

lemma shows_project_step:
  assumes "shows_project evs s" "possible e s" shows "shows_project (evs @ [e]) (area_step e s)"
proof -
  have keep: "shows_project (evs @ [e]) t"
    if "sw_scope t = sw_scope s" "sw_fixed t = sw_fixed s" "sw_follows t = sw_follows s" "sw_leaf t = sw_leaf s"
      "loadSeq t = loadSeq s" "\<And>n p. List_call n p \<in> set (sw_calls t) \<longleftrightarrow> List_call n p \<in> set (sw_calls s)" "sw_areas t = sw_areas s" for t
    using assms(1) same_current [of s t] same_answers [of evs s "projectId s" t e] projectId_cong [of t s] that
    by (auto simp: shows_project_def)
  have reload: "shows_project (evs @ [e]) (load t)"
    if "sw_areas t = [] \<or> sw_areas t = sw_areas s \<and> projectId t = projectId s" "sw_scope t = sw_scope s"
      "sw_calls t = sw_calls s" "loadSeq t = loadSeq s" for t
    using assms(1) that current_load_load [of t] calls_load [of t] answers_for_more [of evs s "projectId s" "load t" e]
    by (auto simp: shows_project_def current_load_def)
  show ?thesis
  proof (cases e)
    case (Scope_moved v)
    show ?thesis
    proof (cases "follows_scope s")
      case True
      then have "area_step e s = load (s\<lparr>sw_leaf := v, sw_areas := [], sw_loaded := False, sw_confirming := None, sw_errors := []\<rparr>)"
        by (simp add: Scope_moved)
      then show ?thesis by (simp only:) (rule reload, simp_all)
    next
      case False
      then have "projectId (s\<lparr>sw_leaf := v\<rparr>) = projectId s" by (auto simp: projectId_def follows_scope_def)
      with False Scope_moved assms(1) show ?thesis by (auto simp: shows_project_def current_load_def answers_for_def)
    qed
  next
    case (Listed n rows)
    show ?thesis
    proof (cases "n = loadSeq s")
      case True
      let ?t = "area_step e s"
      have p: "projectId ?t = projectId s" by (rule projectId_cong) (simp_all add: Listed)
      have "current_load ?t" by (rule same_current [of s]) (use assms(1) in \<open>simp_all add: Listed shows_project_def\<close>)
      moreover have "List_call n (projectId s) \<in> set (sw_calls s)"
        using assms True Listed by (auto simp: shows_project_def current_load_def)
      ultimately show ?thesis unfolding shows_project_def p using True by (auto simp: answers_for_def Listed)
    next
      case False
      then show ?thesis using keep [of s] by (simp add: Listed)
    qed
  next
    case Set_done
    have "area_step e s = load (s\<lparr>sw_nav := Suc (sw_nav s)\<rparr>)" by (simp add: Set_done)
    then show ?thesis by (simp only:) (rule reload, simp_all add: projectId_def follows_scope_def)
  next
    case (Pressed a m k b)
    then show ?thesis using keep [of "press a m k b s"] by (simp add: press_fields)
  next
    case (Picked a k c)
    then show ?thesis using keep [of "pick a k c s"] by (simp add: pick_def split: option.split)
  next
    case (List_failed n)
    then show ?thesis using keep [of "area_step e s"] by simp
  next
    case (Set_failed k f)
    then show ?thesis using keep [of "area_step e s"] by simp
  qed
qed

lemma start_shows: "shows_project [] (start_switches scope fixed follows leaf)"
  unfolding shows_project_def start_switches_def by (auto intro!: current_load_load)

text \<open>C40: 
  Whatever the user does, whichever project is opened meanwhile and in whatever order the answers arrive,
  the rows on the screen are those the server listed for the project the screen is on now.
\<close>

theorem switches_show_this_project:
  assumes "area_trace (start_switches scope fixed follows leaf) evs s"
  shows "sw_areas s = [] \<or> answers_for evs s (projectId s)"
proof -
  from assms have "shows_project evs s"
    by (induction rule: area_trace.induct) (auto intro: start_shows shows_project_step)
  then show ?thesis by (simp add: shows_project_def)
qed

section \<open>Who may switch\<close>

definition asked :: "area_event list \<Rightarrow> string \<Rightarrow> bool" where
  "asked evs k \<longleftrightarrow> (\<exists>admin manager. (admin \<or> manager) \<and> Pressed admin manager k Ask_off \<in> set evs)"

definition allowed_call :: "area_event list \<Rightarrow> area_set_input \<Rightarrow> bool" where
  "allowed_call evs i \<longleftrightarrow>
     (if as_on i then \<exists>manager. Pressed True manager (as_key i) Switch_on \<in> set evs else asked evs (as_key i))"

definition allowed :: "area_event list \<Rightarrow> switches \<Rightarrow> bool" where
  "allowed evs s \<longleftrightarrow> (\<forall>k. sw_confirming s = Some k \<longrightarrow> asked evs k) \<and> (\<forall>i. Set_call i \<in> set (sw_calls s) \<longrightarrow> allowed_call evs i)"

lemma allowed_more: "asked evs k \<Longrightarrow> asked (evs @ [e]) k" "allowed_call evs i \<Longrightarrow> allowed_call (evs @ [e]) i"
proof -
  show more: "asked evs k \<Longrightarrow> asked (evs @ [e]) k" for k by (auto simp: asked_def)
  show "allowed_call evs i \<Longrightarrow> allowed_call (evs @ [e]) i" by (auto simp: allowed_call_def more split: if_splits)
qed

lemma load_calls [simp]: "Set_call i \<in> set (sw_calls (load s)) \<longleftrightarrow> Set_call i \<in> set (sw_calls s)"
  by (simp add: load_def Let_def)

lemma allowed_press:
  assumes "allowed evs s" shows "allowed (evs @ [Pressed admin manager key b]) (press admin manager key b s)"
proof (cases "if sw_loaded s then find (\<lambda>a. ar_key a = key) (sw_areas s) else None")
  case None
  then show ?thesis using assms by (auto simp: press_def allowed_def allowed_more)
next
  case (Some a)
  then have k: "ar_key a = key" by (auto simp: find_Some_iff split: if_splits)
  let ?evs = "evs @ [Pressed admin manager key b]"
  have more: "allowed ?evs s" using assms by (auto simp: allowed_def allowed_more)
  have "allowed ?evs (act b a s)" if "b \<in> set (row_actions s admin (admin \<or> manager) a)"
  proof (cases b)
    case Ask_off
    then have "admin \<or> manager" using that by (auto simp: row_actions_def split: if_splits)
    then have "asked ?evs key" unfolding asked_def Ask_off by auto
    with more show ?thesis by (simp add: Ask_off allowed_def k)
  next
    case Cancel_off
    with more show ?thesis by (simp add: allowed_def)
  next
    case Confirm_off
    then have "sw_confirming s = Some key" using that by (auto simp: row_actions_def k split: if_splits)
    then have "asked ?evs key" using more by (simp add: allowed_def)
    with more show ?thesis by (auto simp: Confirm_off allowed_def switch_area_def allowed_call_def k)
  next
    case Switch_on
    then have "admin" using that by (auto simp: row_actions_def split: if_splits)
    then have "\<exists>m. Pressed True m key Switch_on \<in> set ?evs" unfolding Switch_on by auto
    with more show ?thesis by (auto simp: Switch_on allowed_def switch_area_def allowed_call_def k)
  qed
  with more Some show ?thesis by (simp add: press_def)
qed

lemma allowed_step: "allowed evs s \<Longrightarrow> allowed (evs @ [e]) (area_step e s)"
proof (cases e)
  case (Pressed admin manager key b)
  assume "allowed evs s"
  then show ?thesis by (simp add: Pressed allowed_press)
qed (auto simp: allowed_def allowed_more pick_def split: option.split)

text \<open>
  An area is switched on only after an administrator pressed its Switch on or Set up, and switched off only
  after a manager or an administrator was asked to confirm it.
\<close>

theorem switching_needs_its_role:
  assumes "area_trace (start_switches scope fixed follows leaf) evs s" and "Set_call i \<in> set (sw_calls s)"
  shows "if as_on i then \<exists>manager. Pressed True manager (as_key i) Switch_on \<in> set evs
    else \<exists>admin manager. (admin \<or> manager) \<and> Pressed admin manager (as_key i) Ask_off \<in> set evs"
proof -
  from assms(1) have "allowed evs s"
  proof (induction rule: area_trace.induct)
    case start
    show ?case by (simp add: allowed_def start_switches_def)
  qed (rule allowed_step)
  with assms(2) show ?thesis by (auto simp: allowed_def allowed_call_def asked_def split: if_splits)
qed

section \<open>Witnesses and defects\<close>

definition warow :: "string \<Rightarrow> area_state \<Rightarrow> area_row" where
  "warow k st = \<lparr>ar_key = k, ar_title = k, ar_doc = [], ar_scope = Project_scope, ar_sort = Fin 1, ar_state = st,
     ar_dependsOn = [], ar_starts = [], ar_added = [], ar_screens = [], ar_items = None, ar_switched = None\<rparr>"

definition wstart :: switches where
  "wstart = start_switches Project_scope None True (JBig 7)"

lemmas wdefs = wstart_def start_switches_def load_def Let_def projectId_def follows_scope_def warow_def press_def row_actions_def
  switch_area_def needsStart_def picked_start_def

fun all_possible :: "area_event list \<Rightarrow> switches \<Rightarrow> bool" where
  "all_possible [] s \<longleftrightarrow> True"
| "all_possible (e # es) s \<longleftrightarrow> possible e s \<and> all_possible es (area_step e s)"

lemma area_trace_append: "area_trace s0 evs s \<Longrightarrow> all_possible es s \<Longrightarrow> area_trace s0 (evs @ es) (fold area_step es s)"
proof (induction es arbitrary: evs s)
  case (Cons e es)
  then have "area_trace s0 (evs @ [e]) (area_step e s)" by (simp add: area_trace.step)
  with Cons show ?case by fastforce
qed simp

lemma area_trace_fold: "all_possible es s \<Longrightarrow> area_trace s es (fold area_step es s)"
  using area_trace_append [OF area_trace.start, of es s] by simp

text \<open>The list of project 7 arrives after project 8 was opened.\<close>

definition wlate :: "area_event list" where
  "wlate = [Scope_moved (JBig 8), Listed 1 [warow ''tasks'' Area_on], Listed 2 [warow ''mail'' Area_off]]"

theorem switches_show_this_project_witness:
  "answers_for wlate (fold area_step wlate wstart) (Some 8) \<and> map ar_key (sw_areas (fold area_step wlate wstart)) = [''mail'']"
proof -
  let ?s = "fold area_step wlate wstart"
  have "all_possible wlate wstart" by (simp add: wlate_def wdefs)
  then have "sw_areas ?s = [] \<or> answers_for wlate ?s (projectId ?s)"
    unfolding wstart_def by (rule switches_show_this_project [OF area_trace_fold])
  moreover have "map ar_key (sw_areas ?s) = [''mail'']" "projectId ?s = Some 8"
    by (simp_all add: wlate_def wdefs)
  ultimately show ?thesis by auto
qed

definition wswitch :: "area_event list" where
  "wswitch = [Listed 1 [warow ''tasks'' Area_on], Pressed False True ''tasks'' Ask_off, Pressed False False ''tasks'' Confirm_off]"

theorem switching_needs_its_role_witness:
  "\<exists>admin manager. (admin \<or> manager) \<and> Pressed admin manager ''tasks'' Ask_off \<in> set wswitch"
proof -
  let ?i = "\<lparr>as_project = Some 7, as_key = ''tasks'', as_on = False, as_start = None\<rparr>"
  have p: "all_possible wswitch wstart" and "Set_call ?i \<in> set (sw_calls (fold area_step wswitch wstart))"
    by (simp_all add: wswitch_def wdefs)
  from switching_needs_its_role [OF area_trace_fold [OF p, unfolded wstart_def] this(2) [unfolded wstart_def]]
  show ?thesis by simp
qed

text \<open>
  When the list fails to reload after an area was switched, nothing clears the busy mark: the buttons of that
  row stay disabled.
\<close>

lemma failed_reload_leaves_busy:
  "sw_busy (area_step (List_failed (loadSeq (area_step Set_done s))) (area_step Set_done s)) = sw_busy s"
  by simp

text \<open>A refusal that arrives after another project was opened is shown in that project's row of the same area.\<close>

lemma refusal_outlives_its_project:
  "follows_scope s \<Longrightarrow>
   map_of (sw_errors (area_step (Set_failed key f) (area_step (Scope_moved v) s))) key = Some (drop_prefix ''area.set: '' (faultText [] f))"
  by (simp add: obj_put_def has_prop_def)

end
