(* ===== verification/ActivityFilter.thy ===== *)
theory ActivityFilter
  imports FilterPredicateSpec JsText
begin

text \<open>
  The event filter of an activity sink or a personal subscription: its editor's model,
  \<^verbatim>\<open>admin/activity-predicate.ts\<close>, the shortcut boxes of \<^verbatim>\<open>admin/activity-filter-editor.ts\<close>, and the server's
  evaluator of the text the editor stores, \<^verbatim>\<open>server/internal/dom/activitysink/predicate.go\<close>. The server reads
  the keys the editor writes (Go also matches keys of another case); its integers are int64 values.

  Main results: a filter read back from its text is the filter; the server reads the same tree; ticking
  "Skip changes I or my agents make" in an AND filter keeps the subscriber's own changes out, whoever the
  subscriber's agents are; in an OR filter it does not.
\<close>

section \<open>Filters\<close>

datatype activity_leaf_op = Kind_in | Kind_not_in | Attr_in | Attr_not_in | Actor_in | Actor_not_in | Approval_asks_in
datatype activity_comp_op = A_and | A_or

datatype activity_predicate =
    Composite activity_comp_op "activity_predicate list"
  | Condition activity_leaf_op "string list"

definition ACTIVITY_COMPOSITE_OPS :: "(string \<times> activity_comp_op) list" where
  "ACTIVITY_COMPOSITE_OPS = [(''and'', A_and), (''or'', A_or)]"

definition ACTIVITY_LEAF_OPS :: "(string \<times> activity_leaf_op) list" where
  "ACTIVITY_LEAF_OPS =
     [(''kind_in'', Kind_in), (''kind_not_in'', Kind_not_in), (''attr_in'', Attr_in), (''attr_not_in'', Attr_not_in),
      (''actor_in'', Actor_in), (''actor_not_in'', Actor_not_in), (''approval_asks_in'', Approval_asks_in)]"

fun comp_text :: "activity_comp_op \<Rightarrow> string" where
  "comp_text A_and = ''and''"
| "comp_text A_or = ''or''"

fun leaf_text :: "activity_leaf_op \<Rightarrow> string" where
  "leaf_text Kind_in = ''kind_in''"
| "leaf_text Kind_not_in = ''kind_not_in''"
| "leaf_text Attr_in = ''attr_in''"
| "leaf_text Attr_not_in = ''attr_not_in''"
| "leaf_text Actor_in = ''actor_in''"
| "leaf_text Actor_not_in = ''actor_not_in''"
| "leaf_text Approval_asks_in = ''approval_asks_in''"

definition isCompositeOp :: "js \<Rightarrow> activity_comp_op option" where
  "isCompositeOp v = (case v of JStr s \<Rightarrow> map_of ACTIVITY_COMPOSITE_OPS s | _ \<Rightarrow> None)"

definition isLeafOp :: "js \<Rightarrow> activity_leaf_op option" where
  "isLeafOp v = (case v of JStr s \<Rightarrow> map_of ACTIVITY_LEAF_OPS s | _ \<Rightarrow> None)"

text \<open>The values a leaf keeps: strings, and numbers as text.\<close>

definition value_text :: "js \<Rightarrow> string option" where
  "value_text v = (case v of JStr s \<Rightarrow> Some s | JNum n \<Rightarrow> Some (num_text n) | _ \<Rightarrow> None)"

definition leaf_values :: "js \<Rightarrow> string list" where
  "leaf_values v = (case v of JArr xs \<Rightarrow> List.map_filter value_text xs | _ \<Rightarrow> [])"

lemma prop_size: "map_of ps k = Some v \<Longrightarrow> size v < Suc (size_list (size_prod (\<lambda>x. 0) size) ps)"
  by (induction ps) (auto split: if_splits)

function activityPredicateFromJson :: "js \<Rightarrow> activity_predicate option" where
  "activityPredicateFromJson raw =
     (case raw of
        JObj ps \<Rightarrow>
          (let opv = prop_get ps ''op'' in
           case isCompositeOp opv of
             Some c \<Rightarrow> Some (Composite c (case map_of ps ''items'' of
               Some (JArr xs) \<Rightarrow> List.map_filter id (map activityPredicateFromJson xs) | _ \<Rightarrow> []))
           | None \<Rightarrow> (case isLeafOp opv of
               Some l \<Rightarrow> Some (Condition l (leaf_values (prop_get ps ''values'')))
             | None \<Rightarrow> None))
      | _ \<Rightarrow> None)"
  by pat_completeness auto
termination
proof (relation "measure size")
  fix raw :: js and ps c v xs x
  assume raw: "raw = JObj ps" and v: "map_of ps ''items'' = Some v" "v = JArr xs" and x: "x \<in> set xs"
  have "size x < size v" using x by (simp add: v(2) size_list_estimation' less_Suc_eq_le)
  also have "size v \<le> size raw" using prop_size [OF v(1)] by (simp add: raw)
  finally show "(x, raw) \<in> measure size" by simp
qed simp

declare activityPredicateFromJson.simps [simp del]

definition activityPredicateFromString :: "string \<Rightarrow> activity_predicate option" where
  "activityPredicateFromString raw =
     (let t = js_trim raw in
      if t = [] then None
      else case json_parse t of Return v \<Rightarrow> activityPredicateFromJson v | _ \<Rightarrow> None)"

fun activityPredicateToJson :: "activity_predicate \<Rightarrow> js" where
  "activityPredicateToJson (Composite c items) =
     JObj [(''op'', JStr (comp_text c)), (''items'', JArr (map activityPredicateToJson items))]"
| "activityPredicateToJson (Condition l vs) = JObj [(''op'', JStr (leaf_text l)), (''values'', JArr (map JStr vs))]"

definition activityPredicateToString :: "activity_predicate option \<Rightarrow> string option outcome" where
  "activityPredicateToString p = (case p of None \<Rightarrow> Return (Some []) | Some q \<Rightarrow> json_stringify (activityPredicateToJson q))"

section \<open>Labels\<close>

definition activityOpLabel :: "activity_leaf_op \<Rightarrow> string" where
  "activityOpLabel l = (case l of
     Kind_in \<Rightarrow> ''kind in'' | Kind_not_in \<Rightarrow> ''kind not in'' | Attr_in \<Rightarrow> ''attribute in''
   | Attr_not_in \<Rightarrow> ''attribute not in'' | Actor_in \<Rightarrow> ''actor in'' | Actor_not_in \<Rightarrow> ''actor not in''
   | Approval_asks_in \<Rightarrow> ''asks for approval from'')"

definition ACTIVITY_ME_TOKEN :: string where "ACTIVITY_ME_TOKEN = ''@me''"
definition ACTIVITY_MY_AGENTS_TOKEN :: string where "ACTIVITY_MY_AGENTS_TOKEN = ''@my_agents''"

definition TOKEN_LABELS :: "string props" where
  "TOKEN_LABELS = [(ACTIVITY_ME_TOKEN, ''me''), (ACTIVITY_MY_AGENTS_TOKEN, ''my agents'')]"

text \<open>\<open>TOKEN_LABELS[v] ?? d\<close>: the catalog is an object literal, so that an inherited name reads that member.\<close>

definition token_or :: "string \<Rightarrow> string \<Rightarrow> string outcome" where
  "token_or d v = (case map_of TOKEN_LABELS v of
     Some t \<Rightarrow> Return t
   | None \<Rightarrow> if v \<in> set object_prototype_names then OffType v else Return d)"

definition tokenLabel :: "string \<Rightarrow> string outcome" where
  "tokenLabel v = token_or v v"

definition summarizeLeaf :: "activity_leaf_op \<Rightarrow> string list \<Rightarrow> string outcome" where
  "summarizeLeaf l vs =
     (if vs = [] then Return (activityOpLabel l @ '' (none)'')
      else obind (otraverse tokenLabel vs) (\<lambda>ts. Return (activityOpLabel l @ '' ('' @ js_join '', '' ts @ '')'')))"

fun summarize :: "activity_predicate \<Rightarrow> string outcome" where
  "summarize (Condition l vs) = summarizeLeaf l vs"
| "summarize (Composite c []) = Return (if c = A_and then ''Push every activity row'' else ''Push nothing'')"
| "summarize (Composite c [p]) = summarize p"
| "summarize (Composite c (p # q # ps)) =
     obind (otraverse summarize (p # q # ps)) (\<lambda>ts.
       Return (js_join (if c = A_and then '' AND '' else '' OR '') (map (\<lambda>t. ''('' @ t @ '')'') ts)))"

definition summarizeActivityPredicate :: "activity_predicate option \<Rightarrow> string outcome" where
  "summarizeActivityPredicate p = (case p of None \<Rightarrow> Return ''Push every activity row'' | Some q \<Rightarrow> summarize q)"

definition isKindOp :: "activity_leaf_op \<Rightarrow> bool" where "isKindOp l \<longleftrightarrow> l = Kind_in \<or> l = Kind_not_in"
definition isActorOp :: "activity_leaf_op \<Rightarrow> bool" where "isActorOp l \<longleftrightarrow> l = Actor_in \<or> l = Actor_not_in"
definition isPersonOp :: "activity_leaf_op \<Rightarrow> bool" where "isPersonOp l \<longleftrightarrow> l = Approval_asks_in"

definition ACTIVITY_KIND_OPTIONS :: "(string \<times> string) list" where
  "ACTIVITY_KIND_OPTIONS =
     [(''card_create'', ''Card created''), (''attr_update'', ''Attribute updated''), (''comment'', ''Comment''),
      (''comment_edit'', ''Comment edited''), (''approval_decision'', ''Approval vote''), (''tag_apply'', ''Tag applied''),
      (''tag_remove'', ''Tag removed''), (''attachment_create'', ''Attachment added''), (''attachment_delete'', ''Attachment removed''),
      (''card_move'', ''Card moved''), (''task_move'', ''Task moved to project''), (''card_set_phase'', ''Phase changed''),
      (''card_merge'', ''Cards merged''), (''card_delete'', ''Card deleted''), (''card_undelete'', ''Card restored'')]"

definition ACTIVITY_OP_FRIENDLY :: "activity_leaf_op \<Rightarrow> string" where
  "ACTIVITY_OP_FRIENDLY l = (case l of
     Kind_in \<Rightarrow> ''Event is any of'' | Kind_not_in \<Rightarrow> ''Event is none of'' | Attr_in \<Rightarrow> ''Changed attribute is any of''
   | Attr_not_in \<Rightarrow> ''Changed attribute is none of'' | Actor_in \<Rightarrow> ''Done by'' | Actor_not_in \<Rightarrow> ''Not done by''
   | Approval_asks_in \<Rightarrow> ''Approval asked of'')"

definition all_digits :: "string \<Rightarrow> bool" where
  "all_digits v \<longleftrightarrow> v \<noteq> [] \<and> list_all is_digit v"

text \<open>\<open>name(v) ?? (/^\d+$/.test(v) ? `noun ${v}` : v)\<close>.\<close>

definition named_or :: "string \<Rightarrow> (string \<Rightarrow> string option) \<Rightarrow> string \<Rightarrow> string" where
  "named_or noun name v = (case name v of Some n \<Rightarrow> n | None \<Rightarrow> if all_digits v then noun @ '' '' @ v else v)"

definition describeActivityLeaf ::
  "activity_leaf_op \<Rightarrow> string list \<Rightarrow> (string \<Rightarrow> string option) \<Rightarrow> (string \<Rightarrow> string option) \<Rightarrow> string outcome"
where
  "describeActivityLeaf l vs actorName personName =
     obind (otraverse (\<lambda>v.
        if isKindOp l then Return (case map_of ACTIVITY_KIND_OPTIONS v of Some t \<Rightarrow> t | None \<Rightarrow> v)
        else if isActorOp l then token_or (named_or ''user'' actorName v) v
        else if isPersonOp l then token_or (named_or ''person'' personName v) v
        else tokenLabel v) vs)
      (\<lambda>ts. Return (ACTIVITY_OP_FRIENDLY l @ '' '' @ (if ts = [] then ''(none)'' else js_join '', '' ts)))"

text \<open>The actor ids of the actor conditions, in first-seen order.\<close>

fun actor_values :: "activity_predicate \<Rightarrow> string list" where
  "actor_values (Composite c items) = concat (map actor_values items)"
| "actor_values (Condition l vs) = (if isActorOp l then filter all_digits vs else [])"

definition actorIdsIn :: "activity_predicate option \<Rightarrow> string list" where
  "actorIdsIn p = (case p of None \<Rightarrow> [] | Some q \<Rightarrow> dedup (actor_values q))"

section \<open>Edits\<close>

definition SKIP_OWN_CHANGES :: "activity_leaf_op \<times> string list" where
  "SKIP_OWN_CHANGES = (Actor_not_in, [ACTIVITY_ME_TOKEN, ACTIVITY_MY_AGENTS_TOKEN])"

definition APPROVALS_ASKED_OF_ME :: "activity_leaf_op \<times> string list" where
  "APPROVALS_ASKED_OF_ME = (Approval_asks_in, [ACTIVITY_ME_TOKEN])"

definition sameLeaf :: "activity_leaf_op \<times> string list \<Rightarrow> activity_leaf_op \<times> string list \<Rightarrow> bool" where
  "sameLeaf a b \<longleftrightarrow> fst a = fst b \<and>
     (let as = dedup (snd a); bs = dedup (snd b) in length as = length bs \<and> list_all (\<lambda>v. v \<in> set bs) as)"

text \<open>The top-level rows of the editor; a nested group has no leaf.\<close>

fun top_leaf :: "activity_predicate \<Rightarrow> (activity_leaf_op \<times> string list) option" where
  "top_leaf (Condition l vs) = Some (l, vs)"
| "top_leaf (Composite c items) = None"

definition topLevelLeaves :: "activity_predicate option \<Rightarrow> ((activity_leaf_op \<times> string list) option \<times> string outcome) list" where
  "topLevelLeaves p = (case p of
     None \<Rightarrow> []
   | Some (Condition l vs) \<Rightarrow> [(Some (l, vs), summarizeLeaf l vs)]
   | Some (Composite c items) \<Rightarrow> map (\<lambda>it. (top_leaf it,
       case it of Condition l vs \<Rightarrow> summarizeLeaf l vs
       | Composite d ps \<Rightarrow> obind (summarize it) (\<lambda>t. Return (''('' @ t @ '')'')))) items)"

definition hasTopLevelLeaf :: "activity_predicate option \<Rightarrow> activity_leaf_op \<times> string list \<Rightarrow> bool" where
  "hasTopLevelLeaf p leaf \<longleftrightarrow>
     list_ex (\<lambda>e. case fst e of Some l \<Rightarrow> sameLeaf l leaf | None \<Rightarrow> False) (topLevelLeaves p)"

definition composite_or_null :: "activity_comp_op \<Rightarrow> activity_predicate list \<Rightarrow> activity_predicate option" where
  "composite_or_null c items = (if items = [] then None else Some (Composite c items))"

definition is_leaf_like :: "activity_leaf_op \<times> string list \<Rightarrow> activity_predicate \<Rightarrow> bool" where
  "is_leaf_like leaf it \<longleftrightarrow> (case top_leaf it of Some l \<Rightarrow> sameLeaf l leaf | None \<Rightarrow> False)"

definition withoutTopLevelLeaf :: "activity_predicate option \<Rightarrow> activity_leaf_op \<times> string list \<Rightarrow> activity_predicate option" where
  "withoutTopLevelLeaf p leaf = (case p of
     None \<Rightarrow> None
   | Some (Condition l vs) \<Rightarrow> if sameLeaf (l, vs) leaf then None else p
   | Some (Composite c items) \<Rightarrow> composite_or_null c (filter (\<lambda>it. \<not> is_leaf_like leaf it) items))"

definition appendLeaf :: "activity_predicate option \<Rightarrow> activity_leaf_op \<times> string list \<Rightarrow> activity_predicate" where
  "appendLeaf p leaf = (let it = Condition (fst leaf) (snd leaf) in case p of
     None \<Rightarrow> Composite A_and [it]
   | Some (Condition l vs) \<Rightarrow> Composite A_and [Condition l vs, it]
   | Some (Composite c items) \<Rightarrow> Composite c (items @ [it]))"

definition removeLeafAt :: "activity_predicate option \<Rightarrow> nat \<Rightarrow> activity_predicate option" where
  "removeLeafAt p i = (case p of
     Some (Composite c items) \<Rightarrow> composite_or_null c (take i items @ drop (Suc i) items)
   | _ \<Rightarrow> None)"

definition setConnective :: "activity_predicate option \<Rightarrow> activity_comp_op \<Rightarrow> activity_predicate option" where
  "setConnective p c = (case p of
     None \<Rightarrow> None
   | Some (Condition l vs) \<Rightarrow> Some (Composite c [Condition l vs])
   | Some (Composite d items) \<Rightarrow> Some (Composite c items))"

text \<open>A change of a shortcut box, on the filter the editor reads back.\<close>

definition toggle_shortcut :: "bool \<Rightarrow> activity_leaf_op \<times> string list \<Rightarrow> activity_predicate option \<Rightarrow> activity_predicate option" where
  "toggle_shortcut checked leaf cur =
     (if checked then (if hasTopLevelLeaf cur leaf then cur else Some (appendLeaf cur leaf))
      else withoutTopLevelLeaf cur leaf)"

section \<open>The server's evaluator\<close>

datatype go_predicate = Go (go_op: string) (go_values: "string list") (go_items: "go_predicate list")

record activity_event =
  ev_kind :: string
  ev_attribute :: string
  ev_actor :: int
  ev_addedApprovers :: "int list"

record subscriber =
  sub_user :: int
  sub_agents :: "int list"
  sub_person :: int

text \<open>\<open>strconv.ParseInt(v, 10, 64)\<close>.\<close>

definition int64 :: "int \<Rightarrow> bool" where
  "int64 n \<longleftrightarrow> - (2 ^ 63) \<le> n \<and> n < 2 ^ 63"

definition parse_int64 :: "string \<Rightarrow> int option" where
  "parse_int64 v =
     (let neg = (v \<noteq> [] \<and> hd v = CHR ''-''); ds = (if v \<noteq> [] \<and> (hd v = CHR ''-'' \<or> hd v = CHR ''+'') then tl v else v);
          n = (if neg then - int (digits_val ds) else int (digits_val ds))
      in if ds \<noteq> [] \<and> list_all is_digit ds \<and> int64 n then Some n else None)"

definition inInt64String :: "int \<Rightarrow> string list \<Rightarrow> bool" where
  "inInt64String needle hay \<longleftrightarrow> list_ex (\<lambda>v. parse_int64 v = Some needle) hay"

fun go_eval :: "go_predicate \<Rightarrow> activity_event \<Rightarrow> bool" where
  "go_eval (Go p_op vs items) row =
     (if p_op = [] then True
      else if p_op = ''and'' then list_all (\<lambda>c. go_eval c row) items
      else if p_op = ''or'' then items \<noteq> [] \<and> list_ex (\<lambda>c. go_eval c row) items
      else if p_op = ''kind_in'' then ev_kind row \<in> set vs
      else if p_op = ''kind_not_in'' then ev_kind row \<notin> set vs
      else if p_op = ''attr_in'' then ev_kind row = ''attr_update'' \<and> ev_attribute row \<noteq> [] \<and> ev_attribute row \<in> set vs
      else if p_op = ''attr_not_in'' then ev_kind row \<noteq> ''attr_update'' \<or> ev_attribute row \<notin> set vs
      else if p_op = ''actor_in'' then inInt64String (ev_actor row) vs
      else if p_op = ''actor_not_in'' then \<not> inInt64String (ev_actor row) vs
      else if p_op = ''approval_asks_in'' then list_ex (\<lambda>i. inInt64String i vs) (ev_addedApprovers row)
      else False)"

definition resolve_value :: "string \<Rightarrow> subscriber \<Rightarrow> string \<Rightarrow> string list" where
  "resolve_value p_op s v =
     (let actorLeaf = (p_op = ''actor_in'' \<or> p_op = ''actor_not_in'') in
      if actorLeaf \<and> v = ''@me'' then [int_text (sub_user s)]
      else if actorLeaf \<and> v = ''@my_agents'' then map int_text (sub_agents s)
      else if p_op = ''approval_asks_in'' \<and> v = ''@me'' \<and> sub_person s \<noteq> 0 then [int_text (sub_person s)]
      else [v])"

fun with_subscriber :: "subscriber \<Rightarrow> go_predicate \<Rightarrow> go_predicate" where
  "with_subscriber s (Go p_op vs items) =
     (if sub_user s = 0 then Go p_op vs items
      else Go p_op (concat (map (resolve_value p_op s) vs)) (map (with_subscriber s) items))"

text \<open>
  \<open>json.Unmarshal\<close> into \<open>Predicate\<close>: \<open>None\<close> for a value of another type; a JSON null leaves a field at its zero.
\<close>

definition go_string :: "js \<Rightarrow> string option" where
  "go_string v = (case v of JStr s \<Rightarrow> Some s | JNull \<Rightarrow> Some [] | JUndef \<Rightarrow> Some [] | _ \<Rightarrow> None)"

definition all_some :: "'a option list \<Rightarrow> 'a list option" where
  "all_some xs = (if list_all (\<lambda>x. x \<noteq> None) xs then Some (map the xs) else None)"

definition go_strings :: "js \<Rightarrow> string list option" where
  "go_strings v = (case v of JArr xs \<Rightarrow> all_some (map go_string xs) | JNull \<Rightarrow> Some [] | JUndef \<Rightarrow> Some [] | _ \<Rightarrow> None)"

function go_read :: "js \<Rightarrow> go_predicate option" where
  "go_read raw = (case raw of
     JNull \<Rightarrow> Some (Go [] [] [])
   | JObj ps \<Rightarrow>
       (case go_string (prop_get ps ''op'') of
          None \<Rightarrow> None
        | Some c \<Rightarrow> (case go_strings (prop_get ps ''values'') of
            None \<Rightarrow> None
          | Some vs \<Rightarrow> (case map_of ps ''items'' of
              Some (JArr xs) \<Rightarrow> map_option (Go c vs) (all_some (map go_read xs))
            | Some JNull \<Rightarrow> Some (Go c vs [])
            | None \<Rightarrow> Some (Go c vs [])
            | _ \<Rightarrow> None)))
   | _ \<Rightarrow> None)"
  by pat_completeness auto
termination
proof (relation "measure size")
  fix raw :: js and ps c vs v xs x
  assume raw: "raw = JObj ps" and v: "map_of ps ''items'' = Some v" "v = JArr xs" and x: "x \<in> set xs"
  have "size x < size v" using x by (simp add: v(2) size_list_estimation' less_Suc_eq_le)
  also have "size v \<le> size raw" using prop_size [OF v(1)] by (simp add: raw)
  finally show "(x, raw) \<in> measure size" by simp
qed simp

declare go_read.simps [simp del]

definition ParsePredicate :: "string \<Rightarrow> go_predicate option" where
  "ParsePredicate raw =
     (if dropWhile (\<lambda>c. c \<in> {CHR '' '', CHR 0x09, CHR 0x0A, CHR 0x0D}) raw = [] then Some (Go [] [] [])
      else case json_parse raw of Return v \<Rightarrow> go_read v | _ \<Rightarrow> None)"

text \<open>What the server pushes to a subscriber whose stored filter is \<open>t\<close>; a text it cannot read stops the channel.\<close>

definition pushes :: "string \<Rightarrow> subscriber \<Rightarrow> activity_event \<Rightarrow> bool option" where
  "pushes t s row = map_option (\<lambda>p. go_eval (with_subscriber s p) row) (ParsePredicate t)"

section \<open>The stored text\<close>

fun tree_of :: "activity_predicate \<Rightarrow> go_predicate" where
  "tree_of (Composite c items) = Go (comp_text c) [] (map tree_of items)"
| "tree_of (Condition l vs) = Go (leaf_text l) vs []"

lemma op_of_text [simp]:
  "isCompositeOp (JStr (comp_text c)) = Some c" "isCompositeOp (JStr (leaf_text l)) = None" "isLeafOp (JStr (leaf_text l)) = Some l"
  by (cases c; simp add: isCompositeOp_def ACTIVITY_COMPOSITE_OPS_def)
    (cases l; simp add: isCompositeOp_def isLeafOp_def ACTIVITY_COMPOSITE_OPS_def ACTIVITY_LEAF_OPS_def)+

lemma map_filter_map_Some: "(\<And>x. x \<in> set xs \<Longrightarrow> f (g x) = Some x) \<Longrightarrow> List.map_filter f (map g xs) = xs"
  by (induction xs) (simp_all add: List.map_filter_simps)

lemma all_some_map: "(\<And>x. x \<in> set xs \<Longrightarrow> f (g x) = Some (h x)) \<Longrightarrow> all_some (map f (map g xs)) = Some (map h xs)"
  by (simp add: all_some_def list_all_iff)

lemma from_to_json: "activityPredicateFromJson (activityPredicateToJson p) = Some p"
proof (induction p)
  case (Composite c items)
  then have "List.map_filter id (map (activityPredicateFromJson \<circ> activityPredicateToJson) items) = items"
    using map_filter_map_Some [of items id "activityPredicateFromJson \<circ> activityPredicateToJson"] by simp
  then show ?case by (simp add: activityPredicateFromJson.simps prop_get_def)
next
  case (Condition l vs)
  then show ?case
    using map_filter_map_Some [of vs value_text JStr]
    by (simp add: activityPredicateFromJson.simps prop_get_def leaf_values_def value_text_def)
qed

lemma server_reads_json: "go_read (activityPredicateToJson p) = Some (tree_of p)"
proof (induction p)
  case (Composite c items)
  then have "all_some (map (go_read \<circ> activityPredicateToJson) items) = Some (map tree_of items)"
    using all_some_map [of items go_read activityPredicateToJson tree_of] by simp
  then show ?case by (simp add: go_read.simps prop_get_def go_string_def go_strings_def)
next
  case (Condition l vs)
  then show ?case
    using all_some_map [of vs go_string JStr id] by (simp add: go_read.simps prop_get_def go_string_def go_strings_def)
qed

lemma json_ok_predicate: "json_ok (activityPredicateToJson p)"
  by (induction p) (auto simp: obj_canon_def obj_put_def has_prop_def index_before_def is_index_key_def is_digit_def)

lemma filter_json_text:
  "\<exists>t. json_stringify (activityPredicateToJson p) = Return (Some t) \<and> json_parse t = Return (activityPredicateToJson p) \<and>
     t \<noteq> [] \<and> js_trim t = t \<and> hd t = CHR ''{''"
proof -
  obtain t where t: "json_stringify (activityPredicateToJson p) = Return (Some t)"
    "json_parse t = Return (activityPredicateToJson p)" "t \<noteq> []"
    using json_roundtrip [OF json_ok_predicate, of p] by blast
  then obtain ts where "t = ''{'' @ ts @ ''}''" by (cases p) (auto simp: outcome_simps)
  then have "js_trim t = t" "hd t = CHR ''{''"
    using js_trim_keep [of "CHR ''{''" "CHR ''}''" ts] by (simp_all add: is_space_def)
  with t show ?thesis by blast
qed

definition server_tree :: "activity_predicate option \<Rightarrow> go_predicate" where
  "server_tree p = (case p of None \<Rightarrow> Go [] [] [] | Some q \<Rightarrow> tree_of q)"

lemma filter_text:
  "\<exists>t. activityPredicateToString p = Return (Some t) \<and> activityPredicateFromString t = p \<and> ParsePredicate t = Some (server_tree p)"
proof (cases p)
  case None
  then show ?thesis
    by (simp add: activityPredicateToString_def activityPredicateFromString_def ParsePredicate_def server_tree_def)
next
  case (Some q)
  obtain t where t: "json_stringify (activityPredicateToJson q) = Return (Some t)" "json_parse t = Return (activityPredicateToJson q)"
    "t \<noteq> []" "js_trim t = t" "hd t = CHR ''{''"
    using filter_json_text by blast
  then obtain r where "t = CHR ''{'' # r" by (cases t) auto
  then have "ParsePredicate t = Some (tree_of q)" using t(2) by (simp add: ParsePredicate_def server_reads_json)
  with t Some show ?thesis
    by (simp add: activityPredicateToString_def activityPredicateFromString_def server_tree_def from_to_json)
qed

text \<open>
  Every filter has a text; the editor reads the same filter back from it, and the server reads the tree
  with the same operators and values.
\<close>

theorem filter_text_is_read_back:
  "\<exists>t. activityPredicateToString p = Return (Some t) \<and> activityPredicateFromString t = p \<and> ParsePredicate t = Some (server_tree p)"
  by (rule filter_text)

section \<open>Editing what is pushed\<close>

text \<open>What the server pushes for a filter of the editor.\<close>

definition filter_pushes :: "activity_predicate option \<Rightarrow> subscriber \<Rightarrow> activity_event \<Rightarrow> bool" where
  "filter_pushes p s row = go_eval (with_subscriber s (server_tree p)) row"

lemma with_no_subscriber: "sub_user s = 0 \<Longrightarrow> with_subscriber s p = p"
  by (cases p) simp

lemma with_subscriber_composite: "with_subscriber s (Go c [] items) = Go c [] (map (with_subscriber s) items)"
  by (auto simp: with_no_subscriber map_idI)

lemma go_eval_composite [simp]:
  "go_eval (Go ''and'' vs items) row = list_all (\<lambda>c. go_eval c row) items"
  "go_eval (Go ''or'' vs items) row = list_ex (\<lambda>c. go_eval c row) items"
  by (auto simp: list_ex_iff)

lemma pushes_composite:
  "filter_pushes (Some (Composite A_and items)) s row = list_all (\<lambda>q. filter_pushes (Some q) s row) items"
  "filter_pushes (Some (Composite A_or items)) s row = list_ex (\<lambda>q. filter_pushes (Some q) s row) items"
  by (simp_all add: filter_pushes_def server_tree_def with_subscriber_composite list_all_iff list_ex_iff del: with_subscriber.simps go_eval.simps)

lemma pushes_none [simp]: "filter_pushes None s row"
  by (simp add: filter_pushes_def server_tree_def)

definition leaf_pushes :: "activity_leaf_op \<times> string list \<Rightarrow> subscriber \<Rightarrow> activity_event \<Rightarrow> bool" where
  "leaf_pushes leaf = filter_pushes (Some (Condition (fst leaf) (snd leaf)))"

text \<open>Adding a condition narrows an AND filter by it and widens an OR filter by it.\<close>

lemma appended_leaf_pushes:
  "filter_pushes (Some (appendLeaf p leaf)) s row =
     (case p of Some (Composite A_or items) \<Rightarrow> filter_pushes p s row \<or> leaf_pushes leaf s row
      | _ \<Rightarrow> filter_pushes p s row \<and> leaf_pushes leaf s row)"
proof (cases p)
  case (Some q)
  then show ?thesis
  proof (cases q)
    case (Composite c items)
    with Some show ?thesis by (cases c) (auto simp: appendLeaf_def pushes_composite leaf_pushes_def Let_def)
  qed (simp add: appendLeaf_def pushes_composite leaf_pushes_def Let_def)
qed (simp add: appendLeaf_def pushes_composite leaf_pushes_def Let_def)

lemma sameLeaf_iff: "sameLeaf a b \<longleftrightarrow> fst a = fst b \<and> set (snd a) = set (snd b)"
proof -
  have "length (dedup xs) = card (set xs)" for xs :: "string list"
    using distinct_card [of "dedup xs"] by simp
  then have "sameLeaf a b \<longleftrightarrow> fst a = fst b \<and> card (set (snd a)) = card (set (snd b)) \<and> set (snd a) \<subseteq> set (snd b)"
    by (auto simp: sameLeaf_def Let_def list_all_iff)
  also have "\<dots> \<longleftrightarrow> fst a = fst b \<and> set (snd a) = set (snd b)"
    using card_subset_eq [of "set (snd b)" "set (snd a)"] by auto
  finally show ?thesis .
qed

lemma hasTopLevelLeaf_iff:
  "hasTopLevelLeaf p leaf \<longleftrightarrow> (case p of None \<Rightarrow> False | Some (Condition l vs) \<Rightarrow> sameLeaf (l, vs) leaf
     | Some (Composite c items) \<Rightarrow> \<exists>it \<in> set items. is_leaf_like leaf it)"
proof (cases p)
  case (Some q)
  then show ?thesis
    by (cases q) (simp_all add: hasTopLevelLeaf_def topLevelLeaves_def list_ex_iff is_leaf_like_def)
qed (simp add: hasTopLevelLeaf_def topLevelLeaves_def)

text \<open>A change of a shortcut's box leaves the box as it was set.\<close>

lemma shortcut_box_follows: "hasTopLevelLeaf (toggle_shortcut checked leaf p) leaf = checked"
proof (cases checked)
  case True
  have "hasTopLevelLeaf (Some (appendLeaf p leaf)) leaf"
    by (auto simp: hasTopLevelLeaf_iff appendLeaf_def Let_def is_leaf_like_def sameLeaf_iff split: option.splits activity_predicate.splits)
  with True show ?thesis by (simp add: toggle_shortcut_def)
next
  case False
  have "\<not> hasTopLevelLeaf (withoutTopLevelLeaf p leaf) leaf"
    by (auto simp: hasTopLevelLeaf_iff withoutTopLevelLeaf_def composite_or_null_def split: option.splits activity_predicate.splits)
  with False show ?thesis by (simp add: toggle_shortcut_def)
qed

section \<open>Own changes\<close>

lemma parse_int_text: "int64 n \<Longrightarrow> parse_int64 (int_text n) = Some n"
proof -
  assume n: "int64 n"
  have d: "list_all is_digit (nat_text m)" "nat_text m \<noteq> []" for m using nat_text_digits [of m] by auto
  have "\<not> is_digit (CHR ''-'')" "\<not> is_digit (CHR ''+'')" by code_simp+
  then have "hd (nat_text m) \<noteq> CHR ''-''" "hd (nat_text m) \<noteq> CHR ''+''" for m
    using d(1) [of m] d(2) [of m] by (cases "nat_text m"; auto)+
  with n d show ?thesis by (auto simp: parse_int64_def int_text_def Let_def digits_val_nat_text)
qed

lemma own_condition_blocks:
  assumes "sameLeaf (l, vs) SKIP_OWN_CHANGES" and u: "sub_user s \<noteq> 0"
    and a: "ev_actor row = sub_user s \<or> ev_actor row \<in> set (sub_agents s)" and n: "int64 (ev_actor row)"
  shows "\<not> filter_pushes (Some (Condition l vs)) s row"
proof -
  have l: "l = Actor_not_in" and vs: "set vs = {ACTIVITY_ME_TOKEN, ACTIVITY_MY_AGENTS_TOKEN}"
    using assms(1) by (auto simp: sameLeaf_iff SKIP_OWN_CHANGES_def)
  have "int_text (ev_actor row) \<in> set (concat (map (resolve_value ''actor_not_in'' s) vs))"
    using a vs by (auto simp: resolve_value_def Let_def ACTIVITY_ME_TOKEN_def ACTIVITY_MY_AGENTS_TOKEN_def)
  then have "inInt64String (ev_actor row) (concat (map (resolve_value ''actor_not_in'' s) vs))"
    unfolding inInt64String_def list_ex_iff using parse_int_text [OF n] by blast
  then show ?thesis by (simp add: filter_pushes_def server_tree_def l u)
qed

text \<open>C30: 
  After "Skip changes I or my agents make" is ticked in a filter that is not an OR group, the text the editor
  stores makes the server push no change made by the subscriber or by one of the subscriber's agents.
\<close>

theorem own_changes_are_skipped:
  assumes and_filter: "\<And>items. p \<noteq> Some (Composite A_or items)"
    and u: "sub_user s \<noteq> 0" and a: "ev_actor row = sub_user s \<or> ev_actor row \<in> set (sub_agents s)" and n: "int64 (ev_actor row)"
  shows "\<exists>t. activityPredicateToString (toggle_shortcut True SKIP_OWN_CHANGES p) = Return (Some t) \<and> pushes t s row = Some False"
proof -
  let ?q = "toggle_shortcut True SKIP_OWN_CHANGES p"
  have top: "hasTopLevelLeaf ?q SKIP_OWN_CHANGES" using shortcut_box_follows [of True] by simp
  have not_or: "?q \<noteq> Some (Composite A_or items)" for items
    using and_filter by (auto simp: toggle_shortcut_def appendLeaf_def Let_def split: option.splits activity_predicate.splits)
  have "\<not> filter_pushes ?q s row"
  proof (cases ?q)
    case (Some r)
    show ?thesis
    proof (cases r)
      case (Condition l vs)
      with Some top show ?thesis using own_condition_blocks [OF _ u a n] by (simp add: hasTopLevelLeaf_iff)
    next
      case (Composite c items)
      then have c: "c = A_and" using not_or Some by (cases c) auto
      obtain it where it: "it \<in> set items" "is_leaf_like SKIP_OWN_CHANGES it"
        using top by (auto simp: hasTopLevelLeaf_iff Some Composite)
      from it(2) obtain l vs where "it = Condition l vs" "sameLeaf (l, vs) SKIP_OWN_CHANGES"
        by (cases it) (auto simp: is_leaf_like_def)
      then have "\<not> filter_pushes (Some it) s row" using own_condition_blocks [OF _ u a n] by simp
      with it(1) show ?thesis by (auto simp: Some Composite c pushes_composite list_all_iff)
    qed
  qed (use top in \<open>simp add: hasTopLevelLeaf_iff\<close>)
  moreover obtain t where "activityPredicateToString ?q = Return (Some t)" "ParsePredicate t = Some (server_tree ?q)"
    using filter_text [of ?q] by blast
  ultimately show ?thesis by (auto simp: pushes_def filter_pushes_def)
qed

definition wevent :: activity_event where
  "wevent = \<lparr>ev_kind = ''comment'', ev_attribute = [], ev_actor = 12, ev_addedApprovers = []\<rparr>"

definition wsubscriber :: subscriber where
  "wsubscriber = \<lparr>sub_user = 7, sub_agents = [12], sub_person = 3\<rparr>"

theorem own_changes_are_skipped_witness:
  "\<exists>t. activityPredicateToString (toggle_shortcut True SKIP_OWN_CHANGES (Some (Condition Kind_in [''comment'']))) = Return (Some t) \<and>
     pushes t wsubscriber wevent = Some False"
  by (rule own_changes_are_skipped) (simp_all add: wevent_def wsubscriber_def int64_def)

text \<open>In an OR filter the same box lets the subscriber's own changes through.\<close>

lemma or_filter_pushes_own_changes:
  "filter_pushes (toggle_shortcut True SKIP_OWN_CHANGES (Some (Composite A_or [Condition Kind_in [''comment'']]))) wsubscriber wevent"
  by code_simp

text \<open>
  A condition the editor does not know is dropped, so that the editor shows "Push every activity row" for a
  filter that makes the server push nothing.
\<close>

lemma unknown_condition_disagrees:
  "(let raw = JObj [(''op'', JStr ''and''), (''items'', JArr [JObj [(''op'', JStr ''kind_is''), (''values'', JArr [])]])] in
    summarizeActivityPredicate (activityPredicateFromJson raw) = Return ''Push every activity row'' \<and>
    map_option (\<lambda>p. go_eval p wevent) (go_read raw) = Some False)"
  by (simp add: Let_def activityPredicateFromJson.simps go_read.simps prop_get_def isCompositeOp_def isLeafOp_def
      ACTIVITY_COMPOSITE_OPS_def ACTIVITY_LEAF_OPS_def summarizeActivityPredicate_def List.map_filter_simps
      go_string_def go_strings_def all_some_def)

text \<open>The actor ids a filter names, each once.\<close>

lemma actorIdsIn_distinct: "distinct (actorIdsIn p)"
  by (simp add: actorIdsIn_def split: option.split)

end
