(* ===== verification/Pages.thy ===== *)
theory Pages
  imports Upload JsNumber JsText JsSort Router Kanban
begin

text \<open>
  Pages and the detail view's profiles: the per-card-type configuration and its walks up the page tree
  (\<^verbatim>\<open>task-detail/detail-profiles.ts\<close>, with the section and attribute filters of \<^verbatim>\<open>task-detail/task-detail.ts\<close>),
  and the PLACE IN SITE section (\<^verbatim>\<open>pages/page-structure.ts\<close>). The loaded cards of a type are \<open>byId\<close>, a
  function from ids. \<open>localeCompare\<close> is the parameter \<open>collate\<close>.

  Main results: a page moved one place up or down, and nothing else, changes place once its writes are
  made; the pages that may not become a page's parent are pages below it, and all of those up to sixteen
  levels down.
\<close>

section \<open>Profiles\<close>

datatype menu_action = Menu_move | Menu_purge

datatype detail_section =
    Sec_description | Sec_placement | Sec_comments | Sec_comms | Sec_links | Sec_approvals | Sec_attachments
  | Sec_tags | Sec_related | Sec_structure | Sec_publications

record placeholder_def =
  ph_name :: string
  ph_label :: string
  ph_description :: string

record detail_profile =
  dp_noun :: string
  dp_route :: card_route
  dp_menuActions :: "menu_action list"
  dp_linkSiblings :: bool
  dp_placeholders :: "placeholder_def list"
  dp_insertPictures :: bool
  dp_statusAttr :: string
  dp_sections :: "detail_section list"
  dp_skipAttrs :: "string list"
  dp_showAttrs :: "string list"
  dp_commRedirect :: bool
  dp_parentRoute :: "(string \<times> card_route) option"
  dp_commsSelf :: bool
  dp_watch :: bool

definition PAGE_PLACEHOLDERS :: "placeholder_def list" where
  "PAGE_PLACEHOLDERS =
     [\<lparr>ph_name = ''children'', ph_label = ''Child pages'', ph_description = ''A list of this page's child pages''\<rparr>,
      \<lparr>ph_name = ''nav'', ph_label = ''Site map'', ph_description = ''The whole site tree''\<rparr>,
      \<lparr>ph_name = ''toc'', ph_label = ''Table of contents'', ph_description = ''This page's headings''\<rparr>]"

definition TASK_PROFILE :: detail_profile where
  "TASK_PROFILE =
     \<lparr>dp_noun = ''Task'', dp_route = CTask, dp_menuActions = [Menu_move, Menu_purge], dp_linkSiblings = False,
      dp_placeholders = [], dp_insertPictures = False, dp_statusAttr = ''status'',
      dp_sections = [Sec_description, Sec_comments, Sec_comms, Sec_links, Sec_approvals, Sec_attachments, Sec_tags, Sec_related],
      dp_skipAttrs = [], dp_showAttrs = [], dp_commRedirect = True, dp_parentRoute = None, dp_commsSelf = False, dp_watch = True\<rparr>"

definition DETAIL_PROFILES :: "detail_profile props" where
  "DETAIL_PROFILES =
     [(''task'', TASK_PROFILE),
      (''page'', \<lparr>dp_noun = ''Page'', dp_route = CPage, dp_menuActions = [], dp_linkSiblings = True,
         dp_placeholders = PAGE_PLACEHOLDERS, dp_insertPictures = True, dp_statusAttr = ''publish_status'',
         dp_sections = [Sec_description, Sec_comments, Sec_attachments, Sec_structure, Sec_publications],
         dp_skipAttrs = [''publish_status'', ''nav_hidden'', ''nav_hide_children''], dp_showAttrs = [''sort_order''],
         dp_commRedirect = False, dp_parentRoute = None, dp_commsSelf = False, dp_watch = False\<rparr>),
      (''comm'', \<lparr>dp_noun = ''Thread'', dp_route = CThread, dp_menuActions = [], dp_linkSiblings = False,
         dp_placeholders = [], dp_insertPictures = False, dp_statusAttr = ''comm_status'',
         dp_sections = [Sec_placement, Sec_comms, Sec_comments, Sec_attachments],
         dp_skipAttrs = [''comm_status'', ''thread_id'', ''replies'', ''comm_recipients'', ''acked''], dp_showAttrs = [],
         dp_commRedirect = False, dp_parentRoute = Some (''task'', CTask), dp_commsSelf = True, dp_watch = True\<rparr>)]"

definition SECTION_AREA :: "detail_section \<Rightarrow> string option" where
  "SECTION_AREA s = (case s of
     Sec_comms \<Rightarrow> Some ''conversations'' | Sec_placement \<Rightarrow> Some ''tasks'' | Sec_approvals \<Rightarrow> Some ''approvals''
   | Sec_links \<Rightarrow> Some ''tasks'' | Sec_publications \<Rightarrow> Some ''sites'' | _ \<Rightarrow> None)"

definition SECTION_NEEDS_AREA_ON :: "detail_section list" where
  "SECTION_NEEDS_AREA_ON = [Sec_placement]"

text \<open>The profiles are an object literal: a card type named like an inherited member reads that member.\<close>

definition detailProfile :: "string \<Rightarrow> detail_profile outcome" where
  "detailProfile cardTypeName = (case map_of DETAIL_PROFILES cardTypeName of
     Some p \<Rightarrow> Return p
   | None \<Rightarrow> if cardTypeName \<in> set object_prototype_names then OffType cardTypeName else Return TASK_PROFILE)"

text \<open>\<open>TaskDetail.shows\<close> with the areas that are off and those never set up.\<close>

definition shows_section :: "detail_profile \<Rightarrow> string list \<Rightarrow> string list \<Rightarrow> detail_section \<Rightarrow> bool" where
  "shows_section p offAreas unusedAreas s \<longleftrightarrow>
     s \<in> set (dp_sections p) \<and>
     (case SECTION_AREA s of
        None \<Rightarrow> True
      | Some area \<Rightarrow> area \<notin> set offAreas \<and> \<not> (s \<in> set SECTION_NEEDS_AREA_ON \<and> area \<in> set unusedAreas))"

definition skipsAttr :: "string list \<Rightarrow> detail_profile \<Rightarrow> string \<Rightarrow> bool" where
  "skipsAttr panelSkip p name \<longleftrightarrow> name \<notin> set (dp_showAttrs p) \<and> (name \<in> set panelSkip \<or> name \<in> set (dp_skipAttrs p))"

section \<open>Walks up the tree\<close>

definition byId :: "card list \<Rightarrow> int \<Rightarrow> card option" where
  "byId rows i = find (\<lambda>r. card_id r = i) (rev rows)"

fun enclosing :: "nat \<Rightarrow> (int \<Rightarrow> card option) \<Rightarrow> int option \<Rightarrow> int option" where
  "enclosing 0 by parent = None"
| "enclosing (Suc n) by None = None"
| "enclosing (Suc n) by (Some p) = (case by p of None \<Rightarrow> Some p | Some up \<Rightarrow> enclosing n by (parent_card_id up))"

definition enclosingProjectId :: "card \<Rightarrow> (int \<Rightarrow> card option) \<Rightarrow> int option" where
  "enclosingProjectId c by = enclosing 16 by (parent_card_id c)"

text \<open>\<open>t\<close> when it is a non-empty text, else \<open>#id\<close>.\<close>

definition path_title :: "card \<Rightarrow> string" where
  "path_title c = (case prop_get (attributes c) ''title'' of
     JStr t \<Rightarrow> if t \<noteq> [] then t else ''#'' @ int_text (card_id c)
   | _ \<Rightarrow> ''#'' @ int_text (card_id c))"

fun title_walk :: "nat \<Rightarrow> (int \<Rightarrow> card option) \<Rightarrow> card option \<Rightarrow> string list \<Rightarrow> string list" where
  "title_walk (Suc n) by (Some c) titles =
     title_walk n by (case parent_card_id c of None \<Rightarrow> None | Some p \<Rightarrow> by p) (path_title c # titles)"
| "title_walk n by cur titles = titles"

text \<open>The separator is \<open> \u203a \<close>, written as its UTF-8 bytes.\<close>

definition path_separator :: string where
  "path_separator = [CHR '' '', CHR 0xE2, CHR 0x80, CHR 0xBA, CHR '' '']"

definition titlePath :: "card \<Rightarrow> (int \<Rightarrow> card option) \<Rightarrow> string" where
  "titlePath c by = js_join path_separator (title_walk 16 by (Some c) [])"

record link_target =
  lt_label :: string
  lt_href :: string
  lt_hint :: string

definition siblingLinkTargets :: "(string \<Rightarrow> string \<Rightarrow> int) \<Rightarrow> int \<Rightarrow> int \<Rightarrow> card list \<Rightarrow> link_target list" where
  "siblingLinkTargets collate selfId projectId rows =
     js_sort (\<lambda>a b. collate (lt_label a) (lt_label b))
       (map (\<lambda>r. \<lparr>lt_label = titlePath r (byId rows), lt_href = ''ref:'' @ int_text (card_id r),
                  lt_hint = ''ref:'' @ int_text (card_id r)\<rparr>)
         (filter (\<lambda>r. card_id r \<noteq> selfId \<and> enclosingProjectId r (byId rows) = Some projectId) rows))"

definition altText :: "string \<Rightarrow> string" where
  "altText s = concat (map (\<lambda>c. if c \<in> {CHR ''['', CHR '']'', CHR 0x5C} then [CHR 0x5C, c] else [c]) s)"

record editor_snippet =
  es_group :: string
  es_label :: string
  es_text :: string
  es_hint :: "string option"
  es_description :: string

definition pictureSnippets :: "(int \<times> string) list \<Rightarrow> editor_snippet list" where
  "pictureSnippets images = map (\<lambda>(i, filename).
     \<lparr>es_group = ''Pictures'', es_label = filename, es_text = ''!['' @ altText filename @ ''](''  @ viewUrl i @ '')'',
      es_hint = Some [], es_description = ''Attached to this page; published with it''\<rparr>) images"

section \<open>Pages in site order\<close>

record page_node =
  pn_id :: int
  pn_parent :: int
  pn_title :: string
  pn_sort :: rat
  pn_navHidden :: bool
  pn_navHideChildren :: bool

text \<open>\<open>Number(v ?? 0)\<close>, and zero for anything not finite.\<close>

definition to_number :: "js \<Rightarrow> jnum" where
  "to_number v = (case v of
     JUndef \<Rightarrow> Fin 0 | JNull \<Rightarrow> Fin 0 | JBool b \<Rightarrow> Fin (if b then 1 else 0) | JNum n \<Rightarrow> n | JBig i \<Rightarrow> Fin (of_int i)
   | JStr s \<Rightarrow> js_number s | _ \<Rightarrow> js_number (js_text v))"

definition pageNode :: "card \<Rightarrow> page_node" where
  "pageNode r =
     \<lparr>pn_id = card_id r, pn_parent = (case parent_card_id r of None \<Rightarrow> 0 | Some p \<Rightarrow> p),
      pn_title = (case prop_get (attributes r) ''title'' of
          JStr t \<Rightarrow> if t \<noteq> [] then t else ''Page #'' @ int_text (card_id r)
        | _ \<Rightarrow> ''Page #'' @ int_text (card_id r)),
      pn_sort = (case to_number (prop_get (attributes r) ''sort_order'') of Fin n \<Rightarrow> n | _ \<Rightarrow> 0),
      pn_navHidden = (prop_get (attributes r) ''nav_hidden'' = JBool True),
      pn_navHideChildren = (prop_get (attributes r) ''nav_hide_children'' = JBool True)\<rparr>"

definition siteOrder :: "(string \<Rightarrow> string \<Rightarrow> int) \<Rightarrow> page_node \<Rightarrow> page_node \<Rightarrow> int" where
  "siteOrder collate a b =
     then_cmp (cmp_of (pn_sort a) (pn_sort b))
       (then_cmp (collate (js_lower (pn_title a)) (js_lower (pn_title b))) (cmp_of (pn_id a) (pn_id b)))"

text \<open>\<open>siblings.findIndex((s) => s.id === id)\<close>.\<close>

fun index_of :: "int \<Rightarrow> page_node list \<Rightarrow> nat option" where
  "index_of i [] = None"
| "index_of i (s # ss) = (if pn_id s = i then Some 0 else map_option Suc (index_of i ss))"

definition swap_at :: "nat \<Rightarrow> nat \<Rightarrow> 'a list \<Rightarrow> 'a list" where
  "swap_at i j xs = xs[i := xs ! j, j := xs ! i]"

fun renumber :: "nat \<Rightarrow> page_node list \<Rightarrow> (int \<times> rat) list" where
  "renumber k [] = []"
| "renumber k (s # ss) =
     (let sort = of_nat ((k + 1) * 10) in (if pn_sort s \<noteq> sort then [(pn_id s, sort)] else []) @ renumber (Suc k) ss)"

definition neighbour :: "page_node list \<Rightarrow> int \<Rightarrow> bool \<Rightarrow> (nat \<times> nat) option" where
  "neighbour siblings i up = (case index_of i siblings of
     None \<Rightarrow> None
   | Some a \<Rightarrow> if up then (if a = 0 then None else Some (a, a - 1))
       else if Suc a < length siblings then Some (a, Suc a) else None)"

definition reorderWrites :: "page_node list \<Rightarrow> int \<Rightarrow> bool \<Rightarrow> (int \<times> rat) list" where
  "reorderWrites siblings i up = (case neighbour siblings i up of
     None \<Rightarrow> [] | Some (a, b) \<Rightarrow> renumber 0 (swap_at a b siblings))"

text \<open>One pass over the nodes, and the passes until nothing grows, at most sixteen.\<close>

fun grow :: "page_node list \<Rightarrow> int list \<times> bool \<Rightarrow> int list \<times> bool" where
  "grow [] r = r"
| "grow (n # ns) (acc, grew) =
     (if pn_id n \<notin> set acc \<and> pn_parent n \<in> set acc then grow ns (acc @ [pn_id n], True) else grow ns (acc, grew))"

fun subtree_loop :: "nat \<Rightarrow> page_node list \<Rightarrow> int list \<Rightarrow> int list" where
  "subtree_loop 0 nodes acc = acc"
| "subtree_loop (Suc k) nodes acc = (case grow nodes (acc, False) of
     (acc', grew) \<Rightarrow> if grew then subtree_loop k nodes acc' else acc')"

definition subtreeIds :: "int \<Rightarrow> page_node list \<Rightarrow> int list" where
  "subtreeIds i nodes = subtree_loop 16 nodes [i]"

fun trail_walk :: "nat \<Rightarrow> page_node list \<Rightarrow> int \<Rightarrow> page_node list \<Rightarrow> page_node list" where
  "trail_walk 0 nodes p chain = chain"
| "trail_walk (Suc k) nodes p chain = (case find (\<lambda>n. pn_id n = p) (rev nodes) of
     None \<Rightarrow> chain | Some n \<Rightarrow> trail_walk k nodes (pn_parent n) (n # chain))"

text \<open>The trail above a page, the pages it may move under, its child pages.\<close>

definition trail :: "page_node list \<Rightarrow> page_node \<Rightarrow> page_node list" where
  "trail nodes self = trail_walk 16 nodes (pn_parent self) []"

definition parent_options :: "(string \<Rightarrow> string \<Rightarrow> int) \<Rightarrow> card list \<Rightarrow> page_node list \<Rightarrow> page_node \<Rightarrow> (int \<times> string) list" where
  "parent_options collate rows nodes self =
     (let blocked = subtreeIds (pn_id self) nodes in
      js_sort (\<lambda>a b. collate (snd a) (snd b))
        (map (\<lambda>n. (pn_id n, case byId rows (pn_id n) of None \<Rightarrow> pn_title n | Some row \<Rightarrow> titlePath row (byId rows)))
          (filter (\<lambda>n. pn_id n \<notin> set blocked) nodes)))"

definition child_pages :: "(string \<Rightarrow> string \<Rightarrow> int) \<Rightarrow> page_node list \<Rightarrow> page_node \<Rightarrow> page_node list" where
  "child_pages collate nodes self = js_sort (siteOrder collate) (filter (\<lambda>n. pn_parent n = pn_id self) nodes)"

section \<open>The section's state\<close>

text \<open>
  The control loads the pages, and each write is a set of calls followed by a reload. \<open>pg_left\<close> counts the
  writes not answered yet; a new write starts only from an enabled button, that is while nothing is busy.
\<close>

record page_section =
  pg_id :: "int option"
  pg_project :: "int option"
  pg_rows :: "card list"
  pg_nodes :: "page_node list"
  pg_loaded :: bool
  pg_busy :: bool
  pg_error :: string
  pg_left :: nat
  pg_failed :: bool
  pg_calls :: "(string \<times> js) list"
  pg_changed :: nat

text \<open>The messages write the apostrophe as U+2019.\<close>

definition some_failed :: string where
  "some_failed = ''Some changes didn'' @ [CHR 0xE2, CHR 0x80, CHR 0x99] @ ''t save. Try again.''"

definition not_saved :: string where
  "not_saved = ''That didn'' @ [CHR 0xE2, CHR 0x80, CHR 0x99] @ ''t save. Try again.''"

definition parsePageId :: "string option \<Rightarrow> int option" where
  "parsePageId raw = (case raw of
     None \<Rightarrow> None
   | Some s \<Rightarrow> if s \<noteq> [] \<and> list_all is_digit s then (let n = int_of_text s in if 0 < n then Some n else None) else None)"

definition load_call :: "string \<times> js" where
  "load_call = (''card.select_with_attributes'', JObj [(''card_type_name'', JStr ''page'')])"

definition load_pages :: "page_section \<Rightarrow> page_section" where
  "load_pages s = (if pg_id s = None then s else s\<lparr>pg_calls := pg_calls s @ [load_call]\<rparr>)"

definition mount_pages :: "string option \<Rightarrow> page_section" where
  "mount_pages raw = load_pages
     \<lparr>pg_id = parsePageId raw, pg_project = None, pg_rows = [], pg_nodes = [], pg_loaded = False, pg_busy = False,
      pg_error = [], pg_left = 0, pg_failed = False, pg_calls = [], pg_changed = 0\<rparr>"

definition self_page :: "page_section \<Rightarrow> page_node option" where
  "self_page s = find (\<lambda>n. Some (pn_id n) = pg_id s) (pg_nodes s)"

definition pages_loaded :: "card list \<Rightarrow> page_section \<Rightarrow> page_section" where
  "pages_loaded rows s =
     (let project = Option.bind (Option.bind (pg_id s) (byId rows)) (\<lambda>self. enclosingProjectId self (byId rows)) in
      s\<lparr>pg_rows := rows, pg_project := project,
        pg_nodes := map pageNode (filter (\<lambda>r. project \<noteq> None \<and> enclosingProjectId r (byId rows) = project) rows),
        pg_loaded := True, pg_busy := False\<rparr>)"

definition after_write :: "bool \<Rightarrow> page_section \<Rightarrow> page_section" where
  "after_write failed s = load_pages
     (s\<lparr>pg_error := (if failed \<and> pg_error s = [] then some_failed else pg_error s),
        pg_changed := Suc (pg_changed s)\<rparr>)"

definition begin_write :: "(string \<times> js) list \<Rightarrow> page_section \<Rightarrow> page_section" where
  "begin_write cs s = s\<lparr>pg_busy := True, pg_error := [], pg_left := length cs, pg_failed := False, pg_calls := pg_calls s @ cs\<rparr>"

definition sort_call :: "int \<times> rat \<Rightarrow> string \<times> js" where
  "sort_call w = (''attribute.update'', JObj [(''card_id'', JBig (fst w)), (''attribute_name'', JStr ''sort_order''), (''value'', JNum (Fin (snd w)))])"

text \<open>The buttons: move a child up or down, move the page under another, set a navigation flag.\<close>

definition move_child :: "(string \<Rightarrow> string \<Rightarrow> int) \<Rightarrow> int \<Rightarrow> bool \<Rightarrow> page_section \<Rightarrow> page_section" where
  "move_child collate i up s =
     (case (if pg_loaded s \<and> \<not> pg_busy s then self_page s else None) of
        None \<Rightarrow> s
      | Some self \<Rightarrow> (let writes = reorderWrites (child_pages collate (pg_nodes s) self) i up in
          if writes = [] then s else begin_write (map sort_call writes) s))"

definition move_under :: "(string \<Rightarrow> string \<Rightarrow> int) \<Rightarrow> int \<Rightarrow> page_section \<Rightarrow> page_section" where
  "move_under collate to s =
     (case (if pg_loaded s \<and> \<not> pg_busy s then self_page s else None) of
        None \<Rightarrow> s
      | Some self \<Rightarrow>
          if to = pn_parent self \<or> (Some to \<noteq> pg_project s \<and> to \<notin> fst ` set (parent_options collate (pg_rows s) (pg_nodes s) self)) then s
          else begin_write [(''card.move'', JObj [(''card_id'', JBig (pn_id self)), (''new_parent_card_id'', JBig to)])] s)"

definition set_flag :: "string \<Rightarrow> bool \<Rightarrow> page_section \<Rightarrow> page_section" where
  "set_flag name on s =
     (case (if pg_loaded s \<and> \<not> pg_busy s then self_page s else None) of
        None \<Rightarrow> s
      | Some self \<Rightarrow> begin_write
          [(''attribute.update'', JObj [(''card_id'', JBig (pn_id self)), (''attribute_name'', JStr name), (''value'', JBool on)])] s)"

text \<open>An answer to one of the writes; the last one ends them. Only a single write has messages of its own.\<close>

definition write_answered :: "api_fault option \<Rightarrow> string props option \<Rightarrow> page_section \<Rightarrow> page_section" where
  "write_answered fault messages s =
     (if pg_left s = 0 then s
      else let failed = (pg_failed s \<or> fault \<noteq> None);
               s' = s\<lparr>pg_left := pg_left s - 1, pg_failed := failed,
                 pg_error := (case (fault, messages) of
                   (Some f, Some ms) \<Rightarrow> (case f of
                       Sub_error c m d \<Rightarrow> (case map_of ms c of Some t \<Rightarrow> t | None \<Rightarrow> m)
                     | _ \<Rightarrow> not_saved)
                 | _ \<Rightarrow> pg_error s)\<rparr>
           in if pg_left s' = 0 then after_write failed s' else s')"

section \<open>Moving a page\<close>

definition write_sort :: "(int \<times> rat) list \<Rightarrow> page_node \<Rightarrow> page_node" where
  "write_sort ws n = (case map_of ws (pn_id n) of None \<Rightarrow> n | Some r \<Rightarrow> n\<lparr>pn_sort := r\<rparr>)"

lemma index_of_Some: "index_of i ss = Some a \<Longrightarrow> a < length ss \<and> pn_id (ss ! a) = i"
  by (induction ss arbitrary: a) (auto split: if_splits simp: less_Suc_eq_0_disj)

lemma renumber_ids: "fst ` set (renumber k ss) \<subseteq> pn_id ` set ss"
  by (induction ss arbitrary: k) (auto simp: Let_def)

text \<open>Numbered from \<open>k\<close>, a list of distinct pages carries increasing sort orders in its order.\<close>

lemma map_write_renumber:
  "distinct (map pn_id ss) \<Longrightarrow>
   map pn_id (map (write_sort (renumber k ss)) ss) = map pn_id ss \<and>
   map pn_sort (map (write_sort (renumber k ss)) ss) = map (\<lambda>j. of_nat ((k + j + 1) * 10)) [0 ..< length ss]"
proof (induction ss arbitrary: k)
  case (Cons s ss)
  define r where "r = renumber (Suc k) ss"
  define w where "w = renumber k (s # ss)"
  have w: "w = (if pn_sort s \<noteq> of_nat ((k + 1) * 10) then [(pn_id s, of_nat ((k + 1) * 10))] else []) @ r"
    by (simp add: w_def r_def Let_def)
  have no: "map_of r (pn_id s) = None"
    using Cons.prems renumber_ids [of "Suc k" ss] unfolding r_def by (force simp: map_of_eq_None_iff)
  have s: "pn_sort (write_sort w s) = of_nat ((k + 1) * 10)" "pn_id (write_sort w s) = pn_id s"
    using no by (auto simp: write_sort_def w split: option.split)
  have rest: "write_sort w x = write_sort r x" if "x \<in> set ss" for x
  proof -
    have "pn_id x \<in> pn_id ` set ss" using that by (rule imageI)
    then have "pn_id x \<noteq> pn_id s" using Cons.prems by auto
    then show ?thesis by (simp add: write_sort_def w)
  qed
  then have m: "map (write_sort w) (s # ss) = write_sort w s # map (write_sort r) ss" by simp
  have upt: "map (\<lambda>j. of_nat ((k + j + 1) * 10) :: rat) [0 ..< length (s # ss)] =
      of_nat ((k + 1) * 10) # map (\<lambda>j. of_nat ((Suc k + j + 1) * 10)) [0 ..< length ss]"
    by (simp only: length_Cons upt_conv_Cons [OF zero_less_Suc] map_Suc_upt [symmetric] list.map map_map o_def) simp
  have "distinct (map pn_id ss)" using Cons.prems by simp
  from Cons.IH [OF this, of "Suc k", folded r_def] show ?case
    unfolding w_def [symmetric] m upt by (simp only: list.map s)
qed simp

lemma mset_swap_at: "i < length xs \<Longrightarrow> j < length xs \<Longrightarrow> mset (swap_at i j xs) = mset xs"
  by (simp add: swap_at_def mset_swap)

lemma swapped_sorts:
  assumes d: "distinct (map pn_id siblings)" and ab: "a < length siblings" "b < length siblings" and c: "js_comparator collate"
  defines "ws \<equiv> renumber 0 (swap_at a b siblings)"
  shows "map pn_id (js_sort (siteOrder collate) (map (write_sort ws) siblings)) = map pn_id (swap_at a b siblings)"
proof -
  let ?n = "swap_at a b siblings"
  have m: "mset ?n = mset siblings" using ab by (rule mset_swap_at)
  then have dn: "distinct (map pn_id ?n)" using d by (metis mset_eq_imp_distinct_iff mset_map)
  have site: "js_comparator (siteOrder collate)"
    unfolding siteOrder_def
    by (intro js_comparator_then js_comparator_cmp_of js_comparator_on [OF c])
  have sorts: "map pn_sort (map (write_sort ws) ?n) = map (\<lambda>j. of_nat ((0 + j + 1) * 10)) [0 ..< length ?n]"
    using map_write_renumber [OF dn, of 0] unfolding ws_def by blast
  have "pn_sort (map (write_sort ws) ?n ! j) = of_nat ((j + 1) * 10)" if "j < length ?n" for j
    using arg_cong [OF sorts, of "\<lambda>l. l ! j"] that by simp
  then have "sorted_wrt (\<lambda>x y. siteOrder collate x y < 0) (map (write_sort ws) ?n)"
    unfolding sorted_wrt_iff_nth_less by (simp add: siteOrder_def then_cmp_def)
  then have "js_sort (siteOrder collate) (map (write_sort ws) siblings) = map (write_sort ws) ?n"
    by (rule js_comparator.sort_strict [OF site]) (simp add: m)
  then show ?thesis using map_write_renumber [OF dn, of 0] unfolding ws_def by simp
qed

lemma index_of_at: "distinct (map pn_id ss) \<Longrightarrow> k < length ss \<Longrightarrow> index_of (pn_id (ss ! k)) ss = Some k"
proof (induction ss arbitrary: k)
  case (Cons s ss)
  show ?case
  proof (cases k)
    case (Suc j)
    then have "pn_id (ss ! j) \<in> pn_id ` set ss" using Cons.prems(2) by simp
    then have "pn_id s \<noteq> pn_id (ss ! j)" using Cons.prems(1) by auto
    with Suc Cons show ?thesis by simp
  qed simp
qed simp

text \<open>C37: Moving a child page up or down exchanges it with the page before or after it: once the writes are made, the
  child pages in the site's order are those that were shown, with the two exchanged and every other page in its
  place. The first page moved up and the last moved down write nothing. The pages shown have different ids, and the
  title comparison of the locale is a consistent order.\<close>

theorem moved_page_takes_the_next_place:
  assumes "distinct (map pn_id siblings)" and "js_comparator collate"
    and "k < length siblings" and "pn_id (siblings ! k) = i"
  shows "(let ids = map pn_id siblings;
              shown = map pn_id (js_sort (siteOrder collate) (map (write_sort (reorderWrites siblings i up)) siblings))
    in if up then (if k = 0 then reorderWrites siblings i up = [] else shown = ids[k := ids ! (k - 1), k - 1 := i])
       else (if Suc k = length siblings then reorderWrites siblings i up = [] else shown = ids[k := ids ! Suc k, Suc k := i]))"
proof -
  have at: "index_of i siblings = Some k" using index_of_at [OF assms(1,3)] assms(4) by simp
  have move: "map pn_id (js_sort (siteOrder collate) (map (write_sort (reorderWrites siblings i up)) siblings)) =
      (map pn_id siblings)[k := map pn_id siblings ! j, j := i]"
    if "neighbour siblings i up = Some (k, j)" "j < length siblings" for j
  proof -
    have "map pn_id (swap_at k j siblings) = (map pn_id siblings)[k := map pn_id siblings ! j, j := i]"
      using assms(3,4) that(2) by (simp add: swap_at_def map_update)
    with swapped_sorts [OF assms(1,3) that(2) assms(2)] that(1) show ?thesis by (simp add: reorderWrites_def)
  qed
  show ?thesis
  proof (cases up)
    case True
    then show ?thesis using move [of "k - 1"] at assms(3) by (auto simp: Let_def neighbour_def reorderWrites_def)
  next
    case False
    then show ?thesis using move [of "Suc k"] at assms(3) by (auto simp: Let_def neighbour_def reorderWrites_def)
  qed
qed

definition wpage :: "int \<Rightarrow> int \<Rightarrow> rat \<Rightarrow> page_node" where
  "wpage i p n = \<lparr>pn_id = i, pn_parent = p, pn_title = ''Page'', pn_sort = n, pn_navHidden = False, pn_navHideChildren = False\<rparr>"

theorem moved_page_takes_the_next_place_witness:
  "map pn_id (js_sort (siteOrder (\<lambda>a b. cmp_of (length a) (length b)))
     (map (write_sort (reorderWrites [wpage 4 1 10, wpage 5 1 10, wpage 6 1 30] 5 False)) [wpage 4 1 10, wpage 5 1 10, wpage 6 1 30])) = [4, 6, 5] \<and>
   reorderWrites [wpage 4 1 10, wpage 5 1 10, wpage 6 1 30] 6 False = []"
proof -
  let ?ss = "[wpage 4 1 10, wpage 5 1 10, wpage 6 1 30]"
  have d: "distinct (map pn_id ?ss)" by (simp add: wpage_def)
  note t = moved_page_takes_the_next_place [OF d js_comparator_cmp_of [of length]]
  have "Suc 0 < length ?ss" "pn_id (?ss ! Suc 0) = 5" by (simp_all add: wpage_def)
  note t1 = t [OF this, of False]
  have "Suc (Suc 0) < length ?ss" "pn_id (?ss ! Suc (Suc 0)) = 6" by (simp_all add: wpage_def)
  note t2 = t [OF this, of False]
  from t1 have "map pn_id (js_sort (siteOrder (\<lambda>a b. cmp_of (length a) (length b)))
     (map (write_sort (reorderWrites ?ss 5 False)) ?ss)) = (map pn_id ?ss)[Suc 0 := map pn_id ?ss ! Suc (Suc 0), Suc (Suc 0) := 5]"
    unfolding Let_def if_False by (subst (asm) if_not_P) simp_all
  moreover have "(map pn_id ?ss)[Suc 0 := map pn_id ?ss ! Suc (Suc 0), Suc (Suc 0) := 5] = [4, 6, 5]" by (simp add: wpage_def)
  moreover from t2 have "reorderWrites ?ss 6 False = []"
    unfolding Let_def if_False by (subst (asm) if_P) simp_all
  ultimately show ?thesis by (simp only: simp_thms)
qed

section \<open>Pages below a page\<close>

text \<open>\<open>below nodes k i j\<close>: \<open>j\<close> is reached from \<open>i\<close> by \<open>k\<close> steps from a page to one of its children.\<close>

fun below :: "page_node list \<Rightarrow> nat \<Rightarrow> int \<Rightarrow> int \<Rightarrow> bool" where
  "below nodes 0 i j \<longleftrightarrow> i = j"
| "below nodes (Suc k) i j \<longleftrightarrow> (\<exists>n \<in> set nodes. pn_id n = j \<and> below nodes k i (pn_parent n))"

lemma grow_keeps: "grow ns (acc, g) = (acc', g') \<Longrightarrow> set acc \<subseteq> set acc' \<and> (g \<longrightarrow> g') \<and> (\<not> g' \<longrightarrow> acc' = acc)"
  by (induction ns "(acc, g)" arbitrary: acc g rule: grow.induct) (auto split: if_splits)

lemma grow_adds: "grow ns (acc, g) = (acc', g') \<Longrightarrow> n \<in> set ns \<Longrightarrow> pn_parent n \<in> set acc \<Longrightarrow> pn_id n \<in> set acc'"
proof (induction ns "(acc, g)" arbitrary: acc g rule: grow.induct)
  case (2 m ns acc g)
  show ?case
  proof (cases "pn_id m \<notin> set acc \<and> pn_parent m \<in> set acc")
    case True
    with 2 grow_keeps [of ns "acc @ [pn_id m]" True acc' g'] show ?thesis by auto
  next
    case False
    with 2 grow_keeps [of ns acc g acc' g'] show ?thesis by auto
  qed
qed simp

lemma grow_sound:
  "grow ns (acc, g) = (acc', g') \<Longrightarrow> set ns \<subseteq> set nodes \<Longrightarrow> (\<And>j. j \<in> set acc \<Longrightarrow> \<exists>k. below nodes k i j) \<Longrightarrow>
   j \<in> set acc' \<Longrightarrow> \<exists>k. below nodes k i j"
proof (induction ns "(acc, g)" arbitrary: acc g rule: grow.induct)
  case (2 m ns acc g)
  have new: "\<exists>k. below nodes k i (pn_id m)" if "pn_parent m \<in> set acc"
    using that 2(5) [of "pn_parent m"] 2(4) by (metis below.simps(2) insert_subset list.simps(15))
  show ?case
  proof (cases "pn_id m \<notin> set acc \<and> pn_parent m \<in> set acc")
    case True
    show ?thesis
      by (rule 2(1) [OF True]) (use 2 True new in auto)
  next
    case False
    show ?thesis by (rule 2(2) [OF False]) (use 2 False in auto)
  qed
qed auto

lemma subtree_loop_keeps: "set acc \<subseteq> set (subtree_loop k nodes acc)"
proof (induction k arbitrary: acc)
  case (Suc k)
  obtain acc' g where g: "grow nodes (acc, False) = (acc', g)" by (cases "grow nodes (acc, False)")
  with grow_keeps [OF g] Suc [of acc'] show ?case by auto
qed simp

lemma subtree_loop_sound:
  "(\<And>j. j \<in> set acc \<Longrightarrow> \<exists>m. below nodes m i j) \<Longrightarrow> j \<in> set (subtree_loop k nodes acc) \<Longrightarrow> \<exists>m. below nodes m i j"
proof (induction k arbitrary: acc)
  case (Suc k)
  obtain acc' g where g: "grow nodes (acc, False) = (acc', g)" by (cases "grow nodes (acc, False)")
  have "\<exists>m. below nodes m i j" if "j \<in> set acc'" for j
    using grow_sound [OF g order_refl] Suc.prems(1) that by blast
  with Suc g show ?case by (auto split: if_splits)
qed simp

text \<open>A set closed under children contains everything below its members.\<close>

lemma closed_below: "(\<And>n. n \<in> set nodes \<Longrightarrow> pn_parent n \<in> S \<Longrightarrow> pn_id n \<in> S) \<Longrightarrow> i \<in> S \<Longrightarrow> below nodes k i j \<Longrightarrow> j \<in> S"
  by (induction k arbitrary: j) auto

lemma subtree_loop_complete:
  "(\<And>m j. m \<le> d \<Longrightarrow> below nodes m i j \<Longrightarrow> j \<in> set acc) \<Longrightarrow> m \<le> d + k \<Longrightarrow> below nodes m i j \<Longrightarrow>
   j \<in> set (subtree_loop k nodes acc)"
proof (induction k arbitrary: acc d)
  case (Suc k)
  obtain acc' g where g: "grow nodes (acc, False) = (acc', g)" by (cases "grow nodes (acc, False)")
  have next_level: "j \<in> set acc'" if le: "m \<le> Suc d" and b: "below nodes m i j" for m j
  proof (cases "m = Suc d")
    case True
    then obtain n where n: "n \<in> set nodes" "pn_id n = j" "below nodes d i (pn_parent n)" using b by auto
    then have "pn_parent n \<in> set acc" using Suc.prems(1) [of d] by blast
    with grow_adds [OF g n(1)] n(2) show ?thesis by blast
  next
    case False
    with le b Suc.prems(1) [of m j] grow_keeps [OF g] show ?thesis by auto
  qed
  show ?case
  proof (cases g)
    case True
    with Suc.IH [of "Suc d" acc'] next_level Suc.prems(2,3) g show ?thesis by simp
  next
    case False
    then have "acc' = acc" using grow_keeps [OF g] by simp
    moreover have "i \<in> set acc" using Suc.prems(1) [of 0] by simp
    ultimately have "j \<in> set acc"
      using closed_below [of nodes "set acc" i m j] grow_adds [OF g] Suc.prems(3) by blast
    with False g \<open>acc' = acc\<close> show ?thesis by simp
  qed
qed simp

text \<open>C36: 
  The pages refused as a page's new parent are the page itself and pages below it, and every page up to
  sixteen levels below it is among them.
\<close>

theorem no_page_moves_below_itself:
  "(\<forall>j. j \<in> set (subtreeIds i nodes) \<longrightarrow> (\<exists>k. below nodes k i j)) \<and>
   (\<forall>k j. k \<le> 16 \<longrightarrow> below nodes k i j \<longrightarrow> j \<in> set (subtreeIds i nodes))"
proof -
  have "\<exists>k. below nodes k i j" if "j \<in> set (subtreeIds i nodes)" for j
    using subtree_loop_sound [OF _ that [unfolded subtreeIds_def]] by (metis below.simps(1) empty_iff empty_set set_ConsD)
  moreover have "j \<in> set (subtreeIds i nodes)" if "k \<le> 16" "below nodes k i j" for k j
    using subtree_loop_complete [of 0 nodes i "[i]" k 16 j] that by (simp add: subtreeIds_def)
  ultimately show ?thesis by blast
qed

definition wtree :: "page_node list" where
  "wtree = [wpage 6 5 10, wpage 5 4 10, wpage 4 1 10, wpage 7 1 20]"

theorem no_page_moves_below_itself_witness:
  "(\<exists>k. below wtree k 4 6) \<and> 6 \<in> set (subtreeIds 4 wtree) \<and> 7 \<notin> set (subtreeIds 4 wtree)"
proof -
  have b: "below wtree 2 4 6" by (simp add: wtree_def wpage_def numeral_2_eq_2)
  then have "6 \<in> set (subtreeIds 4 wtree)"
    by (rule conjunct2 [OF no_page_moves_below_itself, rule_format, rotated]) simp
  moreover have "7 \<notin> set (subtreeIds 4 wtree)" by code_simp
  ultimately show ?thesis using b by blast
qed

text \<open>The picker offers none of them.\<close>

lemma parent_options_outside: "(j, l) \<in> set (parent_options collate rows nodes self) \<Longrightarrow> j \<notin> set (subtreeIds (pn_id self) nodes)"
  by (auto simp: parent_options_def Let_def)

text \<open>Once a failed reload leaves the section busy, no button does anything.\<close>

lemma busy_section_is_stuck:
  "pg_busy s \<Longrightarrow> move_child collate i up s = s \<and> move_under collate to s = s \<and> set_flag name on s = s"
  by (simp add: move_child_def move_under_def set_flag_def)

end
