(* ===== verification/Placeholders.thy ===== *)
theory Placeholders
  imports Pages
begin

text \<open>
  The check of a page body's placeholders, \<^verbatim>\<open>bundles/placeholders.ts\<close>. The body's prose texts (the parsed
  markdown without its code) are the parameter \<open>prose\<close>. The two regular expressions have one way to match
  at a position, which is written out: every run is maximal, since what follows it cannot start with a
  character of the run.

  Main results: the distance the suggestions use is the least number of single-character edits; a
  placeholder the Insert menu writes is never reported.
\<close>

section \<open>The distance\<close>

fun dist_row :: "char \<Rightarrow> string \<Rightarrow> nat list \<Rightarrow> nat \<Rightarrow> nat list" where
  "dist_row c (d # ds) (p # q # ps) left =
     (let x = min (min (q + 1) (left + 1)) (p + (if c = d then 0 else 1)) in x # dist_row c ds (q # ps) x)"
| "dist_row c ds ps left = []"

fun dist_loop :: "nat \<Rightarrow> string \<Rightarrow> string \<Rightarrow> nat list \<Rightarrow> nat list" where
  "dist_loop i [] b prev = prev"
| "dist_loop i (c # cs) b prev = dist_loop (Suc i) cs b (i # dist_row c b prev i)"

definition editDistance :: "string \<Rightarrow> string \<Rightarrow> nat" where
  "editDistance a b = dist_loop 1 a b [0 ..< Suc (length b)] ! length b"

text \<open>\<open>edits n a b\<close>: \<open>n\<close> insertions, deletions and substitutions of one character turn \<open>a\<close> into \<open>b\<close>.\<close>

inductive edits :: "nat \<Rightarrow> string \<Rightarrow> string \<Rightarrow> bool" where
  nothing: "edits 0 [] []"
| keep: "edits n a b \<Longrightarrow> edits n (c # a) (c # b)"
| delete: "edits n a b \<Longrightarrow> edits (Suc n) (c # a) b"
| insert: "edits n a b \<Longrightarrow> edits (Suc n) a (d # b)"
| substitute: "edits n a b \<Longrightarrow> edits (Suc n) (c # a) (d # b)"

fun lev :: "string \<Rightarrow> string \<Rightarrow> nat" where
  "lev [] b = length b"
| "lev a [] = length a"
| "lev (c # a) (d # b) = min (min (lev a (d # b) + 1) (lev (c # a) b + 1)) (lev a b + (if c = d then 0 else 1))"

lemma lev_Nil [simp]: "lev a [] = length a"
  by (cases a) simp_all

lemma edits_all_in: "edits (length b) [] b"
  by (induction b) (auto intro: edits.intros)

lemma edits_all_out: "edits (length a) a []"
  by (induction a) (auto intro: edits.intros)

lemma edits_lev: "edits (lev a b) a b"
proof (induction a b rule: lev.induct)
  case (3 c a d b)
  then show ?case by (auto simp: min_def intro: edits.intros)
qed (use edits_all_in edits_all_out [of "_ # _"] in auto)

lemma lev_le_cons: "lev a (d # b) \<le> Suc (lev a b)" "lev (c # a) b \<le> Suc (lev a b)"
  by (cases a; simp) (cases b; simp)

lemma lev_cons_same: "lev (c # a) (c # b) \<le> lev a b"
  by simp

lemma lev_least: "edits n a b \<Longrightarrow> lev a b \<le> n"
proof (induction rule: edits.induct)
  case (keep n a b c)
  then show ?case using lev_cons_same le_trans by blast
next
  case (delete n a b c)
  then show ?case using lev_le_cons(2) [of c a b] by linarith
next
  case (insert n a b d)
  then show ?case using lev_le_cons(1) [of a d b] by linarith
next
  case (substitute n a b c d)
  then show ?case by simp linarith
qed simp

lemma edits_snoc:
  "edits n a b \<Longrightarrow> edits n (a @ [c]) (b @ [c]) \<and> edits (Suc n) (a @ [c]) b \<and> edits (Suc n) a (b @ [d]) \<and> edits (Suc n) (a @ [c]) (b @ [d])"
  by (induction rule: edits.induct) (auto intro: edits.intros)

lemma edits_rev: "edits n a b \<Longrightarrow> edits n (rev a) (rev b)"
  by (induction rule: edits.induct) (auto intro: edits.nothing dest: edits_snoc)

lemma lev_rev: "lev (rev a) (rev b) = lev a b"
  using lev_least [OF edits_rev [OF edits_lev [of a b]]] lev_least [OF edits_rev [OF edits_lev [of "rev a" "rev b"]]] by simp

text \<open>The row for a prefix \<open>u\<close> holds the distances to the prefixes of the other text.\<close>

fun prefix_tail :: "(string \<Rightarrow> nat) \<Rightarrow> string \<Rightarrow> string \<Rightarrow> nat list" where
  "prefix_tail f v [] = []"
| "prefix_tail f v (d # ds) = f (v @ [d]) # prefix_tail f (v @ [d]) ds"

definition row_of :: "string \<Rightarrow> string \<Rightarrow> nat list" where
  "row_of u b = (let f = (\<lambda>w. lev (rev u) (rev w)) in f [] # prefix_tail f [] b)"

lemma dist_row_spec:
  "dist_row c ds (lev (rev u) (rev v) # prefix_tail (\<lambda>w. lev (rev u) (rev w)) v ds) (lev (c # rev u) (rev v)) =
     prefix_tail (\<lambda>w. lev (c # rev u) (rev w)) v ds"
proof (induction ds arbitrary: v)
  case (Cons d ds)
  then show ?case using Cons.IH [of "v @ [d]"] by (simp add: Let_def)
qed simp

lemma row_of_snoc: "Suc (length u) # dist_row c b (row_of u b) (Suc (length u)) = row_of (u @ [c]) b"
  using dist_row_spec [of c b u "[]"] by (simp add: row_of_def Let_def)

lemma dist_loop_spec: "dist_loop (Suc (length u)) cs b (row_of u b) = row_of (u @ cs) b"
proof (induction cs arbitrary: u)
  case (Cons c cs)
  then show ?case using Cons.IH [of "u @ [c]"] by (simp add: row_of_snoc)
qed simp

lemma prefix_tail_length: "prefix_tail length v ds = [Suc (length v) ..< Suc (length v + length ds)]"
proof (induction ds arbitrary: v)
  case (Cons d ds)
  then show ?case using Cons.IH [of "v @ [d]"] by (simp add: upt_conv_Cons del: upt_Suc)
qed simp

lemma row_of_Nil: "row_of [] b = [0 ..< Suc (length b)]"
proof -
  have "(\<lambda>w. lev [] (rev w)) = length" by (rule ext) simp
  then show ?thesis using prefix_tail_length [of "[]" b] by (simp add: row_of_def Let_def upt_conv_Cons del: upt_Suc)
qed

lemma prefix_tail_last: "(f v # prefix_tail f v ds) ! length ds = f (v @ ds)"
proof (induction ds arbitrary: v)
  case (Cons d ds)
  then show ?case using Cons.IH [of "v @ [d]"] by simp
qed simp

lemma editDistance_lev: "editDistance a b = lev a b"
proof -
  have "editDistance a b = row_of a b ! length b"
    using dist_loop_spec [of "[]" a b] by (simp add: editDistance_def row_of_Nil)
  also have "\<dots> = lev (rev a) (rev b)"
    using prefix_tail_last [of "\<lambda>w. lev (rev a) (rev w)" "[]" b] by (simp only: row_of_def Let_def append_Nil)
  finally show ?thesis by (simp only: lev_rev)
qed

text \<open>C28: 
  The distance between a written name and a known one is the least number of single-character insertions,
  deletions and substitutions that turn the one into the other.
\<close>

theorem distance_is_fewest_edits: "edits (editDistance a b) a b \<and> (\<forall>n. edits n a b \<longrightarrow> editDistance a b \<le> n)"
  using edits_lev [of a b] lev_least [of _ a b] by (simp add: editDistance_lev)

theorem distance_is_fewest_edits_witness: "edits 2 ''tcos'' ''toc'' \<and> editDistance ''tcos'' ''toc'' \<le> 2"
proof -
  have "edits 2 ''tcos'' ''toc''" unfolding numeral_2_eq_2
    by (rule edits.keep, rule edits.delete, rule edits.keep, rule edits.substitute, rule edits.nothing)
  then show ?thesis using distance_is_fewest_edits [of "''tcos''" "''toc''"] by blast
qed

section \<open>Suggestions\<close>

fun nearest_loop :: "string \<Rightarrow> int \<Rightarrow> string list \<Rightarrow> (string \<times> nat) option \<Rightarrow> (string \<times> nat) option" where
  "nearest_loop name strict [] best = best"
| "nearest_loop name strict (n # ns) best =
     (let d = editDistance name n in
      nearest_loop name strict ns
        (if int d \<le> (if length n \<le> 4 then 1 else 2) - strict \<and> (case best of None \<Rightarrow> True | Some (m, e) \<Rightarrow> d < e)
         then Some (n, d) else best))"

definition nearest :: "string \<Rightarrow> string list \<Rightarrow> int \<Rightarrow> string option" where
  "nearest name names strict = map_option fst (nearest_loop name strict names None)"

definition near_enough :: "string \<Rightarrow> int \<Rightarrow> string \<Rightarrow> bool" where
  "near_enough name strict n \<longleftrightarrow> int (editDistance name n) \<le> (if length n \<le> 4 then 1 else 2) - strict"

lemma nearest_loop_spec:
  "(\<And>m e. best = Some (m, e) \<Longrightarrow> e = editDistance name m \<and> near_enough name strict m) \<Longrightarrow>
   (case nearest_loop name strict ns best of
      None \<Rightarrow> best = None \<and> (\<forall>m \<in> set ns. \<not> near_enough name strict m)
    | Some (n, d) \<Rightarrow> d = editDistance name n \<and> near_enough name strict n \<and> (n \<in> set ns \<or> best = Some (n, d)) \<and>
        (\<forall>m \<in> set ns. near_enough name strict m \<longrightarrow> d \<le> editDistance name m) \<and> (\<forall>m e. best = Some (m, e) \<longrightarrow> d \<le> e))"
proof (induction ns arbitrary: best)
  case Nil
  then show ?case by (auto split: option.split)
next
  case (Cons k ns)
  define better where "better = (near_enough name strict k \<and> (case best of None \<Rightarrow> True | Some (m, e) \<Rightarrow> editDistance name k < e))"
  define best' where "best' = (if better then Some (k, editDistance name k) else best)"
  have l: "nearest_loop name strict (k # ns) best = nearest_loop name strict ns best'"
    by (simp add: best'_def better_def near_enough_def Let_def)
  have ok: "e = editDistance name m \<and> near_enough name strict m" if "best' = Some (m, e)" for m e
    using that Cons.prems by (auto simp: best'_def better_def split: if_splits)
  have IH: "case nearest_loop name strict ns best' of
      None \<Rightarrow> best' = None \<and> (\<forall>m \<in> set ns. \<not> near_enough name strict m)
    | Some (n, d) \<Rightarrow> d = editDistance name n \<and> near_enough name strict n \<and> (n \<in> set ns \<or> best' = Some (n, d)) \<and>
        (\<forall>m \<in> set ns. near_enough name strict m \<longrightarrow> d \<le> editDistance name m) \<and> (\<forall>m e. best' = Some (m, e) \<longrightarrow> d \<le> e)"
    by (rule Cons.IH) (rule ok)
  show ?case
  proof (cases "nearest_loop name strict ns best'")
    case None
    then have "best' = None" and no: "\<forall>m \<in> set ns. \<not> near_enough name strict m" using IH by simp_all
    then have "\<not> better" "best = None" by (auto simp: best'_def split: if_splits)
    then show ?thesis using None no unfolding l by (simp add: better_def)
  next
    case (Some nd)
    obtain n d where nd: "nd = (n, d)" by (cases nd)
    have n: "d = editDistance name n" "near_enough name strict n" "n \<in> set ns \<or> best' = Some (n, d)"
      "\<forall>m \<in> set ns. near_enough name strict m \<longrightarrow> d \<le> editDistance name m" "\<forall>m e. best' = Some (m, e) \<longrightarrow> d \<le> e"
      using IH unfolding Some nd option.case prod.case by blast+
    have "d \<le> editDistance name k" if near: "near_enough name strict k"
    proof (cases better)
      case False
      then obtain m e where "best = Some (m, e)" "e \<le> editDistance name k" using near by (auto simp: better_def split: option.splits)
      with n(5) False show ?thesis by (auto simp: best'_def)
    qed (use n(5) in \<open>auto simp: best'_def\<close>)
    moreover have "d \<le> e" if "best = Some (m, e)" for m e
    proof (cases better)
      case True
      then have "editDistance name k < e" using that by (simp add: better_def)
      moreover have "d \<le> editDistance name k" using n(5) True by (simp add: best'_def)
      ultimately show ?thesis by simp
    qed (use n(5) that in \<open>simp add: best'_def\<close>)
    moreover have "n \<in> set (k # ns) \<or> best = Some (n, d)" using n(3) by (auto simp: best'_def split: if_splits)
    ultimately show ?thesis using n unfolding l by (simp add: Some nd)
  qed
qed

section \<open>Matching\<close>

definition placeholderText :: "string \<Rightarrow> string" where
  "placeholderText name = ''{{< '' @ name @ '' >}}''"

definition placeholderSnippets :: "placeholder_def list \<Rightarrow> editor_snippet list" where
  "placeholderSnippets defs = map (\<lambda>d. \<lparr>es_group = ''Placeholders'', es_label = ph_label d, es_text = placeholderText (ph_name d),
     es_hint = None, es_description = ph_description d\<rparr>) defs"

text \<open>\<open>PLACEHOLDER\<close> at the start of a text: the name and the whole match.\<close>

definition match_placeholder :: "string \<Rightarrow> (string \<times> string) option" where
  "match_placeholder s =
     (let r1 = dropWhile is_space (drop 3 s); name = takeWhile is_lower r1;
          r3 = dropWhile (\<lambda>c. c \<noteq> CHR ''>'') (dropWhile is_lower r1)
      in if js_starts ''{{<'' s \<and> name \<noteq> [] \<and> js_starts ''>}}'' r3
         then Some (name, take (length s - length r3 + 3) s) else None)"

definition is_alpha :: "char \<Rightarrow> bool" where
  "is_alpha c \<longleftrightarrow> is_lower c \<or> is_upper c"

text \<open>\<open>OPENER_NAME\<close>: the name after two braces, an optional \<open>&lt;\<close> or \<open>%\<close>.\<close>

definition opener_name :: "string \<Rightarrow> string option" where
  "opener_name s =
     (let r1 = dropWhile is_space (drop 2 s);
          r2 = (case r1 of c # cs \<Rightarrow> if c = CHR ''<'' \<or> c = CHR ''%'' then cs else r1 | [] \<Rightarrow> []);
          name = takeWhile is_alpha (dropWhile is_space r2)
      in if js_starts ''{{'' s \<and> name \<noteq> [] then Some name else None)"

lemma match_nonempty: "match_placeholder s = Some (n, t) \<Longrightarrow> t \<noteq> [] \<and> length t \<le> length s \<and> s \<noteq> []"
  by (auto simp: match_placeholder_def Let_def js_starts_def split: if_splits)

text \<open>\<open>text.matchAll(PLACEHOLDER)\<close>: where each match starts, its name and its text.\<close>

function scan_matches :: "nat \<Rightarrow> string \<Rightarrow> (nat \<times> string \<times> string) list" where
  "scan_matches ix [] = []"
| "scan_matches ix (c # cs) = (case match_placeholder (c # cs) of
     Some (name, t) \<Rightarrow> (ix, name, t) # scan_matches (ix + length t) (drop (length t) (c # cs))
   | None \<Rightarrow> scan_matches (Suc ix) cs)"
  by pat_completeness auto
termination
proof (relation "measure (\<lambda>(ix, s). length s)")
  fix ix :: nat and c cs and p :: "string \<times> string" and name t
  assume "match_placeholder (c # cs) = Some p" "(name, t) = p"
  then have "t \<noteq> []" using match_nonempty by blast
  then show "((ix + length t, drop (length t) (c # cs)), ix, c # cs) \<in> measure (\<lambda>(ix, s). length s)"
    by (cases t) auto
qed simp_all

text \<open>The places of \<open>text.indexOf('{{', at)\<close>, each search two characters on.\<close>

fun open_positions :: "nat \<Rightarrow> string \<Rightarrow> nat list" where
  "open_positions ix (c # d # s) =
     (if c = CHR ''{'' \<and> d = CHR ''{'' then ix # open_positions (ix + 2) s else open_positions (Suc ix) (d # s))"
| "open_positions ix s = []"

definition ellipsis :: string where
  "ellipsis = [CHR 0xE2, CHR 0x80, CHR 0xA6]"

fun index_of_close :: "string \<Rightarrow> nat option" where
  "index_of_close [] = None"
| "index_of_close (c # s) = (if js_starts ''}}'' (c # s) then Some 0 else map_option Suc (index_of_close s))"

definition excerpt :: "string \<Rightarrow> string" where
  "excerpt rest =
     (let line = takeWhile (\<lambda>c. c \<noteq> CHR 0x0A) rest;
          cut = (if 20 < length line then take 20 line @ ellipsis else line)
      in case index_of_close line of Some k \<Rightarrow> if k < 40 then take (k + 2) line else cut | None \<Rightarrow> cut)"

definition listOf :: "string list \<Rightarrow> string" where
  "listOf items = (if length items \<le> 1 then concat items else js_join '', '' (butlast items) @ '' or '' @ last items)"

text \<open>The apostrophe of the messages is the ASCII one.\<close>

definition name_issue :: "string list \<Rightarrow> string \<times> string \<Rightarrow> string list" where
  "name_issue names m = (case m of (name, t) \<Rightarrow>
     if name \<in> set names then []
     else if name = ''ref'' then [t @ '' no longer works. Select the link text, choose Link and pick the page.'']
     else case nearest name names 0 of
       Some near \<Rightarrow> [t @ '' isn't a placeholder. Did you mean '' @ placeholderText near @ ''?'']
     | None \<Rightarrow> [t @ '' isn't a placeholder. Use '' @ listOf (map placeholderText names) @ ''.''])"

definition opener_issue :: "string list \<Rightarrow> (nat \<times> string \<times> string) list \<Rightarrow> string \<Rightarrow> nat \<Rightarrow> string list" where
  "opener_issue names ms text ix =
     (if list_ex (\<lambda>(s, name, t). s \<le> ix \<and> ix < s + length t) ms then []
      else (let rest = drop ix text in
        case Option.bind (opener_name rest) (\<lambda>name. nearest (js_lower name) names 1) of
          None \<Rightarrow> []
        | Some near \<Rightarrow> [excerpt rest @ '' isn't written like a placeholder. Write '' @ placeholderText near @ ''.'']))"

definition text_issues :: "string list \<Rightarrow> string \<Rightarrow> string list" where
  "text_issues names t =
     (let ms = scan_matches 0 t in
      concat (map (name_issue names \<circ> snd) ms) @ concat (map (opener_issue names ms t) (open_positions 0 t)))"

definition placeholderIssues :: "(string \<Rightarrow> string list) \<Rightarrow> string \<Rightarrow> placeholder_def list \<Rightarrow> string list" where
  "placeholderIssues prose markdown defs =
     (if defs = [] \<or> \<not> js_includes ''{{'' markdown then []
      else dedup (concat (map (text_issues (map ph_name defs)) (prose markdown))))"

section \<open>What passes\<close>

text \<open>Plain texts with placeholders of the Insert menu between them.\<close>

definition pieces_text :: "(string \<times> string) list \<Rightarrow> string" where
  "pieces_text ps = concat (map (\<lambda>(plain, name). plain @ placeholderText name) ps)"

lemma drop_name: "list_all is_lower n \<Longrightarrow> takeWhile is_lower (n @ CHR '' '' # s) = n \<and> dropWhile is_lower (n @ CHR '' '' # s) = CHR '' '' # s"
  by (induction n) (auto simp: is_lower_def)

lemma match_written:
  assumes n: "n \<noteq> []" "list_all is_lower n"
  shows "match_placeholder (placeholderText n @ s) = Some (n, placeholderText n)"
proof -
  have "\<not> is_space (hd n)" using n by (cases n) (auto simp: is_lower_iff is_space_def)
  then have "dropWhile is_space (n @ x) = n @ x" for x using n(1) by (cases n) auto
  then have r1: "dropWhile is_space (drop 3 (placeholderText n @ s)) = n @ CHR '' '' # ''>}}'' @ s"
    by (simp add: placeholderText_def is_space_def)
  have "length (placeholderText n @ s) - length (''>}}'' @ s) + 3 = length (placeholderText n)"
    by (simp add: placeholderText_def)
  then have t: "take (length (placeholderText n @ s) - length (''>}}'' @ s) + 3) (placeholderText n @ s) = placeholderText n"
    by (simp only: take_append diff_self_eq_0 take_0 append_Nil2 take_all order_refl)
  have b: "js_starts ''{{<'' (placeholderText n @ s)" by (simp add: placeholderText_def js_starts_def)
  have e: "dropWhile (\<lambda>c. c \<noteq> CHR ''>'') (CHR '' '' # ''>}}'' @ s) = ''>}}'' @ s" by simp
  show ?thesis
    unfolding match_placeholder_def Let_def r1 conjunct1 [OF drop_name [OF n(2)]] conjunct2 [OF drop_name [OF n(2)]] e t
    using b n(1) by (simp add: js_starts_def)
qed

lemma scan_plain: "CHR ''{'' \<notin> set p \<Longrightarrow> scan_matches ix (p @ s) = scan_matches (ix + length p) s"
proof (induction p arbitrary: ix)
  case (Cons c p)
  then have "match_placeholder (c # p @ s) = None" by (auto simp: match_placeholder_def js_starts_def Let_def)
  with Cons show ?case by simp
qed simp

lemma scan_written:
  "n \<noteq> [] \<Longrightarrow> list_all is_lower n \<Longrightarrow>
   scan_matches ix (placeholderText n @ s) = (ix, n, placeholderText n) # scan_matches (ix + length (placeholderText n)) s"
  using match_written [of n s]
  by (cases "placeholderText n @ s") (simp_all add: placeholderText_def)

lemma open_plain: "CHR ''{'' \<notin> set p \<Longrightarrow> open_positions ix (p @ s) = open_positions (ix + length p) s"
proof (induction p arbitrary: ix)
  case (Cons c p)
  then have IH: "open_positions (Suc ix) (p @ s) = open_positions (Suc ix + length p) s" and c: "c \<noteq> CHR ''{''" by auto
  show ?case
  proof (cases "p @ s")
    case Nil
    then show ?thesis by simp
  next
    case (Cons d r)
    have "open_positions ix ((c # p) @ s) = open_positions (Suc ix) (p @ s)" using c by (simp add: Cons)
    with IH show ?thesis by simp
  qed
qed simp

lemma open_written:
  assumes "list_all is_lower n"
  shows "open_positions ix (placeholderText n @ s) = ix # open_positions (ix + length (placeholderText n)) s"
proof -
  let ?r = "''< '' @ n @ '' >}}''"
  have "CHR ''{'' \<notin> set ?r" 
  proof -
    have "\<not> is_lower (CHR ''{'')" by code_simp
    then have "CHR ''{'' \<notin> set n" using assms by (auto simp: list_all_iff)
    then show ?thesis by simp
  qed
  then have "open_positions (ix + 2) (?r @ s) = open_positions (ix + 2 + length ?r) s" by (rule open_plain)
  moreover have t: "placeholderText n @ s = CHR ''{'' # CHR ''{'' # (?r @ s)" and l: "length (placeholderText n) = 2 + length ?r"
    by (simp_all add: placeholderText_def)
  have "open_positions ix (placeholderText n @ s) = ix # open_positions (ix + 2) (?r @ s)"
    by (subst t, subst open_positions.simps(1), simp only: simp_thms if_True)
  ultimately show ?thesis by (simp only: l add.assoc)
qed

lemma pieces_Cons: "pieces_text ((p, n) # ps) = p @ placeholderText n @ pieces_text ps"
  by (simp add: pieces_text_def)

text \<open>The matches of such a text are its placeholders, and every pair of opening braces starts one of them.\<close>

lemma pieces_scan:
  assumes "\<forall>(p, n) \<in> set ps. CHR ''{'' \<notin> set p \<and> n \<noteq> [] \<and> list_all is_lower n"
  shows "map (fst \<circ> snd) (scan_matches ix (pieces_text ps)) = map snd ps \<and>
    open_positions ix (pieces_text ps) = map fst (scan_matches ix (pieces_text ps)) \<and>
    list_all (\<lambda>m. snd (snd m) \<noteq> []) (scan_matches ix (pieces_text ps))"
  using assms
proof (induction ps arbitrary: ix)
  case Nil
  show ?case by (simp add: pieces_text_def)
next
  case (Cons pn ps)
  obtain p n where pn: "pn = (p, n)" by (cases pn)
  let ?j = "ix + length p"
  let ?k = "?j + length (placeholderText n)"
  have n: "CHR ''{'' \<notin> set p" "n \<noteq> []" "list_all is_lower n" using Cons.prems by (simp_all add: pn)
  then have eqs: "scan_matches ix (pieces_text ((p, n) # ps)) = (?j, n, placeholderText n) # scan_matches ?k (pieces_text ps)"
    "open_positions ix (pieces_text ((p, n) # ps)) = ?j # open_positions ?k (pieces_text ps)"
    by (simp_all only: pieces_Cons scan_plain scan_written open_plain open_written simp_thms)
  have "placeholderText n \<noteq> []" by (simp add: placeholderText_def)
  moreover have "\<forall>(p, n) \<in> set ps. CHR ''{'' \<notin> set p \<and> n \<noteq> [] \<and> list_all is_lower n" using Cons.prems by simp
  ultimately show ?case using Cons.IH [of ?k] unfolding pn eqs by simp
qed

lemma known_pieces_pass:
  assumes "\<forall>(p, n) \<in> set ps. CHR ''{'' \<notin> set p \<and> n \<noteq> [] \<and> list_all is_lower n \<and> n \<in> set names"
  shows "text_issues names (pieces_text ps) = []"
proof -
  define ms where "ms = scan_matches 0 (pieces_text ps)"
  have "\<forall>(p, n) \<in> set ps. CHR ''{'' \<notin> set p \<and> n \<noteq> [] \<and> list_all is_lower n" using assms by auto
  then have ms: "map (fst \<circ> snd) ms = map snd ps" "open_positions 0 (pieces_text ps) = map fst ms" "list_all (\<lambda>m. snd (snd m) \<noteq> []) ms"
    using pieces_scan [of ps 0] unfolding ms_def by blast+
  have "name_issue names (snd m) = []" if "m \<in> set ms" for m
  proof -
    have "(fst \<circ> snd) m \<in> set (map snd ps)" using that ms(1) by (metis image_eqI list.set_map)
    then have "fst (snd m) \<in> set names" using assms by auto
    then show ?thesis by (auto simp: name_issue_def split: prod.split)
  qed
  moreover have "opener_issue names ms (pieces_text ps) (fst m) = []" if "m \<in> set ms" for m
  proof -
    obtain s n t where m: "m = (s, n, t)" by (cases m)
    then have "t \<noteq> []" using ms(3) that by (auto simp: list_all_iff)
    then have "list_ex (\<lambda>(s', n, t). s' \<le> s \<and> s < s' + length t) ms"
      using that unfolding m list_ex_iff by (intro bexI [of _ "(s, n, t)"]) auto
    then show ?thesis by (simp add: opener_issue_def m)
  qed
  ultimately show ?thesis by (simp add: text_issues_def Let_def ms_def [symmetric] ms(2))
qed

text \<open>
  A body whose prose has no opening brace but those of placeholders the Insert menu writes, with known
  names, has nothing reported.
\<close>

theorem inserted_placeholders_pass:
  assumes "\<forall>t \<in> set (prose markdown). \<exists>ps. t = pieces_text ps \<and>
    (\<forall>(p, n) \<in> set ps. CHR ''{'' \<notin> set p \<and> n \<noteq> [] \<and> list_all is_lower n \<and> n \<in> set (map ph_name defs))"
  shows "placeholderIssues prose markdown defs = []"
proof -
  have "text_issues (map ph_name defs) t = []" if "t \<in> set (prose markdown)" for t
    using assms that known_pieces_pass [of _ "map ph_name defs"] by fastforce
  then have "concat (map (text_issues (map ph_name defs)) (prose markdown)) = []" by (simp add: concat_eq_Nil_conv)
  then show ?thesis unfolding placeholderIssues_def by (simp only: dedup_distinct_id distinct.simps if_cancel)
qed

theorem inserted_placeholders_pass_witness:
  "placeholderIssues (\<lambda>m. [m]) (pieces_text [(''See '', ''toc''), ('' and '', ''nav'')]) PAGE_PLACEHOLDERS = []"
proof (rule inserted_placeholders_pass)
  have "CHR ''{'' \<notin> set ''See ''" "CHR ''{'' \<notin> set '' and ''" "list_all is_lower ''toc''" "list_all is_lower ''nav''"
    "''toc'' \<in> set (map ph_name PAGE_PLACEHOLDERS)" "''nav'' \<in> set (map ph_name PAGE_PLACEHOLDERS)"
    by (simp_all add: is_lower_def PAGE_PLACEHOLDERS_def)
  then show "\<forall>t \<in> set [pieces_text [(''See '', ''toc''), ('' and '', ''nav'')]]. \<exists>ps. t = pieces_text ps \<and>
      (\<forall>(p, n) \<in> set ps. CHR ''{'' \<notin> set p \<and> n \<noteq> [] \<and> list_all is_lower n \<and> n \<in> set (map ph_name PAGE_PLACEHOLDERS))"
    by (intro ballI exI [of _ "[(''See '', ''toc''), ('' and '', ''nav'')]"]) auto
qed

text \<open>A suggestion is a known name within the limit, and no known name within it is nearer.\<close>

theorem suggestions_are_nearest:
  "case nearest name names strict of
     None \<Rightarrow> \<forall>m \<in> set names. \<not> near_enough name strict m
   | Some n \<Rightarrow> n \<in> set names \<and> near_enough name strict n \<and>
       (\<forall>m \<in> set names. near_enough name strict m \<longrightarrow> editDistance name n \<le> editDistance name m)"
  using nearest_loop_spec [of None name strict names]
  by (auto simp: nearest_def split: option.splits prod.splits)

end
