(* ===== verification/Spec2Isabelle.thy ===== *)
theory Spec2Isabelle
  imports FilterPredicateSpec DispatchSpec VirtualList SignalsSpec Grouping Transitions DefaultStatus RouterSpec DataController ApprovalsSpec ActivityFeed Snippets ViewState ScreenResolve Hotkeys KeyedList QuickEntry GridColumns Upload PanelModel CardList CardListData Areas AreaSwitches ActivityFilter Pages Placeholders
begin

text \<open>
  A model of the core logic of the kitp web client (TypeScript, \<^verbatim>\<open>src/web/src\<close>), with
  the theorems that make it correct. File names below are relative to that directory.

  \<^bold>\<open>The program.\<close> The client shows cards (tasks, projects, pages, comments) of a server as lists, boards and
  detail pages. Values live in signals (\<^verbatim>\<open>core/signal.ts\<close>); a control (\<^verbatim>\<open>core/control.ts\<close>) declares queries
  and reads over a data tree (\<^verbatim>\<open>core/tree.ts\<close>, \<^verbatim>\<open>core/data.ts\<close>) and the controller asks the batch dispatcher
  (\<^verbatim>\<open>core/dispatch.ts\<close>) for what the declared inputs determine. The dispatcher queues requests, folds equal
  reads, sends one POST per flush through the wire codec (\<^verbatim>\<open>core/codec.ts\<close>) and hands each answer to
  its callbacks, which write the tree. Pages are chosen by the router (\<^verbatim>\<open>shell/router.ts\<close>) under the rights of
  the signed-in identity (\<^verbatim>\<open>auth/auth-state.ts\<close>), keys by the hotkeys of the live controls
  (\<^verbatim>\<open>core/hotkeys.ts\<close>). What a page lists is described by a filter predicate (\<^verbatim>\<open>filter/predicate.ts\<close>), asked,
  selected and reordered by the card list (\<^verbatim>\<open>cardlist/core.ts\<close>), and shown in groups (\<^verbatim>\<open>filter/group-axis.ts\<close>),
  columns (\<^verbatim>\<open>kanban/kanban-helpers.ts\<close>, \<^verbatim>\<open>grid/grid-helpers.ts\<close>) and a recycling window of rows
  (\<^verbatim>\<open>core/virtual-list.ts\<close>).

  \<^bold>\<open>The language.\<close> \<open>Prelude\<close> has the outcome of a computation that may throw (\<open>Return\<close>, \<open>Throw\<close>,
  and \<open>OffType\<close> where a value leaves its declared type), decimal texts and list lemmas; \<open>JsValue\<close> the
  JavaScript values, objects as association lists in enumeration order with the inherited names,
  and the locales \<open>dictionary\<close> and \<open>bucket_dictionary\<close>, interpreted on object literals and on \<open>Map\<close>;
  \<open>Json\<close> is \<open>JSON.stringify\<close> and \<open>JSON.parse\<close> with their round trip; \<open>JsText\<close> string methods and regular
  expressions; \<open>JsSort\<close> is \<open>Array.sort\<close> with the locale \<open>js_comparator\<close>, interpreted on the comparators of the
  boards, approvals, activity, transitions, areas and the inbox; \<open>JsNumber\<close> is \<open>Number(s)\<close>;
  \<open>JsDate\<close> is \<open>Date.parse\<close> on the ISO forms and the UTC calendar. Numbers are exact rationals: the
  client compares, counts and sums small numbers, and ids are bigints; no theorem speaks of a
  number that a double could not hold exactly.

  \<^bold>\<open>The core.\<close>
  \<^item> \<open>Signals\<close>, \<open>SignalsSpec\<close> (\<^verbatim>\<open>core/signal.ts\<close>): a body is a program of reads, writes and creations, the
    state has subscriber lists, dependency lists, caches and the queue of effects. An inductive
    big-step relation says what a pure body is worth; the theorems show that reading a computed
    gives that value whatever was cached, that a flush and the end of a batch run what they should and
    that a runaway effect is named after \<open>MAX_FLUSH_PASSES\<close>.
  \<^item> \<open>Codec\<close>, \<open>Dispatch\<close>, \<open>DispatchSpec\<close> (\<^verbatim>\<open>core/codec.ts\<close>, \<^verbatim>\<open>core/dispatch.ts\<close>): the
    dispatcher is a state, one step per event (a request, a scheduled flush, \<open>flushNow\<close>, the registration of a
    listener, an answer or failure of the transport), an inductive set of reachable states, and a host that
    stands for the callbacks, which may call the dispatcher again; whether a caller is still alive when its
    answer comes is the host's to say. The locales \<open>callback_invariant\<close> and \<open>delivery_invariant\<close> say which
    invariants the callbacks keep and are interpreted on the counters, promises and answer records.
  \<^item> \<open>DataTree\<close>, \<open>DataController\<close> (\<^verbatim>\<open>core/tree.ts\<close>, \<^verbatim>\<open>core/load-state.ts\<close>, \<^verbatim>\<open>core/data.ts\<close>): a
    query is issued only when its inputs are there, a failed optimistic write of a live control is undone, and a
    destroyed control writes nothing.
  \<^item> \<open>Controls\<close>, \<open>Hotkeys\<close>, \<open>KeyedList\<close> (\<^verbatim>\<open>core/control.ts\<close>, \<^verbatim>\<open>core/hotkeys.ts\<close>, \<^verbatim>\<open>core/keyed-list.ts\<close>): the
    heap of controls with mounting and teardown; the binding map of a key, compared with an inductive
    statement of which scopes are in force and how deep they are; the reconciliation of a host's child nodes.
  \<^item> \<open>VirtualList\<close> (\<^verbatim>\<open>core/virtual-list.ts\<close>): the window arithmetic and the slot pool; the slots shown are
    exactly the rows of the window.

  \<^bold>\<open>Filters, groups and boards.\<close>
  \<^item> \<open>FilterPredicate\<close>, \<open>FilterPredicateSpec\<close> (\<^verbatim>\<open>filter/predicate.ts\<close>): the predicate tree, its wire form,
    the edits of the chips; a reference meaning over an arbitrary judgement of the leaves; a reader of
    queries as the server reads them (a leaf of the tree with a singular value is dropped), by which the queries of the
    client are judged; and the locales \<open>predicate_slot\<close> and \<open>slot_pair\<close> for the laws of a place in the tree that
    an editor owns.
  \<^item> \<open>Snippets\<close>, \<open>AttrSchema\<close>, \<open>ViewState\<close>, \<open>ScreenResolve\<close> (\<^verbatim>\<open>filter/snippet-predicate.ts\<close>,
    \<^verbatim>\<open>filter/attribute-schema.ts\<close>, \<^verbatim>\<open>filter/view-persistence.ts\<close>, \<^verbatim>\<open>filter/screen-resolve.ts\<close>): saved filters in the
    tree, what can be filtered and grouped, the view kept in the browser, and the joins of the server's answers
    that choose a screen.
  \<^item> \<open>Kanban\<close>, \<open>Grouping\<close>, \<open>Inbox\<close> (\<^verbatim>\<open>kanban/kanban-helpers.ts\<close>, \<^verbatim>\<open>filter/group-axis.ts\<close>,
    \<^verbatim>\<open>inbox/inbox-helpers.ts\<close>): buckets, columns, the plan of a drop and the numbering it writes, the walk that
    inserts group headers, and the reader's own order.
  \<^item> \<open>CardList\<close>, \<open>CardListData\<close>, \<open>GridColumns\<close> (\<^verbatim>\<open>cardlist/core.ts\<close>, \<^verbatim>\<open>ui/drag-placeholder.ts\<close>,
    \<^verbatim>\<open>grid/grid-helpers.ts\<close>, \<^verbatim>\<open>grid/grid-columns.ts\<close>): what a list asks for, its cursor, selection and moves, its
    declared queries and actions, and the columns of a grid.
  \<^item> \<open>Transitions\<close>, \<open>DefaultStatus\<close>, \<open>QuickEntry\<close> (\<^verbatim>\<open>task-detail/transition-buckets.ts\<close>,
    \<^verbatim>\<open>quick-entry/default-status.ts\<close>, \<^verbatim>\<open>core/api.ts\<close>, \<^verbatim>\<open>quick-entry/submission.ts\<close>): status buttons, and a new card with the
    calls that follow it.

  \<^bold>\<open>Identity and pages.\<close> \<open>Auth\<close>, \<open>Router\<close>, \<open>RouterSpec\<close>: the probe of the identity, the route table, the guard, and
  the browser history as an inductive set of runs, a back or forward step that throws included.

  \<^bold>\<open>The task page.\<close> \<open>WireDecode\<close> has the defensive readers that each specs file repeats;
  \<open>Approvals\<close>, \<open>ApprovalsSpec\<close> (\<^verbatim>\<open>task-detail/approval-specs.ts\<close>, \<^verbatim>\<open>task-detail/approval-model.ts\<close>);
  \<open>ActivityText\<close>, \<open>ActivityFeed\<close> (\<^verbatim>\<open>task-detail/activity-text.ts\<close>, \<^verbatim>\<open>activity/activity-model.ts\<close>);
  \<open>LinkSpecs\<close> (\<^verbatim>\<open>task-detail/link-specs.ts\<close>); \<open>PanelModel\<close> (\<^verbatim>\<open>task-detail/panel-model.ts\<close> and its batch
  form); \<open>Upload\<close> (\<^verbatim>\<open>task-detail/upload.ts\<close>), whose theorems speak of the chunks the server's answer lacks and
  of the bytes that were posted.

  \<^bold>\<open>Areas, pages and the event filter.\<close> \<open>Areas\<close>, \<open>AreaSwitches\<close> (\<^verbatim>\<open>projects/project-helpers.ts\<close>,
  \<^verbatim>\<open>areas/area-switches.ts\<close>); \<open>Pages\<close> (\<^verbatim>\<open>task-detail/detail-profiles.ts\<close>, \<^verbatim>\<open>pages/page-structure.ts\<close>);
  \<open>Placeholders\<close> (\<^verbatim>\<open>bundles/placeholders.ts\<close>); \<open>ActivityFilter\<close> (\<^verbatim>\<open>admin/activity-predicate.ts\<close> with the boxes
  of its editor and the server's evaluator of the stored text, written in Go).

  \<^bold>\<open>Fuel and bounds.\<close> The JSON parser starts with more than twice the length of its text, which
  \<open>p_value_fuel\<close> shows is never used up. A run of signals spends one unit per operation or call and the theorems
  about results show that enough fuel exists. The walks of \<open>Controls\<close> and \<open>Hotkeys\<close> start with the number of
  controls, enough in every reachable heap (\<open>destroy_fuel\<close>, \<open>walks_end\<close>). The sixteen levels of the walks in \<open>Pages\<close>
  are the code's own bound. Every other definition is total by its recursion or a measure.

  \<^bold>\<open>Parameters.\<close> The tree's resolver of a query, the callbacks of a control, the answers of the server and of the browser, the
  digest of the Web Crypto API, \<open>localeCompare\<close>, the prose of a parsed markdown body, the
  offset of the local time zone and the words of a localized date are arguments of the definitions that use them.

  \<^bold>\<open>Not modelled.\<close> The controls that build DOM nodes (\<open>admin\<close>, \<open>task-detail\<close>, \<open>grid\<close>, \<open>shell\<close>, \<open>editor\<close>,
  \<open>ui\<close>, \<open>import\<close>, \<open>mailin\<close>), whose logic is in the helper files above and whose rest is layout and event wiring over
  the browser; the generated and vendored bundles; the rest of the server, its SQL and the integrations, which are not
  TypeScript.
\<close>

end
